(* ===== verification/Prelude.thy ===== *)
theory Prelude
  imports Main
begin

text \<open>
  Shared material of the development.

  Stateful C++ methods that may throw are modelled as programs of type
  \<open>('e, 's, 'a) prog = 's \<Rightarrow> ('e + 'a) \<times> 's\<close>: the object before the call gives the
  result (\<open>Inl\<close> an exception, \<open>Inr\<close> the returned value) and the object after it. The
  object survives an exception, as it does in C++: what was written before the throw
  stays written. This theory holds the operations of such programs, a Hoare-style
  judgement for them with its rules, and a few lemmas on lists that several components
  use.
\<close>

section \<open>Programs with state and exceptions\<close>

type_synonym ('e, 's, 'a) prog = "'s \<Rightarrow> ('e + 'a) \<times> 's"

definition ret :: "'a \<Rightarrow> ('e, 's, 'a) prog" where
  "ret a = (\<lambda>s. (Inr a, s))"

definition throw :: "'e \<Rightarrow> ('e, 's, 'a) prog" where
  "throw e = (\<lambda>s. (Inl e, s))"

definition bindE :: "('e, 's, 'a) prog \<Rightarrow> ('a \<Rightarrow> ('e, 's, 'b) prog) \<Rightarrow> ('e, 's, 'b) prog" where
  "bindE m f = (\<lambda>s. case m s of (Inl e, s') \<Rightarrow> (Inl e, s') | (Inr a, s') \<Rightarrow> f a s')"

definition thenE :: "('e, 's, 'a) prog \<Rightarrow> ('e, 's, 'b) prog \<Rightarrow> ('e, 's, 'b) prog" where
  "thenE m n = bindE m (\<lambda>_. n)"

definition gets :: "('s \<Rightarrow> 'a) \<Rightarrow> ('e, 's, 'a) prog" where
  "gets f = (\<lambda>s. (Inr (f s), s))"

definition modify :: "('s \<Rightarrow> 's) \<Rightarrow> ('e, 's, unit) prog" where
  "modify f = (\<lambda>s. (Inr (), f s))"

text \<open>A computation on the object that may fail but changes nothing.\<close>

definition getsE :: "('s \<Rightarrow> 'e + 'a) \<Rightarrow> ('e, 's, 'a) prog" where
  "getsE f = (\<lambda>s. (f s, s))"

definition guardE :: "('s \<Rightarrow> bool) \<Rightarrow> 'e \<Rightarrow> ('e, 's, unit) prog" where
  "guardE P e = (\<lambda>s. if P s then (Inr (), s) else (Inl e, s))"

text \<open>\<open>try\<close>/\<open>catch\<close>: the handler sees the object as the failing body left it; \<open>None\<close>
  means that the exception is not one the handler catches.\<close>

definition catchE :: "('e, 's, 'a) prog \<Rightarrow> ('e \<Rightarrow> ('e, 's, 'a) prog option) \<Rightarrow> ('e, 's, 'a) prog" where
  "catchE m h = (\<lambda>s. case m s of
      (Inr a, s') \<Rightarrow> (Inr a, s')
    | (Inl e, s') \<Rightarrow> (case h e of None \<Rightarrow> (Inl e, s') | Some n \<Rightarrow> n s'))"

lemmas prog_defs = ret_def throw_def bindE_def thenE_def gets_def modify_def getsE_def
  guardE_def catchE_def

lemma bindE_assoc: "bindE (bindE m f) g = bindE m (\<lambda>a. bindE (f a) g)"
  by (auto simp: bindE_def fun_eq_iff split: prod.splits sum.splits)

lemma ret_bindE [simp]: "bindE (ret a) f = f a"
  by (simp add: bindE_def ret_def)

lemma throw_bindE [simp]: "bindE (throw e) f = throw e"
  by (simp add: bindE_def throw_def)

text \<open>The recursive call of a loop in a continuation depends only on the values its program can
  return: the congruence rule the termination proofs need.\<close>

lemma bindE_cong [fundef_cong]:
  "m = m' \<Longrightarrow> (\<And>s a s'. m' s = (Inr a, s') \<Longrightarrow> f a = f' a) \<Longrightarrow> bindE m f = bindE m' f'"
  by (fastforce simp: bindE_def fun_eq_iff split: prod.splits sum.splits)

lemma thenE_cong [fundef_cong]:
  "m = m' \<Longrightarrow> (\<And>s a s'. m' s = (Inr (a :: 'a), s') \<Longrightarrow> n = n') \<Longrightarrow> thenE m n = thenE m' n'"
  unfolding thenE_def by (rule bindE_cong)

text \<open>Sequencing of computations that can fail but have no state.\<close>

definition sbind :: "'e + 'a \<Rightarrow> ('a \<Rightarrow> 'e + 'b) \<Rightarrow> 'e + 'b" where
  "sbind m f = (case m of Inl e \<Rightarrow> Inl e | Inr a \<Rightarrow> f a)"

lemma sbind_cong [fundef_cong]:
  "m = m' \<Longrightarrow> (\<And>a. m' = Inr a \<Longrightarrow> f a = f' a) \<Longrightarrow> sbind m f = sbind m' f'"
  by (simp add: sbind_def split: sum.splits)

lemma sbind_simps [simp]: "sbind (Inr a) f = f a" "sbind (Inl e) f = Inl e"
  by (simp_all add: sbind_def)

lemma sbind_Inr: "sbind m f = Inr b \<longleftrightarrow> (\<exists>a. m = Inr a \<and> f a = Inr b)"
  by (auto simp: sbind_def split: sum.splits)

section \<open>Hoare triples\<close>

text \<open>
  \<open>triple P m Q E\<close>: started in an object with \<open>P\<close>, the program ends with a value and
  an object related by \<open>Q\<close>, or with an exception and an object related by \<open>E\<close>. Programs
  are total functions, so this is total correctness.
\<close>

definition triple ::
  "('s \<Rightarrow> bool) \<Rightarrow> ('e, 's, 'a) prog \<Rightarrow> ('a \<Rightarrow> 's \<Rightarrow> bool) \<Rightarrow> ('e \<Rightarrow> 's \<Rightarrow> bool) \<Rightarrow> bool" where
  "triple P m Q E = (\<forall>s. P s \<longrightarrow> (case m s of (Inl e, s') \<Rightarrow> E e s' | (Inr a, s') \<Rightarrow> Q a s'))"

named_theorems triple_rules "rules for Hoare triples, one per program former"

lemma triple_ret [triple_rules]: "(\<And>s. P s \<Longrightarrow> Q a s) \<Longrightarrow> triple P (ret a) Q E"
  by (simp add: triple_def ret_def)

lemma triple_throw [triple_rules]: "(\<And>s. P s \<Longrightarrow> E e s) \<Longrightarrow> triple P (throw e) Q E"
  by (simp add: triple_def throw_def)

lemma triple_bindE:
  "triple P m R E \<Longrightarrow> (\<And>a. triple (R a) (f a) Q E) \<Longrightarrow> triple P (bindE m f) Q E"
  by (fastforce simp: triple_def bindE_def split: prod.splits sum.splits)

lemma triple_conseq:
  "triple P' m Q' E' \<Longrightarrow> (\<And>s. P s \<Longrightarrow> P' s) \<Longrightarrow> (\<And>a s. Q' a s \<Longrightarrow> Q a s) \<Longrightarrow>
   (\<And>e s. E' e s \<Longrightarrow> E e s) \<Longrightarrow> triple P m Q E"
  by (fastforce simp: triple_def split: prod.splits sum.splits)

lemma tripleD:
  "triple P m Q E \<Longrightarrow> P s \<Longrightarrow> m s = (Inr a, s') \<Longrightarrow> Q a s'"
  "triple P m Q E \<Longrightarrow> P s \<Longrightarrow> m s = (Inl e, s') \<Longrightarrow> E e s'"
  by (fastforce simp: triple_def split: prod.splits sum.splits)+

section \<open>Lists\<close>

text \<open>A separator that occurs in neither prefix splits a list in one way only.\<close>

lemma append_sep_eq_iff:
  "c \<notin> set xs \<Longrightarrow> c \<notin> set ys \<Longrightarrow> xs @ c # us = ys @ c # vs \<longleftrightarrow> xs = ys \<and> us = vs"
proof (induction xs arbitrary: ys)
  case Nil
  then show ?case by (cases ys) auto
next
  case (Cons x xs)
  then show ?case by (cases ys) auto
qed

text \<open>The index of an element of a list, as a map from positions inverts it.\<close>

lemma length_takeWhile_neq:
  "x \<in> set xs \<Longrightarrow> length (takeWhile (\<lambda>y. y \<noteq> x) xs) < length xs"
  by (induction xs) auto

lemma nth_length_takeWhile_neq:
  "x \<in> set xs \<Longrightarrow> xs ! length (takeWhile (\<lambda>y. y \<noteq> x) xs) = x"
  by (induction xs) auto

lemma sort_distinct: "distinct xs \<Longrightarrow> sort xs = sorted_list_of_set (set xs)"
  by (simp add: sorted_list_of_set_sort_remdups distinct_remdups_id)

end
