(* ===== verification/Utf8.thy ===== *)
theory Utf8
  imports Prelude "HOL-Library.Word"
begin

unbundle bit_operations_syntax

text \<open>
  The UTF-8 routines the lattice works with (\<open>utf8/utf8/core.h\<close>, \<open>utf8/utf8/checked.h\<close>,
  \<open>common/string_helpers.cpp\<close>). A \<open>std::string\<close> is a \<open>string\<close> (a list of bytes); an
  iterator pair \<open>it, end\<close> is the list of the bytes between them, and advancing \<open>it\<close> is
  dropping bytes. Octets are \<open>8 word\<close>, code points \<open>32 word\<close>, as \<open>uint8_t\<close> and
  \<open>uint32_t\<close> are.
\<close>

section \<open>Octets and code points\<close>

definition mask8 :: "char \<Rightarrow> 8 word" where
  "mask8 c = of_nat (of_char c)"

definition octet :: "8 word \<Rightarrow> char" where
  "octet w = char_of (unat w)"

definition is_trail :: "char \<Rightarrow> bool" where
  "is_trail oc \<longleftrightarrow> drop_bit 6 (mask8 oc) = 0x2"

definition is_surrogate :: "32 word \<Rightarrow> bool" where
  "is_surrogate cp \<longleftrightarrow> 0xd800 \<le> cp \<and> cp \<le> 0xdfff"

definition is_code_point_valid :: "32 word \<Rightarrow> bool" where
  "is_code_point_valid cp \<longleftrightarrow> cp \<le> 0x0010ffff \<and> \<not> is_surrogate cp"

definition sequence_length :: "char \<Rightarrow> nat" where
  "sequence_length c =
     (let lead = mask8 c in
      if lead < 0x80 then 1
      else if drop_bit 5 lead = 0x6 then 2
      else if drop_bit 4 lead = 0xe then 3
      else if drop_bit 3 lead = 0x1e then 4
      else 0)"

definition is_overlong_sequence :: "32 word \<Rightarrow> nat \<Rightarrow> bool" where
  "is_overlong_sequence cp len =
     (if cp < 0x80 then len \<noteq> 1
      else if cp < 0x800 then len \<noteq> 2
      else if cp < 0x10000 then len \<noteq> 3
      else False)"

section \<open>Decoding one sequence\<close>

datatype utf_error = UTF8_OK | NOT_ENOUGH_ROOM | INVALID_LEAD | INCOMPLETE_SEQUENCE
  | OVERLONG_SEQUENCE | INVALID_CODE_POINT

text \<open>The \<open>get_sequence\<close> functions: the error code and the value written to
  \<open>*code_point\<close>, \<open>0\<close> (its initial value) when nothing is written.\<close>

fun get_sequence_1 :: "string \<Rightarrow> utf_error \<times> 32 word" where
  "get_sequence_1 [] = (NOT_ENOUGH_ROOM, 0)"
| "get_sequence_1 (c # _) = (UTF8_OK, ucast (mask8 c))"

fun get_sequence_2 :: "string \<Rightarrow> utf_error \<times> 32 word" where
  "get_sequence_2 (c # d # _) =
     (let cp = ucast (mask8 c) :: 32 word in
      if is_trail d
      then (UTF8_OK, (push_bit 6 cp AND 0x7ff) + (ucast (mask8 d) AND 0x3f))
      else (INCOMPLETE_SEQUENCE, 0))"
| "get_sequence_2 _ = (NOT_ENOUGH_ROOM, 0)"

fun get_sequence_3 :: "string \<Rightarrow> utf_error \<times> 32 word" where
  "get_sequence_3 (c # d # rest) =
     (let cp = ucast (mask8 c) :: 32 word in
      if is_trail d
      then
        (let cp = (push_bit 12 cp AND 0xffff) + (push_bit 6 (ucast (mask8 d)) AND 0xfff) in
         case rest of
           [] \<Rightarrow> (NOT_ENOUGH_ROOM, 0)
         | e # _ \<Rightarrow>
             if is_trail e then (UTF8_OK, cp + (ucast (mask8 e) AND 0x3f))
             else (INCOMPLETE_SEQUENCE, 0))
      else (INCOMPLETE_SEQUENCE, 0))"
| "get_sequence_3 _ = (NOT_ENOUGH_ROOM, 0)"

fun get_sequence_4 :: "string \<Rightarrow> utf_error \<times> 32 word" where
  "get_sequence_4 (c # d # rest) =
     (let cp = ucast (mask8 c) :: 32 word in
      if is_trail d
      then
        (let cp = (push_bit 18 cp AND 0x1fffff) + (push_bit 12 (ucast (mask8 d)) AND 0x3ffff) in
         case rest of
           [] \<Rightarrow> (NOT_ENOUGH_ROOM, 0)
         | e # rest' \<Rightarrow>
             if is_trail e
             then
               (let cp = cp + (push_bit 6 (ucast (mask8 e)) AND 0xfff) in
                case rest' of
                  [] \<Rightarrow> (NOT_ENOUGH_ROOM, 0)
                | f # _ \<Rightarrow>
                    if is_trail f then (UTF8_OK, cp + (ucast (mask8 f) AND 0x3f))
                    else (INCOMPLETE_SEQUENCE, 0))
             else (INCOMPLETE_SEQUENCE, 0))
      else (INCOMPLETE_SEQUENCE, 0))"
| "get_sequence_4 _ = (NOT_ENOUGH_ROOM, 0)"

declare get_sequence_1.simps [simp del] get_sequence_2.simps [simp del]
  get_sequence_3.simps [simp del] get_sequence_4.simps [simp del]

text \<open>The \<open>switch\<close> over the sequence length.\<close>

definition get_sequence :: "nat \<Rightarrow> string \<Rightarrow> utf_error \<times> 32 word" where
  "get_sequence len it =
     (if len = 1 then get_sequence_1 it
      else if len = 2 then get_sequence_2 it
      else if len = 3 then get_sequence_3 it
      else get_sequence_4 it)"

text \<open>
  \<open>validate_next\<close>: the error code, the code point (0 unless the code is \<open>UTF8_OK\<close>) and the
  bytes from the new position of the iterator, which only a success moves. At the end of
  the input the code dereferences the terminating zero of the string, whose sequence length
  is 1, and \<open>get_sequence_1\<close> reports the missing octet.
\<close>

definition validate_next :: "string \<Rightarrow> utf_error \<times> 32 word \<times> string" where
  "validate_next it =
     (let len = (case it of [] \<Rightarrow> 1 | c # _ \<Rightarrow> sequence_length c) in
      if len = 0 then (INVALID_LEAD, 0, it)
      else
        (let (err, cp) = get_sequence len it in
         if err \<noteq> UTF8_OK then (err, 0, it)
         else if \<not> is_code_point_valid cp then (INVALID_CODE_POINT, 0, it)
         else if is_overlong_sequence cp len then (OVERLONG_SEQUENCE, 0, it)
         else (UTF8_OK, cp, drop len it)))"

section \<open>The checked interface\<close>

datatype utf8_exception = invalid_code_point "32 word" | invalid_utf8 "8 word" | not_enough_room

definition utf8_append :: "32 word \<Rightarrow> utf8_exception + string" where
  "utf8_append cp =
     (if \<not> is_code_point_valid cp then Inl (invalid_code_point cp)
      else if cp < 0x80 then Inr [octet (ucast cp)]
      else if cp < 0x800 then
        Inr [octet (ucast (drop_bit 6 cp OR 0xc0)),
             octet (ucast ((cp AND 0x3f) OR 0x80))]
      else if cp < 0x10000 then
        Inr [octet (ucast (drop_bit 12 cp OR 0xe0)),
             octet (ucast ((drop_bit 6 cp AND 0x3f) OR 0x80)),
             octet (ucast ((cp AND 0x3f) OR 0x80))]
      else
        Inr [octet (ucast (drop_bit 18 cp OR 0xf0)),
             octet (ucast ((drop_bit 12 cp AND 0x3f) OR 0x80)),
             octet (ucast ((drop_bit 6 cp AND 0x3f) OR 0x80)),
             octet (ucast ((cp AND 0x3f) OR 0x80))])"

text \<open>\<open>utf8::next(it, end)\<close>: the code point and the bytes from the advanced iterator.\<close>

definition utf8_next :: "string \<Rightarrow> utf8_exception + 32 word \<times> string" where
  "utf8_next it =
     (case validate_next it of (err, cp, it') \<Rightarrow>
        (case err of
           UTF8_OK \<Rightarrow> Inr (cp, it')
         | NOT_ENOUGH_ROOM \<Rightarrow> Inl not_enough_room
         | INVALID_CODE_POINT \<Rightarrow> Inl (invalid_code_point cp)
         | _ \<Rightarrow> Inl (invalid_utf8 (case it' of [] \<Rightarrow> 0 | c # _ \<Rightarrow> mask8 c))))"

text \<open>\<open>utf8::prior(it, start)\<close> with \<open>start\<close> the beginning of the string and \<open>it\<close> at offset
  \<open>pos\<close>: first the walk back over trail octets to a lead octet.\<close>

fun prior_lead :: "string \<Rightarrow> nat \<Rightarrow> utf8_exception + nat" where
  "prior_lead s 0 = Inl not_enough_room"
| "prior_lead s (Suc it) =
     (if is_trail (s ! it)
      then (if it = 0 then Inl (invalid_utf8 (mask8 (s ! it))) else prior_lead s it)
      else Inr it)"

definition utf8_prior :: "string \<Rightarrow> nat \<Rightarrow> utf8_exception + 32 word \<times> nat" where
  "utf8_prior s pos =
     (case prior_lead s pos of
        Inl e \<Rightarrow> Inl e
      | Inr it \<Rightarrow>
          (case utf8_next (drop it (take pos s)) of
             Inl e \<Rightarrow> Inl e
           | Inr (cp, _) \<Rightarrow> Inr (cp, it)))"

fun utf8_advance :: "nat \<Rightarrow> string \<Rightarrow> utf8_exception + string" where
  "utf8_advance 0 it = Inr it"
| "utf8_advance (Suc n) it =
     (case utf8_next it of Inl e \<Rightarrow> Inl e | Inr (_, it') \<Rightarrow> utf8_advance n it')"

lemma utf8_next_validated:
  "validate_next it = (UTF8_OK, cp, it') \<Longrightarrow> utf8_next it = Inr (cp, it')"
  by (simp add: utf8_next_def)

lemma utf8_next_rejected:
  "validate_next it = (err, cp, it') \<Longrightarrow> err \<noteq> UTF8_OK \<Longrightarrow> \<exists>e. utf8_next it = Inl e"
  unfolding utf8_next_def by (cases err) simp_all

lemma utf8_next_OK:
  "utf8_next it = Inr (cp, it') \<longleftrightarrow> validate_next it = (UTF8_OK, cp, it')"
proof (cases "validate_next it")
  case (fields err a b)
  show ?thesis
  proof (cases "err = UTF8_OK")
    case True
    then show ?thesis using utf8_next_validated[of it a b] fields by auto
  next
    case False
    then show ?thesis using utf8_next_rejected[OF fields] fields by auto
  qed
qed

lemma validate_next_Nil: "validate_next [] = (NOT_ENOUGH_ROOM, 0, [])"
  by (simp add: validate_next_def get_sequence_def get_sequence_1.simps)

lemma validate_next_drop:
  assumes "validate_next it = (UTF8_OK, cp, it')"
  shows "it \<noteq> [] \<and> 0 < sequence_length (hd it) \<and> it' = drop (sequence_length (hd it)) it"
proof (cases it)
  case Nil
  with assms show ?thesis by (simp add: validate_next_Nil)
next
  case (Cons c cs)
  with assms show ?thesis
    by (auto simp: validate_next_def Let_def split: if_splits prod.splits)
qed

lemma utf8_next_shorter: "utf8_next it = Inr (cp, it') \<Longrightarrow> length it' < length it"
  by (drule utf8_next_OK [THEN iffD1], drule validate_next_drop) auto

lemma validate_next_shorter:
  "(UTF8_OK, y) = validate_next it \<Longrightarrow> (cp, it') = y \<Longrightarrow> length it' < length it"
  by (metis utf8_next_shorter utf8_next_validated)

text \<open>\<open>utf8::distance\<close>, \<open>utf8::utf8to32\<close> and \<open>utf8::utf32to8\<close> as loops over the bytes.\<close>

function utf8_distance :: "string \<Rightarrow> utf8_exception + nat" where
  "utf8_distance it =
     (if it = [] then Inr 0
      else (case utf8_next it of
              Inl e \<Rightarrow> Inl e
            | Inr (_, it') \<Rightarrow> map_sum id Suc (utf8_distance it')))"
  by pat_completeness auto
termination
  by (relation "measure length") (auto dest: utf8_next_shorter)

function utf8to32 :: "string \<Rightarrow> utf8_exception + 32 word list" where
  "utf8to32 it =
     (if it = [] then Inr []
      else (case utf8_next it of
              Inl e \<Rightarrow> Inl e
            | Inr (cp, it') \<Rightarrow> map_sum id (Cons cp) (utf8to32 it')))"
  by pat_completeness auto
termination
  by (relation "measure length") (auto dest: utf8_next_shorter)

fun utf32to8 :: "32 word list \<Rightarrow> utf8_exception + string" where
  "utf32to8 [] = Inr []"
| "utf32to8 (cp # cps) =
     (case utf8_append cp of
        Inl e \<Rightarrow> Inl e
      | Inr bs \<Rightarrow> map_sum id (append bs) (utf32to8 cps))"

text \<open>\<open>utf8::is_valid\<close> through \<open>find_invalid\<close>, which returns the bytes from the first
  sequence that does not validate.\<close>

function find_invalid :: "string \<Rightarrow> string" where
  "find_invalid it =
     (if it = [] then it
      else (case validate_next it of (err, _, it') \<Rightarrow>
              if err \<noteq> UTF8_OK then it' else find_invalid it'))"
  by pat_completeness auto
termination
  by (relation "measure length", simp, simp) (elim validate_next_shorter)

definition is_valid :: "string \<Rightarrow> bool" where
  "is_valid s \<longleftrightarrow> find_invalid s = []"

text \<open>\<open>symbolLength(s, ix)\<close> of \<open>common/string_helpers.cpp\<close>: the sequence length announced by
  the octet at \<open>ix\<close> (the terminating zero at the end of the string), at least 1.\<close>

definition symbolLength :: "string \<Rightarrow> nat \<Rightarrow> nat" where
  "symbolLength s ix =
     (let len = (case drop ix s of [] \<Rightarrow> 1 | c # _ \<Rightarrow> sequence_length c)
      in if len > 0 then len else 1)"

declare utf8_distance.simps [simp del] utf8to32.simps [simp del] find_invalid.simps [simp del]

section \<open>Octets as numbers\<close>

text \<open>The masks, shifts and disjunctions of the codec read as arithmetic on \<open>nat\<close>.\<close>

lemma unat_octet_bound: "unat (w :: 8 word) < 256"
  using unsigned_less[of w, where ?'a = nat] by simp

lemma mask8_octet [simp]: "mask8 (octet w) = w"
  using unat_octet_bound[of w] by (simp add: mask8_def octet_def)

lemma octet_mask8 [simp]: "octet (mask8 c) = c"
proof -
  have "(of_char c :: nat) < 256" by simp
  then show ?thesis by (simp add: mask8_def octet_def unat_of_nat)
qed

lemma nat_or_push_bit:
  assumes "a < 2 ^ k"
  shows "(a :: nat) OR push_bit k b = a + b * 2 ^ k"
proof -
  have *: "take_bit k a = a" using assms by (simp add: take_bit_nat_eq_self)
  have "a AND push_bit k b = take_bit k a AND push_bit k b" by (simp add: *)
  also have "\<dots> = 0" by (auto simp: bit_eq_iff bit_simps)
  finally have "a AND push_bit k b = 0" .
  then show ?thesis by (simp add: disjunctive_add_eq_or[symmetric] push_bit_eq_mult)
qed

lemma unat_and_mask: "unat (w AND mask n) = unat w mod 2 ^ n"
  unfolding take_bit_eq_mask[symmetric] unsigned_take_bit_eq by (rule take_bit_eq_mod)

lemma unat_ucast_octet:
  "unat (ucast (x :: 32 word) :: 8 word) = unat x mod 256"
  "unat (ucast (w :: 8 word) :: 32 word) = unat w"
  using unat_octet_bound[of w] by (simp_all add: unsigned_ucast_eq take_bit_eq_mod)

lemma unat_octet_or:
  assumes "unat x < 2 ^ k" "unat (c :: 32 word) = b * 2 ^ k" "unat x + b * 2 ^ k < 256"
  shows "unat (ucast (x OR c) :: 8 word) = unat x + b * 2 ^ k"
  using assms by (simp add: unat_ucast_octet unsigned_or_eq nat_or_push_bit push_bit_eq_mult[symmetric])

lemma unat_drop_bit: "unat (drop_bit n w) = unat w div 2 ^ n"
  unfolding unat_drop_bit_eq by (rule drop_bit_eq_div)

lemma unat_and_numeral:
  fixes x :: "32 word"
  shows "unat (x AND 0x3f) = unat x mod 0x40" "unat (x AND 0x7ff) = unat x mod 0x800"
    "unat (x AND 0xffff) = unat x mod 0x10000" "unat (x AND 0xfff) = unat x mod 0x1000"
    "unat (x AND 0x1fffff) = unat x mod 0x200000" "unat (x AND 0x3ffff) = unat x mod 0x40000"
  using unat_and_mask[of x 6] unat_and_mask[of x 11] unat_and_mask[of x 16] unat_and_mask[of x 12]
    unat_and_mask[of x 21] unat_and_mask[of x 18]
  by (simp_all add: mask_eq_exp_minus_1)

lemma unat_push_bit_octet:
  "n \<le> 24 \<Longrightarrow> unat (push_bit n (ucast (w :: 8 word) :: 32 word)) = unat w * 2 ^ n"
proof -
  assume "n \<le> 24"
  then have "unat w * 2 ^ n < 256 * 2 ^ 24"
    using unat_octet_bound[of w] power_increasing[of n 24 "2::nat"]
    by (intro mult_less_le_imp_less) auto
  then show ?thesis
    unfolding unsigned_push_bit_eq unfolding unat_ucast_octet take_bit_eq_mod push_bit_eq_mult
    by simp
qed

lemma is_trail_iff: "is_trail c \<longleftrightarrow> unat (mask8 c) div 64 = 2"
  by (simp add: is_trail_def word_unat_eq_iff unat_drop_bit)

lemma sequence_length_iff:
  "sequence_length c = (let n = unat (mask8 c) in
     if n < 0x80 then 1 else if n div 32 = 6 then 2 else if n div 16 = 14 then 3
     else if n div 8 = 30 then 4 else 0)"
  by (simp add: sequence_length_def word_unat_eq_iff unat_drop_bit word_less_nat_alt Let_def)

lemma unat_add_32: "unat x + unat y < 2 ^ 32 \<Longrightarrow> unat ((x :: 32 word) + y) = unat x + unat y"
  by (simp add: unat_word_ariths)

lemma get_sequence_1_value:
  "get_sequence_1 (c # cs) = (UTF8_OK, cp) \<longleftrightarrow> unat cp = unat (mask8 c)"
  by (auto simp: get_sequence_1.simps word_unat_eq_iff unat_ucast_octet)

lemma get_sequence_2_value:
  "get_sequence_2 (c # d # cs) = (UTF8_OK, cp) \<longleftrightarrow>
     unat (mask8 d) div 64 = 2 \<and> unat cp = unat (mask8 c) * 64 mod 2048 + unat (mask8 d) mod 64"
  by (auto simp: get_sequence_2.simps Let_def word_unat_eq_iff unat_ucast_octet is_trail_iff
      unat_add_32 unat_and_numeral unat_push_bit_octet)

lemma get_sequence_3_value:
  "get_sequence_3 (c # d # e # cs) = (UTF8_OK, cp) \<longleftrightarrow>
     unat (mask8 d) div 64 = 2 \<and> unat (mask8 e) div 64 = 2 \<and>
     unat cp = unat (mask8 c) * 4096 mod 65536 + unat (mask8 d) * 64 mod 4096 + unat (mask8 e) mod 64"
  by (auto simp: get_sequence_3.simps Let_def word_unat_eq_iff unat_ucast_octet is_trail_iff
      unat_add_32 unat_and_numeral unat_push_bit_octet)

lemma get_sequence_4_value:
  "get_sequence_4 (c # d # e # f # cs) = (UTF8_OK, cp) \<longleftrightarrow>
     unat (mask8 d) div 64 = 2 \<and> unat (mask8 e) div 64 = 2 \<and> unat (mask8 f) div 64 = 2 \<and>
     unat cp = unat (mask8 c) * 262144 mod 2097152 + unat (mask8 d) * 4096 mod 262144
       + unat (mask8 e) * 64 mod 4096 + unat (mask8 f) mod 64"
  by (auto simp: get_sequence_4.simps Let_def word_unat_eq_iff unat_ucast_octet is_trail_iff
      unat_add_32 unat_and_numeral unat_push_bit_octet)

lemma is_code_point_valid_iff:
  "is_code_point_valid cp \<longleftrightarrow> unat cp \<le> 0x10ffff \<and> \<not> (0xd800 \<le> unat cp \<and> unat cp \<le> 0xdfff)"
  by (simp add: is_code_point_valid_def is_surrogate_def word_le_nat_alt)

lemma is_overlong_sequence_iff:
  "is_overlong_sequence cp len = (if unat cp < 0x80 then len \<noteq> 1 else if unat cp < 0x800 then len \<noteq> 2
     else if unat cp < 0x10000 then len \<noteq> 3 else False)"
  by (simp add: is_overlong_sequence_def word_less_nat_alt)

lemma validate_next_OK:
  "validate_next (c # cs) = (UTF8_OK, cp, it') \<longleftrightarrow>
     sequence_length c \<noteq> 0 \<and> get_sequence (sequence_length c) (c # cs) = (UTF8_OK, cp) \<and>
     is_code_point_valid cp \<and> \<not> is_overlong_sequence cp (sequence_length c) \<and>
     it' = drop (sequence_length c) (c # cs)"
  by (auto simp: validate_next_def Let_def split: prod.splits if_splits)

lemma octet_eq_of_nat: "unat (w :: 8 word) = k \<Longrightarrow> w = of_nat k"
  using unat_octet_bound[of w] by (simp add: word_unat_eq_iff unat_of_nat)

lemma utf8_append_nat:
  "utf8_append cp =
     (let n = unat cp; b = (\<lambda>k. octet (of_nat k)) in
      if \<not> is_code_point_valid cp then Inl (invalid_code_point cp)
      else if n < 0x80 then Inr [b n]
      else if n < 0x800 then Inr [b (n div 64 + 192), b (n mod 64 + 128)]
      else if n < 0x10000 then
        Inr [b (n div 4096 + 224), b (n div 64 mod 64 + 128), b (n mod 64 + 128)]
      else Inr [b (n div 262144 + 240), b (n div 4096 mod 64 + 128), b (n div 64 mod 64 + 128),
                b (n mod 64 + 128)])"
proof -
  let ?n = "unat cp"
  have trail: "ucast ((x AND 0x3f) OR 0x80) = (of_nat (unat x mod 64 + 128) :: 8 word)" for x :: "32 word"
    using unat_octet_or[of "x AND 0x3f" 7 "0x80" 1]
    by (intro octet_eq_of_nat) (simp add: unat_and_numeral)
  have lead2: "?n < 0x800 \<Longrightarrow> ucast (drop_bit 6 cp OR 0xc0) = (of_nat (?n div 64 + 192) :: 8 word)"
    using unat_octet_or[of "drop_bit 6 cp" 6 "0xc0" 3]
    by (intro octet_eq_of_nat) (simp add: unat_drop_bit)
  have lead3: "?n < 0x10000 \<Longrightarrow> ucast (drop_bit 12 cp OR 0xe0) = (of_nat (?n div 4096 + 224) :: 8 word)"
    using unat_octet_or[of "drop_bit 12 cp" 5 "0xe0" 7]
    by (intro octet_eq_of_nat) (simp add: unat_drop_bit)
  have lead4: "?n \<le> 0x10ffff \<Longrightarrow> ucast (drop_bit 18 cp OR 0xf0) = (of_nat (?n div 262144 + 240) :: 8 word)"
    using unat_octet_or[of "drop_bit 18 cp" 4 "0xf0" 15]
    by (intro octet_eq_of_nat) (simp add: unat_drop_bit)
  have one: "?n < 0x80 \<Longrightarrow> ucast cp = (of_nat ?n :: 8 word)"
    by (intro octet_eq_of_nat) (simp add: unat_ucast_octet)
  show ?thesis
    using one lead2 lead3 lead4
    by (auto simp: utf8_append_def trail unat_drop_bit Let_def word_less_nat_alt is_code_point_valid_iff)
qed

lemma unat_octet_of_nat: "k < 256 \<Longrightarrow> unat (mask8 (octet (of_nat k))) = k"
  by (simp add: unat_of_nat)

section \<open>Encoding and decoding are inverse\<close>

lemmas seq_facts = utf8_append_nat Let_def validate_next_OK unat_octet_of_nat get_sequence_def
  get_sequence_1_value get_sequence_2_value get_sequence_3_value get_sequence_4_value
  is_overlong_sequence_iff

lemma lead_mod:
  assumes "q < (k :: nat)"
  shows "(q + j * k) * b mod (k * b) = q * b"
proof (cases "b = 0")
  case False
  have "(q + j * k) * b = q * b + j * (k * b)" by (simp add: algebra_simps)
  then have "(q + j * k) * b mod (k * b) = q * b mod (k * b)" by simp
  also have "\<dots> = q * b" using assms False by (intro mod_less) simp
  finally show ?thesis .
qed simp

lemma octet_mods:
  "(q :: nat) < 32 \<Longrightarrow> (q + 192) * 64 mod 2048 = q * 64"
  "q < 16 \<Longrightarrow> (q + 224) * 4096 mod 65536 = q * 4096"
  "q < 8 \<Longrightarrow> (q + 240) * 262144 mod 2097152 = q * 262144"
  "q < 64 \<Longrightarrow> (q + 128) * 64 mod 4096 = q * 64"
  "q < 64 \<Longrightarrow> (q + 128) * 4096 mod 262144 = q * 4096"
  "q < 64 \<Longrightarrow> (q + 128) mod 64 = q"
  using lead_mod[of q 32 6 64] lead_mod[of q 16 14 4096] lead_mod[of q 8 30 262144]
    lead_mod[of q 64 2 64] lead_mod[of q 64 2 4096] lead_mod[of q 64 2 1]
  by simp_all

lemma octet_split: "(m :: nat) div k = j \<Longrightarrow> 0 < k \<Longrightarrow> \<exists>q < k. m = q + j * k"
  by (rule exI[of _ "m mod k"]) auto

lemma digits2: "(n :: nat) div 64 * 64 + n mod 64 = n"
  by simp

lemma digits3: "(n :: nat) div 4096 * 4096 + n div 64 mod 64 * 64 + n mod 64 = n"
proof -
  have "n div 4096 = n div 64 div 64" by (simp add: div_mult2_eq[symmetric])
  then show ?thesis using digits2[of n] digits2[of "n div 64"] by linarith
qed

lemma digits4:
  "(n :: nat) div 262144 * 262144 + n div 4096 mod 64 * 4096 + n div 64 mod 64 * 64 + n mod 64 = n"
proof -
  have "n div 262144 = n div 4096 div 64" by (simp add: div_mult2_eq[symmetric])
  then show ?thesis using digits3[of n] digits2[of "n div 4096"] by linarith
qed

lemma digits_of2:
  "v < 64 \<Longrightarrow> (q * 64 + v) div 64 = q" "v < 64 \<Longrightarrow> (q * 64 + v) mod 64 = (v :: nat)"
  by simp_all

lemma digits_of3:
  assumes "u < 64" "v < (64 :: nat)"
  shows "(q * 4096 + u * 64 + v) div 4096 = q" "(q * 4096 + u * 64 + v) div 64 mod 64 = u"
    "(q * 4096 + u * 64 + v) mod 64 = v"
proof -
  have s: "q * 4096 + u * 64 + v = (q * 64 + u) * 64 + v" by simp
  have d: "x div 4096 = x div 64 div 64" for x :: nat by (simp add: div_mult2_eq[symmetric])
  show "(q * 4096 + u * 64 + v) div 4096 = q" "(q * 4096 + u * 64 + v) div 64 mod 64 = u"
    "(q * 4096 + u * 64 + v) mod 64 = v"
    unfolding s d digits_of2[OF assms(2)] digits_of2[OF assms(1)] by (rule refl)+
qed

lemma digits_of4:
  assumes "t < 64" "u < 64" "v < (64 :: nat)"
  shows "(q * 262144 + t * 4096 + u * 64 + v) div 262144 = q"
    "(q * 262144 + t * 4096 + u * 64 + v) div 4096 mod 64 = t"
    "(q * 262144 + t * 4096 + u * 64 + v) div 64 mod 64 = u"
    "(q * 262144 + t * 4096 + u * 64 + v) mod 64 = v"
proof -
  have s: "q * 262144 + t * 4096 + u * 64 + v = (q * 64 + t) * 4096 + u * 64 + v" by simp
  have d: "x div 262144 = x div 4096 div 64" for x :: nat by (simp add: div_mult2_eq[symmetric])
  show "(q * 262144 + t * 4096 + u * 64 + v) div 262144 = q"
    "(q * 262144 + t * 4096 + u * 64 + v) div 4096 mod 64 = t"
    "(q * 262144 + t * 4096 + u * 64 + v) div 64 mod 64 = u"
    "(q * 262144 + t * 4096 + u * 64 + v) mod 64 = v"
    unfolding s d digits_of3[OF assms(2,3)] digits_of2[OF assms(1)] by (rule refl)+
qed

lemma sequence_length_octet:
  assumes "n < 256"
  shows "n < 128 \<Longrightarrow> sequence_length (octet (of_nat n)) = 1"
    "n div 32 = 6 \<Longrightarrow> sequence_length (octet (of_nat n)) = 2"
    "n div 16 = 14 \<Longrightarrow> sequence_length (octet (of_nat n)) = 3"
    "n div 8 = 30 \<Longrightarrow> sequence_length (octet (of_nat n)) = 4"
proof -
  have d: "n div 32 = n div 16 div 2" "n div 16 = n div 8 div 2" "n div 128 = n div 32 div 4"
    "n < 128 \<longleftrightarrow> n div 128 = 0"
    by (auto simp: div_mult2_eq[symmetric] div_eq_0_iff)
  show "n < 128 \<Longrightarrow> sequence_length (octet (of_nat n)) = 1"
    "n div 32 = 6 \<Longrightarrow> sequence_length (octet (of_nat n)) = 2"
    "n div 16 = 14 \<Longrightarrow> sequence_length (octet (of_nat n)) = 3"
    "n div 8 = 30 \<Longrightarrow> sequence_length (octet (of_nat n)) = 4"
    unfolding sequence_length_iff unat_octet_of_nat[OF assms] Let_def using d by auto
qed

lemma validate_next_append:
  assumes "utf8_append cp = Inr bs"
  shows "validate_next (bs @ rest) = (UTF8_OK, cp, rest)"
proof -
  let ?n = "unat cp"
  have v: "is_code_point_valid cp" using assms by (simp add: utf8_append_def split: if_splits)
  then have le: "?n \<le> 0x10ffff" by (simp add: is_code_point_valid_iff)
  consider "?n < 0x80" | "0x80 \<le> ?n" "?n < 0x800" | "0x800 \<le> ?n" "?n < 0x10000" | "0x10000 \<le> ?n"
    by linarith
  then show ?thesis
  proof cases
    case 1
    then have "sequence_length (octet (of_nat ?n)) = 1"
      by (intro sequence_length_octet) simp_all
    with 1 v assms show ?thesis
      by (auto simp: seq_facts simp del: mask8_octet of_nat_unat)
  next
    case 2
    have q: "?n div 64 < 32" and t: "?n mod 64 < 64" using 2 by auto
    have val: "(?n div 64 + 192) * 64 mod 2048 + (?n mod 64 + 128) mod 64 = ?n"
      unfolding octet_mods(1)[OF q] octet_mods(6)[OF t] by (rule digits2)
    have b: "?n div 64 + 192 < 256" "(?n div 64 + 192) div 32 = 6" "?n mod 64 + 128 < 256"
      "(?n mod 64 + 128) div 64 = 2"
      using q by auto
    have sl: "sequence_length (octet (of_nat (?n div 64 + 192))) = 2"
      using sequence_length_octet b by blast
    have bs: "bs = [octet (of_nat (?n div 64 + 192)), octet (of_nat (?n mod 64 + 128))]"
      using 2 v assms by (simp add: utf8_append_nat Let_def del: of_nat_add)
    have u: "unat (mask8 (octet (of_nat (?n div 64 + 192)))) = ?n div 64 + 192" "unat (mask8 (octet (of_nat (?n mod 64 + 128)))) = ?n mod 64 + 128"
      by (rule unat_octet_of_nat, rule b)+
    have "get_sequence 2 (bs @ rest) = (UTF8_OK, cp)"
      unfolding bs append_Cons get_sequence_def
      by (simp only: get_sequence_2_value u b val if_True if_False rel_simps simp_thms HOL.refl)
    moreover have "\<not> is_overlong_sequence cp 2"
      using 2 by (simp add: is_overlong_sequence_iff)
    ultimately show ?thesis using sl v
      unfolding bs append_Cons validate_next_OK by simp
  next
    case 3
    have q: "?n div 4096 < 16" and t: "?n div 64 mod 64 < 64" "?n mod 64 < 64" using 3 by auto
    have val: "(?n div 4096 + 224) * 4096 mod 65536 + (?n div 64 mod 64 + 128) * 64 mod 4096
        + (?n mod 64 + 128) mod 64 = ?n"
      unfolding octet_mods(2)[OF q] octet_mods(4)[OF t(1)] octet_mods(6)[OF t(2)] by (rule digits3)
    have b: "?n div 4096 + 224 < 256" "(?n div 4096 + 224) div 16 = 14"
      "?n div 64 mod 64 + 128 < 256" "(?n div 64 mod 64 + 128) div 64 = 2"
      "?n mod 64 + 128 < 256" "(?n mod 64 + 128) div 64 = 2"
      using q by auto
    have sl: "sequence_length (octet (of_nat (?n div 4096 + 224))) = 3"
      using sequence_length_octet b by blast
    have bs: "bs = [octet (of_nat (?n div 4096 + 224)), octet (of_nat (?n div 64 mod 64 + 128)), octet (of_nat (?n mod 64 + 128))]"
      using 3 v assms by (simp add: utf8_append_nat Let_def del: of_nat_add)
    have u: "unat (mask8 (octet (of_nat (?n div 4096 + 224)))) = ?n div 4096 + 224" "unat (mask8 (octet (of_nat (?n div 64 mod 64 + 128)))) = ?n div 64 mod 64 + 128" "unat (mask8 (octet (of_nat (?n mod 64 + 128)))) = ?n mod 64 + 128"
      by (rule unat_octet_of_nat, rule b)+
    have "get_sequence 3 (bs @ rest) = (UTF8_OK, cp)"
      unfolding bs append_Cons get_sequence_def
      by (simp only: get_sequence_3_value u b val if_True if_False rel_simps simp_thms HOL.refl)
    moreover have "\<not> is_overlong_sequence cp 3"
      using 3 by (simp add: is_overlong_sequence_iff)
    ultimately show ?thesis using sl v
      unfolding bs append_Cons validate_next_OK by simp
  next
    case 4
    have q: "?n div 262144 < 8" and t: "?n div 4096 mod 64 < 64" "?n div 64 mod 64 < 64" "?n mod 64 < 64"
      using le by auto
    have val: "(?n div 262144 + 240) * 262144 mod 2097152 + (?n div 4096 mod 64 + 128) * 4096 mod 262144
        + (?n div 64 mod 64 + 128) * 64 mod 4096 + (?n mod 64 + 128) mod 64 = ?n"
      unfolding octet_mods(3)[OF q] octet_mods(5)[OF t(1)] octet_mods(4)[OF t(2)] octet_mods(6)[OF t(3)]
      by (rule digits4)
    have b: "?n div 262144 + 240 < 256" "(?n div 262144 + 240) div 8 = 30"
      "?n div 4096 mod 64 + 128 < 256" "(?n div 4096 mod 64 + 128) div 64 = 2"
      "?n div 64 mod 64 + 128 < 256" "(?n div 64 mod 64 + 128) div 64 = 2"
      "?n mod 64 + 128 < 256" "(?n mod 64 + 128) div 64 = 2"
      using q by auto
    have sl: "sequence_length (octet (of_nat (?n div 262144 + 240))) = 4"
      using sequence_length_octet b by blast
    have bs: "bs = [octet (of_nat (?n div 262144 + 240)), octet (of_nat (?n div 4096 mod 64 + 128)), octet (of_nat (?n div 64 mod 64 + 128)), octet (of_nat (?n mod 64 + 128))]"
      using 4 v assms by (simp add: utf8_append_nat Let_def del: of_nat_add)
    have u: "unat (mask8 (octet (of_nat (?n div 262144 + 240)))) = ?n div 262144 + 240" "unat (mask8 (octet (of_nat (?n div 4096 mod 64 + 128)))) = ?n div 4096 mod 64 + 128" "unat (mask8 (octet (of_nat (?n div 64 mod 64 + 128)))) = ?n div 64 mod 64 + 128" "unat (mask8 (octet (of_nat (?n mod 64 + 128)))) = ?n mod 64 + 128"
      by (rule unat_octet_of_nat, rule b)+
    have "get_sequence 4 (bs @ rest) = (UTF8_OK, cp)"
      unfolding bs append_Cons get_sequence_def
      by (simp only: get_sequence_4_value u b val if_True if_False rel_simps simp_thms HOL.refl)
    moreover have "\<not> is_overlong_sequence cp 4"
      using 4 by (simp add: is_overlong_sequence_iff)
    ultimately show ?thesis using sl v
      unfolding bs append_Cons validate_next_OK by simp
  qed
qed

lemma octet_of_unat: "octet (of_nat (unat (mask8 c))) = c"
  by simp

lemma sequence_length_le_4: "sequence_length c \<le> 4"
  by (simp add: sequence_length_def Let_def)

lemma append_validate_next:
  assumes "validate_next it = (UTF8_OK, cp, rest)"
  shows "\<exists>bs. utf8_append cp = Inr bs \<and> it = bs @ rest"
proof (cases it)
  case Nil
  with assms show ?thesis by (simp add: validate_next_Nil)
next
  case (Cons c cs)
  let ?n = "unat cp" and ?m = "unat (mask8 c)" and ?l = "sequence_length c"
  from assms Cons have va: "is_code_point_valid cp" and vo: "\<not> is_overlong_sequence cp ?l"
    and seq: "get_sequence ?l (c # cs) = (UTF8_OK, cp)" and r: "rest = drop ?l (c # cs)"
    and l: "?l \<noteq> 0"
    by (simp_all add: validate_next_OK)
  from l sequence_length_le_4[of c] consider "?l = 1" | "?l = 2" | "?l = 3" | "?l = 4"
    by linarith
  then show ?thesis
  proof cases
    case 1
    then have "?m < 0x80" by (auto simp: sequence_length_iff Let_def split: if_splits)
    with 1 va vo seq r Cons show ?thesis
      by (simp add: seq_facts)
  next
    case 2
    then have m: "?m div 32 = 6" by (auto simp: sequence_length_iff Let_def split: if_splits)
    from seq 2 obtain d cs' where cs: "cs = d # cs'"
      by (cases cs) (auto simp: get_sequence_def get_sequence_2.simps)
    let ?d = "unat (mask8 d)"
    from seq 2 cs have d: "?d div 64 = 2" "?n = ?m * 64 mod 2048 + ?d mod 64"
      by (simp_all add: seq_facts)
    from octet_split[OF m] octet_split[OF d(1)] obtain q v where
      q: "q < 32" "?m = q + 192" and v: "v < 64" "?d = v + 128" by auto
    have n: "?n = q * 64 + v"
      unfolding d(2) q(2) v(2) octet_mods(1)[OF q(1)] octet_mods(6)[OF v(1)] ..
    then have e: "?n div 64 + 192 = ?m" "?n mod 64 + 128 = ?d" "?n < 2048"
      using q v digits_of2[OF v(1), of q, folded n] by simp_all
    have "\<not> ?n < 128" using vo 2 by (simp add: is_overlong_sequence_iff split: if_splits)
    with e va show ?thesis unfolding utf8_append_nat
      by (simp add: Let_def r 2 Cons cs del: of_nat_add)
  next
    case 3
    then have m: "?m div 16 = 14" by (auto simp: sequence_length_iff Let_def split: if_splits)
    from seq 3 obtain d e cs' where cs: "cs = d # e # cs'"
      by (cases cs; cases "tl cs") (auto simp: get_sequence_def get_sequence_3.simps Let_def split: if_splits)
    let ?d = "unat (mask8 d)" and ?e = "unat (mask8 e)"
    from seq 3 cs have d: "?d div 64 = 2" "?e div 64 = 2"
      "?n = ?m * 4096 mod 65536 + ?d * 64 mod 4096 + ?e mod 64"
      by (simp_all add: seq_facts)
    from octet_split[OF m] octet_split[OF d(1)] octet_split[OF d(2)] obtain q u v where
      q: "q < 16" "?m = q + 224" and v: "u < 64" "?d = u + 128" "v < 64" "?e = v + 128" by auto
    have n: "?n = q * 4096 + u * 64 + v"
      unfolding d(3) q(2) v(2,4) octet_mods(2)[OF q(1)] octet_mods(4)[OF v(1)] octet_mods(6)[OF v(3)] ..
    then have e: "?n div 4096 + 224 = ?m" "?n div 64 mod 64 + 128 = ?d" "?n mod 64 + 128 = ?e" "?n < 65536"
      using q v digits_of3[OF v(1,3), of q, folded n] by simp_all
    have "\<not> ?n < 2048" using vo 3 by (simp add: is_overlong_sequence_iff split: if_splits)
    with e va show ?thesis unfolding utf8_append_nat
      by (simp add: Let_def r 3 Cons cs del: of_nat_add)
  next
    case 4
    then have m: "?m div 8 = 30" by (auto simp: sequence_length_iff Let_def split: if_splits)
    from seq 4 obtain d e f cs' where cs: "cs = d # e # f # cs'"
      by (cases cs; cases "tl cs"; cases "tl (tl cs)")
        (auto simp: get_sequence_def get_sequence_4.simps Let_def split: if_splits)
    let ?d = "unat (mask8 d)" and ?e = "unat (mask8 e)" and ?f = "unat (mask8 f)"
    from seq 4 cs have d: "?d div 64 = 2" "?e div 64 = 2" "?f div 64 = 2"
      "?n = ?m * 262144 mod 2097152 + ?d * 4096 mod 262144 + ?e * 64 mod 4096 + ?f mod 64"
      by (simp_all add: seq_facts)
    from octet_split[OF m] octet_split[OF d(1)] octet_split[OF d(2)] octet_split[OF d(3)]
    obtain q t u v where q: "q < 8" "?m = q + 240"
      and v: "t < 64" "?d = t + 128" "u < 64" "?e = u + 128" "v < 64" "?f = v + 128" by auto
    have n: "?n = q * 262144 + t * 4096 + u * 64 + v"
      unfolding d(4) q(2) v(2,4,6) octet_mods(3)[OF q(1)] octet_mods(5)[OF v(1)] octet_mods(4)[OF v(3)]
        octet_mods(6)[OF v(5)] ..
    then have e: "?n div 262144 + 240 = ?m" "?n div 4096 mod 64 + 128 = ?d" "?n div 64 mod 64 + 128 = ?e"
      "?n mod 64 + 128 = ?f"
      using q v digits_of4[OF v(1,3,5), of q, folded n] by simp_all
    have "\<not> ?n < 65536" using vo 4 by (simp add: is_overlong_sequence_iff split: if_splits)
    with e va show ?thesis unfolding utf8_append_nat
      by (simp add: Let_def r 4 Cons cs del: of_nat_add)
  qed
qed

lemma utf8_next_append:
  "utf8_append cp = Inr bs \<Longrightarrow> utf8_next (bs @ rest) = Inr (cp, rest)"
  by (simp add: utf8_next_OK validate_next_append)

lemma utf8_append_next:
  "utf8_next it = Inr (cp, rest) \<Longrightarrow> \<exists>bs. utf8_append cp = Inr bs \<and> it = bs @ rest"
  by (simp add: utf8_next_OK append_validate_next)

text \<open>The bytes of one character.\<close>

definition is_char :: "string \<Rightarrow> bool" where
  "is_char bs \<longleftrightarrow> (\<exists>cp. utf8_append cp = Inr bs)"

lemma sequence_length_trail: "is_trail c \<Longrightarrow> sequence_length c = 0"
  by (auto simp: is_trail_iff sequence_length_iff Let_def)

lemma is_char_shape:
  assumes "is_char bs"
  shows "bs \<noteq> [] \<and> \<not> is_trail (hd bs) \<and> (\<forall>b \<in> set (tl bs). is_trail b) \<and>
    length bs = sequence_length (hd bs)"
proof -
  from assms obtain cp where cp: "utf8_append cp = Inr bs" by (auto simp: is_char_def)
  let ?n = "unat cp"
  have le: "?n \<le> 0x10ffff"
    using cp by (simp add: utf8_append_def is_code_point_valid_iff split: if_splits)
  have trail: "is_trail (octet (of_nat (k mod 64 + 128)))" for k
    unfolding is_trail_iff by (subst unat_octet_of_nat) auto
  have len: "length bs = sequence_length (hd bs)"
  proof -
    have v: "validate_next (bs @ []) = (UTF8_OK, cp, [])" by (rule validate_next_append) (rule cp)
    from validate_next_drop[OF v] have "length bs \<le> sequence_length (hd bs)" by simp
    moreover have v': "validate_next (bs @ [CHR ''a'']) = (UTF8_OK, cp, [CHR ''a''])"
      by (rule validate_next_append) (rule cp)
    from v have "bs \<noteq> []" using validate_next_drop[OF v] by simp
    with validate_next_drop[OF v'] have "[CHR ''a''] = drop (sequence_length (hd bs)) (bs @ [CHR ''a''])"
      by simp
    then have "sequence_length (hd bs) \<le> length bs"
      by (metis drop_eq_Nil length_append_singleton list.simps(3) not_less_eq_eq)
    ultimately show ?thesis by simp
  qed
  have ne: "bs \<noteq> []" using cp unfolding utf8_append_nat by (auto simp: Let_def split: if_splits)
  have "\<not> is_trail (hd bs)"
  proof
    assume "is_trail (hd bs)"
    from sequence_length_trail[OF this] len ne show False by simp
  qed
  moreover have "\<forall>b \<in> set (tl bs). is_trail b"
    using cp unfolding utf8_append_nat by (auto simp: Let_def trail split: if_splits simp del: of_nat_add)
  ultimately show ?thesis using len ne by blast
qed

lemma symbolLength_char:
  "is_char bs \<Longrightarrow> symbolLength (xs @ bs @ ys) (length xs) = length bs"
  using is_char_shape[of bs] by (cases bs) (auto simp: symbolLength_def)

lemma prior_lead_trails:
  "xs \<noteq> [] \<Longrightarrow> \<not> is_trail (s ! n) \<Longrightarrow> take (length xs) (drop n s) = xs \<Longrightarrow>
   \<forall>b \<in> set (tl xs). is_trail b \<Longrightarrow> prior_lead s (n + length xs) = Inr n"
proof (induction xs rule: rev_induct)
  case (snoc x xs)
  show ?case
  proof (cases xs)
    case Nil
    with snoc show ?thesis by simp
  next
    case (Cons y ys)
    have t: "take (length xs) (drop n s) = xs" and len: "n + length xs < length s"
      and x: "s ! (n + length xs) = x"
    proof -
      have l: "length (take (length (xs @ [x])) (drop n s)) = length (xs @ [x])" using snoc.prems(3) by simp
      then show len: "n + length xs < length s" by simp
      have "take (length xs) (take (length (xs @ [x])) (drop n s)) = xs" using snoc.prems(3) by simp
      then show "take (length xs) (drop n s) = xs" by (simp add: min_def)
      have "(take (length (xs @ [x])) (drop n s)) ! length xs = x" using snoc.prems(3) by simp
      then show "s ! (n + length xs) = x" using len by simp
    qed
    have "is_trail x" using snoc.prems(4) Cons by simp
    moreover have "prior_lead s (n + length xs) = Inr n"
      using snoc.IH snoc.prems t Cons by simp
    ultimately show ?thesis using x Cons by simp
  qed
qed simp

lemma utf8_prior_char:
  assumes "utf8_append cp = Inr bs"
  shows "utf8_prior (xs @ bs @ ys) (length xs + length bs) = Inr (cp, length xs)"
proof -
  have c: "is_char bs" using assms by (auto simp: is_char_def)
  have "prior_lead (xs @ bs @ ys) (length xs + length bs) = Inr (length xs)"
    using is_char_shape[OF c] by (intro prior_lead_trails) (auto simp: nth_append hd_conv_nth)
  moreover have "utf8_next (drop (length xs) (take (length xs + length bs) (xs @ bs @ ys))) = Inr (cp, [])"
    using utf8_next_append[OF assms, of "[]"] by simp
  ultimately show ?thesis by (simp add: utf8_prior_def)
qed

lemma utf8to32_utf32to8: "utf32to8 cps = Inr s \<Longrightarrow> utf8to32 s = Inr cps"
proof (induction cps arbitrary: s)
  case Nil
  then show ?case by (simp add: utf8to32.simps)
next
  case (Cons cp cps)
  then obtain bs t where bs: "utf8_append cp = Inr bs" and t: "utf32to8 cps = Inr t" "s = bs @ t"
    by (cases "utf32to8 cps") (auto split: sum.splits)
  have "bs \<noteq> []" using is_char_shape[of bs] bs by (auto simp: is_char_def)
  then show ?case using Cons.IH[OF t(1)] utf8_next_append[OF bs, of t] t(2)
    by (subst utf8to32.simps) simp
qed

lemma utf32to8_utf8to32: "utf8to32 s = Inr cps \<Longrightarrow> utf32to8 cps = Inr s"
proof (induction s arbitrary: cps rule: utf8to32.induct)
  case (1 it)
  show ?case
  proof (cases "it = []")
    case True
    with 1 show ?thesis by (simp add: utf8to32.simps)
  next
    case False
    with "1.prems" obtain cp it' cps' where n: "utf8_next it = Inr (cp, it')"
      and c: "utf8to32 it' = Inr cps'" "cps = cp # cps'"
      using utf8to32.simps[of it] by (cases "utf8_next it"; cases "utf8to32 (snd (projr (utf8_next it)))") auto
    from utf8_append_next[OF n] obtain bs where "utf8_append cp = Inr bs" "it = bs @ it'" by blast
    then show ?thesis using "1.IH"[OF False n refl c(1)] c(2) by simp
  qed
qed

text \<open>C5: decoding text inverts encoding code points, and the other way round.\<close>

theorem utf8_roundtrip: "utf32to8 cps = Inr s \<longleftrightarrow> utf8to32 s = Inr cps"
  using utf8to32_utf32to8 utf32to8_utf8to32 by blast

lemma utf8_distance_utf8to32:
  "utf8_distance s = map_sum id length (utf8to32 s)"
proof (induction s rule: utf8to32.induct)
  case (1 it)
  then show ?case
    by (subst utf8_distance.simps, subst utf8to32.simps)
      (auto split: sum.splits simp: map_sum.compositionality comp_def)
qed

lemma is_valid_utf8to32: "is_valid s \<longleftrightarrow> (\<exists>cps. utf8to32 s = Inr cps)"
  unfolding is_valid_def
proof (induction s rule: utf8to32.induct)
  case (1 it)
  show ?case
  proof (cases "it = []")
    case True
    then show ?thesis by (simp add: find_invalid.simps utf8to32.simps)
  next
    case False
    obtain err cp it' where v: "validate_next it = (err, cp, it')" by (cases "validate_next it")
    show ?thesis
    proof (cases "err = UTF8_OK")
      case True
      then have n: "utf8_next it = Inr (cp, it')" using v by (simp add: utf8_next_OK)
      have "(find_invalid it' = []) = (\<exists>cps. utf8to32 it' = Inr cps)"
        by (rule "1.IH"[OF False n refl])
      then show ?thesis using False v True n find_invalid.simps[of it] utf8to32.simps[of it]
        by (cases "utf8to32 it'") auto
    next
      case err: False
      from utf8_next_rejected[OF v err] obtain e where "utf8_next it = Inl e" ..
      moreover have "it' = it" using v err
        by (auto simp: validate_next_def Let_def split: if_splits prod.splits)
      ultimately show ?thesis using False v err find_invalid.simps[of it] utf8to32.simps[of it] by simp
    qed
  qed
qed

text \<open>C9: \<open>utf8::is_valid\<close> accepts exactly the byte strings that are the encoding of a sequence of code points.\<close>

theorem is_valid_iff_encoding: "is_valid s \<longleftrightarrow> (\<exists>cps. utf32to8 cps = Inr s)"
  using is_valid_utf8to32 utf8to32_utf32to8 utf32to8_utf8to32 by blast

text \<open>A valid text is a sequence of characters.\<close>

lemma valid_chars: "is_valid s \<Longrightarrow> \<exists>cs. list_all is_char cs \<and> s = concat cs"
proof -
  assume "is_valid s"
  then obtain cps where "utf32to8 cps = Inr s" using is_valid_utf8to32 utf32to8_utf8to32 by blast
  then show ?thesis
  proof (induction cps arbitrary: s)
    case Nil
    then show ?case by (intro exI[of _ "[]"]) simp
  next
    case (Cons cp cps)
    then obtain bs t where bs: "utf8_append cp = Inr bs" and t: "utf32to8 cps = Inr t" "s = bs @ t"
      by (cases "utf32to8 cps") (auto split: sum.splits)
    from Cons.IH[OF t(1)] obtain cs where "list_all is_char cs \<and> t = concat cs" by blast
    then show ?case using bs t(2) by (intro exI[of _ "bs # cs"]) (auto simp: is_char_def[of bs])
  qed
qed

lemma symbolLength_trail: "i < length s \<Longrightarrow> is_trail (s ! i) \<Longrightarrow> symbolLength s i = 1"
  using sequence_length_trail by (cases "drop i s") (auto simp: symbolLength_def Let_def nth_via_drop)

lemma symbolLength_concat:
  assumes "list_all is_char cs" "i < length (concat cs)"
  shows "i + symbolLength (concat cs) i \<le> length (concat cs)"
  using assms
proof (induction cs arbitrary: i)
  case (Cons c cs)
  have c: "is_char c" using Cons.prems(1) by simp
  have t: "is_trail (c ! i)" if "0 < i" "i < length c"
    using is_char_shape[OF c] that by (cases c) (auto simp: nth_Cons')
  have d: "symbolLength (c @ t) i = symbolLength t (i - length c)" if "length c \<le> i" for t
    using that by (simp add: symbolLength_def)
  consider "i = 0" | "0 < i" "i < length c" | "length c \<le> i" by linarith
  then show ?case
  proof cases
    case 1
    then show ?thesis using symbolLength_char[OF c, of "[]" "concat cs"] by simp
  next
    case 2
    then show ?thesis using symbolLength_trail[of i "concat (c # cs)"] t by (simp add: nth_append)
  next
    case 3
    then show ?thesis using Cons.IH[of "i - length c"] Cons.prems d[OF 3, of "concat cs"]
      by (cases "i - length c < length (concat cs)") auto
  qed
qed simp

lemma valid_symbolLength: "is_valid s \<Longrightarrow> i < length s \<Longrightarrow> i + symbolLength s i \<le> length s"
  using valid_chars symbolLength_concat by blast

end
