(* ===== verification/Layer_Tags.thy ===== *)
theory Layer_Tags
  imports Prelude "HOL-Library.Word" "HOL-Library.Char_ord" "HOL-Library.List_Lexorder"
    "HOL-Library.Sublist"
begin

unbundle bit_operations_syntax

text \<open>
  Layer tags: the collections (\<open>common/layer_tag_collection.*\<close>), the masks
  (\<open>common/layer_tag_mask.*\<close>) and the manager that gives names to the bits
  (\<open>common/layer_tag_manager.*\<close>). A \<open>std::bitset<64>\<close> is a \<open>64 word\<close>. The bimap \<open>m_\<close>
  between names and indices is the list of the names in index order: the code only ever
  inserts a new name with the index \<open>m_.size()\<close>.
\<close>

section \<open>Collections\<close>

type_synonym LayerTagCollection = "64 word"

datatype tag_error = Tags_AssertionFailure | Tags_OutOfRange

definition tags_isEmpty :: "LayerTagCollection \<Rightarrow> bool" where
  "tags_isEmpty v \<longleftrightarrow> v = 0"

definition tags_isNonempty :: "LayerTagCollection \<Rightarrow> bool" where
  "tags_isNonempty v \<longleftrightarrow> v \<noteq> 0"

text \<open>\<open>operator<\<close>: both bitsets have the same size, so only the second disjunct counts.\<close>

definition tags_less :: "LayerTagCollection \<Rightarrow> LayerTagCollection \<Rightarrow> bool" where
  "tags_less v other \<longleftrightarrow> (64::nat) < 64 \<or> ((64::nat) = 64 \<and> v AND other = v)"

definition tags_hash :: "LayerTagCollection \<Rightarrow> 64 word" where
  "tags_hash v = v"

text \<open>\<open>resize_\<close>: the assertion, then the (fixed) size.\<close>

definition tags_resize :: "nat \<Rightarrow> tag_error + nat" where
  "tags_resize sz = (if sz \<le> 64 then Inr 64 else Inl Tags_AssertionFailure)"

definition createUnion :: "LayerTagCollection \<Rightarrow> LayerTagCollection \<Rightarrow> LayerTagCollection" where
  "createUnion a b = (0 OR a) OR b"

definition createIntersection :: "LayerTagCollection \<Rightarrow> LayerTagCollection \<Rightarrow> LayerTagCollection" where
  "createIntersection a b = (0 OR a) AND b"

definition isSubset :: "LayerTagCollection \<Rightarrow> LayerTagCollection \<Rightarrow> bool" where
  "isSubset a b \<longleftrightarrow> a AND b = a"

section \<open>Masks\<close>

record LayerTagMask =
  tagAlts :: "LayerTagCollection list"
  any_flag :: bool
  none_flag :: bool
  mask_hash :: "64 word"

definition computeHash :: "LayerTagMask \<Rightarrow> LayerTagMask" where
  "computeHash msk =
     (if any_flag msk then msk\<lparr>mask_hash := 1\<rparr>
      else if \<not> none_flag msk then
        msk\<lparr>mask_hash := foldl (\<lambda>h t. h XOR tags_hash t) (mask_hash msk) (tagAlts msk) + 2\<rparr>
      else msk)"

text \<open>The constructors: from alternatives (one collection is a list of length 1) and the
  constant masks.\<close>

definition mask_of_alts :: "LayerTagCollection list \<Rightarrow> LayerTagMask" where
  "mask_of_alts alts =
     computeHash \<lparr>tagAlts = alts, any_flag = False, none_flag = False, mask_hash = 0\<rparr>"

definition mask_of_tags :: "LayerTagCollection \<Rightarrow> LayerTagMask" where
  "mask_of_tags tags = mask_of_alts [tags]"

definition mask_of_bool :: "bool \<Rightarrow> LayerTagMask" where
  "mask_of_bool val =
     computeHash \<lparr>tagAlts = [], any_flag = val, none_flag = \<not> val, mask_hash = 0\<rparr>"

text \<open>\<open>isNone\<close> caches its answer in the mask: the result and the mask afterwards.\<close>

definition mask_isNone :: "LayerTagMask \<Rightarrow> bool \<times> LayerTagMask" where
  "mask_isNone msk =
     (if none_flag msk then (True, msk)
      else if any_flag msk then (False, msk)
      else if list_ex (\<lambda>t. \<not> tags_isEmpty t) (tagAlts msk) then (False, msk)
      else (True, msk\<lparr>none_flag := True\<rparr>))"

definition mask_isSome :: "LayerTagMask \<Rightarrow> bool" where
  "mask_isSome msk \<longleftrightarrow> (if any_flag msk then True
     else list_ex (\<lambda>t. \<not> tags_isEmpty t) (tagAlts msk))"

definition mask_isAny :: "LayerTagMask \<Rightarrow> bool" where
  "mask_isAny msk = any_flag msk"

fun tagAlts_less :: "LayerTagCollection list \<Rightarrow> LayerTagCollection list \<Rightarrow> bool" where
  "tagAlts_less (a # as) (b # bs) =
     (if tags_less a b then True else if tags_less b a then False else tagAlts_less as bs)"
| "tagAlts_less _ _ = False"

definition mask_less :: "LayerTagMask \<Rightarrow> LayerTagMask \<Rightarrow> bool" where
  "mask_less msk other =
     (if none_flag msk \<and> any_flag other then True
      else if none_flag other \<and> any_flag msk then False
      else if length (tagAlts msk) < length (tagAlts other) then True
      else if length (tagAlts msk) > length (tagAlts other) then False
      else tagAlts_less (tagAlts msk) (tagAlts other))"

definition mask_eq :: "LayerTagMask \<Rightarrow> LayerTagMask \<Rightarrow> bool" where
  "mask_eq msk other =
     (if any_flag msk \<and> any_flag other then True
      else if none_flag msk \<and> none_flag other then True
      else if any_flag msk \<noteq> any_flag other then False
      else if none_flag msk \<noteq> none_flag other then False
      else if length (tagAlts msk) \<noteq> length (tagAlts other) then False
      else list_all2 (=) (tagAlts msk) (tagAlts other))"

definition matches :: "LayerTagCollection \<Rightarrow> LayerTagMask \<Rightarrow> bool" where
  "matches tags msk =
     (if none_flag msk then False
      else if any_flag msk then True
      else list_ex (\<lambda>tagAlt. isSubset tagAlt tags) (tagAlts msk))"

section \<open>The manager\<close>

record LayerTagManager =
  tag_m :: "string list"
  symbolTag :: LayerTagCollection
  planeTags :: LayerTagCollection

type_synonym 'a tags_prog = "(tag_error, LayerTagManager, 'a) prog"

text \<open>\<open>m_.insert(StringBimapItem(tagName, m_.size()))\<close> does nothing when the name is there;
  \<open>m_.left.at\<close> reads the index of a name, \<open>m_.right.at\<close> the name of an index.\<close>

definition tag_insert :: "string \<Rightarrow> LayerTagManager \<Rightarrow> LayerTagManager" where
  "tag_insert tagName mgr =
     (if tagName \<in> set (tag_m mgr) then mgr else mgr\<lparr>tag_m := tag_m mgr @ [tagName]\<rparr>)"

definition tag_index :: "string \<Rightarrow> LayerTagManager \<Rightarrow> nat" where
  "tag_index tagName mgr = length (takeWhile (\<lambda>n. n \<noteq> tagName) (tag_m mgr))"

definition tag_at :: "nat \<Rightarrow> LayerTagManager \<Rightarrow> tag_error + string" where
  "tag_at i mgr = (if i < length (tag_m mgr) then Inr (tag_m mgr ! i) else Inl Tags_OutOfRange)"

definition is_plane_name :: "string \<Rightarrow> bool" where
  "is_plane_name tagName = (case tagName of [] \<Rightarrow> False | c # _ \<Rightarrow> c = CHR ''!'')"

text \<open>The body of the loop of \<open>createTagCollection\<close>, which \<open>createSingletonTagCollection\<close>
  repeats: register the name, set its bit in the result and, for a plane name, in
  \<open>planeTags_\<close>.\<close>

definition add_tag :: "string \<Rightarrow> LayerTagCollection \<Rightarrow> LayerTagCollection tags_prog" where
  "add_tag tagName result =
     thenE (modify (tag_insert tagName))
       (bindE (gets (tag_index tagName)) (\<lambda>tagIndex.
          thenE (if tagIndex \<ge> 64 then getsE (\<lambda>_. tags_resize (tagIndex + 1)) else ret 64)
            (if is_plane_name tagName then
               thenE (if tagIndex \<ge> 64 then getsE (\<lambda>_. tags_resize (tagIndex + 1)) else ret 64)
                 (thenE (modify (\<lambda>mgr. mgr\<lparr>planeTags := set_bit tagIndex (planeTags mgr)\<rparr>))
                    (ret (set_bit tagIndex result)))
             else ret (set_bit tagIndex result))))"

definition createSingletonTagCollection :: "string \<Rightarrow> LayerTagCollection tags_prog" where
  "createSingletonTagCollection tagName = add_tag tagName 0"

fun add_tags :: "string list \<Rightarrow> LayerTagCollection \<Rightarrow> LayerTagCollection tags_prog" where
  "add_tags [] result = ret result"
| "add_tags (tagName # tagNames) result = bindE (add_tag tagName result) (add_tags tagNames)"

definition createTagCollection :: "string list \<Rightarrow> LayerTagCollection tags_prog" where
  "createTagCollection tagNames = add_tags tagNames 0"

definition newLayerTagManager :: LayerTagManager where
  "newLayerTagManager =
     (case createSingletonTagCollection ''symbol'' \<lparr>tag_m = [], symbolTag = 0, planeTags = 0\<rparr> of
        (Inr tag, mgr) \<Rightarrow> mgr\<lparr>symbolTag := tag\<rparr>
      | (Inl _, mgr) \<Rightarrow> mgr)"

fun at_all :: "nat list \<Rightarrow> LayerTagManager \<Rightarrow> tag_error + string list" where
  "at_all [] mgr = Inr []"
| "at_all (i # is) mgr =
     (case tag_at i mgr of Inl e \<Rightarrow> Inl e | Inr n \<Rightarrow> map_sum id (Cons n) (at_all is mgr))"

definition getTagNames :: "LayerTagCollection \<Rightarrow> LayerTagManager \<Rightarrow> tag_error + string list" where
  "getTagNames tags mgr = map_sum id sort (at_all (filter (bit tags) [0..<64]) mgr)"

definition getLanguageTag :: "string \<Rightarrow> string" where
  "getLanguageTag langCode = ''!'' @ langCode"

definition createSingletonTagCollectionWithLangCode :: "string \<Rightarrow> string \<Rightarrow> LayerTagCollection tags_prog" where
  "createSingletonTagCollectionWithLangCode tagName langCode =
     bindE (createSingletonTagCollection tagName) (\<lambda>a.
       bindE (createSingletonTagCollection (getLanguageTag langCode)) (\<lambda>b. ret (createUnion a b)))"

definition createTagCollectionFromListWithLangCode :: "string list \<Rightarrow> string \<Rightarrow> LayerTagCollection tags_prog" where
  "createTagCollectionFromListWithLangCode tagNames langCode =
     bindE (createTagCollection tagNames) (\<lambda>a.
       bindE (createSingletonTagCollection (getLanguageTag langCode)) (\<lambda>b. ret (createUnion a b)))"

definition onlyPlaneTags :: "LayerTagManager \<Rightarrow> LayerTagCollection \<Rightarrow> LayerTagCollection" where
  "onlyPlaneTags mgr tags = createIntersection (planeTags mgr) tags"

definition areInTheSamePlane :: "LayerTagManager \<Rightarrow> LayerTagCollection \<Rightarrow> LayerTagCollection \<Rightarrow> bool" where
  "areInTheSamePlane mgr tags1 tags2 \<longleftrightarrow> onlyPlaneTags mgr tags1 = onlyPlaneTags mgr tags2"

text \<open>\<open>isThere\<close> registers the name it asks about.\<close>

definition isThere :: "string \<Rightarrow> LayerTagCollection \<Rightarrow> bool tags_prog" where
  "isThere tagName tags =
     thenE (modify (tag_insert tagName))
       (bindE (gets (tag_index tagName)) (\<lambda>i.
          thenE (getsE (\<lambda>_. tags_resize (i + 1))) (ret (bit tags i))))"

definition canBeAppliedToImplicitSymbol :: "LayerTagManager \<Rightarrow> LayerTagMask \<Rightarrow> bool" where
  "canBeAppliedToImplicitSymbol mgr tagMask =
     (if mask_isAny tagMask then True
      else list_ex (\<lambda>tagAlt. tagAlt = symbolTag mgr) (tagAlts tagMask))"

section \<open>Specifications of collections and masks\<close>

text \<open>\<open>boost::split(result, specification, is_any_of(","))\<close>.\<close>

fun splitOn :: "char \<Rightarrow> string \<Rightarrow> string list" where
  "splitOn sep [] = [[]]"
| "splitOn sep (c # cs) =
     (if c = sep then [] # splitOn sep cs
      else (case splitOn sep cs of [] \<Rightarrow> [[c]] | w # ws \<Rightarrow> (c # w) # ws))"

definition splitCollectionSpecification :: "string \<Rightarrow> string list" where
  "splitCollectionSpecification specification = splitOn (CHR '','') specification"

text \<open>The grammar of mask specifications. Each parser takes the remaining input and returns
  the attribute and the input after it; \<open>None\<close> is a failure, which a list parser
  \<open>a % b\<close> turns into the end of the list, before the separator.\<close>

definition spec_char :: "char \<Rightarrow> bool" where
  "spec_char c \<longleftrightarrow> c \<noteq> CHR '','' \<and> c \<noteq> CHR '';''"

definition spec_word :: "string \<Rightarrow> (string \<times> string) option" where
  "spec_word it =
     (case takeWhile spec_char it of [] \<Rightarrow> None | w \<Rightarrow> Some (w, dropWhile spec_char it))"

lemma spec_word_shorter: "spec_word it = Some (w, it') \<Longrightarrow> length it' < length it"
  by (cases it) (auto simp: spec_word_def split: list.splits if_splits intro: length_dropWhile_le le_imp_less_Suc)

function spec_conjunction :: "string \<Rightarrow> (string list \<times> string) option" where
  "spec_conjunction it =
     (case spec_word it of
        None \<Rightarrow> None
      | Some (w, it') \<Rightarrow>
          (case it' of
             [] \<Rightarrow> Some ([w], it')
           | c # it'' \<Rightarrow>
               if c = CHR '','' then
                 (case spec_conjunction it'' of
                    None \<Rightarrow> Some ([w], it')
                  | Some (ws, it3) \<Rightarrow> Some (w # ws, it3))
               else Some ([w], it')))"
  by pat_completeness auto
termination
  by (relation "measure length") (auto dest!: spec_word_shorter)

declare spec_conjunction.simps [simp del]

lemma spec_conjunction_shorter: "spec_conjunction it = Some (ws, it') \<Longrightarrow> length it' < length it"
proof (induction it arbitrary: ws it' rule: spec_conjunction.induct)
  case (1 it)
  obtain w r where w: "spec_word it = Some (w, r)"
    using 1(2) by (subst (asm) spec_conjunction.simps) (auto split: option.splits)
  show ?case
  proof (cases r)
    case Nil
    then show ?thesis using 1(2) w spec_word_shorter[OF w]
      by (subst (asm) spec_conjunction.simps) simp
  next
    case (Cons c r')
    then show ?thesis using 1(2) w spec_word_shorter[OF w] 1(1)[OF w refl Cons]
      by (subst (asm) spec_conjunction.simps) (fastforce split: if_splits option.splits)
  qed
qed

function spec_mask :: "string \<Rightarrow> (string list list \<times> string) option" where
  "spec_mask it =
     (case spec_conjunction it of
        None \<Rightarrow> None
      | Some (ws, it') \<Rightarrow>
          (case it' of
             [] \<Rightarrow> Some ([ws], it')
           | c # it'' \<Rightarrow>
               if c = CHR '';'' then
                 (case spec_mask it'' of
                    None \<Rightarrow> Some ([ws], it')
                  | Some (wss, it3) \<Rightarrow> Some (ws # wss, it3))
               else Some ([ws], it')))"
  by pat_completeness auto
termination
  by (relation "measure length") (auto dest!: spec_conjunction_shorter)

declare spec_mask.simps [simp del]

text \<open>\<open>splitMaskSpecification\<close> ignores both the outcome of \<open>parse\<close> and what is left over.\<close>

definition splitMaskSpecification :: "string \<Rightarrow> string list list" where
  "splitMaskSpecification specification =
     (case spec_mask specification of None \<Rightarrow> [] | Some (wss, _) \<Rightarrow> wss)"

definition getAlternativeMask :: "LayerTagCollection list \<Rightarrow> LayerTagMask" where
  "getAlternativeMask tagCollections = mask_of_alts tagCollections"

definition getSingletonMask :: "string \<Rightarrow> LayerTagMask tags_prog" where
  "getSingletonMask tagName =
     bindE (createSingletonTagCollection tagName) (\<lambda>tags. ret (mask_of_tags tags))"

fun createTagCollections :: "string list list \<Rightarrow> LayerTagCollection list tags_prog" where
  "createTagCollections [] = ret []"
| "createTagCollections (conjunction # tagNames) =
     bindE (createTagCollection conjunction) (\<lambda>tags.
       bindE (createTagCollections tagNames) (\<lambda>rest. ret (tags # rest)))"

definition getAlternativeMaskFromTagNames :: "string list list \<Rightarrow> LayerTagMask tags_prog" where
  "getAlternativeMaskFromTagNames tagNames =
     bindE (createTagCollections tagNames) (\<lambda>alts. ret (getAlternativeMask alts))"

definition getMask :: "string \<Rightarrow> LayerTagMask tags_prog" where
  "getMask specification =
     (let tagNames = splitMaskSpecification specification in
      if tagNames = [] then getSingletonMask specification
      else getAlternativeMaskFromTagNames tagNames)"

definition multiplyMaskListByLangCode :: "string list list \<Rightarrow> string \<Rightarrow> string list list" where
  "multiplyMaskListByLangCode maskList langCode =
     map (\<lambda>names. names @ [getLanguageTag langCode]) maskList"

definition anyTag :: LayerTagMask where
  "anyTag = mask_of_bool True"

section \<open>Collections and masks as sets of bits\<close>

lemma bit_createUnion [simp]: "bit (createUnion a b) i \<longleftrightarrow> bit a i \<or> bit b i"
  by (simp add: createUnion_def bit_or_iff)

lemma bit_createIntersection [simp]: "bit (createIntersection a b) i \<longleftrightarrow> bit a i \<and> bit b i"
  by (simp add: createIntersection_def bit_and_iff)

lemma bit_tags_bound: "bit (t :: LayerTagCollection) i \<Longrightarrow> i < 64"
  using bit_imp_le_length[of t i] by simp

lemma isSubset_iff: "isSubset a b \<longleftrightarrow> (\<forall>i. bit a i \<longrightarrow> bit b i)"
  using bit_tags_bound by (auto simp: isSubset_def bit_eq_iff bit_and_iff)

lemma matches_mask_of_alts:
  "matches tags (mask_of_alts alts) \<longleftrightarrow> (\<exists>alt \<in> set alts. isSubset alt tags)"
  by (simp add: matches_def mask_of_alts_def computeHash_def list_ex_iff)

section \<open>The names of the manager\<close>

text \<open>The manager keeps its names distinct, and a bit of \<open>planeTags_\<close> is the index of a
  plane name. A collection is \<open>known\<close> to the manager when its bits have names and its plane
  names are registered; \<open>names_of\<close> is the set it stands for.\<close>

definition tags_wf :: "LayerTagManager \<Rightarrow> bool" where
  "tags_wf mgr \<longleftrightarrow> distinct (tag_m mgr) \<and>
     (\<forall>i. bit (planeTags mgr) i \<longrightarrow> i < length (tag_m mgr) \<and> is_plane_name (tag_m mgr ! i))"

definition tags_known :: "LayerTagManager \<Rightarrow> LayerTagCollection \<Rightarrow> bool" where
  "tags_known mgr tags \<longleftrightarrow> (\<forall>i. bit tags i \<longrightarrow> i < length (tag_m mgr) \<and>
     (is_plane_name (tag_m mgr ! i) \<longrightarrow> bit (planeTags mgr) i))"

definition names_of :: "LayerTagManager \<Rightarrow> LayerTagCollection \<Rightarrow> string set" where
  "names_of mgr tags = {tag_m mgr ! i | i. bit tags i \<and> i < length (tag_m mgr)}"

text \<open>What the operations of the manager do to it: names are appended, plane bits are added.\<close>

definition tags_le :: "LayerTagManager \<Rightarrow> LayerTagManager \<Rightarrow> bool" where
  "tags_le mgr mgr' \<longleftrightarrow> prefix (tag_m mgr) (tag_m mgr') \<and> isSubset (planeTags mgr) (planeTags mgr')"

lemma tags_le_refl [simp]: "tags_le mgr mgr"
  by (simp add: tags_le_def isSubset_iff)

lemma tags_le_trans: "tags_le a b \<Longrightarrow> tags_le b c \<Longrightarrow> tags_le a c"
  by (auto simp: tags_le_def isSubset_iff intro: prefix_order.trans)

lemma prefix_nth: "prefix xs ys \<Longrightarrow> i < length xs \<Longrightarrow> ys ! i = xs ! i"
  by (auto simp: prefix_def nth_append)

lemma tags_known_mono: "tags_le mgr mgr' \<Longrightarrow> tags_known mgr tags \<Longrightarrow> tags_known mgr' tags"
  unfolding tags_known_def tags_le_def isSubset_iff
  by (auto simp: prefix_nth dest: prefix_length_le) (metis less_le_trans prefix_length_le)

lemma names_of_mono:
  "tags_le mgr mgr' \<Longrightarrow> tags_known mgr tags \<Longrightarrow> names_of mgr' tags = names_of mgr tags"
  unfolding names_of_def tags_known_def tags_le_def
  by (auto simp: prefix_nth dest: prefix_length_le)
    (metis less_le_trans prefix_length_le prefix_nth)+

lemma tag_index_insert:
  assumes "tags_wf mgr"
  shows "tag_index n (tag_insert n mgr) < length (tag_m (tag_insert n mgr))"
    "tag_m (tag_insert n mgr) ! tag_index n (tag_insert n mgr) = n"
proof -
  have "n \<in> set (tag_m (tag_insert n mgr))" by (simp add: tag_insert_def)
  then show "tag_index n (tag_insert n mgr) < length (tag_m (tag_insert n mgr))"
    "tag_m (tag_insert n mgr) ! tag_index n (tag_insert n mgr) = n"
    by (simp_all add: tag_index_def length_takeWhile_neq nth_length_takeWhile_neq)
qed

lemma tag_insert_wf: "tags_wf mgr \<Longrightarrow> tags_wf (tag_insert n mgr) \<and> tags_le mgr (tag_insert n mgr)"
  by (auto simp: tags_wf_def tag_insert_def tags_le_def isSubset_iff nth_append)

lemma add_tag_cases:
  "add_tag n acc mgr =
     (let mgr' = tag_insert n mgr; i = tag_index n mgr' in
      if i < 64 then (Inr (set_bit i acc),
        if is_plane_name n then mgr'\<lparr>planeTags := set_bit i (planeTags mgr')\<rparr> else mgr')
      else (Inl Tags_AssertionFailure, mgr'))"
  by (simp add: add_tag_def prog_defs tags_resize_def Let_def)

lemma bit_set_bit: "bit (set_bit n (t :: LayerTagCollection)) i \<longleftrightarrow> (n < 64 \<and> i = n) \<or> bit t i"
  by (auto simp: bit_set_bit_iff dest: bit_tags_bound)

lemma add_tag_spec:
  assumes "add_tag n acc mgr = (r, mgr')" "tags_wf mgr"
  shows "tags_wf mgr' \<and> tags_le mgr mgr' \<and>
    (\<forall>tags. r = Inr tags \<longrightarrow> tags_known mgr acc \<longrightarrow>
       tags_known mgr' tags \<and> names_of mgr' tags = insert n (names_of mgr acc))"
proof -
  let ?m = "tag_insert n mgr" and ?i = "tag_index n (tag_insert n mgr)"
  note wf = tag_insert_wf[OF assms(2), of n] and i = tag_index_insert[OF assms(2), of n]
  show ?thesis
  proof (cases "?i < 64")
    case False
    then show ?thesis using assms(1) wf by (auto simp: add_tag_cases Let_def)
  next
    case True
    then have r: "r = Inr (set_bit ?i acc)"
      and m: "tag_m mgr' = tag_m ?m"
      and p: "\<And>j. bit (planeTags mgr') j \<longleftrightarrow> bit (planeTags ?m) j \<or> j = ?i \<and> is_plane_name n"
      using assms(1) by (auto simp: add_tag_cases Let_def bit_set_bit split: if_splits)
    have "tags_wf mgr'" using wf i unfolding tags_wf_def m p by auto
    moreover have le: "tags_le ?m mgr'" by (simp add: tags_le_def m p isSubset_iff)
    moreover have "tags_known mgr' (set_bit ?i acc) \<and> names_of mgr' (set_bit ?i acc) = insert n (names_of mgr acc)"
      if k: "tags_known mgr acc"
    proof -
      have k': "tags_known mgr' acc" "names_of mgr' acc = names_of mgr acc"
        using tags_known_mono names_of_mono k wf le tags_le_trans by blast+
      have "tags_known mgr' (set_bit ?i acc)"
        using k'(1) i unfolding tags_known_def bit_set_bit m p by auto
      moreover have "names_of mgr' (set_bit ?i acc) = insert n (names_of mgr' acc)"
        using i True unfolding names_of_def bit_set_bit m by auto (metis i)
      ultimately show ?thesis using k'(2) by simp
    qed
    ultimately show ?thesis using r wf tags_le_trans by blast
  qed
qed

lemma add_tags_spec:
  assumes "add_tags ns acc mgr = (r, mgr')" "tags_wf mgr"
  shows "tags_wf mgr' \<and> tags_le mgr mgr' \<and>
    (\<forall>tags. r = Inr tags \<longrightarrow> tags_known mgr acc \<longrightarrow>
       tags_known mgr' tags \<and> names_of mgr' tags = set ns \<union> names_of mgr acc)"
  using assms
proof (induction ns arbitrary: acc mgr)
  case Nil
  then show ?case by (auto simp: ret_def)
next
  case (Cons n ns)
  obtain r1 mgr1 where 1: "add_tag n acc mgr = (r1, mgr1)" by (cases "add_tag n acc mgr")
  note s = add_tag_spec[OF 1 Cons.prems(2)]
  show ?case
  proof (cases r1)
    case (Inl e)
    then show ?thesis using 1 Cons.prems s by (auto simp: bindE_def)
  next
    case (Inr t)
    then have "add_tags ns t mgr1 = (r, mgr')" using 1 Cons.prems(1) by (simp add: bindE_def)
    from Cons.IH[OF this] s Inr show ?thesis by (auto intro: tags_le_trans)
  qed
qed

lemma names_of_0 [simp]: "names_of mgr 0 = {}" "tags_known mgr 0"
  by (simp_all add: names_of_def tags_known_def)

lemma createTagCollection_wf:
  assumes "createTagCollection ns mgr = (r, mgr')" "tags_wf mgr"
  shows "tags_wf mgr'" "tags_le mgr mgr'"
    "r = Inr tags \<Longrightarrow> tags_known mgr' tags" "r = Inr tags \<Longrightarrow> names_of mgr' tags = set ns"
  using add_tags_spec[OF assms[unfolded createTagCollection_def]] by auto

lemma at_all_OK: "\<forall>i \<in> set is. i < length (tag_m mgr) \<Longrightarrow> at_all is mgr = Inr (map ((!) (tag_m mgr)) is)"
  by (induction "is") (auto simp: tag_at_def)

lemma getTagNames_known:
  assumes "tags_wf mgr" "tags_known mgr tags"
  shows "getTagNames tags mgr = Inr (sorted_list_of_set (names_of mgr tags))"
proof -
  let ?is = "filter (bit tags) [0..<64]"
  have "at_all ?is mgr = Inr (map ((!) (tag_m mgr)) ?is)"
    using assms(2) by (intro at_all_OK) (auto simp: tags_known_def)
  moreover have "distinct (map ((!) (tag_m mgr)) ?is)"
    using assms by (auto simp: distinct_map tags_wf_def tags_known_def inj_on_def nth_eq_iff_index_eq)
  moreover have "set (map ((!) (tag_m mgr)) ?is) = names_of mgr tags"
    using assms(2) by (auto simp: names_of_def tags_known_def dest: bit_tags_bound)
  ultimately show ?thesis
    using sort_distinct[of "map ((!) (tag_m mgr)) ?is"] by (simp add: getTagNames_def)
qed

lemma createTagCollections_wf:
  assumes "createTagCollections tss mgr = (Inr alts, mgr')" "tags_wf mgr"
  shows "tags_wf mgr' \<and> tags_le mgr mgr' \<and>
    list_all2 (\<lambda>t ns. tags_known mgr' t \<and> names_of mgr' t = set ns) alts tss"
  using assms
proof (induction tss arbitrary: alts mgr)
  case Nil
  then show ?case by (simp add: ret_def)
next
  case (Cons ns tss)
  from Cons.prems(1) obtain t m1 alts' where 1: "createTagCollection ns mgr = (Inr t, m1)"
    "createTagCollections tss m1 = (Inr alts', mgr')" "alts = t # alts'"
    by (auto simp: bindE_def ret_def split: prod.splits sum.splits)
  note c = createTagCollection_wf[OF 1(1) Cons.prems(2)]
  with Cons.IH[OF 1(2)] have r: "tags_wf mgr'" "tags_le m1 mgr'"
    "list_all2 (\<lambda>t ns. tags_known mgr' t \<and> names_of mgr' t = set ns) alts' tss" by auto
  moreover have "tags_known mgr' t" "names_of mgr' t = set ns"
    using tags_known_mono[OF r(2)] names_of_mono[OF r(2)] c by auto
  ultimately show ?case using 1(3) c(2) by (auto intro: tags_le_trans)
qed

lemma isSubset_names_of:
  assumes "tags_wf mgr" "tags_known mgr a" "tags_known mgr b"
  shows "isSubset a b \<longleftrightarrow> names_of mgr a \<subseteq> names_of mgr b"
proof
  assume "isSubset a b"
  then show "names_of mgr a \<subseteq> names_of mgr b" by (auto simp: isSubset_iff names_of_def)
next
  assume s: "names_of mgr a \<subseteq> names_of mgr b"
  show "isSubset a b" unfolding isSubset_iff
  proof (intro allI impI)
    fix i assume i: "bit a i"
    then have l: "i < length (tag_m mgr)" using assms(2) by (simp add: tags_known_def)
    then have "tag_m mgr ! i \<in> names_of mgr b" using i s by (auto simp: names_of_def)
    then obtain j where "tag_m mgr ! i = tag_m mgr ! j" "bit b j" "j < length (tag_m mgr)"
      by (auto simp: names_of_def)
    then show "bit b i" using assms(1) l by (simp add: tags_wf_def nth_eq_iff_index_eq)
  qed
qed

lemma getMask_wf:
  assumes "getMask spec mgr = (Inr mk, mgr')" "tags_wf mgr"
  shows "tags_wf mgr' \<and> tags_le mgr mgr'"
proof (cases "splitMaskSpecification spec = []")
  case True
  with assms(1) obtain t where "createTagCollection [spec] mgr = (Inr t, mgr')"
    by (auto simp: getMask_def getSingletonMask_def createTagCollection_def
      createSingletonTagCollection_def bindE_def ret_def split: prod.splits sum.splits)
  from createTagCollection_wf[OF this assms(2)] show ?thesis by blast
next
  case False
  with assms(1) obtain alts where "createTagCollections (splitMaskSpecification spec) mgr = (Inr alts, mgr')"
    by (auto simp: getMask_def getAlternativeMaskFromTagNames_def bindE_def ret_def Let_def
      split: prod.splits sum.splits)
  from createTagCollections_wf[OF this assms(2)] show ?thesis by blast
qed

lemma matches_getMask:
  assumes "getMask spec mgr = (Inr mk, mgr')" "tags_wf mgr" "splitMaskSpecification spec = tss"
    "tss \<noteq> []" "tags_known mgr' tags"
  shows "matches tags mk \<longleftrightarrow> (\<exists>ns \<in> set tss. set ns \<subseteq> names_of mgr' tags)"
proof -
  from assms obtain alts where a: "createTagCollections tss mgr = (Inr alts, mgr')" "mk = mask_of_alts alts"
    by (auto simp: getMask_def getAlternativeMaskFromTagNames_def getAlternativeMask_def bindE_def ret_def
      Let_def split: prod.splits sum.splits)
  from createTagCollections_wf[OF a(1) assms(2)] have wf: "tags_wf mgr'"
    and l: "list_all2 (\<lambda>t ns. tags_known mgr' t \<and> names_of mgr' t = set ns) alts tss" by auto
  have "(\<exists>alt \<in> set alts. isSubset alt tags) \<longleftrightarrow> (\<exists>ns \<in> set tss. set ns \<subseteq> names_of mgr' tags)"
    using l by (induction rule: list_all2_induct) (auto simp: isSubset_names_of[OF wf _ assms(5)])
  then show ?thesis using a(2) by (simp add: matches_mask_of_alts)
qed

section \<open>Parsing specifications\<close>

definition spec_name :: "string \<Rightarrow> bool" where
  "spec_name w \<longleftrightarrow> w \<noteq> [] \<and> list_all spec_char w"

fun join :: "char \<Rightarrow> string list \<Rightarrow> string" where
  "join c [] = []"
| "join c [w] = w"
| "join c (w # ws) = w @ c # join c ws"

lemma spec_word_name:
  assumes "spec_name w" "it = [] \<or> \<not> spec_char (hd it)"
  shows "spec_word (w @ it) = Some (w, it)"
proof -
  have w: "\<forall>c \<in> set w. spec_char c" using assms(1) by (simp add: spec_name_def list_all_iff)
  have "takeWhile spec_char it = []" "dropWhile spec_char it = it"
    using assms(2) by (cases it; simp)+
  then have "takeWhile spec_char (w @ it) = w" "dropWhile spec_char (w @ it) = it"
    using w by simp_all
  then show ?thesis using assms(1) by (cases w) (auto simp: spec_word_def spec_name_def)
qed

lemma spec_conjunction_join:
  assumes "ws \<noteq> []" "list_all spec_name ws" "it = [] \<or> hd it = CHR '';''"
  shows "spec_conjunction (join (CHR '','') ws @ it) = Some (ws, it)"
  using assms(1,2)
proof (induction ws rule: list_nonempty_induct)
  case (single w)
  then have "spec_word (w @ it) = Some (w, it)"
    using assms(3) by (intro spec_word_name) (auto simp: spec_char_def)
  then show ?case using assms(3) by (subst spec_conjunction.simps) (cases it; simp)
next
  case (cons w ws)
  obtain v vs where ws: "ws = v # vs" using cons(1) by (cases ws) auto
  have "spec_word (w @ CHR '','' # join (CHR '','') ws @ it) = Some (w, CHR '','' # join (CHR '','') ws @ it)"
    using cons(3) by (intro spec_word_name) (auto simp: spec_char_def)
  then show ?case using cons ws by (subst spec_conjunction.simps) simp
qed

lemma spec_mask_join:
  assumes "wss \<noteq> []" "\<forall>ws \<in> set wss. ws \<noteq> [] \<and> list_all spec_name ws"
  shows "spec_mask (join (CHR '';'') (map (join (CHR '','')) wss)) = Some (wss, [])"
  using assms
proof (induction wss rule: list_nonempty_induct)
  case (single ws)
  then show ?case using spec_conjunction_join[of ws "[]"] by (subst spec_mask.simps) simp
next
  case (cons ws wss)
  obtain v vs where ws: "wss = v # vs" using cons(1) by (cases wss) auto
  have "spec_conjunction (join (CHR '','') ws @ CHR '';'' # join (CHR '';'') (map (join (CHR '','')) wss)) =
      Some (ws, CHR '';'' # join (CHR '';'') (map (join (CHR '','')) wss))"
    using cons(3) by (intro spec_conjunction_join) auto
  then show ?case using cons ws by (subst spec_mask.simps) simp
qed

section \<open>Properties\<close>

text \<open>C32: the names read back from a collection the manager has made are exactly the names it
  was made of, sorted and without repetitions.\<close>

theorem tag_names_roundtrip:
  assumes "tags_wf mgr" "createTagCollection names mgr = (Inr tags, mgr')"
  shows "getTagNames tags mgr' = Inr (sorted_list_of_set (set names))"
  using createTagCollection_wf[OF assms(2,1)] getTagNames_known by metis

theorem tag_names_roundtrip_witness:
  "getTagNames 0b111 \<lparr>tag_m = [''token'', ''form'', ''!pl''], symbolTag = 0, planeTags = 0b100\<rparr> =
     Inr (sorted_list_of_set (set [''form'', ''!pl'', ''token'', ''form'']))"
  by (rule tag_names_roundtrip[of "\<lparr>tag_m = [''token''], symbolTag = 0, planeTags = 0\<rparr>"])
    (auto simp: tags_wf_def createTagCollection_def add_tag_cases bindE_def ret_def tag_insert_def
      tag_index_def is_plane_name_def Let_def set_bit_eq_or)

text \<open>C8: a mask made from a specification \<open>a,b;c\<close> matches exactly the collections that contain
  all names of one of its conjunctions.\<close>

theorem mask_specification_semantics:
  assumes "tags_wf mgr" "wss \<noteq> []" "\<forall>ws \<in> set wss. ws \<noteq> [] \<and> list_all spec_name ws"
    and "getMask (join (CHR '';'') (map (join (CHR '','')) wss)) mgr = (Inr mk, mgr')"
    and "tags_known mgr' tags"
  shows "matches tags mk \<longleftrightarrow> (\<exists>ws \<in> set wss. set ws \<subseteq> names_of mgr' tags)"
  using assms(2,5) spec_mask_join[OF assms(2,3)]
  by (intro matches_getMask[OF assms(4,1)]) (simp_all add: splitMaskSpecification_def)

theorem mask_specification_semantics_witness:
  "matches 0b110 (mask_of_alts [0b110, 0b1000]) \<longleftrightarrow>
     (\<exists>ws \<in> set [[''a'', ''b''], [''c'']]. set ws \<subseteq>
        names_of \<lparr>tag_m = [''symbol'', ''a'', ''b'', ''c''], symbolTag = 1, planeTags = 0\<rparr> 0b110)"
proof (rule mask_specification_semantics)
  show "tags_wf \<lparr>tag_m = [''symbol''], symbolTag = 1, planeTags = 0\<rparr>" by (simp add: tags_wf_def)
  have "splitMaskSpecification ''a,b;c'' = [[''a'', ''b''], [''c'']]"
    using spec_mask_join[of "[[''a'', ''b''], [''c'']]"]
    by (simp add: splitMaskSpecification_def spec_name_def spec_char_def)
  then show "getMask (join (CHR '';'') (map (join (CHR '','')) [[''a'', ''b''], [''c'']]))
      \<lparr>tag_m = [''symbol''], symbolTag = 1, planeTags = 0\<rparr> =
    (Inr (mask_of_alts [0b110, 0b1000]), \<lparr>tag_m = [''symbol'', ''a'', ''b'', ''c''], symbolTag = 1, planeTags = 0\<rparr>)"
    by (simp add: getMask_def getAlternativeMaskFromTagNames_def getAlternativeMask_def
      createTagCollection_def add_tag_cases bindE_def ret_def tag_insert_def tag_index_def
      is_plane_name_def Let_def set_bit_eq_or)
  show "tags_known \<lparr>tag_m = [''symbol'', ''a'', ''b'', ''c''], symbolTag = 1, planeTags = 0\<rparr> 0b110"
    by (auto simp: tags_known_def is_plane_name_def bit_numeral_rec bit_1_iff nth_Cons' less_Suc_eq
      numeral_eq_Suc bit_double_iff dest: bit_tags_bound)
qed (auto simp: spec_name_def spec_char_def)

lemma bit_onlyPlaneTags:
  assumes "tags_wf mgr" "tags_known mgr t"
  shows "bit (onlyPlaneTags mgr t) i \<longleftrightarrow> bit t i \<and> is_plane_name (tag_m mgr ! i)"
  using assms by (auto simp: onlyPlaneTags_def tags_known_def tags_wf_def)

text \<open>two collections are in the same plane exactly when they carry the same plane names
  (the tags that start with an exclamation mark).\<close>

theorem same_plane_iff:
  assumes "tags_wf mgr" "tags_known mgr t1" "tags_known mgr t2"
  shows "areInTheSamePlane mgr t1 t2 \<longleftrightarrow>
    {n \<in> names_of mgr t1. is_plane_name n} = {n \<in> names_of mgr t2. is_plane_name n}"
proof -
  have k: "tags_known mgr (onlyPlaneTags mgr t)" "names_of mgr (onlyPlaneTags mgr t) =
      {n \<in> names_of mgr t. is_plane_name n}" if "tags_known mgr t" for t
    using that bit_onlyPlaneTags[OF assms(1) that] by (auto simp: tags_known_def names_of_def)
  have "onlyPlaneTags mgr t1 = onlyPlaneTags mgr t2 \<longleftrightarrow>
      isSubset (onlyPlaneTags mgr t1) (onlyPlaneTags mgr t2) \<and>
      isSubset (onlyPlaneTags mgr t2) (onlyPlaneTags mgr t1)"
    by (auto simp: isSubset_iff intro: bit_eqI)
  also have "\<dots> \<longleftrightarrow> names_of mgr (onlyPlaneTags mgr t1) = names_of mgr (onlyPlaneTags mgr t2)"
    using k assms by (simp add: isSubset_names_of set_eq_subset)
  finally show ?thesis unfolding areInTheSamePlane_def k(2)[OF assms(2)] k(2)[OF assms(3)] .
qed

theorem same_plane_iff_witness:
  "areInTheSamePlane \<lparr>tag_m = [''!pl'', ''form''], symbolTag = 0, planeTags = 1\<rparr> 1 0b11 \<longleftrightarrow>
    {n \<in> names_of \<lparr>tag_m = [''!pl'', ''form''], symbolTag = 0, planeTags = 1\<rparr> 1. is_plane_name n} =
    {n \<in> names_of \<lparr>tag_m = [''!pl'', ''form''], symbolTag = 0, planeTags = 1\<rparr> 0b11. is_plane_name n}"
  by (rule same_plane_iff) (auto simp: tags_wf_def tags_known_def is_plane_name_def bit_1_iff
    bit_double_iff bit_numeral_rec nth_Cons' less_Suc_eq numeral_One split: nat.splits)

lemma tag_insert_set [simp]: "set (tag_m (tag_insert n mgr)) = insert n (set (tag_m mgr))"
  by (auto simp: tag_insert_def)

lemma distinct_tag_insert: "tags_wf mgr \<Longrightarrow> length (tag_m (tag_insert n mgr)) = card (insert n (set (tag_m mgr)))"
  using tag_insert_wf[of mgr n] by (metis distinct_card tag_insert_set tags_wf_def)

lemma add_tag_error:
  assumes "tags_wf mgr" "length (tag_m mgr) \<le> 64"
  shows "if card (insert n (set (tag_m mgr))) \<le> 64
    then \<exists>t mgr'. add_tag n acc mgr = (Inr t, mgr') \<and> tags_wf mgr' \<and> length (tag_m mgr') \<le> 64 \<and>
      set (tag_m mgr') = insert n (set (tag_m mgr))
    else fst (add_tag n acc mgr) = Inl Tags_AssertionFailure"
proof -
  note i = tag_index_insert(1)[OF assms(1), of n] and wf = tag_insert_wf[OF assms(1), of n]
  have t: "tag_index n mgr < length (tag_m mgr)" if "n \<in> set (tag_m mgr)"
    using length_takeWhile_neq[OF that] by (simp add: tag_index_def)
  have l: "length (tag_m mgr) = card (set (tag_m mgr))"
    using assms(1) by (simp add: tags_wf_def distinct_card)
  show ?thesis
  proof (cases "n \<in> set (tag_m mgr)")
    case True
    with t assms l show ?thesis
      using add_tag_spec[OF surjective_pairing assms(1), of n acc]
      by (auto simp: add_tag_cases Let_def tag_insert_def insert_absorb)
  next
    case False
    then have n: "tag_index n (tag_insert n mgr) = length (tag_m mgr)"
      by (simp add: tag_insert_def tag_index_def takeWhile_append)
    have c: "card (insert n (set (tag_m mgr))) = Suc (length (tag_m mgr))" using False l by simp
    show ?thesis
      using add_tag_spec[OF surjective_pairing assms(1), of n acc] n c False
      by (auto simp: add_tag_cases Let_def tag_insert_def)
  qed
qed

text \<open>the manager has room for 64 names: making a collection fails, with the assertion of
  \<open>resize_\<close>, exactly when the names known and the names asked for are more than 64.\<close>

theorem tag_limit:
  assumes "tags_wf mgr" "length (tag_m mgr) \<le> 64"
  shows "fst (createTagCollection names mgr) = Inl Tags_AssertionFailure \<longleftrightarrow>
    64 < card (set names \<union> set (tag_m mgr))"
proof -
  have "fst (add_tags names acc mgr) = Inl Tags_AssertionFailure \<longleftrightarrow>
    64 < card (set names \<union> set (tag_m mgr))" for acc
    using assms
  proof (induction names arbitrary: acc mgr)
    case Nil
    then show ?case by (simp add: ret_def tags_wf_def distinct_card)
  next
    case (Cons n ns)
    have le: "card (insert n (set (tag_m mgr))) \<le> card (set (n # ns) \<union> set (tag_m mgr))"
      by (rule card_mono) auto
    show ?case
    proof (cases "card (insert n (set (tag_m mgr))) \<le> 64")
      case True
      with add_tag_error[OF Cons.prems, of n acc] obtain t mgr' where
        a: "add_tag n acc mgr = (Inr t, mgr')" "tags_wf mgr'" "length (tag_m mgr') \<le> 64"
          "set (tag_m mgr') = insert n (set (tag_m mgr))" by auto
      then show ?thesis using Cons.IH[OF a(2,3), of t] by (simp add: bindE_def)
    next
      case False
      then have "fst (add_tag n acc mgr) = Inl Tags_AssertionFailure"
        using add_tag_error[OF Cons.prems, of n acc] by simp
      then show ?thesis using False le by (auto simp: bindE_def split: prod.splits sum.splits)
    qed
  qed
  then show ?thesis by (simp add: createTagCollection_def)
qed

theorem tag_limit_witness:
  "fst (createTagCollection [''a''] newLayerTagManager) = Inl Tags_AssertionFailure \<longleftrightarrow>
     64 < card (set [''a''] \<union> set (tag_m newLayerTagManager))"
  by (rule tag_limit) (simp_all add: newLayerTagManager_def createSingletonTagCollection_def
    add_tag_cases Let_def tag_insert_def tag_index_def is_plane_name_def tags_wf_def)

text \<open>asking a mask whether it is empty can change what it matches: the mask of a collection
  matches the same collections before and after \<open>isNone\<close> was called on it exactly when the
  collection is not empty.\<close>

theorem isNone_changes_mask:
  "matches tags (mask_of_tags t) \<noteq> matches tags (snd (mask_isNone (mask_of_tags t))) \<longleftrightarrow> t = 0"
  by (simp add: mask_isNone_def mask_of_tags_def mask_of_alts_def computeHash_def
    tags_isEmpty_def matches_def isSubset_def)

text \<open>\<open>operator<\<close> of masks, which ordered maps over masks need to be a strict order, is
  not irreflexive: a mask made of alternatives is less than itself unless it has none.\<close>

theorem mask_less_refl:
  "mask_less (mask_of_alts alts) (mask_of_alts alts) \<longleftrightarrow> alts \<noteq> []"
  by (cases alts) (simp_all add: mask_less_def mask_of_alts_def computeHash_def tags_less_def)

end
