(* ===== verification/Annotation.thy ===== *)
theory Annotation
  imports Prelude "HOL-Library.Word"
begin

unbundle bit_operations_syntax

text \<open>
  String fragments (\<open>common/string_frag.*\<close>), attribute values (\<open>common/zvalue.*\<close>, the part
  annotation items use), annotation items (\<open>common/annotation_item.*\<close>) and their manager
  (\<open>common/annotation_item_manager.*\<close>).
\<close>

section \<open>Strings of the standard library\<close>

text \<open>Positions are \<open>size_t\<close>: natural numbers below \<open>2 ^ 64\<close> whose additions wrap;
  \<open>npos\<close> is the largest one.\<close>

definition npos :: nat where
  "npos = 2 ^ 64 - 1"

definition add64 :: "nat \<Rightarrow> nat \<Rightarrow> nat" where
  "add64 a b = (a + b) mod 2 ^ 64"

definition sub64 :: "nat \<Rightarrow> nat \<Rightarrow> nat" where
  "sub64 a b = (a + 2 ^ 64 - b) mod 2 ^ 64"

datatype string_error = StringOutOfRange | StringUndefinedBehaviour

definition std_substr :: "string \<Rightarrow> nat \<Rightarrow> nat \<Rightarrow> string_error + string" where
  "std_substr s pos n = (if pos > length s then Inl StringOutOfRange else Inr (take n (drop pos s)))"

text \<open>\<open>s.find(c, pos)\<close>, \<open>npos\<close> when there is no such character.\<close>

definition std_find :: "string \<Rightarrow> char \<Rightarrow> nat \<Rightarrow> nat" where
  "std_find s c pos =
     (let k = length (takeWhile (\<lambda>d. d \<noteq> c) (drop pos s)) in
      if pos + k < length s then pos + k else npos)"

definition std_at :: "string \<Rightarrow> nat \<Rightarrow> string_error + char" where
  "std_at s pos =
     (if pos < length s then Inr (s ! pos)
      else if pos = length s then Inr (CHR 0x00)
      else Inl StringUndefinedBehaviour)"

section \<open>String fragments\<close>

text \<open>A fragment either stores its contents (\<open>begin_ = npos\<close>) or names a range of a string
  owned by somebody else. The reference \<open>src_\<close> is the referenced string as the fragment sees
  it; the owners (the lattice text above all) only ever append to it. The code is modelled as
  it is built by default, with \<open>STRING_FRAG_VALIDATION\<close> off.\<close>

record StringFrag =
  contents :: string
  src :: string
  frag_begin :: nat
  frag_len :: nat

definition ABBR_LENGTH :: nat where
  "ABBR_LENGTH = 4"

definition frag_of_string :: "string \<Rightarrow> StringFrag" where
  "frag_of_string s = \<lparr>contents = s, src = s, frag_begin = npos, frag_len = npos\<rparr>"

definition frag_empty :: StringFrag where
  "frag_empty = frag_of_string []"

definition frag_of_range :: "string \<Rightarrow> nat \<Rightarrow> nat \<Rightarrow> StringFrag" where
  "frag_of_range s b l = \<lparr>contents = [], src = s, frag_begin = b, frag_len = l\<rparr>"

definition frag_of_frag :: "StringFrag \<Rightarrow> nat \<Rightarrow> nat \<Rightarrow> StringFrag" where
  "frag_of_frag sf b l =
     \<lparr>contents = [], src = src sf, frag_begin = add64 (frag_begin sf) b, frag_len = l\<rparr>"

definition frag_stored :: "StringFrag \<Rightarrow> bool" where
  "frag_stored f \<longleftrightarrow> frag_begin f = npos"

definition frag_at :: "StringFrag \<Rightarrow> nat \<Rightarrow> string_error + char" where
  "frag_at f pos =
     (if frag_stored f then std_at (contents f) pos else std_at (src f) (add64 (frag_begin f) pos))"

definition frag_str :: "StringFrag \<Rightarrow> string_error + string" where
  "frag_str f =
     (if frag_stored f then Inr (contents f) else std_substr (src f) (frag_begin f) (frag_len f))"

definition frag_substr :: "StringFrag \<Rightarrow> nat \<Rightarrow> nat \<Rightarrow> string_error + string" where
  "frag_substr f pos n = (case frag_str f of Inl e \<Rightarrow> Inl e | Inr s \<Rightarrow> std_substr s pos n)"

text \<open>\<open>append\<close> of another fragment (not of the fragment itself).\<close>

definition frag_append :: "StringFrag \<Rightarrow> StringFrag \<Rightarrow> string_error + StringFrag" where
  "frag_append f other =
     (if \<not> frag_stored f \<and> \<not> frag_stored other \<and> src f = src other \<and>
         add64 (frag_begin f) (frag_len f) = frag_begin other
      then
        (let len = add64 (frag_len f) (frag_len other) in
         map_sum id (\<lambda>c. f\<lparr>frag_len := len, contents := c\<rparr>)
           (std_substr (src f) (frag_begin f) (min len ABBR_LENGTH)))
      else if contents f = [] then Inr other
      else
        (case (frag_str f, frag_str other) of
           (Inl e, _) \<Rightarrow> Inl e
         | (_, Inl e) \<Rightarrow> Inl e
         | (Inr s, Inr t) \<Rightarrow> Inr (f\<lparr>contents := s @ t, frag_begin := npos\<rparr>)))"

definition frag_find :: "StringFrag \<Rightarrow> char \<Rightarrow> nat \<Rightarrow> nat" where
  "frag_find f c pos =
     (if frag_stored f then std_find (contents f) c pos
      else sub64 (std_find (src f) c (add64 (frag_begin f) pos)) (frag_begin f))"

definition frag_length :: "StringFrag \<Rightarrow> nat" where
  "frag_length f = (if frag_stored f then length (contents f) else frag_len f)"

section \<open>Attribute values\<close>

text \<open>A \<open>zvalue\<close> is a tagged pointer: the null pointer, the constant \<open>DEFAULT_ZVALUE\<close>, an
  integer shifted left with the lowest bit set, or a pointer to an interned symbol, which
  stands for its string.\<close>

datatype zvalue = NULL_ZVALUE | DEFAULT_ZVALUE | ZInteger int | ZSymbol string

text \<open>\<open>INTEGER_TO_ZVALUE(i)\<close> shifts an \<open>int\<close> of 32 bits left by one: what
  \<open>ZVALUE_TO_INTEGER\<close> reads back is the low 31 bits, sign-extended.\<close>

definition integer_to_zvalue :: "int \<Rightarrow> zvalue" where
  "integer_to_zvalue i = ZInteger ((i + 2 ^ 30) mod 2 ^ 31 - 2 ^ 30)"

definition digit :: "nat \<Rightarrow> char" where
  "digit n = char_of (48 + n)"

function itoa_nat :: "nat \<Rightarrow> string" where
  "itoa_nat n = (if n < 10 then [digit n] else itoa_nat (n div 10) @ [digit (n mod 10)])"
  by pat_completeness auto
termination
  by (relation "measure id") auto

declare itoa_nat.simps [simp del]

definition itoa :: "int \<Rightarrow> string" where
  "itoa i = (if i < 0 then CHR ''-'' # itoa_nat (nat (- i)) else itoa_nat (nat i))"

fun zvalue_to_string :: "zvalue \<Rightarrow> string" where
  "zvalue_to_string NULL_ZVALUE = ''NULL_ZVALUE''"
| "zvalue_to_string DEFAULT_ZVALUE = ''UNKNOWN_ZVALUE''"
| "zvalue_to_string (ZInteger i) = itoa i"
| "zvalue_to_string (ZSymbol s) = s"

section \<open>Annotation items\<close>

record AnnotationItem =
  category :: string
  item_text :: StringFrag
  item_values :: "zvalue list"
  item_attributes :: "128 word"

datatype annotation_error = AttributesAssertionFailure

definition new_item :: "string \<Rightarrow> StringFrag \<Rightarrow> AnnotationItem" where
  "new_item cat text = \<lparr>category = cat, item_text = text, item_values = [], item_attributes = 0\<rparr>"

definition item_with_text :: "AnnotationItem \<Rightarrow> StringFrag \<Rightarrow> AnnotationItem" where
  "item_with_text item newText = item\<lparr>item_text := newText\<rparr>"

definition item_with_category :: "AnnotationItem \<Rightarrow> string \<Rightarrow> AnnotationItem" where
  "item_with_category item newCategory = item\<lparr>category := newCategory\<rparr>"

text \<open>\<open>areAttributesTheSame_\<close>: the common part is compared value by value, every value of the
  longer vector beyond it must be written as the empty string.\<close>

definition areAttributesTheSame :: "AnnotationItem \<Rightarrow> AnnotationItem \<Rightarrow> bool" where
  "areAttributesTheSame a b =
     (let smaller = min (length (item_values a)) (length (item_values b));
          longer = (if length (item_values a) > length (item_values b) then item_values a
                    else item_values b) in
      take smaller (item_values a) = take smaller (item_values b) \<and>
      list_all (\<lambda>v. zvalue_to_string v = []) (drop smaller longer))"

text \<open>\<open>operator==\<close>; \<open>getText\<close> of an item whose fragment is out of range throws, which
  compares as a failure here.\<close>

definition item_eq :: "AnnotationItem \<Rightarrow> AnnotationItem \<Rightarrow> bool" where
  "item_eq a b \<longleftrightarrow> category a = category b \<and> frag_str (item_text a) = frag_str (item_text b) \<and>
     areAttributesTheSame a b"

text \<open>\<open>resize_\<close>, with its assertion.\<close>

definition item_resize :: "nat \<Rightarrow> AnnotationItem \<Rightarrow> annotation_error + AnnotationItem" where
  "item_resize sz item =
     (let vs = item_values item in
      if sz > 128 then Inl AttributesAssertionFailure
      else Inr (if sz > length vs
                then item\<lparr>item_values := vs @ replicate (sz - length vs) NULL_ZVALUE\<rparr> else item))"

section \<open>The annotation item manager\<close>

text \<open>The manager's bimap is, as for layer tags, the list of attribute names in index order.
  An operation that sets attributes works on the manager and the item.\<close>

type_synonym 'a item_prog = "(annotation_error, string list \<times> AnnotationItem, 'a) prog"

definition attr_insert :: "string \<Rightarrow> string list \<Rightarrow> string list" where
  "attr_insert a m = (if a \<in> set m then m else m @ [a])"

definition attr_index :: "string \<Rightarrow> string list \<Rightarrow> nat" where
  "attr_index a m = length (takeWhile (\<lambda>n. n \<noteq> a) m)"

definition setValue :: "string \<Rightarrow> zvalue \<Rightarrow> unit item_prog" where
  "setValue attribute v =
     thenE (modify (\<lambda>(m, item). (attr_insert attribute m, item)))
       (bindE (gets (\<lambda>(m, item). attr_index attribute m)) (\<lambda>ix.
          bindE (getsE (\<lambda>(m, item). if ix \<ge> length (item_values item) then item_resize (ix + 1) item
                                     else Inr item)) (\<lambda>item.
            modify (\<lambda>(m, _). (m, item\<lparr>item_values := (item_values item)[ix := v],
                                       item_attributes := set_bit ix (item_attributes item)\<rparr>)))))"

definition getValue :: "string \<Rightarrow> string list \<times> AnnotationItem \<Rightarrow> zvalue" where
  "getValue attribute = (\<lambda>(m, item).
     if attribute \<notin> set m then NULL_ZVALUE
     else if bit (item_attributes item) (attr_index attribute m)
     then item_values item ! attr_index attribute m
     else NULL_ZVALUE)"

definition getValuesAsZvalues :: "string list \<Rightarrow> AnnotationItem \<Rightarrow> (string \<times> zvalue) list" where
  "getValuesAsZvalues m item =
     map (\<lambda>i. (m ! i, item_values item ! i)) (filter (bit (item_attributes item)) [0..<length m])"

text \<open>\<open>addValues(targetItem, sourceItem)\<close>.\<close>

fun setValues :: "(string \<times> zvalue) list \<Rightarrow> unit item_prog" where
  "setValues [] = ret ()"
| "setValues ((a, v) # avs) = thenE (setValue a v) (setValues avs)"

definition addValues :: "AnnotationItem \<Rightarrow> unit item_prog" where
  "addValues sourceItem =
     bindE (gets (\<lambda>(m, _). getValuesAsZvalues m sourceItem)) setValues"

text \<open>Conversions between strings and values.\<close>

definition NUL_free_prefix :: "string \<Rightarrow> string" where
  "NUL_free_prefix s = takeWhile (\<lambda>c. c \<noteq> CHR 0x00) s"

definition stringToZvalue :: "string \<Rightarrow> zvalue" where
  "stringToZvalue s = ZSymbol (NUL_free_prefix s)"

definition from_string :: "string \<Rightarrow> zvalue" where
  "from_string s =
     (if s = ''any'' \<or> s = ''nil'' then DEFAULT_ZVALUE
      else if s = ''fail'' \<or> s = ''false'' \<or> s = ''empty'' then NULL_ZVALUE
      else stringToZvalue s)"

definition to_string :: "zvalue \<Rightarrow> string" where
  "to_string v =
     (if v = DEFAULT_ZVALUE then ''nil''
      else if v = NULL_ZVALUE then ''fail''
      else zvalue_to_string v)"

text \<open>Reading an \<open>int\<close> from a stream: white space, a sign, decimal digits; the value and the
  characters left, \<open>None\<close> when there are no digits or the value is out of range.\<close>

definition is_space :: "char \<Rightarrow> bool" where
  "is_space c \<longleftrightarrow> c = CHR '' '' \<or> (0x09 \<le> (of_char c :: nat) \<and> (of_char c :: nat) \<le> 0x0D)"

definition is_digit :: "char \<Rightarrow> bool" where
  "is_digit c \<longleftrightarrow> 48 \<le> (of_char c :: nat) \<and> (of_char c :: nat) \<le> 57"

definition digits_value :: "string \<Rightarrow> nat" where
  "digits_value ds = foldl (\<lambda>n c. n * 10 + (of_char c - 48)) 0 ds"

definition read_int :: "string \<Rightarrow> (int \<times> string) option" where
  "read_int s =
     (let s1 = dropWhile is_space s;
          neg = (s1 \<noteq> [] \<and> hd s1 = CHR ''-'');
          s2 = (if s1 \<noteq> [] \<and> (hd s1 = CHR ''-'' \<or> hd s1 = CHR ''+'') then tl s1 else s1);
          ds = takeWhile is_digit s2;
          v = (if neg then - int (digits_value ds) else int (digits_value ds)) in
      if ds = [] \<or> v < - (2 ^ 31) \<or> v \<ge> 2 ^ 31 then None else Some (v, dropWhile is_digit s2))"

definition string_to_value :: "string \<Rightarrow> zvalue" where
  "string_to_value v =
     (case read_int v of
        Some (i, []) \<Rightarrow> integer_to_zvalue i
      | _ \<Rightarrow> from_string v)"

definition setValueFromString :: "string \<Rightarrow> string \<Rightarrow> unit item_prog" where
  "setValueFromString attribute v = setValue attribute (string_to_value v)"

definition getValueAsString :: "string \<Rightarrow> string list \<times> AnnotationItem \<Rightarrow> string" where
  "getValueAsString attribute st = to_string (getValue attribute st)"

definition getValues :: "string list \<Rightarrow> AnnotationItem \<Rightarrow> (string \<times> string) list" where
  "getValues m item = map (\<lambda>(a, v). (a, to_string v)) (getValuesAsZvalues m item)"

text \<open>\<open>getAVMap\<close> inserts the pairs into a \<open>std::map\<close>, which keeps the first value of a key.\<close>

definition getAVMap :: "string list \<Rightarrow> AnnotationItem \<Rightarrow> string \<Rightarrow> string option" where
  "getAVMap m item = map_of (getValues m item)"

section \<open>Fragments\<close>

definition frag_ok :: "StringFrag \<Rightarrow> bool" where
  "frag_ok f \<longleftrightarrow> (if frag_stored f then length (contents f) < npos
     else frag_begin f + frag_len f \<le> length (src f) \<and> length (src f) < npos \<and>
       (contents f = [] \<or> contents f = take (min (frag_len f) ABBR_LENGTH) (drop (frag_begin f) (src f))))"

definition frag_text :: "StringFrag \<Rightarrow> string" where
  "frag_text f = (if frag_stored f then contents f else take (frag_len f) (drop (frag_begin f) (src f)))"

lemma frag_str_ok: "frag_ok f \<Longrightarrow> frag_str f = Inr (frag_text f)"
  by (auto simp: frag_ok_def frag_str_def frag_text_def std_substr_def split: if_splits)

lemma frag_length_ok: "frag_ok f \<Longrightarrow> frag_length f = length (frag_text f)"
  by (auto simp: frag_ok_def frag_length_def frag_text_def)

lemma add64_small: "a + b \<le> npos \<Longrightarrow> add64 a b = a + b"
  by (simp add: add64_def npos_def)

lemma sub64_small: "b \<le> a \<Longrightarrow> a \<le> npos \<Longrightarrow> sub64 a b = a - b"
proof -
  assume "b \<le> a" "a \<le> npos"
  then have e: "a + 2 ^ 64 - b = (a - b) + 2 ^ 64" "a - b < 2 ^ 64" by (simp_all add: npos_def)
  show ?thesis unfolding sub64_def e(1) by (simp only: mod_add_self2 mod_less[OF e(2)])
qed

lemma take_drop_split: "take (k + l) (drop a s) = take k (drop a s) @ take l (drop (a + k) s)"
  by (simp add: take_add add.commute)

text \<open>When the second fragment starts where the first one ends in the same string.\<close>

definition frag_adjacent :: "StringFrag \<Rightarrow> StringFrag \<Rightarrow> bool" where
  "frag_adjacent f g \<longleftrightarrow> \<not> frag_stored f \<and> \<not> frag_stored g \<and> src f = src g \<and>
     frag_begin f + frag_len f = frag_begin g"

lemma frag_append_ok:
  assumes "frag_ok f" "frag_ok g"
  shows "frag_append f g =
    (if frag_adjacent f g then
       Inr (f\<lparr>frag_len := frag_len f + frag_len g,
              contents := take (min (frag_len f + frag_len g) ABBR_LENGTH) (drop (frag_begin f) (src f))\<rparr>)
     else if contents f = [] then Inr g
     else Inr (f\<lparr>contents := frag_text f @ frag_text g, frag_begin := npos\<rparr>))"
proof -
  have 1: "add64 (frag_begin f) (frag_len f) = frag_begin f + frag_len f" if "\<not> frag_stored f"
    using assms(1) that by (intro add64_small) (auto simp: frag_ok_def)
  have 2: "add64 (frag_len f) (frag_len g) = frag_len f + frag_len g" if "frag_adjacent f g"
    using assms that by (intro add64_small) (auto simp: frag_ok_def frag_adjacent_def)
  have 3: "frag_begin f \<le> length (src f)" if "\<not> frag_stored f"
    using assms(1) that by (simp add: frag_ok_def)
  show ?thesis
  proof (cases "frag_adjacent f g")
    case True
    then show ?thesis using 1 2 3
      by (simp add: frag_append_def frag_adjacent_def std_substr_def Let_def)
  next
    case False
    then have "\<not> (\<not> frag_stored f \<and> \<not> frag_stored g \<and> src f = src g \<and>
        add64 (frag_begin f) (frag_len f) = frag_begin g)"
      using 1 by (auto simp: frag_adjacent_def)
    with False show ?thesis
      using frag_str_ok[OF assms(1)] frag_str_ok[OF assms(2)] by (auto simp: frag_append_def)
  qed
qed

lemma frag_append_text:
  assumes "frag_ok f" "frag_ok g" "frag_append f g = Inr h"
  shows "frag_text h =
    (if frag_adjacent f g \<or> contents f \<noteq> [] then frag_text f @ frag_text g else frag_text g)"
  using assms(3) unfolding frag_append_ok[OF assms(1,2)]
  by (auto simp: frag_text_def frag_stored_def frag_adjacent_def take_drop_split split: if_splits)

lemma frag_append_keeps_ok:
  assumes "frag_ok f" "frag_ok g" "length (frag_text f) + length (frag_text g) < npos" "frag_append f g = Inr h"
  shows "frag_ok h"
  using assms(4) assms(1-3) unfolding frag_append_ok[OF assms(1,2)]
  by (auto simp: frag_ok_def frag_stored_def frag_adjacent_def split: if_splits)

section \<open>The attribute store\<close>

text \<open>What a client of the manager relies on: setting an attribute changes this attribute only,
  unless it fails.\<close>

fun set_all :: "('k \<Rightarrow> 'v \<Rightarrow> 's \<Rightarrow> 's option) \<Rightarrow> ('k \<times> 'v) list \<Rightarrow> 's \<Rightarrow> 's option" where
  "set_all st [] s = Some s"
| "set_all st ((k, v) # kvs) s = (case st k v s of None \<Rightarrow> None | Some s' \<Rightarrow> set_all st kvs s')"

locale attribute_store =
  fixes st :: "'k \<Rightarrow> 'v \<Rightarrow> 's \<Rightarrow> 's option"
    and get :: "'k \<Rightarrow> 's \<Rightarrow> 'v"
    and ok :: "'s \<Rightarrow> bool"
  assumes st_ok: "ok s \<Longrightarrow> st k v s = Some s' \<Longrightarrow> ok s'"
    and get_st: "ok s \<Longrightarrow> st k v s = Some s' \<Longrightarrow> get k' s' = (if k' = k then v else get k' s)"
begin

lemma set_all_ok: "ok s \<Longrightarrow> set_all st kvs s = Some s' \<Longrightarrow> ok s'"
  by (induction kvs arbitrary: s) (auto split: option.splits, metis st_ok)

lemma get_set_all:
  "ok s \<Longrightarrow> set_all st kvs s = Some s' \<Longrightarrow> distinct (map fst kvs) \<Longrightarrow>
   get k s' = (case map_of kvs k of Some v \<Rightarrow> v | None \<Rightarrow> get k s)"
proof (induction kvs arbitrary: s)
  case (Cons kv kvs)
  obtain a v where kv: "kv = (a, v)" by (cases kv)
  with Cons.prems(2) obtain s1 where s1: "st a v s = Some s1" "set_all st kvs s1 = Some s'"
    by (auto split: option.splits)
  have "map_of kvs a = None" using Cons.prems(3) kv by (auto simp: map_of_eq_None_iff)
  then show ?case
    using Cons.IH[OF st_ok[OF Cons.prems(1) s1(1)] s1(2)] Cons.prems(3) kv
      get_st[OF Cons.prems(1) s1(1), of k]
    by (auto split: option.splits)
qed simp

end

definition item_ok :: "string list \<times> AnnotationItem \<Rightarrow> bool" where
  "item_ok = (\<lambda>(m, item). distinct m \<and> length (item_values item) \<le> 128 \<and>
     (\<forall>i. bit (item_attributes item) i \<longrightarrow> i < length (item_values item) \<and> i < length m))"

definition set_value :: "string \<Rightarrow> zvalue \<Rightarrow> string list \<times> AnnotationItem \<Rightarrow> (string list \<times> AnnotationItem) option" where
  "set_value a v s = (case setValue a v s of (Inl _, _) \<Rightarrow> None | (Inr _, s') \<Rightarrow> Some s')"

lemma attr_insert_simps [simp]: "set (attr_insert a m) = insert a (set m)"
  "distinct (attr_insert a m) = distinct m"
  by (auto simp: attr_insert_def)

lemma attr_index_less: "a \<in> set m \<Longrightarrow> attr_index a m < length m"
  and nth_attr_index: "a \<in> set m \<Longrightarrow> m ! attr_index a m = a"
  by (simp_all add: attr_index_def length_takeWhile_neq nth_length_takeWhile_neq)

lemma attr_index_insert: "b \<in> set m \<Longrightarrow> attr_index b (attr_insert a m) = attr_index b m"
  by (auto simp: attr_index_def attr_insert_def takeWhile_append)

lemma attr_index_eq: "a \<in> set m \<Longrightarrow> b \<in> set m \<Longrightarrow> attr_index a m = attr_index b m \<longleftrightarrow> a = b"
  using nth_attr_index by metis

lemma bit_set_bit_128: "bit (set_bit n (t :: 128 word)) i \<longleftrightarrow> (n < 128 \<and> i = n) \<or> bit t i"
  using bit_imp_le_length[of t i] by (auto simp: bit_set_bit_iff)

lemma set_value_Some:
  "set_value a v (m, item) = Some (m', item') \<longleftrightarrow>
     (let ix = attr_index a (attr_insert a m);
          vs = (if ix \<ge> length (item_values item)
                then item_values item @ replicate (ix + 1 - length (item_values item)) NULL_ZVALUE
                else item_values item) in
      m' = attr_insert a m \<and> (ix \<ge> length (item_values item) \<longrightarrow> ix < 128) \<and>
      item' = item\<lparr>item_values := vs[ix := v], item_attributes := set_bit ix (item_attributes item)\<rparr>)"
  by (auto simp: set_value_def setValue_def prog_defs item_resize_def Let_def)

lemma set_value_ok:
  assumes "item_ok (m, item)" "set_value a v (m, item) = Some (m', item')"
  shows "item_ok (m', item')"
proof -
  have "length m \<le> length (attr_insert a m)" by (simp add: attr_insert_def)
  then show ?thesis
    using assms attr_index_less[of a "attr_insert a m"] unfolding set_value_Some
    by (auto simp: item_ok_def Let_def bit_set_bit_128 split: if_splits)
qed

lemma bit_attr_known:
  "item_ok (m, item) \<Longrightarrow> bit (item_attributes item) (attr_index b (attr_insert a m)) \<Longrightarrow> b \<in> set (attr_insert a m) \<Longrightarrow> b \<in> set m"
  by (auto simp: item_ok_def attr_index_def attr_insert_def takeWhile_append split: if_splits)

lemma get_set_value:
  assumes "item_ok (m, item)" "set_value a v (m, item) = Some (m', item')"
  shows "getValue b (m', item') = (if b = a then v else getValue b (m, item))"
proof -
  let ?ix = "attr_index a (attr_insert a m)"
  from assms(2) have ix: "?ix < 128" and m': "m' = attr_insert a m"
    using assms(1) by (auto simp: set_value_Some Let_def item_ok_def)
  show ?thesis
  proof (cases "b = a")
    case True
    then show ?thesis using assms ix unfolding set_value_Some
      by (auto simp: getValue_def Let_def bit_set_bit_128)
  next
    case False
    then have ne: "b \<in> set m \<Longrightarrow> attr_index b m \<noteq> ?ix"
      using attr_index_eq[of b "attr_insert a m" a] attr_index_insert[of b m a] by auto
    show ?thesis
    proof (cases "b \<in> set m")
      case True
      then show ?thesis using assms False ne unfolding set_value_Some
        by (auto simp: getValue_def Let_def bit_set_bit_128 attr_index_insert item_ok_def nth_append)
    next
      case notin: False
      then show ?thesis using False m' by (simp add: getValue_def)
    qed
  qed
qed

interpretation attrs: attribute_store set_value getValue item_ok
proof (unfold_locales, goal_cases)
  case (1 s a v s')
  then show ?case using set_value_ok by (cases s; cases s') auto
next
  case (2 s a v s' b)
  then show ?case using get_set_value by (cases s; cases s') auto
qed

lemma setValues_set_all: "setValues kvs s = (Inr u, s') \<longleftrightarrow> set_all set_value kvs s = Some s'"
proof (induction kvs arbitrary: s)
  case (Cons kv kvs)
  then show ?case
    by (cases kv) (auto simp: thenE_def bindE_def set_value_def split: prod.splits sum.splits)
qed (auto simp: ret_def)

section \<open>Integers as text\<close>

lemma of_char_digit [simp]: "n < 10 \<Longrightarrow> (of_char (digit n) :: nat) = 48 + n"
  by (simp add: digit_def)

lemma is_digit_digit [simp]: "n < 10 \<Longrightarrow> is_digit (digit n)"
  by (simp add: is_digit_def)

lemma itoa_nat_props: "itoa_nat n \<noteq> [] \<and> (\<forall>c \<in> set (itoa_nat n). is_digit c) \<and> digits_value (itoa_nat n) = n"
proof (induction n rule: itoa_nat.induct)
  case (1 n)
  show ?case
  proof (cases "n < 10")
    case True
    then show ?thesis by (simp add: itoa_nat.simps[of n] digits_value_def)
  next
    case False
    with 1 show ?thesis by (simp add: itoa_nat.simps[of n] digits_value_def)
  qed
qed

lemma digit_not_space: "is_digit c \<Longrightarrow> \<not> is_space c \<and> c \<noteq> CHR ''-'' \<and> c \<noteq> CHR ''+''"
  by (auto simp: is_digit_def is_space_def)

lemma takeWhile_all: "\<forall>c \<in> set xs. P c \<Longrightarrow> takeWhile P xs = xs \<and> dropWhile P xs = []"
  by (induction xs) auto

lemma dropWhile_hd: "\<not> P (hd xs) \<Longrightarrow> dropWhile P xs = xs"
  by (cases xs) auto

lemma read_int_itoa:
  assumes "- (2 ^ 31) \<le> i" "i < 2 ^ 31"
  shows "read_int (itoa i) = Some (i, [])"
proof -
  define ds where "ds = itoa_nat (nat \<bar>i\<bar>)"
  have p: "ds \<noteq> []" "\<forall>c \<in> set ds. is_digit c" "digits_value ds = nat \<bar>i\<bar>"
    using itoa_nat_props[of "nat \<bar>i\<bar>"] by (simp_all add: ds_def)
  have h: "is_digit (hd ds)" using p(1,2) by (simp add: hd_in_set)
  note nd = digit_not_space[OF h] 
  have tw: "takeWhile is_digit ds = ds" "dropWhile is_digit ds = []" using takeWhile_all[OF p(2)] by auto
  have sp: "\<not> is_space (CHR ''-'')" by (simp add: is_space_def)
  show ?thesis
  proof (cases "i < 0")
    case True
    then have "itoa i = CHR ''-'' # ds" by (simp add: itoa_def ds_def)
    then show ?thesis using True assms p sp by (simp add: read_int_def Let_def tw)
  next
    case False
    then have "itoa i = ds" by (simp add: itoa_def ds_def)
    moreover have "dropWhile is_space ds = ds" by (rule dropWhile_hd) (simp add: nd)
    ultimately show ?thesis using False assms p nd by (simp add: read_int_def Let_def tw)
  qed
qed

lemma integer_to_zvalue_eq:
  "integer_to_zvalue i = ZInteger i \<longleftrightarrow> - (2 ^ 30) \<le> i \<and> i < 2 ^ 30"
proof
  assume "integer_to_zvalue i = ZInteger i"
  then have "(i + 2 ^ 30) mod 2 ^ 31 = i + 2 ^ 30" by (simp add: integer_to_zvalue_def)
  moreover have "0 \<le> (i + 2 ^ 30) mod 2 ^ 31" "(i + 2 ^ 30) mod 2 ^ 31 < 2 ^ 31" by simp_all
  ultimately show "- (2 ^ 30) \<le> i \<and> i < 2 ^ 30" by simp
next
  assume "- (2 ^ 30) \<le> i \<and> i < 2 ^ 30"
  then have "(i + 2 ^ 30) mod 2 ^ 31 = i + 2 ^ 30" by (intro mod_pos_pos_trivial) simp_all
  then show "integer_to_zvalue i = ZInteger i" by (simp add: integer_to_zvalue_def)
qed

section \<open>Properties\<close>

text \<open>appending a fragment appends its text, unless the first fragment is a range of more than
  nothing that has not been appended to and the second one does not follow it in the same
  string: then the text of the first one is lost.\<close>

theorem frag_append_exact:
  assumes "frag_ok f" "frag_ok g" "frag_append f g = Inr h"
  shows "frag_text h = frag_text f @ frag_text g \<longleftrightarrow>
    frag_adjacent f g \<or> contents f \<noteq> [] \<or> frag_text f = []"
  unfolding frag_append_text[OF assms] by simp

theorem frag_append_exact_witness:
  "frag_text (frag_of_range ''zb'' 1 1) = frag_text (frag_of_range ''a'' 0 1) @ frag_text (frag_of_range ''zb'' 1 1) \<longleftrightarrow>
    frag_adjacent (frag_of_range ''a'' 0 1) (frag_of_range ''zb'' 1 1) \<or>
    contents (frag_of_range ''a'' 0 1) \<noteq> [] \<or> frag_text (frag_of_range ''a'' 0 1) = []"
  by (rule frag_append_exact)
    (simp_all add: frag_ok_def frag_of_range_def frag_stored_def npos_def frag_append_def add64_def)

text \<open>a fragment of a fragment is the part of its text when the fragment is a range, but a
  fragment of a fragment that stores its text starts at the wrong place: taken from position 0
  it is empty.\<close>

theorem frag_of_frag_text:
  assumes "frag_ok sf" "b + l \<le> length (frag_text sf)"
  shows "if frag_stored sf then frag_str (frag_of_frag sf 0 l) = Inr []
    else frag_str (frag_of_frag sf b l) = Inr (take l (drop b (frag_text sf)))"
proof (cases "frag_stored sf")
  case True
  then show ?thesis
    by (simp add: frag_of_frag_def frag_str_def frag_stored_def add64_def npos_def)
next
  case False
  then have f: "frag_begin sf + frag_len sf \<le> length (src sf)" "length (src sf) < npos"
    using assms(1) by (simp_all add: frag_ok_def)
  then have l: "b + l \<le> frag_len sf" using assms(2) False by (simp add: frag_text_def)
  then have "add64 (frag_begin sf) b = frag_begin sf + b" "frag_begin sf + b < npos"
    using f by (auto intro: add64_small)
  moreover have "take l (drop b (take (frag_len sf) (drop (frag_begin sf) (src sf)))) =
      take l (drop (frag_begin sf + b) (src sf))"
    using l by (simp add: drop_take add.commute)
  ultimately show ?thesis using False f l
    by (simp add: frag_of_frag_def frag_str_def frag_stored_def std_substr_def frag_text_def)
qed

theorem frag_of_frag_text_witness:
  "if frag_stored (frag_of_range ''abcd'' 1 3) then frag_str (frag_of_frag (frag_of_range ''abcd'' 1 3) 0 2) = Inr []
    else frag_str (frag_of_frag (frag_of_range ''abcd'' 1 3) 1 2) =
      Inr (take 2 (drop 1 (frag_text (frag_of_range ''abcd'' 1 3))))"
  by (rule frag_of_frag_text)
    (simp_all add: frag_ok_def frag_of_range_def frag_stored_def npos_def frag_text_def)

text \<open>C33: after \<open>addValues\<close> every attribute of the target has the value the source has for it, when
  the source has it, and its old value otherwise.\<close>

theorem addValues_get:
  assumes "item_ok (m, target)" "item_ok (m, source)"
    and "addValues source (m, target) = (Inr (), s')"
  shows "getValue a s' = (if a \<in> fst ` set (getValuesAsZvalues m source) then getValue a (m, source)
    else getValue a (m, target))"
proof -
  let ?kvs = "getValuesAsZvalues m source"
  have "set_all set_value ?kvs (m, target) = Some s'"
    using assms(3) by (simp add: addValues_def bindE_def gets_def setValues_set_all)
  moreover have d: "distinct (map fst ?kvs)"
    using assms(2) by (auto simp: getValuesAsZvalues_def comp_def distinct_map inj_on_def item_ok_def nth_eq_iff_index_eq)
  ultimately have "getValue a s' = (case map_of ?kvs a of Some v \<Rightarrow> v | None \<Rightarrow> getValue a (m, target))"
    by (rule attrs.get_set_all[OF assms(1)])
  moreover have "v = getValue a (m, source)" if av: "map_of ?kvs a = Some v" for v
  proof -
    from map_of_SomeD[OF av] obtain i where i: "i < length m" "bit (item_attributes source) i" "a = m ! i"
      "v = item_values source ! i" by (auto simp: getValuesAsZvalues_def)
    have "distinct m" using assms(2) by (simp add: item_ok_def)
    moreover have "a \<in> set m" using i by simp
    ultimately have "attr_index a m = i"
      using i attr_index_less[of a m] nth_attr_index[of a m] nth_eq_iff_index_eq by metis
    then show ?thesis using i by (simp add: getValue_def)
  qed
  ultimately show ?thesis
    by (cases "map_of ?kvs a") (auto simp: map_of_eq_None_iff dest: map_of_SomeD intro: rev_image_eqI)
qed

theorem addValues_get_witness:
  "getValue ''b'' ([''a'', ''b''], \<lparr>category = [], item_text = frag_empty, item_values = [ZInteger 1, ZInteger 5], item_attributes = 3\<rparr>) =
    (if ''b'' \<in> fst ` set (getValuesAsZvalues [''a'', ''b'']
        \<lparr>category = [], item_text = frag_empty, item_values = [NULL_ZVALUE, ZInteger 5], item_attributes = 2\<rparr>)
     then getValue ''b'' ([''a'', ''b''], \<lparr>category = [], item_text = frag_empty, item_values = [NULL_ZVALUE, ZInteger 5], item_attributes = 2\<rparr>)
     else getValue ''b'' ([''a'', ''b''], \<lparr>category = [], item_text = frag_empty, item_values = [ZInteger 1], item_attributes = 1\<rparr>))"
proof (rule addValues_get)
  show "item_ok ([''a'', ''b''], \<lparr>category = [], item_text = frag_empty, item_values = [ZInteger 1], item_attributes = 1\<rparr>)"
    by (simp add: item_ok_def bit_1_iff)
  show "item_ok ([''a'', ''b''], \<lparr>category = [], item_text = frag_empty,
      item_values = [NULL_ZVALUE, ZInteger 5], item_attributes = 2\<rparr>)"
    by (auto simp: item_ok_def bit_numeral_rec numeral_One bit_1_iff split: nat.splits)
  have g: "getValuesAsZvalues [''a'', ''b''] \<lparr>category = [], item_text = frag_empty,
      item_values = [NULL_ZVALUE, ZInteger 5], item_attributes = 2\<rparr> = [(''b'', ZInteger 5)]"
    by (simp add: getValuesAsZvalues_def upt_rec bit_numeral_rec)
  show "addValues \<lparr>category = [], item_text = frag_empty, item_values = [NULL_ZVALUE, ZInteger 5], item_attributes = 2\<rparr>
      ([''a'', ''b''], \<lparr>category = [], item_text = frag_empty, item_values = [ZInteger 1], item_attributes = 1\<rparr>) =
    (Inr (), [''a'', ''b''], \<lparr>category = [], item_text = frag_empty, item_values = [ZInteger 1, ZInteger 5], item_attributes = 3\<rparr>)"
    by (simp add: addValues_def g bindE_def gets_def setValue_def thenE_def modify_def getsE_def ret_def
      attr_insert_def attr_index_def item_resize_def Let_def set_bit_eq_or)
qed

text \<open>C34: an attribute set from a decimal numeral is read back as the same numeral exactly when the
  number fits in 31 bits with its sign.\<close>

theorem int_value_roundtrip:
  assumes "item_ok (m, item)" "- (2 ^ 31) \<le> i" "i < 2 ^ 31"
    and "setValueFromString a (itoa i) (m, item) = (Inr (), s')"
  shows "getValueAsString a s' = itoa i \<longleftrightarrow> - (2 ^ 30) \<le> i \<and> i < 2 ^ 30"
proof -
  have v: "string_to_value (itoa i) = integer_to_zvalue i"
    by (simp add: string_to_value_def read_int_itoa[OF assms(2,3)])
  have "set_value a (integer_to_zvalue i) (m, item) = Some s'"
    using assms(4) by (simp add: setValueFromString_def v set_value_def)
  then have "getValue a s' = integer_to_zvalue i" using attrs.get_st[OF assms(1)] by simp
  then have g: "getValueAsString a s' = itoa ((i + 2 ^ 30) mod 2 ^ 31 - 2 ^ 30)"
    by (simp add: getValueAsString_def to_string_def integer_to_zvalue_def)
  let ?j = "(i + 2 ^ 30) mod 2 ^ 31 - 2 ^ 30"
  have "?j \<ge> - (2 ^ 31)" "?j < 2 ^ 31"
    using pos_mod_bound[of "2 ^ 31" "i + 2 ^ 30"] pos_mod_sign[of "2 ^ 31" "i + 2 ^ 30"] by simp_all
  then have "itoa ?j = itoa i \<longleftrightarrow> ?j = i"
    using read_int_itoa[of ?j] read_int_itoa[OF assms(2,3)] by auto
  then show ?thesis using g integer_to_zvalue_eq[of i] by (simp add: integer_to_zvalue_def)
qed

theorem int_value_roundtrip_witness:
  "getValueAsString ''n'' ([''n''], \<lparr>category = [], item_text = frag_empty, item_values = [ZInteger (- 1073741824)], item_attributes = 1\<rparr>) =
     itoa 1073741824 \<longleftrightarrow> - (2 ^ 30) \<le> (1073741824 :: int) \<and> (1073741824 :: int) < 2 ^ 30"
proof (rule int_value_roundtrip)
  show "item_ok ([], \<lparr>category = [], item_text = frag_empty, item_values = [], item_attributes = 0\<rparr>)"
    by (simp add: item_ok_def)
  have "string_to_value (itoa 1073741824) = ZInteger (- 1073741824)"
    by (simp add: string_to_value_def read_int_itoa integer_to_zvalue_def)
  then show "setValueFromString ''n'' (itoa 1073741824)
      ([], \<lparr>category = [], item_text = frag_empty, item_values = [], item_attributes = 0\<rparr>) =
    (Inr (), [''n''], \<lparr>category = [], item_text = frag_empty, item_values = [ZInteger (- 1073741824)], item_attributes = 1\<rparr>)"
    by (simp add: setValueFromString_def setValue_def prog_defs attr_insert_def attr_index_def
      item_resize_def Let_def set_bit_eq_or)
qed simp_all

text \<open>the comparison of items distinguishes what no accessor does: an item and the same item
  with one more attribute set to the false value have the same values for every attribute, yet
  they are not equal.\<close>

theorem null_attribute_unequal:
  assumes "item_ok (m, item)" "setValue a NULL_ZVALUE (m, item) = (Inr (), (m', item'))"
    and "a \<notin> set m" "length (item_values item) = length m"
  shows "\<not> item_eq item item' \<and> getValue b (m', item') = getValue b (m', item)"
proof -
  have s: "set_value a NULL_ZVALUE (m, item) = Some (m', item')"
    using assms(2) by (simp add: set_value_def)
  have ix: "attr_index a (m @ [a]) = length m"
    using assms(3) by (simp add: attr_index_def takeWhile_append)
  have "(item_values item @ [NULL_ZVALUE])[length m := NULL_ZVALUE] = item_values item @ [NULL_ZVALUE]"
    by (simp add: list_update_append assms(4))
  with s have v: "item_values item' = item_values item @ [NULL_ZVALUE]" "m' = m @ [a]"
    unfolding set_value_Some by (simp_all add: Let_def attr_insert_def ix assms(3,4))
  have "\<not> bit (item_attributes item) (length m)" using assms(1) by (auto simp: item_ok_def)
  then have n: "getValue b (m', item) = getValue b (m, item)"
    by (auto simp: getValue_def v(2) ix attr_index_insert[of b m a, unfolded attr_insert_def] assms(3)
      attr_index_def takeWhile_append)
  have "getValue b (m, item) = NULL_ZVALUE" if "b = a" using that assms(3) by (simp add: getValue_def)
  then have "getValue b (m', item') = getValue b (m', item)"
    using get_set_value[OF assms(1) s, of b] n by auto
  then show ?thesis by (simp add: item_eq_def areAttributesTheSame_def v Let_def)
qed

theorem null_attribute_unequal_witness:
  "\<not> item_eq (new_item ''c'' frag_empty)
       ((new_item ''c'' frag_empty)\<lparr>item_values := [NULL_ZVALUE], item_attributes := 1\<rparr>) \<and>
   getValue ''g'' ([''g''], (new_item ''c'' frag_empty)\<lparr>item_values := [NULL_ZVALUE], item_attributes := 1\<rparr>) =
   getValue ''g'' ([''g''], new_item ''c'' frag_empty)"
proof (rule null_attribute_unequal)
  show "item_ok ([], new_item ''c'' frag_empty)" by (simp add: item_ok_def new_item_def)
  show "setValue ''g'' NULL_ZVALUE ([], new_item ''c'' frag_empty) =
      (Inr (), [''g''], (new_item ''c'' frag_empty)\<lparr>item_values := [NULL_ZVALUE], item_attributes := 1\<rparr>)"
    by (simp add: new_item_def setValue_def prog_defs attr_insert_def attr_index_def item_resize_def set_bit_eq_or)
qed (simp_all add: new_item_def)

end
