(* ===== verification/Lattice.thy ===== *)
theory Lattice
  imports Prelude Utf8 Layer_Tags Annotation Complex_Main
begin

text \<open>
  The lattice (\<open>common/lattice.hpp\<close>, \<open>common/lattice.cpp\<close>): the graph of annotations over a
  text that every processor of a pipeline reads and extends. This theory holds its state, the
  access to edges, the iterators over the edges of a vertex and the addition of edges;
  \<open>Lattice_Ops\<close> holds the operations built on them.

  Vertices of the text are their byte offsets, loose vertices negative numbers. The Boost
  graph is two lists, of vertices and of edges, whose descriptors are positions: the code
  never removes either. A character edge with the tag \<open>symbol\<close> only is implicit: one bit in
  \<open>implicitOutEdges_\<close>.
\<close>

section \<open>State\<close>

datatype lattice_error = NoEdgeException | NoVertexException | WrongVertexException
  | EdgeSelfReferenceException | ReversedEdgeException | LoopEdgeException
  | EdgeInsertionException | Lattice_Utf8 utf8_exception | Lattice_Tags tag_error
  | Lattice_String string_error | CutterException | NotADag
  | UndefinedBehaviour \<comment> \<open>an access out of range\<close>
  | Diverges \<comment> \<open>a loop that ran out of fuel\<close>

text \<open>\<open>EdgeDescriptor\<close>: an edge of the Boost graph, or the implicit edge that leaves a position
  (\<open>implicitIndex >= 0\<close>). The equality of the code is the equality of this type.\<close>

datatype EdgeDescriptor = ExplicitEdge nat | ImplicitEdge nat

type_synonym VertexDescriptor = int

type_synonym EdgeUsage = "EdgeDescriptor \<times> zvalue"

record EdgeSequence =
  links :: "EdgeUsage list"
  seq_begin :: int
  seq_end :: int

definition emptySequence :: EdgeSequence where
  "emptySequence = \<lparr>links = [], seq_begin = 0, seq_end = 0\<rparr>"

text \<open>Scores are \<open>double\<close>s that are only compared and stored.\<close>

record Partition =
  part_sequence :: EdgeSequence
  part_tags :: LayerTagCollection
  part_score :: rat
  part_ruleId :: int
  part_treeChoice :: int

record VertexEntry =
  v_index :: int
  outEdgesIndex :: "nat list list"
  inEdgesIndex :: "nat list list"

record EdgeEntry =
  e_source :: nat
  e_target :: nat
  e_item :: AnnotationItem
  e_tags :: LayerTagCollection
  e_score :: rat
  e_partitions :: "Partition list"

type_synonym vvc_key = "(VertexDescriptor \<times> VertexDescriptor) \<times> AnnotationItem"

text \<open>The map from vertices to Boost vertices and the hash keyed by end points and item are
  association lists; \<open>indexedTagMasks_\<close>, which numbers the masks in the order in which they
  are asked for, is the list of masks.\<close>

record Lattice =
  g_vertices :: "VertexEntry list"
  g_edges :: "EdgeEntry list"
  tagManager :: LayerTagManager
  allText :: string
  implicitOutEdges :: "bool list"
  hiddenImplicitOutEdges :: "bool list"
  visibleImplicitOutEdges :: "bool list"
  vertices :: "(VertexDescriptor \<times> nat) list"
  nLooseVertices :: nat
  vvcHash :: "(vvc_key \<times> EdgeDescriptor list) list"
  edgeCounterHash :: "VertexDescriptor \<times> VertexDescriptor \<Rightarrow> int"
  indexedTagMasks :: "LayerTagMask list"
  lat_symbolTag :: LayerTagCollection
  lat_discardedTag :: LayerTagCollection
  symbolMask :: LayerTagMask
  tokenMask :: LayerTagMask

type_synonym 'a lat_prog = "(lattice_error, Lattice, 'a) prog"

text \<open>Access by index, undefined out of range.\<close>

definition at_index :: "'a list \<Rightarrow> nat \<Rightarrow> lattice_error + 'a" where
  "at_index xs i = (if i < length xs then Inr (xs ! i) else Inl UndefinedBehaviour)"

definition bit_at :: "bool list \<Rightarrow> int \<Rightarrow> lattice_error + bool" where
  "bit_at bs i = (if 0 \<le> i then at_index bs (nat i) else Inl UndefinedBehaviour)"

definition bit_put :: "bool list \<Rightarrow> int \<Rightarrow> bool \<Rightarrow> lattice_error + bool list" where
  "bit_put bs i b = (if 0 \<le> i \<and> nat i < length bs then Inr (bs[nat i := b]) else Inl UndefinedBehaviour)"

text \<open>\<open>dynamic_bitset::resize\<close>.\<close>

definition bits_resize :: "nat \<Rightarrow> bool list \<Rightarrow> bool list" where
  "bits_resize n bs = take n bs @ replicate (n - length bs) False"

text \<open>An \<open>int\<close> passed where a \<open>size_t\<close> is expected.\<close>

definition to_size :: "int \<Rightarrow> nat" where
  "to_size i = nat (i mod 2 ^ 64)"

definition lift_utf8 :: "utf8_exception + 'a \<Rightarrow> lattice_error + 'a" where
  "lift_utf8 r = map_sum Lattice_Utf8 id r"

definition lift_string :: "string_error + 'a \<Rightarrow> lattice_error + 'a" where
  "lift_string r = map_sum Lattice_String id r"

text \<open>A program of the tag manager run on the lattice's one.\<close>

definition on_tags :: "'a tags_prog \<Rightarrow> 'a lat_prog" where
  "on_tags m = (\<lambda>lat. case m (tagManager lat) of (r, mgr) \<Rightarrow>
     (map_sum Lattice_Tags id r, lat\<lparr>tagManager := mgr\<rparr>))"

section \<open>Construction and text\<close>

definition resizeImplicitEdgesStructures :: "Lattice \<Rightarrow> Lattice" where
  "resizeImplicitEdgesStructures lat =
     (let n = length (allText lat) + 1 in
      lat\<lparr>implicitOutEdges := bits_resize n (implicitOutEdges lat),
          hiddenImplicitOutEdges := bits_resize n (hiddenImplicitOutEdges lat),
          visibleImplicitOutEdges := bits_resize n (visibleImplicitOutEdges lat)\<rparr>)"

definition SYMBOL_TAG_NAME :: string where "SYMBOL_TAG_NAME = ''symbol''"
definition DISCARDED_TAG_NAME :: string where "DISCARDED_TAG_NAME = ''discarded''"
definition LEMMA_TAG_NAME :: string where "LEMMA_TAG_NAME = ''lemma''"
definition TOKEN_TAG_NAME :: string where "TOKEN_TAG_NAME = ''token''"

text \<open>The constructor creates its tags and masks in the order of the members.\<close>

definition newLattice :: Lattice where
  "newLattice =
     (let mgr0 = newLayerTagManager;
          tag = (\<lambda>n mgr. case createSingletonTagCollection n mgr of
                   (Inr t, mgr') \<Rightarrow> (t, mgr') | (Inl _, mgr') \<Rightarrow> (0, mgr'));
          (sym, mgr1) = tag SYMBOL_TAG_NAME mgr0;
          (disc, mgr2) = tag DISCARDED_TAG_NAME mgr1;
          (sym', mgr3) = tag SYMBOL_TAG_NAME mgr2;
          (tok, mgr4) = tag TOKEN_TAG_NAME mgr3 in
      resizeImplicitEdgesStructures
        \<lparr>g_vertices = [], g_edges = [], tagManager = mgr4, allText = [],
         implicitOutEdges = [], hiddenImplicitOutEdges = [], visibleImplicitOutEdges = [],
         vertices = [], nLooseVertices = 0, vvcHash = [], edgeCounterHash = (\<lambda>_. 0),
         indexedTagMasks = [], lat_symbolTag = sym, lat_discardedTag = disc,
         symbolMask = mask_of_tags sym', tokenMask = mask_of_tags tok\<rparr>)"

definition appendString :: "string \<Rightarrow> Lattice \<Rightarrow> Lattice" where
  "appendString text lat =
     resizeImplicitEdgesStructures
       (lat\<lparr>allText := (if allText lat = [] then text else allText lat @ text)\<rparr>)"

definition isLooseVertex :: "VertexDescriptor \<Rightarrow> bool" where
  "isLooseVertex vd \<longleftrightarrow> vd < 0"

definition getLooseVertexIndex :: "VertexDescriptor \<Rightarrow> lattice_error + int" where
  "getLooseVertexIndex vd = (if vd > -1 then Inl WrongVertexException else Inr (-1 - vd))"

definition getVertexForRawCharIndex :: "int \<Rightarrow> Lattice \<Rightarrow> lattice_error + VertexDescriptor" where
  "getVertexForRawCharIndex ix lat =
     (if ix < 0 then Inl NoVertexException
      else if ix > int (length (allText lat)) then Inl NoVertexException
      else Inr ix)"

definition getVertexRawCharIndex :: "VertexDescriptor \<Rightarrow> lattice_error + nat" where
  "getVertexRawCharIndex vd = (if isLooseVertex vd then Inl WrongVertexException else Inr (nat vd))"

definition lat_symbolLength :: "int \<Rightarrow> Lattice \<Rightarrow> lattice_error + nat" where
  "lat_symbolLength ix lat =
     (if 0 \<le> ix \<and> nat ix \<le> length (allText lat) then Inr (symbolLength (allText lat) (nat ix))
      else Inl UndefinedBehaviour)"

definition priorVertex :: "VertexDescriptor \<Rightarrow> Lattice \<Rightarrow> lattice_error + VertexDescriptor" where
  "priorVertex vertex lat =
     (if vertex = 0 then Inl NoVertexException
      else if vertex < 0 then Inl NoVertexException
      else if nat vertex > length (allText lat) then Inl UndefinedBehaviour
      else sbind (lift_utf8 (utf8_prior (allText lat) (nat vertex))) (\<lambda>(cp, _).
        sbind (lift_utf8 (utf8_append cp)) (\<lambda>symbol. Inr (vertex - int (length symbol)))))"

section \<open>Edges\<close>

definition the_edge :: "nat \<Rightarrow> Lattice \<Rightarrow> lattice_error + EdgeEntry" where
  "the_edge d lat = at_index (g_edges lat) d"

fun isExplicit :: "EdgeDescriptor \<Rightarrow> bool" where
  "isExplicit (ExplicitEdge _) = True"
| "isExplicit (ImplicitEdge _) = False"

fun getEdgeSource :: "EdgeDescriptor \<Rightarrow> Lattice \<Rightarrow> lattice_error + VertexDescriptor" where
  "getEdgeSource (ExplicitEdge d) lat =
     sbind (the_edge d lat) (\<lambda>e. sbind (at_index (g_vertices lat) (e_source e)) (\<lambda>v. Inr (v_index v)))"
| "getEdgeSource (ImplicitEdge i) lat = Inr (int i)"

fun getEdgeTarget :: "EdgeDescriptor \<Rightarrow> Lattice \<Rightarrow> lattice_error + VertexDescriptor" where
  "getEdgeTarget (ExplicitEdge d) lat =
     sbind (the_edge d lat) (\<lambda>e. sbind (at_index (g_vertices lat) (e_target e)) (\<lambda>v. Inr (v_index v)))"
| "getEdgeTarget (ImplicitEdge i) lat =
     sbind (lat_symbolLength (int i) lat) (\<lambda>n. Inr (int i + int n))"

fun getEdgeLayerTags :: "EdgeDescriptor \<Rightarrow> Lattice \<Rightarrow> lattice_error + LayerTagCollection" where
  "getEdgeLayerTags (ExplicitEdge d) lat = sbind (the_edge d lat) (\<lambda>e. Inr (e_tags e))"
| "getEdgeLayerTags (ImplicitEdge _) lat = Inr (lat_symbolTag lat)"

fun getEdgeScore :: "EdgeDescriptor \<Rightarrow> Lattice \<Rightarrow> lattice_error + rat" where
  "getEdgeScore (ExplicitEdge d) lat = sbind (the_edge d lat) (\<lambda>e. Inr (e_score e))"
| "getEdgeScore (ImplicitEdge _) lat = Inr 0"

fun getEdgePartitions :: "EdgeDescriptor \<Rightarrow> Lattice \<Rightarrow> lattice_error + Partition list" where
  "getEdgePartitions (ExplicitEdge d) lat = sbind (the_edge d lat) (\<lambda>e. Inr (e_partitions e))"
| "getEdgePartitions (ImplicitEdge _) lat = Inr []"

fun getEdgeAnnotationItem :: "EdgeDescriptor \<Rightarrow> Lattice \<Rightarrow> lattice_error + AnnotationItem" where
  "getEdgeAnnotationItem (ExplicitEdge d) lat = sbind (the_edge d lat) (\<lambda>e. Inr (e_item e))"
| "getEdgeAnnotationItem (ImplicitEdge i) lat =
     (if i > length (allText lat) then Inl UndefinedBehaviour
      else sbind (lift_utf8 (utf8_next (drop i (allText lat)))) (\<lambda>(cp, _).
        sbind (lift_utf8 (utf8_append cp)) (\<lambda>symbol.
          sbind (lat_symbolLength (int i) lat) (\<lambda>n.
            Inr (new_item (CHR 0x27 # symbol) (frag_of_range (allText lat) i n))))))"

definition getEdgeBeginIndex :: "EdgeDescriptor \<Rightarrow> Lattice \<Rightarrow> lattice_error + int" where
  "getEdgeBeginIndex edge lat =
     sbind (getEdgeSource edge lat) (\<lambda>r. if isLooseVertex r then Inl WrongVertexException else Inr r)"

definition getEdgeEndIndex :: "EdgeDescriptor \<Rightarrow> Lattice \<Rightarrow> lattice_error + int" where
  "getEdgeEndIndex edge lat =
     sbind (getEdgeTarget edge lat) (\<lambda>r. if isLooseVertex r then Inl WrongVertexException else Inr r)"

fun getEdgeLength :: "EdgeDescriptor \<Rightarrow> Lattice \<Rightarrow> lattice_error + int" where
  "getEdgeLength (ExplicitEdge d) lat =
     sbind (getEdgeSource (ExplicitEdge d) lat) (\<lambda>s. sbind (getEdgeTarget (ExplicitEdge d) lat) (\<lambda>t.
       if isLooseVertex s \<or> isLooseVertex t then Inl WrongVertexException else Inr (t - s)))"
| "getEdgeLength (ImplicitEdge i) lat = sbind (lat_symbolLength (int i) lat) (\<lambda>n. Inr (int n))"

fun isEdgeHidden :: "EdgeDescriptor \<Rightarrow> Lattice \<Rightarrow> lattice_error + bool" where
  "isEdgeHidden (ExplicitEdge _) lat = Inr False"
| "isEdgeHidden (ImplicitEdge i) lat =
     sbind (at_index (hiddenImplicitOutEdges lat) i) (\<lambda>h.
       if h then sbind (at_index (visibleImplicitOutEdges lat) i) (\<lambda>v. Inr (\<not> v)) else Inr False)"

text \<open>\<open>getEdgeText\<close> and \<open>getEdgeTextAsStringFrag\<close>: edges with a loose end have the text \<open>@\<close>.\<close>

definition getEdgeTextAsStringFrag :: "EdgeDescriptor \<Rightarrow> Lattice \<Rightarrow> lattice_error + StringFrag" where
  "getEdgeTextAsStringFrag edge lat =
     sbind (getEdgeSource edge lat) (\<lambda>s. sbind (getEdgeTarget edge lat) (\<lambda>t.
       if isLooseVertex s \<or> isLooseVertex t then Inr (frag_of_string ''@'')
       else sbind (getEdgeBeginIndex edge lat) (\<lambda>b. sbind (getEdgeLength edge lat) (\<lambda>l.
              Inr (frag_of_range (allText lat) (to_size b) (to_size l))))))"

definition getEdgeText :: "EdgeDescriptor \<Rightarrow> Lattice \<Rightarrow> lattice_error + string" where
  "getEdgeText edge lat =
     sbind (getEdgeSource edge lat) (\<lambda>s. sbind (getEdgeTarget edge lat) (\<lambda>t.
       if isLooseVertex s \<or> isLooseVertex t then Inr ''@''
       else sbind (getEdgeBeginIndex edge lat) (\<lambda>b. sbind (getEdgeLength edge lat) (\<lambda>l.
              lift_string (std_substr (allText lat) (to_size b) (to_size l))))))"

definition getAnnotationText :: "EdgeDescriptor \<Rightarrow> Lattice \<Rightarrow> lattice_error + string" where
  "getAnnotationText edge lat =
     sbind (getEdgeAnnotationItem edge lat) (\<lambda>item. lift_string (frag_str (item_text item)))"

definition getAnnotationCategory :: "EdgeDescriptor \<Rightarrow> Lattice \<Rightarrow> lattice_error + string" where
  "getAnnotationCategory edge lat = sbind (getEdgeAnnotationItem edge lat) (\<lambda>item. Inr (category item))"

section \<open>Iterators over the edges of a vertex\<close>

text \<open>Out-edges and in-edges of a Boost vertex, in the order of their insertion.\<close>

definition out_edges :: "nat \<Rightarrow> Lattice \<Rightarrow> nat list" where
  "out_edges v lat = filter (\<lambda>d. e_source (g_edges lat ! d) = v) [0..<length (g_edges lat)]"

definition in_edges :: "nat \<Rightarrow> Lattice \<Rightarrow> nat list" where
  "in_edges v lat = filter (\<lambda>d. e_target (g_edges lat ! d) = v) [0..<length (g_edges lat)]"

text \<open>The ranges an \<open>InOutEdgesIterator\<close> walks: an index list, which may grow while the iterator
  is used, all out- or in-edges there are at its creation, or nothing.\<close>

datatype edge_range = IndexedOut nat nat | IndexedIn nat nat | AllEdges "nat list" | NoEdges

fun range_edges :: "edge_range \<Rightarrow> Lattice \<Rightarrow> nat list" where
  "range_edges (IndexedOut v ix) lat = outEdgesIndex (g_vertices lat ! v) ! ix"
| "range_edges (IndexedIn v ix) lat = inEdgesIndex (g_vertices lat ! v) ! ix"
| "range_edges (AllEdges ds) lat = ds"
| "range_edges NoEdges lat = []"

record InOutEdgesIterator =
  ioi_implicit :: int
  ioi_range :: edge_range
  ioi_pos :: nat

definition ioi_hasNext :: "InOutEdgesIterator \<Rightarrow> Lattice \<Rightarrow> bool" where
  "ioi_hasNext it lat \<longleftrightarrow>
     (if ioi_implicit it > -1 then True else ioi_pos it < length (range_edges (ioi_range it) lat))"

definition ioi_next :: "InOutEdgesIterator \<Rightarrow> Lattice \<Rightarrow> lattice_error + EdgeDescriptor \<times> InOutEdgesIterator" where
  "ioi_next it lat =
     (if ioi_implicit it > -1 then
        Inr (ImplicitEdge (nat (ioi_implicit it)), it\<lparr>ioi_implicit := -1\<rparr>)
      else if ioi_pos it < length (range_edges (ioi_range it) lat) then
        Inr (ExplicitEdge (range_edges (ioi_range it) lat ! ioi_pos it), it\<lparr>ioi_pos := Suc (ioi_pos it)\<rparr>)
      else Inl NoEdgeException)"

text \<open>What an iterator has left, for the loops whose bodies add no edges.\<close>

definition ioi_edges :: "InOutEdgesIterator \<Rightarrow> Lattice \<Rightarrow> EdgeDescriptor list" where
  "ioi_edges it lat =
     (if ioi_implicit it > -1 then [ImplicitEdge (nat (ioi_implicit it))] else []) @
     map ExplicitEdge (drop (ioi_pos it) (range_edges (ioi_range it) lat))"

text \<open>\<open>indexedTagMasks_.find\<close> compares hashes and masks.\<close>

fun find_mask :: "LayerTagMask \<Rightarrow> LayerTagMask list \<Rightarrow> nat option" where
  "find_mask m [] = None"
| "find_mask m (n # ns) =
     (if mask_hash m = mask_hash n \<and> mask_eq n m then Some 0 else map_option Suc (find_mask m ns))"

definition index_vertex :: "LayerTagMask \<Rightarrow> nat \<Rightarrow> Lattice \<Rightarrow> Lattice" where
  "index_vertex tagMask v lat =
     (let entry = g_vertices lat ! v;
          ok = (\<lambda>d. matches (e_tags (g_edges lat ! d)) tagMask) in
      lat\<lparr>g_vertices := (g_vertices lat)
        [v := entry\<lparr>outEdgesIndex := outEdgesIndex entry @ [filter ok (out_edges v lat)],
                    inEdgesIndex := inEdgesIndex entry @ [filter ok (in_edges v lat)]\<rparr>]\<rparr>)"

definition addTagMaskIndex :: "LayerTagMask \<Rightarrow> nat lat_prog" where
  "addTagMaskIndex tagMask = (\<lambda>lat.
     case find_mask tagMask (indexedTagMasks lat) of
       Some ix \<Rightarrow> (Inr ix, lat)
     | None \<Rightarrow>
         (let ix = length (indexedTagMasks lat);
              lat' = fold (\<lambda>(_, v). index_vertex tagMask v) (vertices lat) lat in
          (Inr ix, lat'\<lparr>indexedTagMasks := indexedTagMasks lat @ [tagMask]\<rparr>)))"

text \<open>\<open>vertices_[vertex]\<close> for a loose vertex: an unknown key is entered with the value 0.\<close>

definition vertex_ref :: "VertexDescriptor \<Rightarrow> nat lat_prog" where
  "vertex_ref vd = (\<lambda>lat.
     case map_of (vertices lat) vd of
       Some v \<Rightarrow> (Inr v, lat)
     | None \<Rightarrow> (Inr 0, lat\<lparr>vertices := (vd, 0) # vertices lat\<rparr>))"

definition indexed_range ::
  "(nat \<Rightarrow> nat \<Rightarrow> edge_range) \<Rightarrow> (VertexEntry \<Rightarrow> nat list list) \<Rightarrow> nat \<Rightarrow> nat \<Rightarrow> Lattice \<Rightarrow> lattice_error + edge_range" where
  "indexed_range mk idx v ix lat =
     sbind (at_index (g_vertices lat) v) (\<lambda>e.
       if ix < length (idx e) then Inr (mk v ix) else Inl UndefinedBehaviour)"

definition ioi :: "int \<Rightarrow> edge_range \<Rightarrow> InOutEdgesIterator" where
  "ioi implicitIndex r = \<lparr>ioi_implicit = implicitIndex, ioi_range = r, ioi_pos = 0\<rparr>"

definition allOutEdges :: "VertexDescriptor \<Rightarrow> InOutEdgesIterator lat_prog" where
  "allOutEdges vertex =
     (if isLooseVertex vertex then
        bindE (vertex_ref vertex) (\<lambda>v. getsE (\<lambda>lat.
          if v < length (g_vertices lat) then Inr (ioi (-1) (AllEdges (out_edges v lat)))
          else Inl UndefinedBehaviour))
      else
        getsE (\<lambda>lat. sbind (bit_at (implicitOutEdges lat) vertex) (\<lambda>b.
          let i = (if b then vertex else -1) in
          Inr (case map_of (vertices lat) vertex of
                 None \<Rightarrow> ioi i NoEdges
               | Some v \<Rightarrow> ioi i (AllEdges (out_edges v lat))))))"

definition outEdges :: "VertexDescriptor \<Rightarrow> LayerTagMask \<Rightarrow> InOutEdgesIterator lat_prog" where
  "outEdges vertex msk =
     (if mask_isAny msk then allOutEdges vertex
      else bindE (addTagMaskIndex msk) (\<lambda>ix.
        if isLooseVertex vertex then
          bindE (vertex_ref vertex) (\<lambda>v.
            bindE (getsE (indexed_range IndexedOut outEdgesIndex v ix)) (\<lambda>r. ret (ioi (-1) r)))
        else
          getsE (\<lambda>lat.
            sbind (case map_of (vertices lat) vertex of
                     None \<Rightarrow> Inr NoEdges
                   | Some v \<Rightarrow> indexed_range IndexedOut outEdgesIndex v ix lat) (\<lambda>r.
            if canBeAppliedToImplicitSymbol (tagManager lat) msk then
              sbind (bit_at (implicitOutEdges lat) vertex) (\<lambda>b. Inr (ioi (if b then vertex else -1) r))
            else Inr (ioi (-1) r)))))"

text \<open>The prior vertex and whether an implicit edge leaves it; \<open>NoVertexException\<close> is caught.\<close>

definition priorImplicit :: "VertexDescriptor \<Rightarrow> Lattice \<Rightarrow> lattice_error + int" where
  "priorImplicit vertex lat =
     (case sbind (priorVertex vertex lat) (\<lambda>p.
             sbind (bit_at (implicitOutEdges lat) p) (\<lambda>b. Inr (if b then p else -1))) of
        Inl NoVertexException \<Rightarrow> Inr (-1)
      | r \<Rightarrow> r)"

definition allInEdges :: "VertexDescriptor \<Rightarrow> InOutEdgesIterator lat_prog" where
  "allInEdges vertex =
     (if isLooseVertex vertex then
        bindE (vertex_ref vertex) (\<lambda>v. getsE (\<lambda>lat.
          if v < length (g_vertices lat) then Inr (ioi (-1) (AllEdges (in_edges v lat)))
          else Inl UndefinedBehaviour))
      else
        getsE (\<lambda>lat. sbind (priorImplicit vertex lat) (\<lambda>i.
          Inr (case map_of (vertices lat) vertex of
                 None \<Rightarrow> ioi i NoEdges
               | Some v \<Rightarrow> ioi i (AllEdges (in_edges v lat))))))"

definition inEdges :: "VertexDescriptor \<Rightarrow> LayerTagMask \<Rightarrow> InOutEdgesIterator lat_prog" where
  "inEdges vertex msk =
     (if mask_isAny msk then allInEdges vertex
      else bindE (addTagMaskIndex msk) (\<lambda>ix.
        if isLooseVertex vertex then
          bindE (vertex_ref vertex) (\<lambda>v.
            bindE (getsE (indexed_range IndexedIn inEdgesIndex v ix)) (\<lambda>r. ret (ioi (-1) r)))
        else
          getsE (\<lambda>lat.
            sbind (priorImplicit vertex lat) (\<lambda>i.
            sbind (case map_of (vertices lat) vertex of
                     None \<Rightarrow> Inr NoEdges
                   | Some v \<Rightarrow> indexed_range IndexedIn inEdgesIndex v ix lat) (\<lambda>r.
            Inr (ioi (if canBeAppliedToImplicitSymbol (tagManager lat) msk then i else -1) r))))))"

definition firstOutEdge :: "VertexDescriptor \<Rightarrow> LayerTagMask \<Rightarrow> EdgeDescriptor lat_prog" where
  "firstOutEdge vertex msk =
     bindE (outEdges vertex msk) (\<lambda>oe.
       bindE (gets (ioi_hasNext oe)) (\<lambda>more.
         if more then bindE (getsE (ioi_next oe)) (\<lambda>(e, _). ret e)
         else throw NoEdgeException))"

definition firstInEdge :: "VertexDescriptor \<Rightarrow> LayerTagMask \<Rightarrow> EdgeDescriptor lat_prog" where
  "firstInEdge vertex msk =
     bindE (inEdges vertex msk) (\<lambda>ie.
       bindE (gets (ioi_hasNext ie)) (\<lambda>more.
         if more then bindE (inEdges vertex msk) (\<lambda>ie'. bindE (getsE (ioi_next ie')) (\<lambda>(e, _). ret e))
         else throw NoEdgeException))"

section \<open>Edge sequences\<close>

text \<open>A sequence lists its edges (with roles), or names a range of the text whose character edges
  it consists of. Its iterator keeps the position in either.\<close>

record SeqIterator =
  si_seq :: EdgeSequence
  si_links :: nat
  si_symbol :: int

definition seq_iterator :: "EdgeSequence \<Rightarrow> SeqIterator" where
  "seq_iterator q = \<lparr>si_seq = q, si_links = 0, si_symbol = seq_begin q\<rparr>"

definition si_hasNext :: "SeqIterator \<Rightarrow> bool" where
  "si_hasNext it \<longleftrightarrow>
     (if links (si_seq it) = [] then si_symbol it < seq_end (si_seq it)
      else si_links it \<noteq> length (links (si_seq it)))"

definition si_nextUsage :: "SeqIterator \<Rightarrow> (EdgeUsage \<times> SeqIterator) lat_prog" where
  "si_nextUsage it =
     (if links (si_seq it) = [] then
        (if si_symbol it \<ge> seq_end (si_seq it) then throw NoEdgeException
         else
           bindE (getsE (lat_symbolLength (si_symbol it))) (\<lambda>n.
           bindE (getsE (getVertexForRawCharIndex (si_symbol it))) (\<lambda>vd.
           bindE (gets symbolMask) (\<lambda>msk.
           bindE (firstOutEdge vd msk) (\<lambda>e.
             ret ((e, NULL_ZVALUE), it\<lparr>si_symbol := si_symbol it + int n\<rparr>))))))
      else if si_links it = length (links (si_seq it)) then throw NoEdgeException
      else ret (links (si_seq it) ! si_links it, it\<lparr>si_links := Suc (si_links it)\<rparr>))"

definition si_next :: "SeqIterator \<Rightarrow> (EdgeDescriptor \<times> SeqIterator) lat_prog" where
  "si_next it = bindE (si_nextUsage it) (\<lambda>((e, _), it'). ret (e, it'))"

text \<open>How much is left to iterate over.\<close>

definition si_measure :: "SeqIterator \<Rightarrow> nat" where
  "si_measure it =
     (if links (si_seq it) = [] then nat (seq_end (si_seq it) - si_symbol it)
      else length (links (si_seq it)) - si_links it)"

lemma symbolLength_pos: "0 < symbolLength s i"
  by (simp add: symbolLength_def Let_def)

lemma si_next_measure:
  assumes "si_next it s = (Inr (e, it'), s')" "si_links it \<le> length (links (si_seq it))"
  shows "si_measure it' < si_measure it \<and> si_links it' \<le> length (links (si_seq it'))"
proof -
  show ?thesis using assms symbolLength_pos
    by (auto simp: si_next_def si_nextUsage_def prog_defs lat_symbolLength_def si_measure_def
      split: if_splits prod.splits sum.splits)
qed

definition gatherPlaneTags :: "EdgeSequence \<Rightarrow> Lattice \<Rightarrow> lattice_error + LayerTagCollection" where
  "gatherPlaneTags q lat =
     fold (\<lambda>(e, _) acc. sbind acc (\<lambda>tags. sbind (getEdgeLayerTags e lat) (\<lambda>t.
        Inr (createUnion tags (onlyPlaneTags (tagManager lat) t))))) (links q) (Inr 0)"

section \<open>Adding edges\<close>

text \<open>The hash: the entry of a key is the first one whose key is equal in the sense of the code.\<close>

definition vvc_same :: "vvc_key \<Rightarrow> vvc_key \<Rightarrow> bool" where
  "vvc_same k k' \<longleftrightarrow> fst k = fst k' \<and> item_eq (snd k) (snd k')"

fun vvc_lookup :: "vvc_key \<Rightarrow> (vvc_key \<times> EdgeDescriptor list) list \<Rightarrow> EdgeDescriptor list option" where
  "vvc_lookup k [] = None"
| "vvc_lookup k ((k', es) # h) = (if vvc_same k' k then Some es else vvc_lookup k h)"

text \<open>\<open>insert\<close>: nothing when the key is there.\<close>

definition vvc_insert :: "vvc_key \<Rightarrow> (vvc_key \<times> EdgeDescriptor list) list \<Rightarrow> (vvc_key \<times> EdgeDescriptor list) list" where
  "vvc_insert k h = (if vvc_lookup k h = None then h @ [(k, [])] else h)"

fun vvc_push :: "vvc_key \<Rightarrow> EdgeDescriptor \<Rightarrow> (vvc_key \<times> EdgeDescriptor list) list \<Rightarrow> (vvc_key \<times> EdgeDescriptor list) list" where
  "vvc_push k e [] = []"
| "vvc_push k e ((k', es) # h) = (if vvc_same k' k then (k', es @ [e]) # h else (k', es) # vvc_push k e h)"

text \<open>The first edge of the entry in the plane of the tags.\<close>

fun isoplanar :: "LayerTagCollection \<Rightarrow> EdgeDescriptor list \<Rightarrow> Lattice \<Rightarrow> lattice_error + EdgeDescriptor option" where
  "isoplanar tags [] lat = Inr None"
| "isoplanar tags (e # es) lat =
     sbind (getEdgeLayerTags e lat) (\<lambda>t.
       if areInTheSamePlane (tagManager lat) tags t then Inr (Some e) else isoplanar tags es lat)"

text \<open>The loop that looks for the edge among its own constituents.\<close>

function check_self_reference :: "EdgeDescriptor \<Rightarrow> SeqIterator \<Rightarrow> unit lat_prog" where
  "check_self_reference edge it =
     (if si_links it \<le> length (links (si_seq it)) \<and> si_hasNext it then
        bindE (si_next it) (\<lambda>(e, it').
          if e = edge then throw EdgeSelfReferenceException else check_self_reference edge it')
      else ret ())"
  by pat_completeness auto
termination
  by (relation "measure (\<lambda>(_, it). si_measure it)") (auto dest: si_next_measure)

declare check_self_reference.simps [simp del]

definition update_edge :: "nat \<Rightarrow> (EdgeEntry \<Rightarrow> EdgeEntry) \<Rightarrow> unit lat_prog" where
  "update_edge d f = (\<lambda>lat.
     if d < length (g_edges lat) then (Inr (), lat\<lparr>g_edges := (g_edges lat)[d := f (g_edges lat ! d)]\<rparr>)
     else (Inl UndefinedBehaviour, lat))"

text \<open>Merging with the existing edge of the plane: the tags (united with the old ones) and
  whether an edge must be added to the graph all the same, which is so when the existing one
  is implicit.\<close>

definition merge_edge ::
  "EdgeDescriptor \<Rightarrow> VertexDescriptor \<Rightarrow> LayerTagCollection \<Rightarrow> EdgeSequence \<Rightarrow> rat \<Rightarrow> int \<Rightarrow> int
     \<Rightarrow> (LayerTagCollection \<times> bool) lat_prog" where
  "merge_edge edge from tags q score ruleId treeChoice =
     thenE (check_self_reference edge (seq_iterator q))
       (bindE (getsE (getEdgeLayerTags edge)) (\<lambda>oldTags.
        bindE (getsE (getEdgeScore edge)) (\<lambda>oldScore.
          let tags' = (if tags \<noteq> oldTags then createUnion oldTags tags else tags) in
          case edge of
            ExplicitEdge d \<Rightarrow>
              thenE (update_edge d (\<lambda>e.
                let e1 = (if tags' \<noteq> oldTags then e\<lparr>e_tags := tags'\<rparr> else e);
                    e2 = (if score > oldScore then e1\<lparr>e_score := score\<rparr> else e1) in
                e2\<lparr>e_partitions := e_partitions e2 @
                  [\<lparr>part_sequence = q, part_tags = tags', part_score = score,
                    part_ruleId = ruleId, part_treeChoice = treeChoice\<rparr>]\<rparr>))
                (ret (tags', False))
          | ImplicitEdge _ \<Rightarrow>
              thenE (bindE (getsE (\<lambda>lat. bit_put (implicitOutEdges lat) from False)) (\<lambda>bs.
                       modify (\<lambda>lat. lat\<lparr>implicitOutEdges := bs\<rparr>)))
                (ret (tags', True)))))"

definition set_visible :: "VertexDescriptor \<Rightarrow> unit lat_prog" where
  "set_visible vd =
     bindE (getsE (\<lambda>lat. bit_put (visibleImplicitOutEdges lat) vd True)) (\<lambda>bs.
       modify (\<lambda>lat. lat\<lparr>visibleImplicitOutEdges := bs\<rparr>))"

text \<open>A second symbol edge makes the implicit ones beside it visible; \<open>NoEdgeException\<close> is
  caught.\<close>

definition update_visible :: "VertexDescriptor \<Rightarrow> VertexDescriptor \<Rightarrow> unit lat_prog" where
  "update_visible from to =
     catchE
       (bindE (gets symbolMask) (\<lambda>msk.
        bindE (firstOutEdge from msk) (\<lambda>_.
        thenE (set_visible from)
          (bindE (firstInEdge to msk) (\<lambda>ed.
           bindE (getsE (getEdgeSource ed)) set_visible)))))
       (\<lambda>e. if e = NoEdgeException then Some (ret ()) else None)"

text \<open>The condition under which the edge becomes implicit.\<close>

definition becomes_implicit ::
  "VertexDescriptor \<Rightarrow> VertexDescriptor \<Rightarrow> LayerTagCollection \<Rightarrow> Lattice \<Rightarrow> lattice_error + bool" where
  "becomes_implicit from to tags lat =
     (if isLooseVertex from \<or> isLooseVertex to \<or> tags \<noteq> lat_symbolTag lat then Inr False
      else sbind (lat_symbolLength from lat) (\<lambda>n.
        if from + int n \<noteq> to then Inr False
        else sbind (bit_at (implicitOutEdges lat) from) (\<lambda>b. Inr (\<not> b))))"

text \<open>The Boost vertex of a vertex, added with one empty index list per mask when it is new.\<close>

definition ensure_vertex :: "VertexDescriptor \<Rightarrow> nat lat_prog" where
  "ensure_vertex vd = (\<lambda>lat.
     case map_of (vertices lat) vd of
       Some v \<Rightarrow> (Inr v, lat)
     | None \<Rightarrow>
         (let v = length (g_vertices lat); n = length (indexedTagMasks lat) in
          (Inr v, lat\<lparr>g_vertices := g_vertices lat @
                    [\<lparr>v_index = vd, outEdgesIndex = replicate n [], inEdgesIndex = replicate n []\<rparr>],
                  vertices := (vd, v) # vertices lat\<rparr>)))"

text \<open>The new edge is appended to the index lists of the masks it matches.\<close>

definition push_at :: "(nat \<Rightarrow> bool) \<Rightarrow> nat \<Rightarrow> nat list list \<Rightarrow> nat list list" where
  "push_at P d ls = map (\<lambda>ix. if P ix then ls ! ix @ [d] else ls ! ix) [0..<length ls]"

definition index_edge :: "nat \<Rightarrow> Lattice \<Rightarrow> Lattice" where
  "index_edge d lat =
     (let e = g_edges lat ! d;
          P = (\<lambda>ix. ix < length (indexedTagMasks lat) \<and> matches (e_tags e) (indexedTagMasks lat ! ix));
          vs = g_vertices lat;
          vs = vs[e_source e := (vs ! e_source e)\<lparr>outEdgesIndex := push_at P d (outEdgesIndex (vs ! e_source e))\<rparr>];
          vs = vs[e_target e := (vs ! e_target e)\<lparr>inEdgesIndex := push_at P d (inEdgesIndex (vs ! e_target e))\<rparr>] in
      lat\<lparr>g_vertices := vs\<rparr>)"

definition hide_range :: "VertexDescriptor \<Rightarrow> VertexDescriptor \<Rightarrow> unit lat_prog" where
  "hide_range from to = (\<lambda>lat.
     if isLooseVertex from \<or> isLooseVertex to then (Inr (), lat)
     else
       (let bs = hiddenImplicitOutEdges lat in
        (if to \<le> from \<or> nat to \<le> length bs then Inr () else Inl UndefinedBehaviour,
         lat\<lparr>hiddenImplicitOutEdges :=
               map (\<lambda>i. from \<le> int i \<and> int i < to \<or> bs ! i) [0..<length bs]\<rparr>)))"

text \<open>The real addition to the graph.\<close>

definition insert_edge ::
  "VertexDescriptor \<Rightarrow> VertexDescriptor \<Rightarrow> AnnotationItem \<Rightarrow> LayerTagCollection \<Rightarrow> EdgeSequence \<Rightarrow> rat \<Rightarrow> int \<Rightarrow> int
     \<Rightarrow> EdgeDescriptor lat_prog" where
  "insert_edge from to item tags q score ruleId treeChoice =
     bindE (ensure_vertex from) (\<lambda>s.
     bindE (ensure_vertex to) (\<lambda>t.
     bindE (gets (\<lambda>lat. length (g_edges lat))) (\<lambda>d.
     thenE (modify (\<lambda>lat. lat\<lparr>g_edges := g_edges lat @
       [\<lparr>e_source = s, e_target = t, e_item = item, e_tags = tags, e_score = score,
         e_partitions = [\<lparr>part_sequence = q, part_tags = tags, part_score = score,
                          part_ruleId = ruleId, part_treeChoice = treeChoice\<rparr>]\<rparr>]\<rparr>))
     (thenE (modify (index_edge d))
     (thenE (hide_range from to)
     (thenE (modify (\<lambda>lat. lat\<lparr>vvcHash := vvc_push ((from, to), item) (ExplicitEdge d) (vvcHash lat)\<rparr>))
       (ret (ExplicitEdge d))))))))"

definition add_new_edge ::
  "VertexDescriptor \<Rightarrow> VertexDescriptor \<Rightarrow> AnnotationItem \<Rightarrow> LayerTagCollection \<Rightarrow> EdgeSequence \<Rightarrow> rat \<Rightarrow> int \<Rightarrow> int
     \<Rightarrow> EdgeDescriptor lat_prog" where
  "add_new_edge from to item tags q score ruleId treeChoice =
     thenE (modify (\<lambda>lat. lat\<lparr>edgeCounterHash :=
        (edgeCounterHash lat)((from, to) := edgeCounterHash lat (from, to) + 1)\<rparr>))
     (bindE (gets lat_symbolTag) (\<lambda>sym.
     thenE (if tags = sym then update_visible from to else ret ())
     (bindE (getsE (becomes_implicit from to tags)) (\<lambda>impl.
        if impl then
          bindE (getsE (\<lambda>lat. bit_put (implicitOutEdges lat) from True)) (\<lambda>bs.
          thenE (modify (\<lambda>lat. lat\<lparr>implicitOutEdges := bs,
                   vvcHash := vvc_push ((from, to), item) (ImplicitEdge (nat from)) (vvcHash lat)\<rparr>))
            (ret (ImplicitEdge (nat from))))
        else insert_edge from to item tags q score ruleId treeChoice))))"

definition addEdge ::
  "VertexDescriptor \<Rightarrow> VertexDescriptor \<Rightarrow> AnnotationItem \<Rightarrow> LayerTagCollection \<Rightarrow> EdgeSequence \<Rightarrow> rat \<Rightarrow> int \<Rightarrow> int
     \<Rightarrow> EdgeDescriptor lat_prog" where
  "addEdge from to item tags q score ruleId treeChoice =
     bindE (getsE (\<lambda>lat.
        if tags_isEmpty (onlyPlaneTags (tagManager lat) tags)
        then sbind (gatherPlaneTags q lat) (\<lambda>pt. Inr (createUnion tags pt)) else Inr tags)) (\<lambda>tags.
     if from = to then throw LoopEdgeException
     else if from \<ge> 0 \<and> to \<ge> 0 \<and> from > to then throw ReversedEdgeException
     else
       bindE (gets (\<lambda>lat. vvc_lookup ((from, to), item) (vvcHash lat))) (\<lambda>found.
       thenE (modify (\<lambda>lat. lat\<lparr>vvcHash := vvc_insert ((from, to), item) (vvcHash lat)\<rparr>))
       (bindE (getsE (isoplanar tags (case found of None \<Rightarrow> [] | Some es \<Rightarrow> es))) (\<lambda>iso.
          case iso of
            None \<Rightarrow> add_new_edge from to item tags q score ruleId treeChoice
          | Some edge \<Rightarrow>
              bindE (merge_edge edge from tags q score ruleId treeChoice) (\<lambda>(tags', needToAdd).
                if needToAdd then add_new_edge from to item tags' q score ruleId treeChoice
                else ret edge)))))"

text \<open>The call with the default arguments of the declaration.\<close>

definition addPlainEdge ::
  "VertexDescriptor \<Rightarrow> VertexDescriptor \<Rightarrow> AnnotationItem \<Rightarrow> LayerTagCollection \<Rightarrow> EdgeDescriptor lat_prog" where
  "addPlainEdge from to item tags = addEdge from to item tags emptySequence 0 (-1) (-1)"

definition addPartitionToEdge ::
  "EdgeDescriptor \<Rightarrow> LayerTagCollection \<Rightarrow> EdgeSequence \<Rightarrow> rat \<Rightarrow> int \<Rightarrow> int \<Rightarrow> EdgeDescriptor lat_prog" where
  "addPartitionToEdge edge tags q score ruleId treeChoice =
     bindE (getsE (\<lambda>lat. sbind (getEdgeLayerTags edge lat) (\<lambda>t. Inr (onlyPlaneTags (tagManager lat) t)))) (\<lambda>plane.
     bindE (getsE (getEdgeSource edge)) (\<lambda>s.
     bindE (getsE (getEdgeTarget edge)) (\<lambda>t.
     bindE (getsE (getEdgeAnnotationItem edge)) (\<lambda>item.
       addEdge s t item (createUnion tags plane) q score ruleId treeChoice))))"

text \<open>\<open>discard\<close> adds a partition with the lowest \<open>double\<close> as its score.\<close>

definition discard :: "EdgeDescriptor \<Rightarrow> unit lat_prog" where
  "discard edge =
     bindE (gets lat_discardedTag) (\<lambda>tags.
     bindE (addPartitionToEdge edge tags emptySequence (- (2 ^ 1024 - 2 ^ 971)) (-1) (-1)) (\<lambda>_. ret ()))"

definition isDiscarded :: "EdgeDescriptor \<Rightarrow> bool lat_prog" where
  "isDiscarded edge = bindE (getsE (getEdgeLayerTags edge)) (\<lambda>t. on_tags (isThere DISCARDED_TAG_NAME t))"

definition addLooseVertex :: "VertexDescriptor lat_prog" where
  "addLooseVertex = (\<lambda>lat.
     let n = nLooseVertices lat + 1; v = length (g_vertices lat); k = length (indexedTagMasks lat) in
     (Inr (- int n), lat\<lparr>nLooseVertices := n,
        g_vertices := g_vertices lat @
          [\<lparr>v_index = - int n, outEdgesIndex = replicate k [], inEdgesIndex = replicate k []\<rparr>],
        vertices := (- int n, v) # vertices lat\<rparr>))"

end
