(* ===== verification/Cutter.thy ===== *)
theory Cutter
  imports Prelude Utf8 Annotation
begin

text \<open>
  The base class of tokenizers and segmenters (\<open>common/cutter.hpp\<close>, \<open>common/cutter.cpp\<close>),
  which splits the segments a concrete cutter finds when they exceed its limits. The virtual
  functions of the concrete cutter are the fields of a record over the type of its state.
\<close>

section \<open>State\<close>

datatype cutter_error = Cutter_Exception | Cutter_String string_error

text \<open>The two instances of the template parameter \<open>StringType\<close>.\<close>

datatype cut_text = PlainText string | FragText StringFrag

record 'c CutterClass =
  doCutOff :: "'c \<Rightarrow> cut_text \<Rightarrow> nat \<Rightarrow> cutter_error + AnnotationItem \<times> nat \<times> 'c"
  doReset :: "'c \<Rightarrow> 'c"
  segmentLengthHardLimit :: "'c \<Rightarrow> nat"
  segmentLengthSoftLimit :: "'c \<Rightarrow> nat"
  doLayerTags :: "'c \<Rightarrow> string list"

record 'c Cutter =
  cut_class :: "'c CutterClass"
  cut_state :: 'c
  fragmentedSegmentsQueue :: "AnnotationItem list"

fun text_length :: "cut_text \<Rightarrow> nat" where
  "text_length (PlainText s) = length s"
| "text_length (FragText f) = frag_length f"

fun text_at :: "cut_text \<Rightarrow> nat \<Rightarrow> string_error + char" where
  "text_at (PlainText s) i = std_at s i"
| "text_at (FragText f) i = frag_at f i"

fun text_frag :: "cut_text \<Rightarrow> nat \<Rightarrow> nat \<Rightarrow> StringFrag" where
  "text_frag (PlainText s) b l = frag_of_range s b l"
| "text_frag (FragText f) b l = frag_of_frag f b l"

fun text_symbolLength :: "cut_text \<Rightarrow> nat \<Rightarrow> string_error + nat" where
  "text_symbolLength (PlainText s) i =
     (if i \<le> length s then Inr (symbolLength s i) else Inl StringUndefinedBehaviour)"
| "text_symbolLength (FragText f) i =
     sbind (frag_str f) (\<lambda>s. if i \<le> length s then Inr (symbolLength s i) else Inl StringUndefinedBehaviour)"

section \<open>Limits\<close>

definition isSoftLimitBroken :: "nat \<Rightarrow> nat \<Rightarrow> bool" where
  "isSoftLimitBroken soft segmentLength \<longleftrightarrow> soft \<noteq> 0 \<and> segmentLength \<ge> soft"

definition isHardLimitBroken :: "nat \<Rightarrow> nat \<Rightarrow> bool" where
  "isHardLimitBroken hard segmentLength \<longleftrightarrow> hard \<noteq> 0 \<and> segmentLength \<ge> hard"

definition areLimitsBroken :: "nat \<Rightarrow> nat \<Rightarrow> nat \<Rightarrow> bool" where
  "areLimitsBroken soft hard segmentLength \<longleftrightarrow>
     isSoftLimitBroken soft segmentLength \<or> isHardLimitBroken hard segmentLength"

definition isSoftLimitCharacter :: "char \<Rightarrow> bool" where
  "isSoftLimitCharacter c \<longleftrightarrow> c = CHR '' ''"

text \<open>The first blank from \<open>cutPoint + soft\<close> on, or the end of the segment.\<close>

function find_blank :: "cut_text \<Rightarrow> nat \<Rightarrow> nat \<Rightarrow> string_error + nat" where
  "find_blank text cutPoint maxCutPoint =
     (if cutPoint < maxCutPoint then
        sbind (text_at text cutPoint) (\<lambda>c.
          if isSoftLimitCharacter c then Inr cutPoint else find_blank text (Suc cutPoint) maxCutPoint)
      else Inr maxCutPoint)"
  by pat_completeness auto
termination
  by (relation "measure (\<lambda>(_, c, m). m - c)") auto

definition findSoftLimitCutPoint :: "nat \<Rightarrow> cut_text \<Rightarrow> nat \<Rightarrow> nat \<Rightarrow> string_error + nat" where
  "findSoftLimitCutPoint soft text cutPoint maxCutPoint = find_blank text (cutPoint + soft) maxCutPoint"

text \<open>The last character boundary found not after \<open>cutPoint + hard\<close>, walking from at most four
  bytes before it. (The length of a symbol is at least 1; the test for 0 only shows that the
  loop ends.)\<close>

function walk_symbols :: "cut_text \<Rightarrow> nat \<Rightarrow> nat \<Rightarrow> string_error + nat" where
  "walk_symbols text candidatePos hardLimitPos =
     (if candidatePos < hardLimitPos then
        sbind (text_symbolLength text candidatePos) (\<lambda>symLen.
          if symLen = 0 \<or> candidatePos + symLen > hardLimitPos then Inr candidatePos
          else walk_symbols text (candidatePos + symLen) hardLimitPos)
      else Inr candidatePos)"
  by pat_completeness auto
termination
  by (relation "measure (\<lambda>(_, c, m). m - c)") auto

declare find_blank.simps [simp del] walk_symbols.simps [simp del]

definition findHardLimitCutPoint :: "nat \<Rightarrow> cut_text \<Rightarrow> nat \<Rightarrow> cutter_error + nat" where
  "findHardLimitCutPoint hard text cutPoint =
     (let hardLimitPos = cutPoint + hard;
          candidatePos = (if hardLimitPos > 4 then hardLimitPos - 4 else 0) in
      sbind (map_sum Cutter_String id (walk_symbols text candidatePos hardLimitPos)) (\<lambda>p.
        if p \<le> cutPoint then Inl Cutter_Exception else Inr p))"

text \<open>The end of the next fragment: the nearer of the two cut points, where the limits are
  broken.\<close>

definition next_cut_point :: "nat \<Rightarrow> nat \<Rightarrow> cut_text \<Rightarrow> nat \<Rightarrow> nat \<Rightarrow> cutter_error + nat" where
  "next_cut_point soft hard text segmentEnd cutPoint =
     (let currentLength = segmentEnd - cutPoint in
      sbind (if isSoftLimitBroken soft currentLength
             then map_sum Cutter_String Some (findSoftLimitCutPoint soft text cutPoint segmentEnd)
             else Inr None) (\<lambda>softPoint.
      sbind (if isHardLimitBroken hard currentLength
             then map_sum id Some (findHardLimitCutPoint hard text cutPoint) else Inr None) (\<lambda>hardPoint.
        Inr (case (softPoint, hardPoint) of
               (Some s, Some h) \<Rightarrow> min s h
             | (Some s, None) \<Rightarrow> s
             | (None, Some h) \<Rightarrow> h
             | (None, None) \<Rightarrow> segmentEnd))))"

lemma find_blank_bounds:
  "find_blank text c m = Inr p \<Longrightarrow> min c m \<le> p \<and> p \<le> m"
proof (induction "text" c m rule: find_blank.induct)
  case (1 "text" c m)
  show ?case
  proof (cases "c < m")
    case True
    with 1(2) obtain d where d: "text_at text c = Inr d"
      "(if isSoftLimitCharacter d then Inr c else find_blank text (Suc c) m) = Inr p"
      by (simp add: find_blank.simps[of "text" c m] sbind_Inr) blast
    then show ?thesis using 1(1)[OF True d(1)] True by (auto split: if_splits)
  next
    case False
    then show ?thesis using 1(2) by (simp add: find_blank.simps[of "text" c m])
  qed
qed

lemma walk_symbols_bounds:
  "walk_symbols text c m = Inr p \<Longrightarrow> c \<le> p \<and> (c \<le> m \<longrightarrow> p \<le> m)"
proof (induction "text" c m rule: walk_symbols.induct)
  case (1 "text" c m)
  show ?case
  proof (cases "c < m")
    case True
    with 1(2) obtain n where n: "text_symbolLength text c = Inr n"
      "(if n = 0 \<or> c + n > m then Inr c else walk_symbols text (c + n) m) = Inr p"
      by (simp add: walk_symbols.simps[of "text" c m] sbind_Inr) blast
    then show ?thesis using 1(1)[OF True n(1)] True by (auto split: if_splits)
  next
    case False
    then show ?thesis using 1(2) by (simp add: walk_symbols.simps[of "text" c m])
  qed
qed

lemma findHardLimitCutPoint_bounds:
  "findHardLimitCutPoint hard text c = Inr p \<Longrightarrow> c < p \<and> p \<le> c + hard"
  by (auto simp: findHardLimitCutPoint_def Let_def sbind_Inr map_sum_def
    split: if_splits sum.splits dest: walk_symbols_bounds)

lemma next_cut_point_bounds:
  assumes "next_cut_point soft hard text e c = Inr p" "c < e"
  shows "c < p \<and> p \<le> e \<and> (hard \<noteq> 0 \<longrightarrow> p - c \<le> hard)"
proof -
  let ?l = "e - c"
  have s: "c < s \<and> s \<le> e" if "isSoftLimitBroken soft ?l" "findSoftLimitCutPoint soft text c e = Inr s" for s
    using find_blank_bounds[of "text" "c + soft" e s] that assms(2)
    by (auto simp: findSoftLimitCutPoint_def isSoftLimitBroken_def min_def split: if_splits)
  have h: "c < h \<and> h \<le> c + hard \<and> h \<le> e" if "isHardLimitBroken hard ?l" "findHardLimitCutPoint hard text c = Inr h" for h
    using findHardLimitCutPoint_bounds[OF that(2)] that(1) assms(2) by (auto simp: isHardLimitBroken_def)
  show ?thesis
    using assms s h
    by (cases "findSoftLimitCutPoint soft text c e"; cases "findHardLimitCutPoint hard text c")
      (auto simp: next_cut_point_def Let_def isHardLimitBroken_def min_def split: if_splits)
qed

section \<open>Cutting\<close>

text \<open>\<open>fragmentSegment_\<close>: the items pushed to the queue, in order.\<close>

function fragments :: "nat \<Rightarrow> nat \<Rightarrow> AnnotationItem \<Rightarrow> cut_text \<Rightarrow> nat \<Rightarrow> nat \<Rightarrow> cutter_error + AnnotationItem list" where
  "fragments soft hard item text segmentEnd cutPoint =
     (if cutPoint < segmentEnd then
        sbind (next_cut_point soft hard text segmentEnd cutPoint) (\<lambda>p.
        sbind (fragments soft hard item text segmentEnd p) (\<lambda>rest.
          Inr (item_with_text item (text_frag text cutPoint (p - cutPoint)) # rest)))
      else Inr [])"
  by pat_completeness auto
termination
  by (relation "measure (\<lambda>(_, _, _, _, e, c). e - c)") (auto dest: next_cut_point_bounds)

declare fragments.simps [simp del]

type_synonym ('c, 'a) cutter_prog = "(cutter_error, 'c Cutter, 'a) prog"

definition cut_soft :: "'c Cutter \<Rightarrow> nat" where
  "cut_soft c = segmentLengthSoftLimit (cut_class c) (cut_state c)"

definition cut_hard :: "'c Cutter \<Rightarrow> nat" where
  "cut_hard c = segmentLengthHardLimit (cut_class c) (cut_state c)"

definition fragmentSegment :: "AnnotationItem \<Rightarrow> cut_text \<Rightarrow> nat \<Rightarrow> nat \<Rightarrow> ('c, unit) cutter_prog" where
  "fragmentSegment item text positionInText segmentLength =
     bindE (getsE (\<lambda>c. fragments (cut_soft c) (cut_hard c) item text (positionInText + segmentLength) positionInText)) (\<lambda>items.
       modify (\<lambda>c. c\<lparr>fragmentedSegmentsQueue := fragmentedSegmentsQueue c @ items\<rparr>))"

definition getFirstItemInFragmentQueue :: "cut_text \<Rightarrow> nat \<Rightarrow> ('c, AnnotationItem \<times> nat) cutter_prog" where
  "getFirstItemInFragmentQueue text positionInText =
     bindE (getsE (\<lambda>c. case fragmentedSegmentsQueue c of
                         [] \<Rightarrow> Inl (Cutter_String StringUndefinedBehaviour) | item # _ \<Rightarrow> Inr item)) (\<lambda>item.
     thenE (modify (\<lambda>c. c\<lparr>fragmentedSegmentsQueue := tl (fragmentedSegmentsQueue c)\<rparr>))
     (bindE (getsE (\<lambda>_. map_sum Cutter_String id (frag_str (item_text item)))) (\<lambda>t.
        let pos = add64 positionInText (length t) in
        ret (item, if pos = text_length text then npos else pos))))"

text \<open>\<open>cutOff(text, positionInText)\<close> returns the item and the new position.\<close>

definition cutOff :: "cut_text \<Rightarrow> nat \<Rightarrow> ('c, AnnotationItem \<times> nat) cutter_prog" where
  "cutOff text positionInText =
     bindE (gets (\<lambda>c. fragmentedSegmentsQueue c \<noteq> [])) (\<lambda>useQueue.
       if useQueue then getFirstItemInFragmentQueue text positionInText
       else
         bindE (getsE (\<lambda>c. doCutOff (cut_class c) (cut_state c) text positionInText)) (\<lambda>(item, pos, st).
         thenE (modify (\<lambda>c. c\<lparr>cut_state := st\<rparr>))
         (let realPos = (if pos = npos then text_length text else pos);
              segmentLength = sub64 realPos positionInText in
          bindE (gets (\<lambda>c. areLimitsBroken (cut_soft c) (cut_hard c) segmentLength)) (\<lambda>broken.
            if broken then
              thenE (fragmentSegment item text positionInText segmentLength)
                (getFirstItemInFragmentQueue text positionInText)
            else ret (item, pos)))))"

definition cutter_reset :: "'c Cutter \<Rightarrow> 'c Cutter" where
  "cutter_reset c = c\<lparr>fragmentedSegmentsQueue := [], cut_state := doReset (cut_class c) (cut_state c)\<rparr>"

section \<open>What the fragments of a segment are\<close>

text \<open>The texts a cutter can cut further: a string, and a fragment that names a range of one. (A
  fragment that stores its contents cannot be: a fragment of it is taken from the position
  \<open>npos + begin\<close> of the string it was made from.)\<close>

fun range_text :: "cut_text \<Rightarrow> bool" where
  "range_text (PlainText s) \<longleftrightarrow> length s < npos"
| "range_text (FragText f) \<longleftrightarrow> frag_ok f \<and> \<not> frag_stored f"

fun text_string :: "cut_text \<Rightarrow> string" where
  "text_string (PlainText s) = s"
| "text_string (FragText f) = frag_text f"

lemma range_text_length: "range_text text \<Longrightarrow> text_length text = length (text_string text)"
  by (cases "text") (simp_all add: frag_length_ok)

lemma text_frag_str:
  assumes "range_text text" "b + l \<le> length (text_string text)"
  shows "frag_str (text_frag text b l) = Inr (take l (drop b (text_string text)))"
proof (cases "text")
  case (PlainText s)
  then show ?thesis using assms
    by (simp add: frag_of_range_def frag_str_def frag_stored_def std_substr_def)
next
  case (FragText f)
  then have f: "\<not> frag_stored f" "frag_begin f + frag_len f \<le> length (src f)" "length (src f) < npos"
    and l: "b + l \<le> frag_len f"
    using assms by (auto simp: frag_ok_def frag_text_def)
  then have "add64 (frag_begin f) b = frag_begin f + b" by (simp add: add64_small)
  moreover have "take l (drop b (take (frag_len f) (drop (frag_begin f) (src f)))) = take l (drop (frag_begin f + b) (src f))"
    using l by (simp add: drop_take min_def add.commute)
  ultimately show ?thesis using FragText f l
    by (simp add: frag_of_frag_def frag_str_def frag_stored_def std_substr_def frag_text_def)
qed

lemma fragments_texts:
  assumes "fragments soft hard item text e c = Inr items" "c \<le> e" "e \<le> length (text_string text)" "range_text text"
  shows "concat (map (\<lambda>i. projr (frag_str (item_text i))) items) = take (e - c) (drop c (text_string text)) \<and>
    (\<forall>i \<in> set items. \<exists>t. frag_str (item_text i) = Inr t \<and> t \<noteq> [] \<and> (hard \<noteq> 0 \<longrightarrow> length t \<le> hard))"
  using assms
proof (induction soft hard item "text" e c arbitrary: items rule: fragments.induct)
  case (1 soft hard item "text" e c)
  let ?s = "text_string text"
  show ?case
  proof (cases "c < e")
    case False
    then show ?thesis using 1 fragments.simps[of soft hard item "text" e c] by auto
  next
    case True
    with "1.prems"(1) obtain p rest where p: "next_cut_point soft hard text e c = Inr p"
      and r: "fragments soft hard item text e p = Inr rest"
      and items: "items = item_with_text item (text_frag text c (p - c)) # rest"
      by (auto simp: fragments.simps[of soft hard item "text" e c] sbind_Inr)
    note b = next_cut_point_bounds[OF p True]
    have IH: "concat (map (\<lambda>i. projr (frag_str (item_text i))) rest) = take (e - p) (drop p ?s)"
      "\<forall>i \<in> set rest. \<exists>t. frag_str (item_text i) = Inr t \<and> t \<noteq> [] \<and> (hard \<noteq> 0 \<longrightarrow> length t \<le> hard)"
      using "1.IH"[OF True p r] "1.prems" b by auto
    have f: "frag_str (item_text (item_with_text item (text_frag text c (p - c)))) = Inr (take (p - c) (drop c ?s))"
      using "1.prems" True b by (simp add: item_with_text_def text_frag_str)
    have "take (p - c) (drop c ?s) @ take (e - p) (drop p ?s) = take (e - c) (drop c ?s)"
      using b True take_add[of "p - c" "e - p" "drop c ?s"] by simp
    moreover have "take (p - c) (drop c ?s) \<noteq> []" "length (take (p - c) (drop c ?s)) \<le> p - c"
      using b True "1.prems" by auto
    ultimately show ?thesis using IH f b items by auto
  qed
qed

text \<open>C19: a segment that breaks the limits is queued as a sequence of non-empty fragments that
  together are exactly the segment, none of them longer than the hard limit, when the text is a
  string or, as the lattice has it for consecutive edges, a fragment that names a range of one.\<close>

theorem fragments_cover_segment:
  assumes "fragmentSegment item text pos len c = (Inr (), c')"
    and "range_text text" "pos + len \<le> length (text_string text)"
  shows "\<exists>items. fragmentedSegmentsQueue c' = fragmentedSegmentsQueue c @ items \<and>
    concat (map (\<lambda>i. projr (frag_str (item_text i))) items) = take len (drop pos (text_string text)) \<and>
    (\<forall>i \<in> set items. \<exists>t. frag_str (item_text i) = Inr t \<and> t \<noteq> [] \<and>
       (cut_hard c \<noteq> 0 \<longrightarrow> length t \<le> cut_hard c))"
proof -
  from assms(1) obtain items where "fragments (cut_soft c) (cut_hard c) item text (pos + len) pos = Inr items"
    "c' = c\<lparr>fragmentedSegmentsQueue := fragmentedSegmentsQueue c @ items\<rparr>"
    by (auto simp: fragmentSegment_def prog_defs split: sum.splits prod.splits)
  then show ?thesis using fragments_texts[of "cut_soft c" "cut_hard c" item "text" "pos + len" pos items] assms(2,3)
    by auto
qed

theorem fragments_cover_segment_witness:
  "let c = \<lparr>cut_class = \<lparr>doCutOff = (\<lambda>_ _ _. Inl Cutter_Exception), doReset = id,
      segmentLengthHardLimit = (\<lambda>_. 0), segmentLengthSoftLimit = (\<lambda>_. 2), doLayerTags = (\<lambda>_. [])\<rparr>,
      cut_state = (), fragmentedSegmentsQueue = []\<rparr>;
     c' = snd (fragmentSegment (new_item ''T'' frag_empty) (FragText (frag_of_range ''_abc d_'' 1 5)) 0 5 c) in
   \<exists>items. fragmentedSegmentsQueue c' = fragmentedSegmentsQueue c @ items \<and>
    concat (map (\<lambda>i. projr (frag_str (item_text i))) items) = take 5 (drop 0 (text_string (FragText (frag_of_range ''_abc d_'' 1 5)))) \<and>
    (\<forall>i \<in> set items. \<exists>t. frag_str (item_text i) = Inr t \<and> t \<noteq> [] \<and>
       (cut_hard c \<noteq> 0 \<longrightarrow> length t \<le> cut_hard c))"
  unfolding Let_def
proof (rule fragments_cover_segment)
  show "fragmentSegment (new_item ''T'' frag_empty) (FragText (frag_of_range ''_abc d_'' 1 5)) 0 5
      \<lparr>cut_class = \<lparr>doCutOff = (\<lambda>_ _ _. Inl Cutter_Exception), doReset = id,
        segmentLengthHardLimit = (\<lambda>_. 0), segmentLengthSoftLimit = (\<lambda>_. 2), doLayerTags = (\<lambda>_. [])\<rparr>,
       cut_state = (), fragmentedSegmentsQueue = []\<rparr> =
    (Inr (), snd (fragmentSegment (new_item ''T'' frag_empty) (FragText (frag_of_range ''_abc d_'' 1 5)) 0 5
      \<lparr>cut_class = \<lparr>doCutOff = (\<lambda>_ _ _. Inl Cutter_Exception), doReset = id,
        segmentLengthHardLimit = (\<lambda>_. 0), segmentLengthSoftLimit = (\<lambda>_. 2), doLayerTags = (\<lambda>_. [])\<rparr>,
       cut_state = (), fragmentedSegmentsQueue = []\<rparr>))"
    by (simp add: fragmentSegment_def prog_defs cut_soft_def cut_hard_def fragments.simps
      next_cut_point_def isSoftLimitBroken_def isHardLimitBroken_def findSoftLimitCutPoint_def
      find_blank.simps isSoftLimitCharacter_def std_at_def frag_at_def frag_of_range_def frag_stored_def
      npos_def add64_def)
qed (simp_all add: npos_def frag_of_range_def frag_ok_def frag_stored_def frag_text_def)

end
