(* ===== verification/Lattice_Ops.thy ===== *)
theory Lattice_Ops
  imports Lattice Cutter
begin

text \<open>
  The operations of the lattice (\<open>common/lattice.cpp\<close>) above edges and vertices: edge sequences
  and their builder, the iterators over vertices and sorted edges, symbols, paths, ancestors,
  corrections and cutters.
\<close>

section \<open>Edge sequences\<close>

definition firstEdge :: "EdgeSequence \<Rightarrow> EdgeDescriptor lat_prog" where
  "firstEdge q =
     (case links q of
        [] \<Rightarrow> bindE (getsE (getVertexForRawCharIndex (seq_begin q))) (\<lambda>vd.
                bindE (gets symbolMask) (firstOutEdge vd))
      | (e, _) # _ \<Rightarrow> ret e)"

definition lastEdge :: "EdgeSequence \<Rightarrow> EdgeDescriptor lat_prog" where
  "lastEdge q =
     (if links q = [] then
        bindE (getsE (getVertexForRawCharIndex (seq_end q))) (\<lambda>vd.
          bindE (gets symbolMask) (firstInEdge vd))
      else ret (fst (last (links q))))"

text \<open>For a range of the text the position of the edge is found by walking code points.\<close>

definition nthEdge :: "EdgeSequence \<Rightarrow> nat \<Rightarrow> EdgeDescriptor lat_prog" where
  "nthEdge q index =
     (if links q = [] then
        bindE (getsE (\<lambda>lat.
          if 0 \<le> seq_begin q \<and> seq_begin q \<le> seq_end q \<and> nat (seq_end q) \<le> length (allText lat) then
            sbind (lift_utf8 (utf8_advance index (drop (nat (seq_begin q)) (take (nat (seq_end q)) (allText lat)))))
              (\<lambda>rest. getVertexForRawCharIndex (seq_end q - int (length rest)) lat)
          else Inl UndefinedBehaviour)) (\<lambda>vd.
        bindE (gets symbolMask) (firstOutEdge vd))
      else getsE (\<lambda>_. sbind (at_index (links q) index) (\<lambda>u. Inr (fst u))))"

definition nthRole :: "EdgeSequence \<Rightarrow> nat \<Rightarrow> lattice_error + zvalue" where
  "nthRole q index =
     (if links q = [] then Inr NULL_ZVALUE else sbind (at_index (links q) index) (\<lambda>u. Inr (snd u)))"

definition seq_empty :: "EdgeSequence \<Rightarrow> bool" where
  "seq_empty q \<longleftrightarrow> links q = [] \<and> seq_begin q \<ge> seq_end q"

definition seq_size :: "EdgeSequence \<Rightarrow> Lattice \<Rightarrow> lattice_error + nat" where
  "seq_size q lat =
     (if links q = [] then
        (if seq_begin q \<ge> seq_end q then Inr 0
         else if 0 \<le> seq_begin q \<and> nat (seq_end q) \<le> length (allText lat) then
           lift_utf8 (utf8_distance (drop (nat (seq_begin q)) (take (nat (seq_end q)) (allText lat))))
         else Inl UndefinedBehaviour)
      else Inr (length (links q)))"

text \<open>The builder keeps a range of the text as long as only hidden symbol edges are added, each
  one where the previous one ends; \<open>begin > end\<close> marks that it gave up.\<close>

record Builder =
  b_links :: "EdgeUsage list"
  b_begin :: int
  b_end :: int

definition newBuilder :: Builder where
  "newBuilder = \<lparr>b_links = [], b_begin = 0, b_end = 0\<rparr>"

definition builder_add :: "EdgeDescriptor \<Rightarrow> zvalue \<Rightarrow> Builder \<Rightarrow> Lattice \<Rightarrow> lattice_error + Builder" where
  "builder_add edge role b lat =
     sbind (if b_begin b \<le> b_end b then isEdgeHidden edge lat else Inr False) (\<lambda>hidden.
     sbind (if hidden then
              (if b_links b = [] then
                 sbind (getEdgeBeginIndex edge lat) (\<lambda>s. sbind (getEdgeEndIndex edge lat) (\<lambda>t.
                   Inr (b\<lparr>b_begin := s, b_end := t\<rparr>)))
               else
                 sbind (getEdgeBeginIndex edge lat) (\<lambda>s.
                   if s = b_end b
                   then sbind (getEdgeEndIndex edge lat) (\<lambda>t. Inr (b\<lparr>b_end := t\<rparr>))
                   else Inr (b\<lparr>b_end := 0\<rparr>)))
            else Inr (b\<lparr>b_begin := 1, b_end := 0\<rparr>)) (\<lambda>b'.
     Inr (b'\<lparr>b_links := b_links b' @ [(edge, role)]\<rparr>)))"

definition builder_build :: "Builder \<Rightarrow> EdgeSequence" where
  "builder_build b =
     (if b_begin b < b_end b then \<lparr>links = [], seq_begin = b_begin b, seq_end = b_end b\<rparr>
      else \<lparr>links = b_links b, seq_begin = 0, seq_end = 0\<rparr>)"

text \<open>The edges an iterator over the sequence returns, in order: the loop
  \<open>while (iter.hasNext()) { ... iter.next() ... }\<close>.\<close>

function si_edges :: "SeqIterator \<Rightarrow> EdgeDescriptor list lat_prog" where
  "si_edges it =
     (if si_links it \<le> length (links (si_seq it)) \<and> si_hasNext it then
        bindE (si_next it) (\<lambda>(e, it'). bindE (si_edges it') (\<lambda>es. ret (e # es)))
      else ret [])"
  by pat_completeness auto
termination
  by (relation "measure si_measure") (auto dest: si_next_measure)

declare si_edges.simps [simp del]

definition seq_edges :: "EdgeSequence \<Rightarrow> EdgeDescriptor list lat_prog" where
  "seq_edges q = si_edges (seq_iterator q)"

fun edge_texts :: "EdgeDescriptor list \<Rightarrow> Lattice \<Rightarrow> lattice_error + string" where
  "edge_texts [] lat = Inr []"
| "edge_texts (e # es) lat =
     sbind (getEdgeText e lat) (\<lambda>t. sbind (edge_texts es lat) (\<lambda>r. Inr (t @ r)))"

definition getSequenceText :: "EdgeSequence \<Rightarrow> string lat_prog" where
  "getSequenceText q = bindE (seq_edges q) (\<lambda>es. getsE (edge_texts es))"

fun append_frags :: "StringFrag \<Rightarrow> EdgeDescriptor list \<Rightarrow> Lattice \<Rightarrow> lattice_error + StringFrag" where
  "append_frags r [] lat = Inr r"
| "append_frags r (e # es) lat =
     sbind (getEdgeTextAsStringFrag e lat) (\<lambda>f. sbind (lift_string (frag_append r f)) (\<lambda>r'. append_frags r' es lat))"

definition getSequenceTextAsStringFrag :: "EdgeSequence \<Rightarrow> StringFrag lat_prog" where
  "getSequenceTextAsStringFrag q = bindE (seq_edges q) (\<lambda>es. getsE (append_frags frag_empty es))"

definition getPartitionText :: "Partition \<Rightarrow> string lat_prog" where
  "getPartitionText p = getSequenceText (part_sequence p)"

definition firstSequenceVertex :: "EdgeSequence \<Rightarrow> VertexDescriptor lat_prog" where
  "firstSequenceVertex q = bindE (firstEdge q) (\<lambda>e. getsE (getEdgeSource e))"

definition lastSequenceVertex :: "EdgeSequence \<Rightarrow> VertexDescriptor lat_prog" where
  "lastSequenceVertex q = bindE (lastEdge q) (\<lambda>e. getsE (getEdgeTarget e))"

section \<open>Iteration over the vertices\<close>

text \<open>\<open>boost::topological_sort\<close> is a parameter: from the number of vertices and the edges, the
  vertices in topological order, or \<open>None\<close> when there is a cycle (it throws \<open>not_a_dag\<close>).\<close>

type_synonym topological_sort = "nat \<Rightarrow> (nat \<times> nat) list \<Rightarrow> nat list option"

record VertexIterator =
  vi_vd :: VertexDescriptor
  vi_withLoose :: bool
  vi_skipUseless :: bool
  vi_container :: "(VertexDescriptor \<times> int) list"
  vi_pos :: nat

definition shouldBeSkipped :: "bool \<Rightarrow> VertexDescriptor \<Rightarrow> Lattice \<Rightarrow> lattice_error + bool" where
  "shouldBeSkipped skipUseless vd lat =
     (if \<not> skipUseless \<or> map_of (vertices lat) vd \<noteq> None then Inr False
      else sbind (bit_at (implicitOutEdges lat) vd) (\<lambda>b.
        if b then Inr False
        else if vd = 0 then Inr True
        else sbind (priorVertex vd lat) (\<lambda>p. sbind (bit_at (implicitOutEdges lat) p) (\<lambda>b'. Inr (\<not> b')))))"

text \<open>\<open>f_\<close>: the position of a vertex in the text, for a loose one the greatest position among
  its predecessors. The recursion follows edges backwards; on a graph without cycles the
  number of vertices bounds its depth.\<close>

fun text_position :: "nat \<Rightarrow> nat \<Rightarrow> Lattice \<Rightarrow> lattice_error + int" where
  "text_position 0 v lat = Inl Diverges"
| "text_position (Suc fuel) v lat =
     sbind (at_index (g_vertices lat) v) (\<lambda>entry.
       if v_index entry > -1 then Inr (v_index entry)
       else fold (\<lambda>d acc. sbind acc (\<lambda>m. sbind (text_position fuel (e_source (g_edges lat ! d)) lat) (\<lambda>i.
              Inr (if i > m then i else m)))) (in_edges v lat) (Inr (-1)))"

fun sorted_vertices :: "nat list \<Rightarrow> Lattice \<Rightarrow> lattice_error + (VertexDescriptor \<times> int) list" where
  "sorted_vertices [] lat = Inr []"
| "sorted_vertices (v # vs) lat =
     sbind (at_index (g_vertices lat) v) (\<lambda>entry.
     sbind (text_position (length (g_vertices lat) + 1) v lat) (\<lambda>p.
     sbind (sorted_vertices vs lat) (\<lambda>r. Inr ((v_index entry, p) # r))))"

text \<open>The vertices of the text that are not in the graph.\<close>

function implicit_vertices :: "bool \<Rightarrow> nat \<Rightarrow> Lattice \<Rightarrow> lattice_error + (VertexDescriptor \<times> int) list" where
  "implicit_vertices skipUseless vd lat =
     (if vd < length (allText lat) then
        sbind (if map_of (vertices lat) (int vd) \<noteq> None then Inr True else shouldBeSkipped skipUseless (int vd) lat) (\<lambda>skip.
        sbind (implicit_vertices skipUseless (vd + symbolLength (allText lat) vd) lat) (\<lambda>r.
          Inr (if skip then r else (int vd, int vd) # r)))
      else Inr (if map_of (vertices lat) (int vd) = None then [(int vd, int vd)] else []))"
  by pat_completeness auto
termination
  by (relation "measure (\<lambda>(_, vd, lat). length (allText lat) - vd)") (auto simp: symbolLength_def Let_def)

declare implicit_vertices.simps [simp del]

definition newVertexIterator :: "topological_sort \<Rightarrow> bool \<Rightarrow> Lattice \<Rightarrow> lattice_error + VertexIterator" where
  "newVertexIterator ts skipUseless lat =
     (if nLooseVertices lat > 0 then
        (case ts (length (g_vertices lat)) (map (\<lambda>e. (e_source e, e_target e)) (g_edges lat)) of
           None \<Rightarrow> Inl NotADag
         | Some vs \<Rightarrow>
             sbind (sorted_vertices vs lat) (\<lambda>c1.
             sbind (implicit_vertices skipUseless 0 lat) (\<lambda>c2.
               Inr \<lparr>vi_vd = 0, vi_withLoose = True, vi_skipUseless = skipUseless,
                    vi_container = sort_key snd (c1 @ c2), vi_pos = 0\<rparr>)))
      else Inr \<lparr>vi_vd = 0, vi_withLoose = False, vi_skipUseless = skipUseless,
                vi_container = [], vi_pos = 0\<rparr>)"

definition nextRealVertex :: "VertexIterator \<Rightarrow> Lattice \<Rightarrow> VertexIterator" where
  "nextRealVertex it lat =
     (if vi_vd it < int (length (allText lat))
      then it\<lparr>vi_vd := vi_vd it + int (symbolLength (allText lat) (nat (vi_vd it)))\<rparr>
      else it\<lparr>vi_vd := vi_vd it + 1\<rparr>)"

lemma nextRealVertex_vd: "vi_vd it < vi_vd (nextRealVertex it lat)"
  using symbolLength_pos by (simp add: nextRealVertex_def)

lemma nextRealVertex_measure:
  "vi_vd it \<le> n \<Longrightarrow> nat (n + 1 - vi_vd (nextRealVertex it lat)) < nat (n + 1 - vi_vd it)"
  using nextRealVertex_vd[of it lat] by simp

text \<open>The loop over vertices to be skipped, common to \<open>hasNext\<close> and \<open>next\<close>.\<close>

function vi_settle :: "VertexIterator \<Rightarrow> Lattice \<Rightarrow> lattice_error + VertexIterator" where
  "vi_settle it lat =
     (if vi_vd it \<le> int (length (allText lat)) then
        sbind (shouldBeSkipped (vi_skipUseless it) (vi_vd it) lat) (\<lambda>skip.
          if skip then vi_settle (nextRealVertex it lat) lat else Inr it)
      else Inr it)"
  by pat_completeness auto
termination
  by (relation "measure (\<lambda>(it, lat). nat (int (length (allText lat)) + 1 - vi_vd it))")
    (simp_all only: wf_measure in_measure prod.case nextRealVertex_measure)

declare vi_settle.simps [simp del]

definition vi_hasNext :: "VertexIterator \<Rightarrow> Lattice \<Rightarrow> lattice_error + bool \<times> VertexIterator" where
  "vi_hasNext it lat =
     (if vi_withLoose it then Inr (vi_pos it < length (vi_container it), it)
      else sbind (vi_settle it lat) (\<lambda>it'. Inr (vi_vd it' \<le> int (length (allText lat)), it')))"

definition vi_next :: "VertexIterator \<Rightarrow> Lattice \<Rightarrow> lattice_error + VertexDescriptor \<times> VertexIterator" where
  "vi_next it lat =
     (if vi_withLoose it \<and> vi_pos it < length (vi_container it)
      then Inr (fst (vi_container it ! vi_pos it), it\<lparr>vi_pos := Suc (vi_pos it)\<rparr>)
      else sbind (vi_settle it lat) (\<lambda>it'.
        if vi_vd it' \<le> int (length (allText lat)) then Inr (vi_vd it', nextRealVertex it' lat)
        else Inl NoVertexException))"

section \<open>The ends of the lattice and symbols\<close>

definition getFirstVertex :: "topological_sort \<Rightarrow> VertexDescriptor lat_prog" where
  "getFirstVertex ts =
     bindE (allInEdges 0) (\<lambda>it.
     bindE (gets (ioi_hasNext it)) (\<lambda>has.
       if has then
         getsE (\<lambda>lat. sbind (newVertexIterator ts True lat) (\<lambda>vi. sbind (vi_next vi lat) (\<lambda>(vd, _). Inr vd)))
       else ret 0))"

definition vi_left :: "VertexIterator \<Rightarrow> Lattice \<Rightarrow> nat" where
  "vi_left it lat = (if vi_withLoose it then length (vi_container it) - vi_pos it
     else nat (int (length (allText lat)) + 1 - vi_vd it))"

lemma vi_settle_vd: "vi_settle it lat = Inr it' \<Longrightarrow> vi_vd it \<le> vi_vd it' \<and> vi_withLoose it' = vi_withLoose it"
proof (induction it lat rule: vi_settle.induct)
  case (1 it lat)
  show ?case
  proof (cases "vi_vd it \<le> int (length (allText lat))")
    case True
    with 1(2) obtain sk where sk: "shouldBeSkipped (vi_skipUseless it) (vi_vd it) lat = Inr sk"
      "(if sk then vi_settle (nextRealVertex it lat) lat else Inr it) = Inr it'"
      by (simp add: vi_settle.simps[of it lat] sbind_Inr) blast
    then show ?thesis
      using 1(1)[OF True sk(1)] nextRealVertex_vd[of it lat] by (auto simp: nextRealVertex_def split: if_splits)
  next
    case False
    then show ?thesis using 1(2) by (simp add: vi_settle.simps[of it lat])
  qed
qed

lemma vi_step_left:
  assumes "vi_hasNext it lat = Inr (True, it1)" "vi_next it1 lat = Inr (vd, it2)"
  shows "vi_left it2 lat < vi_left it lat"
proof (cases "vi_withLoose it")
  case True
  then show ?thesis using assms by (auto simp: vi_hasNext_def vi_next_def vi_left_def)
next
  case False
  with assms(1) have s: "vi_settle it lat = Inr it1" "vi_vd it1 \<le> int (length (allText lat))"
    by (auto simp: vi_hasNext_def sbind_Inr)
  from vi_settle_vd[OF s(1)] False have w: "\<not> vi_withLoose it1" "vi_vd it \<le> vi_vd it1" by auto
  with assms(2) obtain it3 where t: "vi_settle it1 lat = Inr it3" "vi_vd it3 \<le> int (length (allText lat))"
    "it2 = nextRealVertex it3 lat"
    by (auto simp: vi_next_def sbind_Inr split: if_splits)
  from vi_settle_vd[OF t(1)] have "vi_vd it1 \<le> vi_vd it3" "\<not> vi_withLoose it3" using w by auto
  then show ?thesis using w t False nextRealVertex_vd[of it3 lat]
    by (auto simp: vi_left_def nextRealVertex_def)
qed

text \<open>The last vertex of the iteration; \<open>None\<close> when the iterator was empty, in which case the code
  returns an uninitialised variable.\<close>

function last_vertex :: "VertexIterator \<Rightarrow> VertexDescriptor option \<Rightarrow> Lattice \<Rightarrow> lattice_error + VertexDescriptor option" where
  "last_vertex it vd lat =
     sbind (vi_hasNext it lat) (\<lambda>(has, it1).
       if has then sbind (vi_next it1 lat) (\<lambda>(v, it2). last_vertex it2 (Some v) lat) else Inr vd)"
  by pat_completeness auto
termination
  by (relation "measure (\<lambda>(it, _, lat). vi_left it lat)") (auto dest: vi_step_left)

declare last_vertex.simps [simp del]

definition getLastVertex :: "topological_sort \<Rightarrow> VertexDescriptor lat_prog" where
  "getLastVertex ts =
     bindE (gets (\<lambda>lat. int (length (allText lat)))) (\<lambda>len.
     bindE (allOutEdges len) (\<lambda>it.
     bindE (gets (ioi_hasNext it)) (\<lambda>has.
       if has then
         getsE (\<lambda>lat. sbind (newVertexIterator ts True lat) (\<lambda>vi. sbind (last_vertex vi None lat) (\<lambda>vd.
           case vd of None \<Rightarrow> Inl UndefinedBehaviour | Some v \<Rightarrow> Inr v)))
       else ret len)))"

text \<open>The loop of \<open>addSymbols\<close> over the bytes of the range.\<close>

function add_symbols_loop :: "string \<Rightarrow> VertexDescriptor \<Rightarrow> unit lat_prog" where
  "add_symbols_loop it vd =
     (if it = [] then ret ()
      else
        (case utf8_next it of
           Inl e \<Rightarrow> throw (Lattice_Utf8 e)
         | Inr (cp, it') \<Rightarrow>
             (case utf8_append cp of
                Inl e \<Rightarrow> throw (Lattice_Utf8 e)
              | Inr symbol \<Rightarrow>
                  bindE (gets lat_symbolTag) (\<lambda>tag.
                  bindE (addPlainEdge vd (vd + int (length symbol)) (new_item (CHR 0x27 # symbol) frag_empty) tag) (\<lambda>_.
                    add_symbols_loop it' (vd + int (length symbol)))))))"
  by pat_completeness auto
termination
  by (relation "measure (\<lambda>(it, _). length it)") (auto dest: utf8_next_shorter)

declare add_symbols_loop.simps [simp del]

definition addSymbols :: "VertexDescriptor \<Rightarrow> VertexDescriptor \<Rightarrow> unit lat_prog" where
  "addSymbols startVertex endVertex =
     (if isLooseVertex startVertex \<or> isLooseVertex endVertex then throw WrongVertexException
      else
        bindE (getsE (\<lambda>lat.
          if startVertex \<le> endVertex \<and> nat endVertex \<le> length (allText lat)
          then Inr (drop (nat startVertex) (take (nat endVertex) (allText lat)))
          else Inl UndefinedBehaviour)) (\<lambda>it. add_symbols_loop it startVertex))"

definition appendStringWithSymbols :: "topological_sort \<Rightarrow> string \<Rightarrow> unit lat_prog" where
  "appendStringWithSymbols ts text =
     bindE (getLastVertex ts) (\<lambda>joinPoint.
     thenE (modify (appendString text))
       (bindE (getLastVertex ts) (\<lambda>end. addSymbols joinPoint end)))"

section \<open>Sorted edges\<close>

record SortedEdgesIterator =
  sei_mask :: LayerTagMask
  sei_vi :: VertexIterator
  sei_ei :: InOutEdgesIterator
  sei_bySource :: bool

definition getEdgesIterator :: "bool \<Rightarrow> LayerTagMask \<Rightarrow> VertexDescriptor \<Rightarrow> InOutEdgesIterator lat_prog" where
  "getEdgesIterator bySource msk vd = (if bySource then outEdges vd msk else inEdges vd msk)"

definition sortedEdges :: "topological_sort \<Rightarrow> bool \<Rightarrow> LayerTagMask \<Rightarrow> SortedEdgesIterator lat_prog" where
  "sortedEdges ts bySource msk =
     bindE (getsE (newVertexIterator ts True)) (\<lambda>vi.
     bindE (getEdgesIterator bySource msk 0) (\<lambda>ei.
     bindE (getsE (vi_hasNext vi)) (\<lambda>(has, vi).
       if has then
         bindE (getsE (vi_next vi)) (\<lambda>(vd, vi).
         bindE (getEdgesIterator bySource msk vd) (\<lambda>ei.
           ret \<lparr>sei_mask = msk, sei_vi = vi, sei_ei = ei, sei_bySource = bySource\<rparr>))
       else ret \<lparr>sei_mask = msk, sei_vi = vi, sei_ei = ei, sei_bySource = bySource\<rparr>)))"

lemma index_vertex_text: "allText (index_vertex m v lat) = allText lat"
  by (simp add: index_vertex_def Let_def)

lemma addTagMaskIndex_text: "addTagMaskIndex m lat = (r, lat') \<Longrightarrow> allText lat' = allText lat"
proof -
  have "allText (fold (\<lambda>(_, v). index_vertex m v) vs lat) = allText lat" for vs :: "(int \<times> nat) list"
    by (induction vs arbitrary: lat) (auto simp: index_vertex_text)
  then show "addTagMaskIndex m lat = (r, lat') \<Longrightarrow> allText lat' = allText lat"
    by (auto simp: addTagMaskIndex_def Let_def split: option.splits)
qed

lemma vertex_ref_text: "vertex_ref v lat = (r, lat') \<Longrightarrow> allText lat' = allText lat"
  by (auto simp: vertex_ref_def split: option.splits)

lemma getEdgesIterator_text: "getEdgesIterator b m v lat = (r, lat') \<Longrightarrow> allText lat' = allText lat"
  by (auto simp: getEdgesIterator_def outEdges_def inEdges_def allOutEdges_def allInEdges_def prog_defs
    dest!: addTagMaskIndex_text vertex_ref_text split: if_splits prod.splits sum.splits)

lemma getEdgesIterator_left: "(r, lat') = getEdgesIterator b m v lat \<Longrightarrow> vi_left vi lat' = vi_left vi lat"
  using getEdgesIterator_text[of b m v lat r lat'] by (simp add: vi_left_def)

text \<open>The loop of \<open>hasNext\<close> and \<open>next\<close>: on to the first vertex with edges left.\<close>

function sei_settle :: "SortedEdgesIterator \<Rightarrow> Lattice \<Rightarrow> (lattice_error + bool \<times> SortedEdgesIterator) \<times> Lattice" where
  "sei_settle it lat =
     (if ioi_hasNext (sei_ei it) lat then (Inr (True, it), lat)
      else
        (case vi_hasNext (sei_vi it) lat of
           Inl e \<Rightarrow> (Inl e, lat)
         | Inr (has, vi1) \<Rightarrow>
             if \<not> has then (Inr (False, it\<lparr>sei_vi := vi1\<rparr>), lat)
             else
               (case vi_next vi1 lat of
                  Inl e \<Rightarrow> (Inl e, lat)
                | Inr (vd, vi2) \<Rightarrow>
                    (case getEdgesIterator (sei_bySource it) (sei_mask it) vd lat of
                       (Inl e, lat') \<Rightarrow> (Inl e, lat')
                     | (Inr ei, lat') \<Rightarrow> sei_settle (it\<lparr>sei_vi := vi2, sei_ei := ei\<rparr>) lat'))))"
  by pat_completeness auto
termination
  by (relation "measure (\<lambda>(it, lat). vi_left (sei_vi it) lat)", simp, simp)
    (metis getEdgesIterator_left vi_step_left)

declare sei_settle.simps [simp del]

definition sei_hasNext :: "SortedEdgesIterator \<Rightarrow> (bool \<times> SortedEdgesIterator) lat_prog" where
  "sei_hasNext it = sei_settle it"

definition sei_next :: "SortedEdgesIterator \<Rightarrow> (EdgeDescriptor \<times> SortedEdgesIterator) lat_prog" where
  "sei_next it =
     bindE (sei_settle it) (\<lambda>(has, it').
       if has then bindE (getsE (ioi_next (sei_ei it'))) (\<lambda>(e, ei). ret (e, it'\<lparr>sei_ei := ei\<rparr>))
       else throw NoEdgeException)"

section \<open>Children and ancestors\<close>

fun mapM :: "('a \<Rightarrow> ('e, 's, 'b) prog) \<Rightarrow> 'a list \<Rightarrow> ('e, 's, 'b list) prog" where
  "mapM f [] = ret []"
| "mapM f (x # xs) = bindE (f x) (\<lambda>y. bindE (mapM f xs) (\<lambda>ys. ret (y # ys)))"

text \<open>One copy of the potential child for every occurrence of the parent in its partitions.\<close>

definition getChildren :: "EdgeDescriptor \<Rightarrow> LayerTagMask \<Rightarrow> EdgeDescriptor list lat_prog" where
  "getChildren parent msk =
     bindE (getsE (getEdgeSource parent)) (\<lambda>sourceVertex.
     bindE (getsE (getEdgeTarget parent)) (\<lambda>targetVertex.
     bindE (outEdges sourceVertex msk) (\<lambda>it.
     bindE (gets (ioi_edges it)) (\<lambda>es.
     bindE (mapM (\<lambda>child.
         bindE (getsE (getEdgeTarget child)) (\<lambda>t.
           if t \<noteq> targetVertex then ret []
           else
             bindE (getsE (getEdgePartitions child)) (\<lambda>ps.
             bindE (mapM (\<lambda>p. seq_edges (part_sequence p)) ps) (\<lambda>ess.
               ret (map (\<lambda>_. child) (filter (\<lambda>e. e = parent) (concat ess))))))) es) (\<lambda>rss.
       ret (concat rss))))))"

text \<open>The first constituent of the partitions, in order, that matches.\<close>

function find_matching :: "SeqIterator \<Rightarrow> LayerTagMask \<Rightarrow> EdgeDescriptor option lat_prog" where
  "find_matching it msk =
     (if si_links it \<le> length (links (si_seq it)) \<and> si_hasNext it then
        bindE (si_next it) (\<lambda>(e, it').
          bindE (getsE (getEdgeLayerTags e)) (\<lambda>t.
            if matches t msk then ret (Some e) else find_matching it' msk))
      else ret None)"
  by pat_completeness auto
termination
  by (relation "measure (\<lambda>(it, _). si_measure it)") (auto dest: si_next_measure)

declare find_matching.simps [simp del]

fun parent_in :: "Partition list \<Rightarrow> LayerTagMask \<Rightarrow> EdgeDescriptor option lat_prog" where
  "parent_in [] msk = ret None"
| "parent_in (p # ps) msk =
     bindE (find_matching (seq_iterator (part_sequence p)) msk) (\<lambda>r.
       case r of Some e \<Rightarrow> ret (Some e) | None \<Rightarrow> parent_in ps msk)"

definition getParentMatching :: "EdgeDescriptor \<Rightarrow> LayerTagMask \<Rightarrow> EdgeDescriptor option lat_prog" where
  "getParentMatching child msk = bindE (getsE (getEdgePartitions child)) (\<lambda>ps. parent_in ps msk)"

definition getParent :: "EdgeDescriptor \<Rightarrow> EdgeDescriptor option lat_prog" where
  "getParent child = getParentMatching child anyTag"

text \<open>The loop of \<open>getEdgeOrigin\<close>, with fuel: nothing in the code bounds it.\<close>

fun origin_loop :: "nat \<Rightarrow> string \<Rightarrow> EdgeDescriptor option \<Rightarrow> EdgeDescriptor option lat_prog" where
  "origin_loop 0 tagName parent = throw Diverges"
| "origin_loop (Suc fuel) tagName parent =
     (case parent of
        None \<Rightarrow> ret None
      | Some e \<Rightarrow>
          bindE (getsE (getEdgeLayerTags e)) (\<lambda>t.
          bindE (on_tags (isThere tagName t)) (\<lambda>there.
            if there then ret (Some e)
            else bindE (getParent e) (origin_loop fuel tagName))))"

definition getEdgeOrigin :: "nat \<Rightarrow> string \<Rightarrow> EdgeDescriptor \<Rightarrow> EdgeDescriptor option lat_prog" where
  "getEdgeOrigin fuel tagName edge = bindE (getParent edge) (origin_loop fuel tagName)"

definition getEdgeLemma :: "nat \<Rightarrow> EdgeDescriptor \<Rightarrow> string option lat_prog" where
  "getEdgeLemma fuel edge =
     bindE (getEdgeOrigin fuel LEMMA_TAG_NAME edge) (\<lambda>r.
       case r of None \<Rightarrow> ret None
       | Some e \<Rightarrow> bindE (getsE (getAnnotationText e)) (\<lambda>t. ret (Some t)))"

definition isBlank :: "EdgeDescriptor \<Rightarrow> Lattice \<Rightarrow> lattice_error + bool" where
  "isBlank edge lat =
     sbind (getEdgeLayerTags edge lat) (\<lambda>t.
       if matches t (tokenMask lat)
       then sbind (getAnnotationCategory edge lat) (\<lambda>c. Inr (c = ''B'')) else Inr False)"

section \<open>Paths\<close>

text \<open>The inner loop keeps the last edge. The outer loop has fuel; see \<open>getPath_total\<close>.\<close>

fun path_loop :: "nat \<Rightarrow> Builder \<Rightarrow> VertexDescriptor \<Rightarrow> LayerTagMask \<Rightarrow> (EdgeSequence \<times> VertexDescriptor) lat_prog" where
  "path_loop 0 b vertex msk = throw Diverges"
| "path_loop (Suc fuel) b vertex msk =
     bindE (outEdges vertex msk) (\<lambda>it.
     bindE (gets (ioi_edges it)) (\<lambda>es.
       if es = [] then ret (builder_build b, vertex)
       else
         bindE (getsE (builder_add (last es) NULL_ZVALUE b)) (\<lambda>b'.
         bindE (getsE (getEdgeTarget (last es))) (\<lambda>v. path_loop fuel b' v msk))))"

text \<open>\<open>getPath(vertex, mask)\<close>: the path and the vertex where it ends.\<close>

definition getPath :: "nat \<Rightarrow> VertexDescriptor \<Rightarrow> LayerTagMask \<Rightarrow> (EdgeSequence \<times> VertexDescriptor) lat_prog" where
  "getPath fuel vertex msk = path_loop fuel newBuilder vertex msk"

text \<open>The scan of \<open>getPathWithSkipping\<close> over all out-edges: when the current edge satisfies the
  predicate, the edge after it becomes the best one; otherwise the best one stays.\<close>

fun skip_scan :: "(EdgeDescriptor \<Rightarrow> Lattice \<Rightarrow> lattice_error + bool) \<Rightarrow> EdgeDescriptor \<Rightarrow> EdgeDescriptor list \<Rightarrow> EdgeDescriptor lat_prog" where
  "skip_scan P bestOne [] = ret bestOne"
| "skip_scan P bestOne (currentOne # es) =
     bindE (getsE (P currentOne)) (\<lambda>b.
       if b then (case es of [] \<Rightarrow> throw NoEdgeException | e # es' \<Rightarrow> skip_scan P e es')
       else skip_scan P bestOne es)"

fun skipping_loop ::
  "nat \<Rightarrow> (EdgeDescriptor \<Rightarrow> Lattice \<Rightarrow> lattice_error + bool) \<Rightarrow> Builder \<Rightarrow> VertexDescriptor \<Rightarrow> LayerTagMask
     \<Rightarrow> (EdgeSequence \<times> VertexDescriptor) lat_prog" where
  "skipping_loop 0 P b vertex msk = throw Diverges"
| "skipping_loop (Suc fuel) P b vertex msk =
     bindE (outEdges vertex msk) (\<lambda>it.
     bindE (gets (ioi_edges it)) (\<lambda>es.
     bindE (if es \<noteq> [] then ret (Some (last es))
            else bindE (allOutEdges vertex) (\<lambda>it.
                 bindE (gets (ioi_edges it)) (\<lambda>all.
                   case all of [] \<Rightarrow> ret None
                   | e # es' \<Rightarrow> bindE (skip_scan P e es') (\<lambda>r. ret (Some r))))) (\<lambda>best.
       case best of
         None \<Rightarrow> ret (builder_build b, vertex)
       | Some e \<Rightarrow>
           bindE (getsE (builder_add e NULL_ZVALUE b)) (\<lambda>b'.
           bindE (getsE (getEdgeTarget e)) (\<lambda>v. skipping_loop fuel P b' v msk)))))"

definition getPathSkippingBlanks :: "nat \<Rightarrow> VertexDescriptor \<Rightarrow> LayerTagMask \<Rightarrow> (EdgeSequence \<times> VertexDescriptor) lat_prog" where
  "getPathSkippingBlanks fuel vertex msk = skipping_loop fuel isBlank newBuilder vertex msk"

section \<open>Corrections\<close>

text \<open>The symbols of the inserted text become edges through new loose vertices; the result is the
  last vertex, \<open>None\<close> for an empty text.\<close>

function insert_symbols :: "string \<Rightarrow> VertexDescriptor \<Rightarrow> VertexDescriptor option \<Rightarrow> VertexDescriptor option lat_prog" where
  "insert_symbols it from to =
     (if it = [] then ret to
      else
        bindE addLooseVertex (\<lambda>to'.
        (case utf8_next it of
           Inl e \<Rightarrow> throw (Lattice_Utf8 e)
         | Inr (cp, it') \<Rightarrow>
             (case utf8_append cp of
                Inl e \<Rightarrow> throw (Lattice_Utf8 e)
              | Inr symbol \<Rightarrow>
                  bindE (gets lat_symbolTag) (\<lambda>tag.
                  bindE (addPlainEdge from to' (new_item (CHR 0x27 # symbol) (frag_of_string symbol)) tag) (\<lambda>_.
                    insert_symbols it' to' (Some to')))))))"
  by pat_completeness auto
termination
  by (relation "measure (\<lambda>(it, _, _). length it)") (auto dest: utf8_next_shorter)

declare insert_symbols.simps [simp del]

definition catchNoEdge :: "unit lat_prog \<Rightarrow> unit lat_prog \<Rightarrow> unit lat_prog" where
  "catchNoEdge m h = catchE m (\<lambda>e. if e = NoEdgeException then Some h else None)"

definition correctionInsert :: "VertexDescriptor \<Rightarrow> string \<Rightarrow> unit lat_prog" where
  "correctionInsert here text =
     bindE (insert_symbols text here None) (\<lambda>to.
       catchNoEdge
         (bindE (gets symbolMask) (\<lambda>msk.
          bindE (firstOutEdge here msk) (\<lambda>nextEdge.
          bindE (getsE (getEdgeTarget nextEdge)) (\<lambda>t.
          bindE (getsE (getEdgeAnnotationItem nextEdge)) (\<lambda>item.
          bindE (gets lat_symbolTag) (\<lambda>tag.
            case to of None \<Rightarrow> throw UndefinedBehaviour
            | Some v \<Rightarrow> bindE (addPlainEdge v t item tag) (\<lambda>_. ret ())))))))
         (ret ()))"

definition correctionErase :: "VertexDescriptor \<Rightarrow> VertexDescriptor \<Rightarrow> unit lat_prog" where
  "correctionErase from to =
     (if from = to then ret ()
      else
        bindE (gets symbolMask) (\<lambda>msk. bindE (gets lat_symbolTag) (\<lambda>tag.
        catchNoEdge
          (bindE (firstOutEdge to msk) (\<lambda>nextEdge.
           bindE (getsE (getEdgeTarget nextEdge)) (\<lambda>t.
           bindE (getsE (getEdgeAnnotationItem nextEdge)) (\<lambda>item.
           bindE (addPlainEdge from t item tag) (\<lambda>_. ret ())))))
          (catchNoEdge
            (bindE (firstOutEdge to msk) (\<lambda>prevEdge.
             bindE (getsE (getEdgeSource prevEdge)) (\<lambda>s.
             bindE (getsE (getEdgeAnnotationItem prevEdge)) (\<lambda>item.
             bindE (addPlainEdge s to item tag) (\<lambda>_. ret ())))))
            (throw WrongVertexException)))))"

function replace_loop :: "string \<Rightarrow> string \<Rightarrow> VertexDescriptor \<Rightarrow> VertexDescriptor \<Rightarrow> unit lat_prog" where
  "replace_loop it text from to =
     (if it = [] then correctionErase from to
      else if from = to then correctionInsert from text
      else
        (case utf8_next it of
           Inl e \<Rightarrow> throw (Lattice_Utf8 e)
         | Inr (cp, it') \<Rightarrow>
             (case utf8_append cp of
                Inl e \<Rightarrow> throw (Lattice_Utf8 e)
              | Inr symbol \<Rightarrow>
                  bindE (gets symbolMask) (\<lambda>msk.
                  bindE (firstOutEdge from msk) (\<lambda>edge.
                  bindE (getsE (getEdgeTarget edge)) (\<lambda>vertex.
                  bindE (getsE (getAnnotationText edge)) (\<lambda>t.
                  bindE (gets lat_symbolTag) (\<lambda>tag.
                  thenE (if symbol \<noteq> t
                         then bindE (addPlainEdge from vertex (new_item (CHR 0x27 # symbol) (frag_of_string symbol)) tag) (\<lambda>_. ret ())
                         else ret ())
                    (replace_loop it' text vertex to)))))))))"
  by pat_completeness auto
termination
  by (relation "measure (\<lambda>(it, _, _, _). length it)") (auto dest: utf8_next_shorter)

declare replace_loop.simps [simp del]

definition correctionReplace :: "VertexDescriptor \<Rightarrow> VertexDescriptor \<Rightarrow> string \<Rightarrow> unit lat_prog" where
  "correctionReplace from to text =
     catchNoEdge (replace_loop text text from to) (throw WrongVertexException)"

section \<open>Counting\<close>

definition countEdges :: "VertexDescriptor \<Rightarrow> VertexDescriptor \<Rightarrow> Lattice \<Rightarrow> int" where
  "countEdges from to lat = edgeCounterHash lat (from, to)"

definition countAllVertices :: "Lattice \<Rightarrow> lattice_error + int" where
  "countAllVertices lat =
     sbind (lift_utf8 (utf8_distance (allText lat))) (\<lambda>n. Inr (1 + int n + int (nLooseVertices lat)))"

section \<open>Cutters\<close>

text \<open>A cutter runs on the lattice and on its own state.\<close>

type_synonym ('c, 'a) run_prog = "(lattice_error, Lattice \<times> 'c Cutter, 'a) prog"

definition on_lattice :: "'a lat_prog \<Rightarrow> ('c, 'a) run_prog" where
  "on_lattice m = (\<lambda>(lat, c). case m lat of (r, lat') \<Rightarrow> (r, (lat', c)))"

definition on_cutter :: "('c, 'a) cutter_prog \<Rightarrow> ('c, 'a) run_prog" where
  "on_cutter m = (\<lambda>(lat, c). case m c of (r, c') \<Rightarrow>
     (map_sum (\<lambda>e. case e of Cutter_Exception \<Rightarrow> CutterException | Cutter_String s \<Rightarrow> Lattice_String s) id r, (lat, c')))"

text \<open>\<open>cutSequenceByTextLength_\<close>: the sequence and the advanced iterator.\<close>

function cut_sequence :: "SeqIterator \<Rightarrow> int \<Rightarrow> int \<Rightarrow> Builder \<Rightarrow> (EdgeSequence \<times> SeqIterator) lat_prog" where
  "cut_sequence it len lengthGathered b =
     (if si_links it \<le> length (links (si_seq it)) \<and> si_hasNext it \<and> lengthGathered < len then
        bindE (si_next it) (\<lambda>(ed, it').
        bindE (getsE (builder_add ed NULL_ZVALUE b)) (\<lambda>b'.
        bindE (getsE (getEdgeText ed)) (\<lambda>t.
          cut_sequence it' len (lengthGathered + int (length t)) b')))
      else ret (builder_build b, it))"
  by pat_completeness auto
termination
  by (relation "measure (\<lambda>(it, _, _, _). si_measure it)") (auto dest: si_next_measure)

declare cut_sequence.simps [simp del]

definition cutSequenceByTextLength :: "SeqIterator \<Rightarrow> int \<Rightarrow> (EdgeSequence \<times> SeqIterator) lat_prog" where
  "cutSequenceByTextLength it len = cut_sequence it len 0 newBuilder"

text \<open>The loop of \<open>runCutterOnEdge_\<close>; a cutter that does not advance makes it endless, so it has
  fuel.\<close>

fun cutter_loop :: "nat \<Rightarrow> StringFrag \<Rightarrow> LayerTagCollection \<Rightarrow> nat \<Rightarrow> SeqIterator \<Rightarrow> ('c, unit) run_prog" where
  "cutter_loop 0 text tags pos it = throw Diverges"
| "cutter_loop (Suc fuel) text tags pos it =
     bindE (on_cutter (cutOff (FragText text) pos)) (\<lambda>(item, pos').
     bindE (ret (int (if pos' = npos then frag_length text else pos') - int pos)) (\<lambda>itemLength.
     bindE (on_lattice (cutSequenceByTextLength it itemLength)) (\<lambda>(itemSequence, it').
     bindE (on_lattice (firstSequenceVertex itemSequence)) (\<lambda>s.
     bindE (on_lattice (lastSequenceVertex itemSequence)) (\<lambda>t.
     bindE (on_lattice (addEdge s t item tags itemSequence 0 (-1) (-1))) (\<lambda>_.
       if pos' < frag_length text \<and> pos' \<noteq> npos then cutter_loop fuel text tags pos' it' else ret ()))))))"

definition runCutterOnEdge :: "nat \<Rightarrow> EdgeDescriptor \<Rightarrow> LayerTagMask \<Rightarrow> ('c, unit) run_prog" where
  "runCutterOnEdge fuel edge msk =
     bindE (on_lattice (getsE (getEdgeSource edge))) (\<lambda>vertex.
     bindE (on_lattice (getPath fuel vertex msk)) (\<lambda>(q, _).
       if seq_empty q then ret ()
       else
         bindE (on_lattice (getSequenceTextAsStringFrag q)) (\<lambda>text.
         bindE (gets (\<lambda>(_, c). doLayerTags (cut_class c) (cut_state c))) (\<lambda>names.
         bindE (on_lattice (on_tags (createTagCollection names))) (\<lambda>tags.
           cutter_loop fuel text tags 0 (seq_iterator q))))))"

fun cutter_edges_loop :: "nat \<Rightarrow> SortedEdgesIterator \<Rightarrow> LayerTagMask \<Rightarrow> ('c, unit) run_prog" where
  "cutter_edges_loop 0 it msk = throw Diverges"
| "cutter_edges_loop (Suc fuel) it msk =
     bindE (on_lattice (sei_hasNext it)) (\<lambda>(has, it1).
       if has then
         thenE (modify (\<lambda>(lat, c). (lat, cutter_reset c)))
         (bindE (on_lattice (sei_next it1)) (\<lambda>(e, it2).
          thenE (runCutterOnEdge fuel e msk) (cutter_edges_loop fuel it2 msk)))
       else ret ())"

definition runCutter :: "nat \<Rightarrow> topological_sort \<Rightarrow> LayerTagMask \<Rightarrow> LayerTagMask \<Rightarrow> ('c, unit) run_prog" where
  "runCutter fuel ts msk superMask =
     bindE (on_lattice (sortedEdges ts True superMask)) (\<lambda>it. cutter_edges_loop fuel it msk)"

end
