(* ===== verification/Lattice_Facts.thy ===== *)
theory Lattice_Facts
  imports Lattice
begin

text \<open>
  The invariant of the lattice, the order in which it evolves, and the proof that the
  operations of \<open>Lattice\<close> keep the one and follow the other.
\<close>

section \<open>The invariant\<close>

text \<open>Every vertex of the map is a Boost vertex with this index and the other way round.\<close>

definition wf_vertices :: "Lattice \<Rightarrow> bool" where
  "wf_vertices lat \<longleftrightarrow>
     distinct (map fst (vertices lat)) \<and> distinct (map snd (vertices lat)) \<and>
     (\<forall>(vd, v) \<in> set (vertices lat). v < length (g_vertices lat) \<and> v_index (g_vertices lat ! v) = vd \<and>
        - int (nLooseVertices lat) \<le> vd \<and> vd \<le> int (length (allText lat))) \<and>
     (\<forall>v < length (g_vertices lat). v \<in> snd ` set (vertices lat))"

definition wf_bits :: "Lattice \<Rightarrow> bool" where
  "wf_bits lat \<longleftrightarrow>
     length (implicitOutEdges lat) = length (allText lat) + 1 \<and>
     length (hiddenImplicitOutEdges lat) = length (allText lat) + 1 \<and>
     length (visibleImplicitOutEdges lat) = length (allText lat) + 1 \<and>
     (\<forall>i < length (implicitOutEdges lat). implicitOutEdges lat ! i \<longrightarrow> i < length (allText lat))"

text \<open>Edges join known vertices, and lead forward when they join vertices of the text.\<close>

definition source_index :: "Lattice \<Rightarrow> nat \<Rightarrow> int" where
  "source_index lat d = v_index (g_vertices lat ! e_source (g_edges lat ! d))"

definition target_index :: "Lattice \<Rightarrow> nat \<Rightarrow> int" where
  "target_index lat d = v_index (g_vertices lat ! e_target (g_edges lat ! d))"

definition wf_edges :: "Lattice \<Rightarrow> bool" where
  "wf_edges lat \<longleftrightarrow> (\<forall>d < length (g_edges lat).
     e_source (g_edges lat ! d) < length (g_vertices lat) \<and> e_target (g_edges lat ! d) < length (g_vertices lat) \<and>
     source_index lat d \<noteq> target_index lat d \<and>
     (0 \<le> source_index lat d \<longrightarrow> 0 \<le> target_index lat d \<longrightarrow> source_index lat d < target_index lat d))"

text \<open>An index list holds only edges of its vertex that match its mask.\<close>

definition wf_index :: "Lattice \<Rightarrow> bool" where
  "wf_index lat \<longleftrightarrow> (\<forall>v < length (g_vertices lat).
     length (outEdgesIndex (g_vertices lat ! v)) = length (indexedTagMasks lat) \<and>
     length (inEdgesIndex (g_vertices lat ! v)) = length (indexedTagMasks lat) \<and>
     (\<forall>ix < length (indexedTagMasks lat).
        (\<forall>d \<in> set (outEdgesIndex (g_vertices lat ! v) ! ix).
           d < length (g_edges lat) \<and> e_source (g_edges lat ! d) = v \<and>
           matches (e_tags (g_edges lat ! d)) (indexedTagMasks lat ! ix)) \<and>
        (\<forall>d \<in> set (inEdgesIndex (g_vertices lat ! v) ! ix).
           d < length (g_edges lat) \<and> e_target (g_edges lat ! d) = v \<and>
           matches (e_tags (g_edges lat ! d)) (indexedTagMasks lat ! ix))))"

text \<open>The edges of a hash entry join the vertices of its key.\<close>

fun edge_joins :: "Lattice \<Rightarrow> VertexDescriptor \<Rightarrow> VertexDescriptor \<Rightarrow> EdgeDescriptor \<Rightarrow> bool" where
  "edge_joins lat f t (ExplicitEdge d) \<longleftrightarrow>
     d < length (g_edges lat) \<and> source_index lat d = f \<and> target_index lat d = t"
| "edge_joins lat f t (ImplicitEdge i) \<longleftrightarrow>
     f = int i \<and> i < length (allText lat) \<and> t = int i + int (symbolLength (allText lat) i)"

definition wf_vvc :: "Lattice \<Rightarrow> bool" where
  "wf_vvc lat \<longleftrightarrow> (\<forall>(((f, t), item), es) \<in> set (vvcHash lat). \<forall>e \<in> set es. edge_joins lat f t e)"

definition lat_wf :: "Lattice \<Rightarrow> bool" where
  "lat_wf lat \<longleftrightarrow> wf_vertices lat \<and> wf_bits lat \<and> wf_edges lat \<and> wf_index lat \<and> wf_vvc lat"

lemmas wf_defs = lat_wf_def wf_vertices_def wf_bits_def wf_edges_def wf_index_def wf_vvc_def

text \<open>A vertex of the text, or a known loose one.\<close>

definition valid_vertex :: "VertexDescriptor \<Rightarrow> Lattice \<Rightarrow> bool" where
  "valid_vertex v lat \<longleftrightarrow>
     (if v < 0 then map_of (vertices lat) v \<noteq> None else v \<le> int (length (allText lat)))"

section \<open>The order of evolution\<close>

definition entry_le :: "EdgeEntry \<Rightarrow> EdgeEntry \<Rightarrow> bool" where
  "entry_le e e' \<longleftrightarrow> e_source e' = e_source e \<and> e_target e' = e_target e \<and> e_item e' = e_item e \<and>
     isSubset (e_tags e) (e_tags e') \<and> e_score e \<le> e_score e' \<and> prefix (e_partitions e) (e_partitions e')"

definition lat_le :: "Lattice \<Rightarrow> Lattice \<Rightarrow> bool" where
  "lat_le lat lat' \<longleftrightarrow>
     allText lat' = allText lat \<and> lat_symbolTag lat' = lat_symbolTag lat \<and>
     tagManager lat' = tagManager lat \<and> symbolMask lat' = symbolMask lat \<and>
     nLooseVertices lat \<le> nLooseVertices lat' \<and>
     prefix (indexedTagMasks lat) (indexedTagMasks lat') \<and>
     length (g_vertices lat) \<le> length (g_vertices lat') \<and>
     (\<forall>v < length (g_vertices lat). v_index (g_vertices lat' ! v) = v_index (g_vertices lat ! v)) \<and>
     (\<forall>vd v. map_of (vertices lat) vd = Some v \<longrightarrow> map_of (vertices lat') vd = Some v) \<and>
     length (g_edges lat) \<le> length (g_edges lat') \<and>
     (\<forall>d < length (g_edges lat). entry_le (g_edges lat ! d) (g_edges lat' ! d))"

lemma isSubset_refl [simp]: "isSubset t t"
  by (simp add: isSubset_iff)

lemma isSubset_trans: "isSubset a b \<Longrightarrow> isSubset b c \<Longrightarrow> isSubset a c"
  by (simp add: isSubset_iff)

lemma entry_le_refl [simp]: "entry_le e e"
  by (simp add: entry_le_def)

lemma entry_le_trans: "entry_le a b \<Longrightarrow> entry_le b c \<Longrightarrow> entry_le a c"
  unfolding entry_le_def using isSubset_trans prefix_order.trans order.trans by metis

lemma lat_le_refl [simp]: "lat_le lat lat"
  by (simp add: lat_le_def)

lemma lat_le_trans:
  assumes "lat_le a b" "lat_le b c"
  shows "lat_le a c"
proof -
  have "prefix (indexedTagMasks a) (indexedTagMasks c)"
    using assms unfolding lat_le_def by (meson prefix_order.trans)
  moreover have "entry_le (g_edges a ! d) (g_edges c ! d)" if "d < length (g_edges a)" for d
    using assms that unfolding lat_le_def by (meson entry_le_trans less_le_trans)
  ultimately show ?thesis using assms unfolding lat_le_def by (auto dest: less_le_trans)
qed

lemma matches_mono: "isSubset t t' \<Longrightarrow> matches t m \<Longrightarrow> matches t' m"
  by (auto simp: matches_def list_ex_iff isSubset_iff split: if_splits)

lemma edge_joins_mono:
  assumes "lat_wf lat" "lat_le lat lat'" "edge_joins lat f t e"
  shows "edge_joins lat' f t e"
proof (cases e)
  case (ExplicitEdge d)
  then have d: "d < length (g_edges lat)" using assms(3) by simp
  then have e: "entry_le (g_edges lat ! d) (g_edges lat' ! d)" "d < length (g_edges lat')"
    using assms(2) unfolding lat_le_def by auto
  have "e_source (g_edges lat ! d) < length (g_vertices lat)" "e_target (g_edges lat ! d) < length (g_vertices lat)"
    using assms(1) d by (auto simp: lat_wf_def wf_edges_def)
  then have "source_index lat' d = source_index lat d" "target_index lat' d = target_index lat d"
    using e assms(2) unfolding source_index_def target_index_def entry_le_def lat_le_def by auto
  then show ?thesis using ExplicitEdge assms(3) e by simp
next
  case (ImplicitEdge i)
  then show ?thesis using assms(2,3) by (simp add: lat_le_def)
qed

lemma valid_vertex_mono: "lat_le lat lat' \<Longrightarrow> valid_vertex v lat \<Longrightarrow> valid_vertex v lat'"
  unfolding lat_le_def valid_vertex_def
  by (auto split: if_splits)

section \<open>Specifications of operations\<close>

text \<open>\<open>spec P m R\<close>: from a well-formed lattice with \<open>P\<close>, whatever the outcome, the lattice stays
  well-formed and evolves along the order; a returned value satisfies \<open>R\<close>.\<close>

definition spec :: "(Lattice \<Rightarrow> bool) \<Rightarrow> 'a lat_prog \<Rightarrow> ('a \<Rightarrow> Lattice \<Rightarrow> bool) \<Rightarrow> bool" where
  "spec P m R \<longleftrightarrow> (\<forall>lat r lat'. lat_wf lat \<longrightarrow> P lat \<longrightarrow> m lat = (r, lat') \<longrightarrow>
     lat_wf lat' \<and> lat_le lat lat' \<and> (\<forall>a. r = Inr a \<longrightarrow> R a lat'))"

text \<open>A condition that evolution preserves.\<close>

definition stable :: "(Lattice \<Rightarrow> bool) \<Rightarrow> bool" where
  "stable P \<longleftrightarrow> (\<forall>lat lat'. lat_wf lat \<longrightarrow> lat_le lat lat' \<longrightarrow> P lat \<longrightarrow> P lat')"

lemma stable_intros:
  "stable (\<lambda>_. b)" "stable P \<Longrightarrow> stable Q \<Longrightarrow> stable (\<lambda>lat. P lat \<and> Q lat)"
  "stable (valid_vertex v)" "stable (\<lambda>lat. edge_joins lat f t e)"
  "stable (\<lambda>lat. b \<longrightarrow> valid_vertex v lat)"
  using valid_vertex_mono edge_joins_mono by (auto simp: stable_def)

lemma specD:
  "spec P m R \<Longrightarrow> lat_wf lat \<Longrightarrow> P lat \<Longrightarrow> m lat = (r, lat') \<Longrightarrow>
     lat_wf lat' \<and> lat_le lat lat' \<and> (\<forall>a. r = Inr a \<longrightarrow> R a lat')"
  by (simp add: spec_def)

named_theorems spec_rules "specifications of the operations of the lattice"

lemma spec_bindE:
  assumes "spec P m R" "\<And>a. spec (\<lambda>lat. P lat \<and> R a lat) (f a) Q" "stable P"
  shows "spec P (bindE m f) Q"
  unfolding spec_def
proof (intro allI impI)
  fix lat r lat' assume wf: "lat_wf lat" and P: "P lat" and b: "bindE m f lat = (r, lat')"
  obtain r1 lat1 where m: "m lat = (r1, lat1)" by (cases "m lat")
  note 1 = specD[OF assms(1) wf P m]
  show "lat_wf lat' \<and> lat_le lat lat' \<and> (\<forall>a. r = Inr a \<longrightarrow> Q a lat')"
  proof (cases r1)
    case (Inl e)
    then show ?thesis using b m 1 by (auto simp: bindE_def)
  next
    case (Inr a)
    then have "f a lat1 = (r, lat')" using b m by (simp add: bindE_def)
    moreover have "P lat1" using assms(3) 1 wf P by (auto simp: stable_def)
    ultimately show ?thesis using specD[OF assms(2)[of a], of lat1 r lat'] 1 Inr by (auto intro: lat_le_trans)
  qed
qed

lemma spec_thenE:
  "spec P m (\<lambda>_ _. True) \<Longrightarrow> spec P n Q \<Longrightarrow> stable P \<Longrightarrow> spec P (thenE m n) Q"
  unfolding thenE_def by (rule spec_bindE[where R = "\<lambda>_ _. True"]) simp_all

lemma spec_conseq:
  "spec P' m R' \<Longrightarrow> (\<And>lat. lat_wf lat \<Longrightarrow> P lat \<Longrightarrow> P' lat) \<Longrightarrow> (\<And>a lat. lat_wf lat \<Longrightarrow> R' a lat \<Longrightarrow> R a lat) \<Longrightarrow> spec P m R"
  by (fastforce simp: spec_def)

lemma spec_ret: "(\<And>lat. lat_wf lat \<Longrightarrow> P lat \<Longrightarrow> R a lat) \<Longrightarrow> spec P (ret a) R"
  by (simp add: spec_def ret_def)

lemma spec_throw: "spec P (throw e) R"
  by (simp add: spec_def throw_def)

lemma spec_gets: "(\<And>lat. lat_wf lat \<Longrightarrow> P lat \<Longrightarrow> R (f lat) lat) \<Longrightarrow> spec P (gets f) R"
  by (simp add: spec_def gets_def)

lemma spec_getsE: "(\<And>lat a. lat_wf lat \<Longrightarrow> P lat \<Longrightarrow> f lat = Inr a \<Longrightarrow> R a lat) \<Longrightarrow> spec P (getsE f) R"
  by (simp add: spec_def getsE_def)

lemma spec_modify:
  "(\<And>lat. lat_wf lat \<Longrightarrow> P lat \<Longrightarrow> lat_wf (f lat) \<and> lat_le lat (f lat) \<and> R () (f lat)) \<Longrightarrow> spec P (modify f) R"
  by (simp add: spec_def modify_def)

lemma spec_if: "(b \<Longrightarrow> spec P m R) \<Longrightarrow> (\<not> b \<Longrightarrow> spec P n R) \<Longrightarrow> spec P (if b then m else n) R"
  by simp

lemma spec_catchE:
  assumes "spec P m R" "\<And>e n. h e = Some n \<Longrightarrow> spec P n R" "stable P"
  shows "spec P (catchE m h) R"
  unfolding spec_def
proof (intro allI impI)
  fix lat r lat' assume wf: "lat_wf lat" and P: "P lat" and c: "catchE m h lat = (r, lat')"
  obtain r1 lat1 where m: "m lat = (r1, lat1)" by (cases "m lat")
  note 1 = specD[OF assms(1) wf P m]
  have P1: "P lat1" using assms(3) 1 wf P by (auto simp: stable_def)
  show "lat_wf lat' \<and> lat_le lat lat' \<and> (\<forall>a. r = Inr a \<longrightarrow> R a lat')"
  proof (cases r1)
    case (Inl e)
    show ?thesis
    proof (cases "h e")
      case None
      then show ?thesis using c m 1 Inl by (auto simp: catchE_def)
    next
      case (Some n)
      then have "n lat1 = (r, lat')" using c m Inl by (simp add: catchE_def)
      then show ?thesis using specD[OF assms(2)[OF Some]] P1 1 by (blast intro: lat_le_trans)
    qed
  next
    case (Inr a)
    then show ?thesis using c m 1 by (auto simp: catchE_def)
  qed
qed

section \<open>The parts of the operations\<close>

lemma edge_joins_cong:
  assumes "g_edges lat' = g_edges lat" "g_vertices lat' = g_vertices lat" "allText lat' = allText lat"
  shows "edge_joins lat' f t e \<longleftrightarrow> edge_joins lat f t e"
  using assms by (cases e) (simp_all add: source_index_def target_index_def)

text \<open>Changing bits, the edge counter or (properly) the hash.\<close>

lemma wf_cong:
  assumes "lat_wf lat" "g_edges lat' = g_edges lat" "g_vertices lat' = g_vertices lat"
    "allText lat' = allText lat" "vertices lat' = vertices lat" "nLooseVertices lat' = nLooseVertices lat"
    "indexedTagMasks lat' = indexedTagMasks lat" "wf_bits lat'" "wf_vvc lat'"
  shows "lat_wf lat'"
  using assms by (simp add: lat_wf_def wf_vertices_def wf_edges_def wf_index_def source_index_def target_index_def)

lemma le_cong:
  assumes "g_edges lat' = g_edges lat" "g_vertices lat' = g_vertices lat"
    "allText lat' = allText lat" "vertices lat' = vertices lat" "nLooseVertices lat' = nLooseVertices lat"
    "indexedTagMasks lat' = indexedTagMasks lat" "tagManager lat' = tagManager lat"
    "lat_symbolTag lat' = lat_symbolTag lat" "symbolMask lat' = symbolMask lat"
  shows "lat_le lat lat'"
  using assms by (simp add: lat_le_def)

lemma wf_vvc_cong:
  assumes "g_edges lat' = g_edges lat" "g_vertices lat' = g_vertices lat"
    "allText lat' = allText lat" "vvcHash lat' = vvcHash lat"
  shows "wf_vvc lat' \<longleftrightarrow> wf_vvc lat"
  using edge_joins_cong[OF assms(1-3)] assms(4) by (simp add: wf_vvc_def)

lemma wf_bits_update:
  assumes "lat_wf lat" "length bs = length (allText lat) + 1"
  shows "(\<And>i. i < length bs \<Longrightarrow> bs ! i \<Longrightarrow> i < length (allText lat)) \<Longrightarrow> lat_wf (lat\<lparr>implicitOutEdges := bs\<rparr>)"
    "lat_wf (lat\<lparr>visibleImplicitOutEdges := bs\<rparr>)" "lat_wf (lat\<lparr>hiddenImplicitOutEdges := bs\<rparr>)"
proof -
  have v: "wf_vvc (lat\<lparr>implicitOutEdges := bs\<rparr>)" "wf_vvc (lat\<lparr>visibleImplicitOutEdges := bs\<rparr>)"
    "wf_vvc (lat\<lparr>hiddenImplicitOutEdges := bs\<rparr>)"
    using assms(1) wf_vvc_cong[of "lat\<lparr>implicitOutEdges := bs\<rparr>" lat]
      wf_vvc_cong[of "lat\<lparr>visibleImplicitOutEdges := bs\<rparr>" lat]
      wf_vvc_cong[of "lat\<lparr>hiddenImplicitOutEdges := bs\<rparr>" lat] by (simp_all add: lat_wf_def)
  have b: "(\<And>i. i < length bs \<Longrightarrow> bs ! i \<Longrightarrow> i < length (allText lat)) \<Longrightarrow> wf_bits (lat\<lparr>implicitOutEdges := bs\<rparr>)"
    "wf_bits (lat\<lparr>visibleImplicitOutEdges := bs\<rparr>)"
    "wf_bits (lat\<lparr>hiddenImplicitOutEdges := bs\<rparr>)"
    using assms by (simp_all add: wf_bits_def lat_wf_def)
  show "lat_wf (lat\<lparr>implicitOutEdges := bs\<rparr>)" if "\<And>i. i < length bs \<Longrightarrow> bs ! i \<Longrightarrow> i < length (allText lat)"
    by (rule wf_cong[OF assms(1)]) (use that in \<open>simp_all add: v b\<close>)
  show "lat_wf (lat\<lparr>visibleImplicitOutEdges := bs\<rparr>)" by (rule wf_cong[OF assms(1)]) (simp_all add: v b)
  show "lat_wf (lat\<lparr>hiddenImplicitOutEdges := bs\<rparr>)" by (rule wf_cong[OF assms(1)]) (simp_all add: v b)
qed

lemma wf_counter: "lat_wf lat \<Longrightarrow> lat_wf (lat\<lparr>edgeCounterHash := c\<rparr>)"
  using wf_vvc_cong[of "lat\<lparr>edgeCounterHash := c\<rparr>" lat]
  by (intro wf_cong[of lat "lat\<lparr>edgeCounterHash := c\<rparr>"]) (simp_all add: wf_bits_def lat_wf_def)

lemma wf_vvc_update:
  assumes "lat_wf lat" "\<And>f t item es e. (((f, t), item), es) \<in> set h \<Longrightarrow> e \<in> set es \<Longrightarrow> edge_joins lat f t e"
  shows "lat_wf (lat\<lparr>vvcHash := h\<rparr>)"
proof (rule wf_cong[OF assms(1)])
  have "edge_joins (lat\<lparr>vvcHash := h\<rparr>) f t e = edge_joins lat f t e" for f t e
    by (rule edge_joins_cong) simp_all
  then show "wf_vvc (lat\<lparr>vvcHash := h\<rparr>)" using assms(2) by (fastforce simp: wf_vvc_def)
qed (use assms in \<open>simp_all add: wf_bits_def lat_wf_def\<close>)

lemma vvc_insert_set: "(k', es) \<in> set (vvc_insert k h) \<Longrightarrow> (k', es) \<in> set h \<or> es = []"
  by (auto simp: vvc_insert_def split: if_splits)

lemma vvc_push_set:
  "(k', es) \<in> set (vvc_push k e h) \<Longrightarrow> \<exists>es0. (k', es0) \<in> set h \<and> (es = es0 \<or> es = es0 @ [e] \<and> fst k' = fst k)"
proof (induction h)
  case (Cons x h)
  obtain k1 es1 where x: "x = (k1, es1)" by (cases x)
  with Cons show ?case by (auto simp: vvc_same_def split: if_splits)
qed simp

lemma vvc_lookup_set: "vvc_lookup k h = Some es \<Longrightarrow> \<exists>k'. (k', es) \<in> set h \<and> fst k' = fst k"
  by (induction k h rule: vvc_lookup.induct) (auto simp: vvc_same_def split: if_splits)

lemma bit_put_length: "bit_put bs i b = Inr bs' \<Longrightarrow> length bs' = length bs"
  by (auto simp: bit_put_def split: if_splits)

lemma spec_set_visible [spec_rules]: "spec P (set_visible vd) (\<lambda>_ _. True)"
proof -
  have "lat_wf lat' \<and> lat_le lat lat'" if wf: "lat_wf lat" and s: "set_visible vd lat = (r, lat')" for lat r lat'
  proof (cases "bit_put (visibleImplicitOutEdges lat) vd True")
    case (Inl e)
    then show ?thesis using wf s by (auto simp: set_visible_def prog_defs)
  next
    case (Inr bs)
    then have "lat' = lat\<lparr>visibleImplicitOutEdges := bs\<rparr>" using s by (auto simp: set_visible_def prog_defs)
    moreover have "length bs = length (allText lat) + 1"
      using bit_put_length[OF Inr] wf by (simp add: lat_wf_def wf_bits_def)
    ultimately show ?thesis using wf wf_bits_update(2) by (simp add: le_cong)
  qed
  then show ?thesis by (auto simp: spec_def)
qed

text \<open>Giving every vertex the index lists of a new mask.\<close>

lemma fold_index_vertex:
  assumes "distinct (map snd vs)" "\<forall>(_, v) \<in> set vs. v < length (g_vertices lat)"
  shows "\<exists>gs. fold (\<lambda>(_, v). index_vertex m v) vs lat = lat\<lparr>g_vertices := gs\<rparr> \<and>
    length gs = length (g_vertices lat) \<and>
    (\<forall>v < length gs. gs ! v =
      (if v \<in> snd ` set vs then (g_vertices lat ! v)
         \<lparr>outEdgesIndex := outEdgesIndex (g_vertices lat ! v) @
            [filter (\<lambda>d. matches (e_tags (g_edges lat ! d)) m) (out_edges v lat)],
          inEdgesIndex := inEdgesIndex (g_vertices lat ! v) @
            [filter (\<lambda>d. matches (e_tags (g_edges lat ! d)) m) (in_edges v lat)]\<rparr>
       else g_vertices lat ! v))"
  using assms
proof (induction vs arbitrary: lat)
  case Nil
  then show ?case by (intro exI[of _ "g_vertices lat"]) simp
next
  case (Cons x vs)
  obtain vd v where x: "x = (vd, v)" by (cases x)
  define lat1 where "lat1 = index_vertex m v lat"
  have l1: "g_edges lat1 = g_edges lat" "length (g_vertices lat1) = length (g_vertices lat)"
    "out_edges u lat1 = out_edges u lat" "in_edges u lat1 = in_edges u lat"
    "lat1\<lparr>g_vertices := gs\<rparr> = lat\<lparr>g_vertices := gs\<rparr>"
    "u < length (g_vertices lat) \<Longrightarrow> u \<noteq> v \<Longrightarrow> g_vertices lat1 ! u = g_vertices lat ! u"
    "g_vertices lat1 ! v = (g_vertices lat ! v)
         \<lparr>outEdgesIndex := outEdgesIndex (g_vertices lat ! v) @
            [filter (\<lambda>d. matches (e_tags (g_edges lat ! d)) m) (out_edges v lat)],
          inEdgesIndex := inEdgesIndex (g_vertices lat ! v) @
            [filter (\<lambda>d. matches (e_tags (g_edges lat ! d)) m) (in_edges v lat)]\<rparr>" for u gs
    using Cons.prems(2) x by (auto simp: lat1_def index_vertex_def out_edges_def in_edges_def Let_def)
  obtain gs where gs: "fold (\<lambda>(_, v). index_vertex m v) vs lat1 = lat1\<lparr>g_vertices := gs\<rparr>"
    "length gs = length (g_vertices lat1)"
    "\<forall>u < length gs. gs ! u =
      (if u \<in> snd ` set vs then (g_vertices lat1 ! u)
         \<lparr>outEdgesIndex := outEdgesIndex (g_vertices lat1 ! u) @
            [filter (\<lambda>d. matches (e_tags (g_edges lat1 ! d)) m) (out_edges u lat1)],
          inEdgesIndex := inEdgesIndex (g_vertices lat1 ! u) @
            [filter (\<lambda>d. matches (e_tags (g_edges lat1 ! d)) m) (in_edges u lat1)]\<rparr>
       else g_vertices lat1 ! u)"
    using Cons.IH[of lat1] Cons.prems l1(2) x by auto
  have nv: "v \<notin> snd ` set vs" using Cons.prems(1) x by auto
  show ?case
  proof (intro exI[of _ gs] conjI allI impI)
    show "fold (\<lambda>(_, v). index_vertex m v) (x # vs) lat = lat\<lparr>g_vertices := gs\<rparr>"
      using gs(1) l1(5) x by (simp add: lat1_def)
    show "length gs = length (g_vertices lat)" using gs(2) l1(2) by simp
    fix u assume u: "u < length gs"
    then show "gs ! u = (if u \<in> snd ` set (x # vs) then (g_vertices lat ! u)
         \<lparr>outEdgesIndex := outEdgesIndex (g_vertices lat ! u) @
            [filter (\<lambda>d. matches (e_tags (g_edges lat ! d)) m) (out_edges u lat)],
          inEdgesIndex := inEdgesIndex (g_vertices lat ! u) @
            [filter (\<lambda>d. matches (e_tags (g_edges lat ! d)) m) (in_edges u lat)]\<rparr>
       else g_vertices lat ! u)"
      using gs(2,3) l1 x nv by (cases "u = v") auto
  qed
qed

lemma set_out_edges: "d \<in> set (out_edges v lat) \<longleftrightarrow> d < length (g_edges lat) \<and> e_source (g_edges lat ! d) = v"
  and set_in_edges: "d \<in> set (in_edges v lat) \<longleftrightarrow> d < length (g_edges lat) \<and> e_target (g_edges lat ! d) = v"
  by (auto simp: out_edges_def in_edges_def)

lemma find_mask_less: "find_mask m ms = Some ix \<Longrightarrow> ix < length ms"
  by (induction m ms arbitrary: ix rule: find_mask.induct) (auto split: if_splits)

lemma find_mask_eq: "find_mask m ms = Some ix \<Longrightarrow> mask_eq (ms ! ix) m"
  by (induction m ms arbitrary: ix rule: find_mask.induct) (auto split: if_splits)

lemma spec_addTagMaskIndex [spec_rules]:
  "spec P (addTagMaskIndex m) (\<lambda>ix lat. ix < length (indexedTagMasks lat) \<and>
     (mask_eq (indexedTagMasks lat ! ix) m \<or> indexedTagMasks lat ! ix = m))"
proof -
  have "lat_wf lat' \<and> lat_le lat lat' \<and> r = Inr ix \<and> ix < length (indexedTagMasks lat') \<and> indexedTagMasks lat' ! ix = m"
    if wf: "lat_wf lat" and a: "addTagMaskIndex m lat = (r, lat')" and n: "find_mask m (indexedTagMasks lat) = None"
      and ix: "ix = length (indexedTagMasks lat)" for lat r lat' ix
  proof -
    from wf have vs: "distinct (map snd (vertices lat))" "\<forall>(_, v) \<in> set (vertices lat). v < length (g_vertices lat)"
      and all: "\<And>v. v < length (g_vertices lat) \<Longrightarrow> v \<in> snd ` set (vertices lat)"
      by (auto simp: lat_wf_def wf_vertices_def)
    from fold_index_vertex[OF vs, of m] obtain gs where
      gs: "fold (\<lambda>(_, v). index_vertex m v) (vertices lat) lat = lat\<lparr>g_vertices := gs\<rparr>"
        "length gs = length (g_vertices lat)"
      and g: "\<And>v. v < length gs \<Longrightarrow> gs ! v = (g_vertices lat ! v)
         \<lparr>outEdgesIndex := outEdgesIndex (g_vertices lat ! v) @
            [filter (\<lambda>d. matches (e_tags (g_edges lat ! d)) m) (out_edges v lat)],
          inEdgesIndex := inEdgesIndex (g_vertices lat ! v) @
            [filter (\<lambda>d. matches (e_tags (g_edges lat ! d)) m) (in_edges v lat)]\<rparr>"
      using all by auto
    from a n gs(1) ix have r: "r = Inr ix"
      and lat': "lat' = lat\<lparr>g_vertices := gs, indexedTagMasks := indexedTagMasks lat @ [m]\<rparr>"
      by (auto simp: addTagMaskIndex_def Let_def)
    have vi: "\<And>v. v < length gs \<Longrightarrow> v_index (gs ! v) = v_index (g_vertices lat ! v)" using g by simp
    have es: "\<And>d. d < length (g_edges lat) \<Longrightarrow> e_source (g_edges lat ! d) < length gs"
      "\<And>d. d < length (g_edges lat) \<Longrightarrow> e_target (g_edges lat ! d) < length gs"
      using wf gs(2) by (auto simp: lat_wf_def wf_edges_def)
    have si: "source_index lat' d = source_index lat d" "target_index lat' d = target_index lat d"
      if "d < length (g_edges lat)" for d
      using es[OF that] vi by (simp_all add: source_index_def target_index_def lat')
    have "wf_vertices lat'" using wf vi gs(2) by (fastforce simp: lat_wf_def wf_vertices_def lat')
    moreover have "wf_bits lat'" using wf by (simp add: lat_wf_def wf_bits_def lat')
    moreover have "wf_edges lat'" using wf si gs(2) by (simp add: lat_wf_def wf_edges_def lat')
    moreover have "wf_index lat'"
    proof -
      have "length (outEdgesIndex (gs ! v)) = length (indexedTagMasks lat) + 1 \<and>
          length (inEdgesIndex (gs ! v)) = length (indexedTagMasks lat) + 1" if "v < length gs" for v
        using wf g[OF that] that gs(2) by (simp add: lat_wf_def wf_index_def)
      moreover have "d < length (g_edges lat) \<and> e_source (g_edges lat ! d) = v \<and>
           matches (e_tags (g_edges lat ! d)) ((indexedTagMasks lat @ [m]) ! ix)"
        if "v < length gs" "ix < length (indexedTagMasks lat) + 1" "d \<in> set (outEdgesIndex (gs ! v) ! ix)" for v ix d
        using wf g[OF that(1)] that gs(2)
        by (auto simp: lat_wf_def wf_index_def nth_append set_out_edges less_Suc_eq split: if_splits)
      moreover have "d < length (g_edges lat) \<and> e_target (g_edges lat ! d) = v \<and>
           matches (e_tags (g_edges lat ! d)) ((indexedTagMasks lat @ [m]) ! ix)"
        if "v < length gs" "ix < length (indexedTagMasks lat) + 1" "d \<in> set (inEdgesIndex (gs ! v) ! ix)" for v ix d
        using wf g[OF that(1)] that gs(2)
        by (auto simp: lat_wf_def wf_index_def nth_append set_in_edges less_Suc_eq split: if_splits)
      ultimately show ?thesis by (simp add: wf_index_def lat')
    qed
    moreover have "wf_vvc lat'"
    proof -
      have "edge_joins lat' f t e" if "edge_joins lat f t e" for f t e
        using that si by (cases e) (auto simp: lat')
      then show ?thesis using wf by (fastforce simp: lat_wf_def wf_vvc_def lat')
    qed
    moreover have "lat_le lat lat'" using vi gs(2) by (simp add: lat_le_def lat')
    ultimately show ?thesis using r ix by (simp add: lat_wf_def lat')
  qed
  then show ?thesis
    unfolding spec_def
    by (auto simp: addTagMaskIndex_def find_mask_less find_mask_eq split: option.splits)
qed

section \<open>Edges of a vertex\<close>

lemma stable_mask: "stable (\<lambda>lat. ix < length (indexedTagMasks lat) \<and> Q (indexedTagMasks lat ! ix))"
  by (auto simp: stable_def lat_le_def prefix_nth dest: prefix_length_le intro: less_le_trans)

lemma stable_vertex: "stable (\<lambda>lat. map_of (vertices lat) vd = Some v)"
  by (auto simp: stable_def lat_le_def)

lemma stable_manager: "stable (\<lambda>lat. Q (tagManager lat) (lat_symbolTag lat) (symbolMask lat) (allText lat))"
  by (auto simp: stable_def lat_le_def)

lemma map_of_vertices:
  assumes "lat_wf lat" "map_of (vertices lat) vd = Some v"
  shows "v < length (g_vertices lat) \<and> v_index (g_vertices lat ! v) = vd \<and>
    - int (nLooseVertices lat) \<le> vd \<and> vd \<le> int (length (allText lat))"
  using assms(1) map_of_SomeD[OF assms(2)] by (auto simp: lat_wf_def wf_vertices_def)

lemma getEdgeSource_explicit:
  "lat_wf lat \<Longrightarrow> d < length (g_edges lat) \<Longrightarrow> getEdgeSource (ExplicitEdge d) lat = Inr (source_index lat d)"
  and getEdgeTarget_explicit:
  "lat_wf lat \<Longrightarrow> d < length (g_edges lat) \<Longrightarrow> getEdgeTarget (ExplicitEdge d) lat = Inr (target_index lat d)"
  by (simp_all add: lat_wf_def wf_edges_def the_edge_def at_index_def source_index_def target_index_def)

lemma edge_joins_ends:
  assumes "lat_wf lat" "edge_joins lat f t e"
  shows "getEdgeSource e lat = Inr f" "getEdgeTarget e lat = Inr t"
  using assms getEdgeSource_explicit getEdgeTarget_explicit
  by (cases e; simp add: lat_symbolLength_def)+

lemma mask_eq_matches: "mask_eq n m \<Longrightarrow> \<not> mask_isAny m \<Longrightarrow> matches t n = matches t m"
  by (auto simp: mask_eq_def mask_isAny_def matches_def list.rel_eq split: if_splits)

definition out_sound :: "VertexDescriptor \<Rightarrow> LayerTagMask \<Rightarrow> InOutEdgesIterator \<Rightarrow> Lattice \<Rightarrow> bool" where
  "out_sound v m it lat \<longleftrightarrow> (\<forall>e \<in> set (ioi_edges it lat). getEdgeSource e lat = Inr v \<and>
     (mask_isAny m \<or> (case e of
        ExplicitEdge d \<Rightarrow> d < length (g_edges lat) \<and> matches (e_tags (g_edges lat ! d)) m
      | ImplicitEdge _ \<Rightarrow> canBeAppliedToImplicitSymbol (tagManager lat) m)))"

definition in_sound :: "VertexDescriptor \<Rightarrow> LayerTagMask \<Rightarrow> InOutEdgesIterator \<Rightarrow> Lattice \<Rightarrow> bool" where
  "in_sound v m it lat \<longleftrightarrow> (\<forall>d. ExplicitEdge d \<in> set (ioi_edges it lat) \<longrightarrow>
     getEdgeTarget (ExplicitEdge d) lat = Inr v \<and>
     (mask_isAny m \<or> matches (e_tags (g_edges lat ! d)) m))"

lemma set_ioi_edges:
  "e \<in> set (ioi_edges (ioi i r) lat) \<longleftrightarrow>
     (i > -1 \<and> e = ImplicitEdge (nat i)) \<or> (\<exists>d \<in> set (range_edges r lat). e = ExplicitEdge d)"
  by (auto simp: ioi_edges_def ioi_def)

lemma spec_vertex_ref:
  "vd < 0 \<Longrightarrow> (\<And>lat. P lat \<Longrightarrow> valid_vertex vd lat) \<Longrightarrow>
   spec P (vertex_ref vd) (\<lambda>v lat. map_of (vertices lat) vd = Some v)"
  by (fastforce simp: spec_def vertex_ref_def valid_vertex_def)

lemma indexed_range_out:
  assumes "lat_wf lat" "map_of (vertices lat) vd = Some v" "ix < length (indexedTagMasks lat)"
  shows "indexed_range IndexedOut outEdgesIndex v ix lat = Inr (IndexedOut v ix)"
    "indexed_range IndexedIn inEdgesIndex v ix lat = Inr (IndexedIn v ix)"
  using assms(1,3) map_of_vertices[OF assms(1,2)]
  by (simp_all add: indexed_range_def at_index_def lat_wf_def wf_index_def)

lemma wf_indexD:
  assumes "lat_wf lat" "v < length (g_vertices lat)" "ix < length (indexedTagMasks lat)"
  shows "d \<in> set (outEdgesIndex (g_vertices lat ! v) ! ix) \<Longrightarrow>
      d < length (g_edges lat) \<and> e_source (g_edges lat ! d) = v \<and>
      matches (e_tags (g_edges lat ! d)) (indexedTagMasks lat ! ix)"
    "d \<in> set (inEdgesIndex (g_vertices lat ! v) ! ix) \<Longrightarrow>
      d < length (g_edges lat) \<and> e_target (g_edges lat ! d) = v \<and>
      matches (e_tags (g_edges lat ! d)) (indexedTagMasks lat ! ix)"
  using assms unfolding lat_wf_def wf_index_def by blast+

lemma out_range_sound:
  assumes "lat_wf lat" "map_of (vertices lat) vd = Some v" "ix < length (indexedTagMasks lat)"
    and "mask_eq (indexedTagMasks lat ! ix) m \<or> indexedTagMasks lat ! ix = m" "\<not> mask_isAny m"
    and "i > -1 \<Longrightarrow> i = vd \<and> canBeAppliedToImplicitSymbol (tagManager lat) m"
  shows "out_sound vd m (ioi i (IndexedOut v ix)) lat"
proof -
  note v = map_of_vertices[OF assms(1,2)]
  have "d < length (g_edges lat) \<and> e_source (g_edges lat ! d) = v \<and>
      matches (e_tags (g_edges lat ! d)) (indexedTagMasks lat ! ix)"
    if "d \<in> set (outEdgesIndex (g_vertices lat ! v) ! ix)" for d
    using wf_indexD[OF assms(1) _ assms(3)] v that by blast
  moreover have "matches t (indexedTagMasks lat ! ix) = matches t m" for t
    using assms(4,5) mask_eq_matches by auto
  ultimately show ?thesis
    using assms(1,6) v getEdgeSource_explicit[OF assms(1)]
    by (fastforce simp: out_sound_def set_ioi_edges source_index_def)
qed

lemma in_range_sound:
  assumes "lat_wf lat" "map_of (vertices lat) vd = Some v" "ix < length (indexedTagMasks lat)"
    and "mask_eq (indexedTagMasks lat ! ix) m \<or> indexedTagMasks lat ! ix = m" "\<not> mask_isAny m"
  shows "in_sound vd m (ioi i (IndexedIn v ix)) lat"
proof -
  note v = map_of_vertices[OF assms(1,2)]
  have "d < length (g_edges lat) \<and> e_target (g_edges lat ! d) = v \<and>
      matches (e_tags (g_edges lat ! d)) (indexedTagMasks lat ! ix)"
    if "d \<in> set (inEdgesIndex (g_vertices lat ! v) ! ix)" for d
    using wf_indexD[OF assms(1) _ assms(3)] v that by blast
  moreover have "matches t (indexedTagMasks lat ! ix) = matches t m" for t
    using assms(4,5) mask_eq_matches by auto
  ultimately show ?thesis
    using assms(1) v getEdgeTarget_explicit[OF assms(1)]
    by (fastforce simp: in_sound_def set_ioi_edges target_index_def)
qed

lemma all_range_sound:
  assumes "lat_wf lat" "map_of (vertices lat) vd = Some v" "mask_isAny m"
  shows "(i > -1 \<Longrightarrow> i = vd) \<Longrightarrow> out_sound vd m (ioi i (AllEdges (out_edges v lat))) lat"
    "in_sound vd m (ioi i (AllEdges (in_edges v lat))) lat"
  using map_of_vertices[OF assms(1,2)] getEdgeSource_explicit[OF assms(1)] getEdgeTarget_explicit[OF assms(1)] assms(3)
  by (fastforce simp: out_sound_def in_sound_def set_ioi_edges set_out_edges set_in_edges source_index_def target_index_def)+

lemma no_range_sound:
  "(i > -1 \<Longrightarrow> i = vd \<and> (mask_isAny m \<or> canBeAppliedToImplicitSymbol (tagManager lat) m)) \<Longrightarrow>
     out_sound vd m (ioi i NoEdges) lat"
  "in_sound vd m (ioi i NoEdges) lat"
  by (auto simp: out_sound_def in_sound_def set_ioi_edges)

lemma spec_allOutEdges:
  assumes "stable P" "\<And>lat. P lat \<Longrightarrow> valid_vertex vd lat" "mask_isAny m"
  shows "spec P (allOutEdges vd) (out_sound vd m)"
proof (cases "vd < 0")
  case True
  have "spec P (bindE (vertex_ref vd) (\<lambda>v. getsE (\<lambda>lat.
          if v < length (g_vertices lat) then Inr (ioi (-1) (AllEdges (out_edges v lat)))
          else Inl UndefinedBehaviour))) (out_sound vd m)"
    by (rule spec_bindE[OF spec_vertex_ref[OF True assms(2)] _ assms(1)], assumption)
      (rule spec_getsE, auto split: if_splits intro: all_range_sound assms(3))
  then show ?thesis using True by (simp add: allOutEdges_def isLooseVertex_def)
next
  case False
  then show ?thesis
    unfolding allOutEdges_def isLooseVertex_def if_not_P[OF False]
  proof (intro spec_getsE)
    fix lat a assume wf: "lat_wf lat" and a: "sbind (bit_at (implicitOutEdges lat) vd) (\<lambda>b.
          let i = (if b then vd else -1) in
          Inr (case map_of (vertices lat) vd of
                 None \<Rightarrow> ioi i NoEdges
               | Some v \<Rightarrow> ioi i (AllEdges (out_edges v lat)))) = Inr a"
    show "out_sound vd m a lat"
      using a all_range_sound[OF wf _ assms(3)] no_range_sound[where vd = vd and m = m and lat = lat] assms(3)
      by (cases "map_of (vertices lat) vd") (auto simp: sbind_Inr Let_def)
  qed
qed

lemma spec_allInEdges:
  assumes "stable P" "\<And>lat. P lat \<Longrightarrow> valid_vertex vd lat" "mask_isAny m"
  shows "spec P (allInEdges vd) (in_sound vd m)"
proof (cases "vd < 0")
  case True
  have "spec P (bindE (vertex_ref vd) (\<lambda>v. getsE (\<lambda>lat.
          if v < length (g_vertices lat) then Inr (ioi (-1) (AllEdges (in_edges v lat)))
          else Inl UndefinedBehaviour))) (in_sound vd m)"
    by (rule spec_bindE[OF spec_vertex_ref[OF True assms(2)] _ assms(1)], assumption)
      (rule spec_getsE, auto split: if_splits intro: all_range_sound assms(3))
  then show ?thesis using True by (simp add: allInEdges_def isLooseVertex_def)
next
  case False
  then show ?thesis
    unfolding allInEdges_def isLooseVertex_def if_not_P[OF False]
  proof (intro spec_getsE)
    fix lat a assume wf: "lat_wf lat" and a: "sbind (priorImplicit vd lat) (\<lambda>i.
          Inr (case map_of (vertices lat) vd of
                 None \<Rightarrow> ioi i NoEdges
               | Some v \<Rightarrow> ioi i (AllEdges (in_edges v lat)))) = Inr a"
    show "in_sound vd m a lat"
      using a all_range_sound[OF wf _ assms(3)] no_range_sound[where vd = vd and m = m and lat = lat] assms(3)
      by (cases "map_of (vertices lat) vd") (auto simp: sbind_Inr Let_def)
  qed
qed

lemma spec_outEdges:
  assumes P: "stable P" "\<And>lat. P lat \<Longrightarrow> valid_vertex vd lat"
  shows "spec P (outEdges vd m) (out_sound vd m)"
proof (cases "mask_isAny m")
  case True
  then show ?thesis using spec_allOutEdges[OF P] by (simp add: outEdges_def)
next
  case False
  note st = stable_intros(2)[OF P(1) stable_mask]
  have "spec (\<lambda>lat. P lat \<and> ix < length (indexedTagMasks lat) \<and>
      (mask_eq (indexedTagMasks lat ! ix) m \<or> indexedTagMasks lat ! ix = m))
    (if isLooseVertex vd then
       bindE (vertex_ref vd) (\<lambda>v.
         bindE (getsE (indexed_range IndexedOut outEdgesIndex v ix)) (\<lambda>r. ret (ioi (-1) r)))
     else
       getsE (\<lambda>lat.
         sbind (case map_of (vertices lat) vd of
                  None \<Rightarrow> Inr NoEdges
                | Some v \<Rightarrow> indexed_range IndexedOut outEdgesIndex v ix lat) (\<lambda>r.
         if canBeAppliedToImplicitSymbol (tagManager lat) m then
           sbind (bit_at (implicitOutEdges lat) vd) (\<lambda>b. Inr (ioi (if b then vd else -1) r))
         else Inr (ioi (-1) r)))) (out_sound vd m)" for ix
  proof (rule spec_if)
    assume l: "isLooseVertex vd"
    show "spec (\<lambda>lat. P lat \<and> ix < length (indexedTagMasks lat) \<and>
      (mask_eq (indexedTagMasks lat ! ix) m \<or> indexedTagMasks lat ! ix = m))
      (bindE (vertex_ref vd) (\<lambda>v.
         bindE (getsE (indexed_range IndexedOut outEdgesIndex v ix)) (\<lambda>r. ret (ioi (-1) r)))) (out_sound vd m)"
    proof (rule spec_bindE[OF spec_vertex_ref _ st])
      fix v
      show "spec (\<lambda>lat. (P lat \<and> ix < length (indexedTagMasks lat) \<and>
        (mask_eq (indexedTagMasks lat ! ix) m \<or> indexedTagMasks lat ! ix = m)) \<and> map_of (vertices lat) vd = Some v)
        (bindE (getsE (indexed_range IndexedOut outEdgesIndex v ix)) (\<lambda>r. ret (ioi (-1) r))) (out_sound vd m)"
        by (use False in \<open>auto simp: spec_def prog_defs indexed_range_out intro!: out_range_sound\<close>)
    qed (use l P in \<open>auto simp: isLooseVertex_def\<close>)
  next
    assume "\<not> isLooseVertex vd"
    show "spec (\<lambda>lat. P lat \<and> ix < length (indexedTagMasks lat) \<and>
      (mask_eq (indexedTagMasks lat ! ix) m \<or> indexedTagMasks lat ! ix = m))
      (getsE (\<lambda>lat.
         sbind (case map_of (vertices lat) vd of
                  None \<Rightarrow> Inr NoEdges
                | Some v \<Rightarrow> indexed_range IndexedOut outEdgesIndex v ix lat) (\<lambda>r.
         if canBeAppliedToImplicitSymbol (tagManager lat) m then
           sbind (bit_at (implicitOutEdges lat) vd) (\<lambda>b. Inr (ioi (if b then vd else -1) r))
         else Inr (ioi (-1) r)))) (out_sound vd m)"
      by (rule spec_getsE)
        (use False in \<open>auto simp: sbind_Inr indexed_range_out split: option.splits if_splits
          intro!: out_range_sound no_range_sound\<close>)
  qed
  then show ?thesis
    using False by (auto simp: outEdges_def intro!: spec_bindE[OF spec_addTagMaskIndex _ P(1)])
qed

lemma spec_inEdges:
  assumes P: "stable P" "\<And>lat. P lat \<Longrightarrow> valid_vertex vd lat"
  shows "spec P (inEdges vd m) (in_sound vd m)"
proof (cases "mask_isAny m")
  case True
  then show ?thesis using spec_allInEdges[OF P] by (simp add: inEdges_def)
next
  case False
  note st = stable_intros(2)[OF P(1) stable_mask]
  have "spec (\<lambda>lat. P lat \<and> ix < length (indexedTagMasks lat) \<and>
      (mask_eq (indexedTagMasks lat ! ix) m \<or> indexedTagMasks lat ! ix = m))
    (if isLooseVertex vd then
       bindE (vertex_ref vd) (\<lambda>v.
         bindE (getsE (indexed_range IndexedIn inEdgesIndex v ix)) (\<lambda>r. ret (ioi (-1) r)))
     else
       getsE (\<lambda>lat.
            sbind (priorImplicit vd lat) (\<lambda>i.
            sbind (case map_of (vertices lat) vd of
                     None \<Rightarrow> Inr NoEdges
                   | Some v \<Rightarrow> indexed_range IndexedIn inEdgesIndex v ix lat) (\<lambda>r.
            Inr (ioi (if canBeAppliedToImplicitSymbol (tagManager lat) m then i else -1) r))))) (in_sound vd m)" for ix
  proof (rule spec_if)
    assume l: "isLooseVertex vd"
    show "spec (\<lambda>lat. P lat \<and> ix < length (indexedTagMasks lat) \<and>
      (mask_eq (indexedTagMasks lat ! ix) m \<or> indexedTagMasks lat ! ix = m))
      (bindE (vertex_ref vd) (\<lambda>v.
         bindE (getsE (indexed_range IndexedIn inEdgesIndex v ix)) (\<lambda>r. ret (ioi (-1) r)))) (in_sound vd m)"
    proof (rule spec_bindE[OF spec_vertex_ref _ st])
      fix v
      show "spec (\<lambda>lat. (P lat \<and> ix < length (indexedTagMasks lat) \<and>
        (mask_eq (indexedTagMasks lat ! ix) m \<or> indexedTagMasks lat ! ix = m)) \<and> map_of (vertices lat) vd = Some v)
        (bindE (getsE (indexed_range IndexedIn inEdgesIndex v ix)) (\<lambda>r. ret (ioi (-1) r))) (in_sound vd m)"
        by (use False in \<open>auto simp: spec_def prog_defs indexed_range_out intro!: in_range_sound\<close>)
    qed (use l P in \<open>auto simp: isLooseVertex_def\<close>)
  next
    assume "\<not> isLooseVertex vd"
    show "spec (\<lambda>lat. P lat \<and> ix < length (indexedTagMasks lat) \<and>
      (mask_eq (indexedTagMasks lat ! ix) m \<or> indexedTagMasks lat ! ix = m))
      (getsE (\<lambda>lat.
            sbind (priorImplicit vd lat) (\<lambda>i.
            sbind (case map_of (vertices lat) vd of
                     None \<Rightarrow> Inr NoEdges
                   | Some v \<Rightarrow> indexed_range IndexedIn inEdgesIndex v ix lat) (\<lambda>r.
            Inr (ioi (if canBeAppliedToImplicitSymbol (tagManager lat) m then i else -1) r))))) (in_sound vd m)"
      by (rule spec_getsE)
        (use False in \<open>auto simp: sbind_Inr indexed_range_out split: option.splits if_splits
          intro!: in_range_sound no_range_sound\<close>)
  qed
  then show ?thesis
    using False by (auto simp: inEdges_def intro!: spec_bindE[OF spec_addTagMaskIndex _ P(1)])
qed

lemma nth_in_drop: "p < length xs \<Longrightarrow> xs ! p \<in> set (drop p xs)"
  by (metis Cons_nth_drop_Suc list.set_intros(1))

lemma ioi_next_edges: "ioi_next it lat = Inr (e, it') \<Longrightarrow> e \<in> set (ioi_edges it lat)"
  by (auto simp: ioi_next_def ioi_edges_def nth_in_drop split: if_splits)

lemma spec_reads:
  assumes "spec P m Q" "\<And>a lat b. lat_wf lat \<Longrightarrow> P lat \<Longrightarrow> Q a lat \<Longrightarrow> f a lat = (Inr b, lat) \<Longrightarrow> R b lat"
    "\<And>a lat r lat'. f a lat = (r, lat') \<Longrightarrow> lat' = lat" "stable P"
  shows "spec P (bindE m f) R"
  unfolding spec_def
proof (intro allI impI)
  fix lat r lat' assume wf: "lat_wf lat" and P: "P lat" and b: "bindE m f lat = (r, lat')"
  obtain r1 lat1 where m: "m lat = (r1, lat1)" by (cases "m lat")
  note 1 = specD[OF assms(1) wf P m]
  show "lat_wf lat' \<and> lat_le lat lat' \<and> (\<forall>a. r = Inr a \<longrightarrow> R a lat')"
  proof (cases r1)
    case (Inl e)
    then show ?thesis using b m 1 by (auto simp: bindE_def)
  next
    case (Inr a)
    then have f: "f a lat1 = (r, lat')" using b m by (simp add: bindE_def)
    then have [simp]: "lat' = lat1" by (rule assms(3))
    have "P lat1" using assms(4) 1 wf P by (auto simp: stable_def)
    then show ?thesis using assms(2)[of lat1 a] f 1 Inr by auto
  qed
qed

lemma spec_firstOutEdge:
  assumes P: "stable P" "\<And>lat. P lat \<Longrightarrow> valid_vertex vd lat"
  shows "spec P (firstOutEdge vd m) (\<lambda>e lat. getEdgeSource e lat = Inr vd)"
  unfolding firstOutEdge_def
proof (rule spec_reads[OF spec_outEdges[OF P] _ _ P(1)])
  fix it lat e assume "out_sound vd m it lat"
    "bindE (gets (ioi_hasNext it)) (\<lambda>more. if more then bindE (getsE (ioi_next it)) (\<lambda>(e, _). ret e)
       else throw NoEdgeException) lat = (Inr e, lat)"
  then show "getEdgeSource e lat = Inr vd"
    by (auto simp: prog_defs out_sound_def split: if_splits sum.splits prod.splits dest!: ioi_next_edges)
qed (auto simp: prog_defs split: if_splits sum.splits prod.splits)

lemma spec_firstInEdge:
  assumes P: "stable P" "\<And>lat. P lat \<Longrightarrow> valid_vertex vd lat"
  shows "spec P (firstInEdge vd m) (\<lambda>e lat. isExplicit e \<longrightarrow> getEdgeTarget e lat = Inr vd)"
proof -
  have 1: "spec P (bindE (inEdges vd m) (\<lambda>ie'. bindE (getsE (ioi_next ie')) (\<lambda>(e, _). ret e)))
      (\<lambda>e lat. isExplicit e \<longrightarrow> getEdgeTarget e lat = Inr vd)"
  proof (rule spec_reads[OF spec_inEdges[OF P] _ _ P(1)])
    fix it lat e assume "in_sound vd m it lat" "bindE (getsE (ioi_next it)) (\<lambda>(e, _). ret e) lat = (Inr e, lat)"
    then show "isExplicit e \<longrightarrow> getEdgeTarget e lat = Inr vd"
      by (cases e) (auto simp: prog_defs in_sound_def split: sum.splits prod.splits dest!: ioi_next_edges)
  qed (auto simp: prog_defs split: sum.splits prod.splits)
  show ?thesis unfolding firstInEdge_def
    by (rule spec_bindE[OF spec_conseq[OF spec_inEdges[OF P]], where R = "\<lambda>_ _. True"];
        (rule spec_bindE[OF spec_gets, where R = "\<lambda>_ _. True"])?; (rule spec_if spec_throw 1)?;
        (rule spec_conseq[OF 1])?; simp add: stable_intros P(1) assms(2) spec_throw)
qed


section \<open>Merging and adding\<close>

lemma spec_si_next:
  assumes "stable P"
  shows "spec P (si_next it) (\<lambda>_ _. True)"
proof -
  have f: "spec (\<lambda>lat. P lat \<and> valid_vertex vd lat) (firstOutEdge vd m) (\<lambda>_ _. True)" for vd m
    by (rule spec_conseq[OF spec_firstOutEdge[of "\<lambda>lat. P lat \<and> valid_vertex vd lat"]])
      (simp_all add: stable_intros assms)
  have "spec P (si_nextUsage it) (\<lambda>_ _. True)"
    unfolding si_nextUsage_def
  proof (intro spec_if spec_throw)
    show "spec P (bindE (getsE (lat_symbolLength (si_symbol it))) (\<lambda>n.
           bindE (getsE (getVertexForRawCharIndex (si_symbol it))) (\<lambda>vd.
           bindE (gets symbolMask) (\<lambda>msk.
           bindE (firstOutEdge vd msk) (\<lambda>e.
             ret ((e, NULL_ZVALUE), it\<lparr>si_symbol := si_symbol it + int n\<rparr>)))))) (\<lambda>_ _. True)"
    proof (rule spec_bindE[OF spec_getsE[where R = "\<lambda>_ _. True"] _ assms], simp)
      fix n
      show "spec (\<lambda>lat. P lat \<and> True) (bindE (getsE (getVertexForRawCharIndex (si_symbol it))) (\<lambda>vd.
           bindE (gets symbolMask) (\<lambda>msk.
           bindE (firstOutEdge vd msk) (\<lambda>e.
             ret ((e, NULL_ZVALUE), it\<lparr>si_symbol := si_symbol it + int n\<rparr>))))) (\<lambda>_ _. True)"
      proof (rule spec_bindE[OF spec_getsE[where R = valid_vertex]])
        fix vd
        show "spec (\<lambda>lat. (P lat \<and> True) \<and> valid_vertex vd lat)
          (bindE (gets symbolMask) (\<lambda>msk. bindE (firstOutEdge vd msk) (\<lambda>e.
             ret ((e, NULL_ZVALUE), it\<lparr>si_symbol := si_symbol it + int n\<rparr>)))) (\<lambda>_ _. True)"
          by (rule spec_bindE[OF spec_gets[where R = "\<lambda>_ _. True"]], simp,
              rule spec_bindE[where R = "\<lambda>_ _. True"], rule spec_conseq[OF f])
            (auto simp: stable_intros assms intro: spec_ret)
      qed (auto simp: getVertexForRawCharIndex_def valid_vertex_def stable_intros assms split: if_splits)
    qed
  qed (auto intro: spec_ret)
  then show ?thesis unfolding si_next_def
    by (rule spec_bindE) (auto intro: spec_ret assms)
qed

lemma spec_check_self_reference:
  assumes "stable P"
  shows "spec P (check_self_reference edge it) (\<lambda>_ _. True)"
proof (induction edge it rule: check_self_reference.induct)
  case (1 edge it)
  show ?case
  proof (cases "si_links it \<le> length (links (si_seq it)) \<and> si_hasNext it")
    case False
    then show ?thesis by (subst check_self_reference.simps) (auto intro: spec_ret)
  next
    case True
    have IH: "spec P (case x of (e, it') \<Rightarrow> if e = edge then throw EdgeSelfReferenceException
        else check_self_reference edge it') (\<lambda>_ _. True)"
      if "si_next it s = (Inr x, s')" for x s s'
      using 1[OF True that] by (cases x) (auto intro: spec_throw)
    show ?thesis
      unfolding spec_def check_self_reference.simps[of edge it] if_P[OF True]
    proof (intro allI impI)
      fix lat r lat' assume wf: "lat_wf lat" and P: "P lat"
        and b: "bindE (si_next it) (\<lambda>(e, it'). if e = edge then throw EdgeSelfReferenceException
          else check_self_reference edge it') lat = (r, lat')"
      obtain r1 lat1 where m: "si_next it lat = (r1, lat1)" by (cases "si_next it lat")
      note s1 = specD[OF spec_si_next[OF assms] wf P m]
      show "lat_wf lat' \<and> lat_le lat lat' \<and> (\<forall>a. r = Inr a \<longrightarrow> True)"
      proof (cases r1)
        case (Inl e)
        then show ?thesis using b m s1 by (auto simp: bindE_def)
      next
        case (Inr x)
        then have "(case x of (e, it') \<Rightarrow> if e = edge then throw EdgeSelfReferenceException
          else check_self_reference edge it') lat1 = (r, lat')" using b m by (simp add: bindE_def)
        moreover have "P lat1" using assms s1 wf P by (auto simp: stable_def)
        ultimately show ?thesis using specD[OF IH] m Inr s1 by (blast intro: lat_le_trans)
      qed
    qed
  qed
qed

text \<open>The rule for a step whose effect is all that the rest needs.\<close>

lemma spec_bindE':
  assumes "spec P m R" "\<And>a. spec (R a) (f a) Q"
  shows "spec P (bindE m f) Q"
  unfolding spec_def
proof (intro allI impI)
  fix lat r lat' assume wf: "lat_wf lat" and P: "P lat" and b: "bindE m f lat = (r, lat')"
  obtain r1 lat1 where m: "m lat = (r1, lat1)" by (cases "m lat")
  note 1 = specD[OF assms(1) wf P m]
  show "lat_wf lat' \<and> lat_le lat lat' \<and> (\<forall>a. r = Inr a \<longrightarrow> Q a lat')"
  proof (cases r1)
    case (Inl e)
    then show ?thesis using b m 1 by (auto simp: bindE_def)
  next
    case (Inr a)
    then have "f a lat1 = (r, lat')" using b m by (simp add: bindE_def)
    then show ?thesis using specD[OF assms(2)[of a], of lat1 r lat'] 1 Inr by (auto intro: lat_le_trans)
  qed
qed

lemma spec_thenE':
  "spec P m (\<lambda>_. R) \<Longrightarrow> spec R n Q \<Longrightarrow> spec P (thenE m n) Q"
  unfolding thenE_def by (rule spec_bindE') auto

lemma stable_tags: "stable (\<lambda>lat. d < length (g_edges lat) \<and> isSubset tags (e_tags (g_edges lat ! d)))"
  unfolding stable_def lat_le_def entry_le_def by (auto intro: isSubset_trans)

text \<open>What an addition promises of the edge it returns.\<close>

definition has_tags :: "EdgeDescriptor \<Rightarrow> LayerTagCollection \<Rightarrow> Lattice \<Rightarrow> bool" where
  "has_tags e tags lat \<longleftrightarrow> (case e of
     ExplicitEdge d \<Rightarrow> d < length (g_edges lat) \<and> isSubset tags (e_tags (g_edges lat ! d))
   | ImplicitEdge _ \<Rightarrow> isSubset tags (lat_symbolTag lat))"

lemma stable_has_tags: "stable (has_tags e tags)"
  using stable_tags[of _ tags] by (cases e) (auto simp: has_tags_def stable_def lat_le_def)

lemma wf_edge_update:
  assumes wf: "lat_wf lat" and d: "d < length (g_edges lat)" and le: "entry_le (g_edges lat ! d) e"
  shows "lat_wf (lat\<lparr>g_edges := (g_edges lat)[d := e]\<rparr>) \<and> lat_le lat (lat\<lparr>g_edges := (g_edges lat)[d := e]\<rparr>)"
proof -
  let ?lat = "lat\<lparr>g_edges := (g_edges lat)[d := e]\<rparr>"
  have s: "e_source ((g_edges lat)[d := e] ! k) = e_source (g_edges lat ! k)"
    "e_target ((g_edges lat)[d := e] ! k) = e_target (g_edges lat ! k)"
    "isSubset (e_tags (g_edges lat ! k)) (e_tags ((g_edges lat)[d := e] ! k))" for k
    using le d by (cases "k = d"; simp add: entry_le_def)+
  have i: "source_index ?lat k = source_index lat k" "target_index ?lat k = target_index lat k" for k
    by (simp_all add: source_index_def target_index_def s)
  have "edge_joins ?lat f t x = edge_joins lat f t x" for f t x
    using i by (cases x) simp_all
  then have "wf_vvc ?lat" using wf by (simp add: lat_wf_def wf_vvc_def)
  moreover have "wf_index ?lat"
    using wf s matches_mono unfolding lat_wf_def wf_index_def by simp blast
  moreover have "wf_edges ?lat" using wf i s by (simp add: lat_wf_def wf_edges_def)
  moreover have "lat_le lat ?lat" using le d by (auto simp: lat_le_def nth_list_update)
  ultimately show ?thesis using wf by (simp add: lat_wf_def wf_vertices_def wf_bits_def)
qed

lemma spec_update_edge:
  "(\<And>lat. lat_wf lat \<Longrightarrow> P lat \<Longrightarrow> d < length (g_edges lat) \<Longrightarrow> entry_le (g_edges lat ! d) (f (g_edges lat ! d))) \<Longrightarrow>
   spec P (update_edge d f) (\<lambda>_ _. True)"
  by (auto simp: spec_def update_edge_def wf_edge_update split: if_splits)

lemma spec_put_implicit:
  "spec P (bindE (getsE (\<lambda>lat. bit_put (implicitOutEdges lat) from False)) (\<lambda>bs. modify (\<lambda>lat. lat\<lparr>implicitOutEdges := bs\<rparr>)))
     (\<lambda>_ _. True)"
proof -
  have "lat_wf (lat\<lparr>implicitOutEdges := bs\<rparr>) \<and> lat_le lat (lat\<lparr>implicitOutEdges := bs\<rparr>)"
    if wf: "lat_wf lat" and p: "bit_put (implicitOutEdges lat) from False = Inr bs" for lat bs
  proof -
    have l: "length bs = length (allText lat) + 1"
      using bit_put_length[OF p] wf by (simp add: lat_wf_def wf_bits_def)
    have "i < length (allText lat)" if "i < length bs" "bs ! i" for i
      using that p wf by (auto simp: bit_put_def nth_list_update lat_wf_def wf_bits_def split: if_splits)
    with wf_bits_update(1)[OF wf l] show ?thesis by (simp add: le_cong)
  qed
  then show ?thesis by (auto simp: spec_def prog_defs split: sum.splits)
qed

lemma createUnion_subset [simp]: "isSubset a (createUnion a b)" "isSubset b (createUnion a b)"
  by (simp_all add: isSubset_iff)

text \<open>The update of the existing edge in \<open>merge_edge\<close> when it reads the tags and the score of
  the edge itself.\<close>

lemma merge_entry_le:
  assumes "isSubset (e_tags e) tags'"
  shows "entry_le e
    (let e1 = (if tags' \<noteq> e_tags e then e\<lparr>e_tags := tags'\<rparr> else e);
         e2 = (if score > e_score e then e1\<lparr>e_score := score\<rparr> else e1) in
     e2\<lparr>e_partitions := e_partitions e2 @ [p]\<rparr>)"
  using assms by (auto simp: entry_le_def Let_def)

lemma spec_merge_edge:
  assumes "stable P"
  shows "spec P (merge_edge edge from tags q score ruleId treeChoice)
    (\<lambda>(tags', needed) lat. isSubset tags tags' \<and> (needed \<or> has_tags edge tags' lat))"
  unfolding merge_edge_def
proof (rule spec_thenE[OF spec_check_self_reference[OF assms] _ assms], unfold spec_def, intro allI impI)
  fix lat r lat' assume wf: "lat_wf lat" and P: "P lat"
    and b: "bindE (getsE (getEdgeLayerTags edge)) (\<lambda>oldTags.
        bindE (getsE (getEdgeScore edge)) (\<lambda>oldScore.
          let tags' = (if tags \<noteq> oldTags then createUnion oldTags tags else tags) in
          case edge of
            ExplicitEdge d \<Rightarrow>
              thenE (update_edge d (\<lambda>e.
                let e1 = (if tags' \<noteq> oldTags then e\<lparr>e_tags := tags'\<rparr> else e);
                    e2 = (if score > oldScore then e1\<lparr>e_score := score\<rparr> else e1) in
                e2\<lparr>e_partitions := e_partitions e2 @
                  [\<lparr>part_sequence = q, part_tags = tags', part_score = score,
                    part_ruleId = ruleId, part_treeChoice = treeChoice\<rparr>]\<rparr>))
                (ret (tags', False))
          | ImplicitEdge _ \<Rightarrow>
              thenE (bindE (getsE (\<lambda>lat. bit_put (implicitOutEdges lat) from False)) (\<lambda>bs.
                       modify (\<lambda>lat. lat\<lparr>implicitOutEdges := bs\<rparr>)))
                (ret (tags', True)))) lat = (r, lat')"
  show "lat_wf lat' \<and> lat_le lat lat' \<and> (\<forall>a. r = Inr a \<longrightarrow> (\<lambda>(tags', needed) lat. isSubset tags tags' \<and> (needed \<or> has_tags edge tags' lat)) a lat')"
  proof (cases edge)
    case (ImplicitEdge i)
    have "spec (\<lambda>_. True) (thenE (bindE (getsE (\<lambda>lat. bit_put (implicitOutEdges lat) from False)) (\<lambda>bs.
                       modify (\<lambda>lat. lat\<lparr>implicitOutEdges := bs\<rparr>)))
                (ret (tags', True))) (\<lambda>(tags', needed) lat. isSubset tags tags' \<and> (needed \<or> has_tags edge tags' lat))"
      if "isSubset tags tags'" for tags'
      by (rule spec_thenE'[OF spec_put_implicit]) (simp add: spec_ret that)
    then have "spec (\<lambda>_. True) (bindE (getsE (getEdgeLayerTags (ImplicitEdge i))) (\<lambda>oldTags.
        bindE (getsE (getEdgeScore (ImplicitEdge i))) (\<lambda>oldScore.
          let tags' = (if tags \<noteq> oldTags then createUnion oldTags tags else tags) in
              thenE (bindE (getsE (\<lambda>lat. bit_put (implicitOutEdges lat) from False)) (\<lambda>bs.
                       modify (\<lambda>lat. lat\<lparr>implicitOutEdges := bs\<rparr>)))
                (ret (tags', True))))) (\<lambda>(tags', needed) lat. isSubset tags tags' \<and> (needed \<or> has_tags edge tags' lat))"
      by (intro spec_bindE'[OF spec_getsE[where R = "\<lambda>_ _. True"]]) (simp_all add: Let_def)
    from specD[OF this wf TrueI] show ?thesis using b ImplicitEdge by simp
  next
    case (ExplicitEdge d)
    show ?thesis
    proof (cases "d < length (g_edges lat)")
      case False
      then show ?thesis using b ExplicitEdge wf
        by (auto simp: prog_defs the_edge_def at_index_def)
    next
      case True
      define e where "e = g_edges lat ! d"
      define t where "t = (if tags \<noteq> e_tags e then createUnion (e_tags e) tags else tags)"
      have st: "isSubset (e_tags e) t" "isSubset tags t" by (simp_all add: t_def)
      define e' where "e' = (let e1 = (if t \<noteq> e_tags e then e\<lparr>e_tags := t\<rparr> else e);
         e2 = (if score > e_score e then e1\<lparr>e_score := score\<rparr> else e1) in
         e2\<lparr>e_partitions := e_partitions e2 @ [\<lparr>part_sequence = q, part_tags = t, part_score = score,
                    part_ruleId = ruleId, part_treeChoice = treeChoice\<rparr>]\<rparr>)"
      have "r = Inr (t, False)" "lat' = lat\<lparr>g_edges := (g_edges lat)[d := e']\<rparr>"
        using b ExplicitEdge True
        by (auto simp: prog_defs the_edge_def at_index_def update_edge_def Let_def e_def[symmetric] t_def e'_def)
      moreover have "entry_le (g_edges lat ! d) e'"
        unfolding e'_def e_def[symmetric] by (rule merge_entry_le[OF st(1)])
      moreover have "e_tags e' = t" by (simp add: e'_def Let_def)
      ultimately show ?thesis using wf_edge_update[OF wf True] st True ExplicitEdge by (auto simp: has_tags_def)
    qed
  qed
qed

section \<open>New vertices and edges\<close>

text \<open>A new Boost vertex for a vertex that is not in the map.\<close>

lemma wf_new_vertex:
  assumes wf: "lat_wf lat" and new: "map_of (vertices lat) vd = None"
    and n: "nLooseVertices lat \<le> n" "- int n \<le> vd" "vd \<le> int (length (allText lat))"
  defines "lat' \<equiv> lat\<lparr>nLooseVertices := n,
      g_vertices := g_vertices lat @ [\<lparr>v_index = vd, outEdgesIndex = replicate (length (indexedTagMasks lat)) [],
        inEdgesIndex = replicate (length (indexedTagMasks lat)) []\<rparr>],
      vertices := (vd, length (g_vertices lat)) # vertices lat\<rparr>"
  shows "lat_wf lat' \<and> lat_le lat lat' \<and> map_of (vertices lat') vd = Some (length (g_vertices lat))"
proof -
  have i: "source_index lat' d = source_index lat d" "target_index lat' d = target_index lat d"
    if "d < length (g_edges lat)" for d
    using wf that by (auto simp: lat'_def source_index_def target_index_def nth_append lat_wf_def wf_edges_def)
  have "edge_joins lat' f t e" if "edge_joins lat f t e" for f t e
    using that i by (cases e) (auto simp: lat'_def)
  then have "wf_vvc lat'" using wf by (fastforce simp: lat_wf_def wf_vvc_def lat'_def)
  moreover have "wf_edges lat'" using wf i by (auto simp: lat_wf_def wf_edges_def lat'_def less_SucI)
  moreover have "wf_index lat'"
    using wf by (auto simp: lat_wf_def wf_index_def lat'_def nth_append less_Suc_eq)
  moreover have "wf_vertices lat'"
  proof -
    have "vd \<notin> fst ` set (vertices lat)" using new by (simp add: map_of_eq_None_iff)
    moreover have "length (g_vertices lat) \<notin> snd ` set (vertices lat)"
      using wf by (force simp: lat_wf_def wf_vertices_def)
    moreover have "\<forall>(vd, v) \<in> set (vertices lat). - int n \<le> vd"
      using wf n(1) by (force simp: lat_wf_def wf_vertices_def)
    ultimately show ?thesis using wf n unfolding lat_wf_def wf_vertices_def lat'_def
      by (auto simp: nth_append less_Suc_eq case_prod_beta)
  qed
  moreover have "wf_bits lat'" using wf by (simp add: lat_wf_def wf_bits_def lat'_def)
  moreover have "lat_le lat lat'" using n new by (auto simp: lat_le_def lat'_def nth_append)
  ultimately show ?thesis by (simp add: lat_wf_def lat'_def)
qed

lemma spec_ensure_vertex:
  assumes "\<And>lat. P lat \<Longrightarrow> valid_vertex vd lat"
  shows "spec P (ensure_vertex vd) (\<lambda>v lat. map_of (vertices lat) vd = Some v)"
proof -
  have "lat_wf lat' \<and> lat_le lat lat' \<and> (\<exists>v. r = Inr v \<and> map_of (vertices lat') vd = Some v)"
    if wf: "lat_wf lat" and P: "P lat" and e: "ensure_vertex vd lat = (r, lat')" for lat r lat'
  proof (cases "map_of (vertices lat) vd")
    case (Some v)
    then show ?thesis using wf e by (auto simp: ensure_vertex_def)
  next
    case None
    then have "0 \<le> vd" "vd \<le> int (length (allText lat))"
      using assms[OF P] by (auto simp: valid_vertex_def split: if_splits)
    then show ?thesis
      using wf_new_vertex[OF wf None, of "nLooseVertices lat"] e None by (auto simp: ensure_vertex_def Let_def)
  qed
  then show ?thesis by (fastforce simp: spec_def)
qed

lemma spec_addLooseVertex:
  "spec P addLooseVertex (\<lambda>vd lat. valid_vertex vd lat \<and> vd < 0)"
proof -
  have "lat_wf lat' \<and> lat_le lat lat' \<and> (\<exists>vd. r = Inr vd \<and> valid_vertex vd lat' \<and> vd < 0)"
    if wf: "lat_wf lat" and e: "addLooseVertex lat = (r, lat')" for lat r lat'
  proof -
    let ?n = "nLooseVertices lat + 1"
    have "map_of (vertices lat) (- int ?n) = None"
    proof (rule ccontr)
      assume "map_of (vertices lat) (- int ?n) \<noteq> None"
      then obtain v where "map_of (vertices lat) (- int ?n) = Some v" by auto
      from map_of_vertices[OF wf this] show False by simp
    qed
    from wf_new_vertex[OF wf this, of ?n] show ?thesis
      using e by (auto simp: addLooseVertex_def Let_def valid_vertex_def)
  qed
  then show ?thesis by (fastforce simp: spec_def)
qed

text \<open>Appending an edge between two vertices.\<close>

definition edge_between :: "VertexDescriptor \<Rightarrow> VertexDescriptor \<Rightarrow> bool" where
  "edge_between from to \<longleftrightarrow> from \<noteq> to \<and> (0 \<le> from \<longrightarrow> 0 \<le> to \<longrightarrow> from < to)"

lemma wf_append_edge:
  assumes wf: "lat_wf lat" and s: "map_of (vertices lat) from = Some (e_source e)"
    and t: "map_of (vertices lat) to = Some (e_target e)" and ft: "edge_between from to"
  defines "lat' \<equiv> lat\<lparr>g_edges := g_edges lat @ [e]\<rparr>"
  shows "lat_wf lat' \<and> lat_le lat lat' \<and> edge_joins lat' from to (ExplicitEdge (length (g_edges lat)))"
proof -
  note s = map_of_vertices[OF wf s] and t = map_of_vertices[OF wf t]
  have i: "source_index lat' d = (if d = length (g_edges lat) then from else source_index lat d)"
    "target_index lat' d = (if d = length (g_edges lat) then to else target_index lat d)"
    if "d < length (g_edges lat) + 1" for d
    using that s t by (auto simp: lat'_def source_index_def target_index_def nth_append)
  have "edge_joins lat' f t e" if "edge_joins lat f t e" for f t e
    using that i by (cases e) (auto simp: lat'_def)
  then have "wf_vvc lat'" using wf by (fastforce simp: lat_wf_def wf_vvc_def lat'_def)
  moreover have "wf_edges lat'"
    using wf i s t ft unfolding lat_wf_def wf_edges_def edge_between_def
    by (auto simp: lat'_def nth_append less_Suc_eq)
  moreover have "wf_index lat'"
    using wf_indexD[OF wf] wf unfolding wf_index_def lat_wf_def by (fastforce simp: lat'_def nth_append)
  moreover have "wf_vertices lat'" "wf_bits lat'"
    using wf by (simp_all add: lat_wf_def wf_vertices_def wf_bits_def lat'_def)
  moreover have "lat_le lat lat'" by (simp add: lat_le_def lat'_def nth_append)
  ultimately show ?thesis using i by (simp add: lat_wf_def lat'_def)
qed

lemma push_at_length [simp]: "length (push_at P d ls) = length ls"
  by (simp add: push_at_def)

lemma push_at_nth: "ix < length ls \<Longrightarrow> push_at P d ls ! ix = (if P ix then ls ! ix @ [d] else ls ! ix)"
  by (simp add: push_at_def)

lemma wf_index_edge:
  assumes wf: "lat_wf lat" and d: "d < length (g_edges lat)"
  shows "lat_wf (index_edge d lat) \<and> lat_le lat (index_edge d lat)"
proof -
  define e where "e = g_edges lat ! d"
  define P where "P = (\<lambda>ix. ix < length (indexedTagMasks lat) \<and> matches (e_tags e) (indexedTagMasks lat ! ix))"
  define vs1 where "vs1 = (g_vertices lat)[e_source e := (g_vertices lat ! e_source e)
      \<lparr>outEdgesIndex := push_at P d (outEdgesIndex (g_vertices lat ! e_source e))\<rparr>]"
  define vs2 where "vs2 = vs1[e_target e := (vs1 ! e_target e)\<lparr>inEdgesIndex := push_at P d (inEdgesIndex (vs1 ! e_target e))\<rparr>]"
  have l: "index_edge d lat = lat\<lparr>g_vertices := vs2\<rparr>"
    by (simp add: index_edge_def Let_def e_def P_def vs1_def vs2_def)
  have st: "e_source e < length (g_vertices lat)" "e_target e < length (g_vertices lat)"
    using wf d by (auto simp: e_def lat_wf_def wf_edges_def)
  have len: "length vs2 = length (g_vertices lat)" by (simp add: vs1_def vs2_def)
  have v: "v_index (vs2 ! v) = v_index (g_vertices lat ! v)"
    "outEdgesIndex (vs2 ! v) = (if v = e_source e then push_at P d (outEdgesIndex (g_vertices lat ! v)) else outEdgesIndex (g_vertices lat ! v))"
    "inEdgesIndex (vs2 ! v) = (if v = e_target e then push_at P d (inEdgesIndex (g_vertices lat ! v)) else inEdgesIndex (g_vertices lat ! v))"
    if "v < length (g_vertices lat)" for v
    using st that by (auto simp: vs1_def vs2_def nth_list_update)
  have i: "source_index (index_edge d lat) k = source_index lat k" "target_index (index_edge d lat) k = target_index lat k"
    if "k < length (g_edges lat)" for k
    using wf that v by (simp_all add: l source_index_def target_index_def lat_wf_def wf_edges_def)
  have "edge_joins (index_edge d lat) f t x" if "edge_joins lat f t x" for f t x
    using that i by (cases x) (auto simp: l)
  then have "wf_vvc (index_edge d lat)" using wf by (fastforce simp: lat_wf_def wf_vvc_def l)
  moreover have "wf_edges (index_edge d lat)" using wf i by (simp add: lat_wf_def wf_edges_def l len)
  moreover have "wf_vertices (index_edge d lat)"
    using wf v by (fastforce simp: lat_wf_def wf_vertices_def l len)
  moreover have "wf_index (index_edge d lat)"
    unfolding wf_index_def
  proof (intro allI impI, goal_cases)
    case (1 u)
    then have u: "u < length (g_vertices lat)" by (simp add: l len)
    note D = wf_indexD[OF wf u]
    have "length (outEdgesIndex (g_vertices lat ! u)) = length (indexedTagMasks lat)"
      "length (inEdgesIndex (g_vertices lat ! u)) = length (indexedTagMasks lat)"
      using wf u by (simp_all add: lat_wf_def wf_index_def)
    then show ?case using D d v[OF u]
      by (auto simp: l push_at_nth P_def e_def[symmetric] split: if_splits)
  qed
  moreover have "wf_bits (index_edge d lat)" using wf by (simp add: lat_wf_def wf_bits_def l)
  moreover have "lat_le lat (index_edge d lat)" using v by (simp add: lat_le_def l len)
  ultimately show ?thesis by (simp add: lat_wf_def)
qed

lemma spec_hide_range: "spec P (hide_range from to) (\<lambda>_ _. True)"
proof -
  have "lat_wf (lat\<lparr>hiddenImplicitOutEdges := map f [0..<length (hiddenImplicitOutEdges lat)]\<rparr>)"
    "lat_le lat (lat\<lparr>hiddenImplicitOutEdges := bs\<rparr>)" if "lat_wf lat" for lat f bs
    using that by (auto intro!: wf_bits_update(3) le_cong) (simp add: lat_wf_def wf_bits_def)
  then show ?thesis by (auto simp: spec_def hide_range_def Let_def split: if_splits)
qed

lemma wf_vvcD: "lat_wf lat \<Longrightarrow> (((f, t), i), es) \<in> set (vvcHash lat) \<Longrightarrow> x \<in> set es \<Longrightarrow> edge_joins lat f t x"
  by (fastforce simp: lat_wf_def wf_vvc_def)

lemma spec_vvc_push:
  assumes "\<And>lat. P lat \<Longrightarrow> edge_joins lat from to e"
  shows "spec P (modify (\<lambda>lat. lat\<lparr>vvcHash := vvc_push ((from, to), item) e (vvcHash lat)\<rparr>)) (\<lambda>_ _. True)"
proof (rule spec_modify)
  fix lat assume wf: "lat_wf lat" and P: "P lat"
  have "edge_joins lat f t x" if m: "(((f, t), i), es) \<in> set (vvc_push ((from, to), item) e (vvcHash lat))" "x \<in> set es" for f t i es x
  proof -
    from vvc_push_set[OF m(1)] obtain es0 where es0: "(((f, t), i), es0) \<in> set (vvcHash lat)"
      "es = es0 \<or> es = es0 @ [e] \<and> (f, t) = (from, to)" by auto
    then show ?thesis using m(2) wf_vvcD[OF wf] assms[OF P] by auto
  qed
  then show "lat_wf (lat\<lparr>vvcHash := vvc_push ((from, to), item) e (vvcHash lat)\<rparr>) \<and>
      lat_le lat (lat\<lparr>vvcHash := vvc_push ((from, to), item) e (vvcHash lat)\<rparr>) \<and> True"
    by (auto intro!: wf_vvc_update wf le_cong)
qed

lemma spec_insert_edge:
  assumes P: "stable P" and v: "\<And>lat. P lat \<Longrightarrow> valid_vertex from lat \<and> valid_vertex to lat"
    and ft: "edge_between from to"
  shows "spec P (insert_edge from to item tags q score ruleId treeChoice)
    (\<lambda>e lat. edge_joins lat from to e \<and> has_tags e tags lat)"
  unfolding insert_edge_def
proof (rule spec_bindE[OF spec_ensure_vertex _ P])
  fix s
  let ?P1 = "\<lambda>lat. P lat \<and> map_of (vertices lat) from = Some s"
  have P1: "stable ?P1" by (rule stable_intros(2)[OF P stable_vertex])
  show "spec ?P1 (bindE (ensure_vertex to) (\<lambda>t.
     bindE (gets (\<lambda>lat. length (g_edges lat))) (\<lambda>d.
     thenE (modify (\<lambda>lat. lat\<lparr>g_edges := g_edges lat @
       [\<lparr>e_source = s, e_target = t, e_item = item, e_tags = tags, e_score = score,
         e_partitions = [\<lparr>part_sequence = q, part_tags = tags, part_score = score,
                          part_ruleId = ruleId, part_treeChoice = treeChoice\<rparr>]\<rparr>]\<rparr>))
     (thenE (modify (index_edge d))
     (thenE (hide_range from to)
     (thenE (modify (\<lambda>lat. lat\<lparr>vvcHash := vvc_push ((from, to), item) (ExplicitEdge d) (vvcHash lat)\<rparr>))
       (ret (ExplicitEdge d)))))))) (\<lambda>e lat. edge_joins lat from to e \<and> has_tags e tags lat)"
  proof (rule spec_bindE[OF spec_ensure_vertex _ P1])
    fix t
    let ?P2 = "\<lambda>lat. ?P1 lat \<and> map_of (vertices lat) to = Some t"
    let ?Q = "\<lambda>d lat. edge_joins lat from to (ExplicitEdge d) \<and> has_tags (ExplicitEdge d) tags lat"
    have Q: "stable (?Q d)" for d by (intro stable_intros(2,4) stable_has_tags)
    show "spec ?P2 (bindE (gets (\<lambda>lat. length (g_edges lat))) (\<lambda>d.
     thenE (modify (\<lambda>lat. lat\<lparr>g_edges := g_edges lat @
       [\<lparr>e_source = s, e_target = t, e_item = item, e_tags = tags, e_score = score,
         e_partitions = [\<lparr>part_sequence = q, part_tags = tags, part_score = score,
                          part_ruleId = ruleId, part_treeChoice = treeChoice\<rparr>]\<rparr>]\<rparr>))
     (thenE (modify (index_edge d))
     (thenE (hide_range from to)
     (thenE (modify (\<lambda>lat. lat\<lparr>vvcHash := vvc_push ((from, to), item) (ExplicitEdge d) (vvcHash lat)\<rparr>))
       (ret (ExplicitEdge d))))))) (\<lambda>e lat. edge_joins lat from to e \<and> has_tags e tags lat)"
    proof (rule spec_bindE'[OF spec_gets[where R = "\<lambda>d lat. ?P2 lat \<and> d = length (g_edges lat)"]], simp)
      fix d
      show "spec (\<lambda>lat. ?P2 lat \<and> d = length (g_edges lat))
       (thenE (modify (\<lambda>lat. lat\<lparr>g_edges := g_edges lat @
       [\<lparr>e_source = s, e_target = t, e_item = item, e_tags = tags, e_score = score,
         e_partitions = [\<lparr>part_sequence = q, part_tags = tags, part_score = score,
                          part_ruleId = ruleId, part_treeChoice = treeChoice\<rparr>]\<rparr>]\<rparr>))
     (thenE (modify (index_edge d))
     (thenE (hide_range from to)
     (thenE (modify (\<lambda>lat. lat\<lparr>vvcHash := vvc_push ((from, to), item) (ExplicitEdge d) (vvcHash lat)\<rparr>))
       (ret (ExplicitEdge d)))))) (\<lambda>e lat. edge_joins lat from to e \<and> has_tags e tags lat)"
      proof (rule spec_thenE'[OF spec_modify[where R = "\<lambda>_. ?Q d"]], goal_cases)
        case (1 lat)
        then show ?case
          using wf_append_edge[OF 1(1), of "from"
            "\<lparr>e_source = s, e_target = t, e_item = item, e_tags = tags, e_score = score,
              e_partitions = [\<lparr>part_sequence = q, part_tags = tags, part_score = score,
                          part_ruleId = ruleId, part_treeChoice = treeChoice\<rparr>]\<rparr>" to] ft
          by (simp add: has_tags_def)
      next
        case 2
        show ?case
          by (intro spec_thenE[OF spec_modify _ Q] spec_thenE[OF spec_hide_range _ Q]
              spec_thenE[OF spec_vvc_push _ Q] spec_ret)
            (auto simp: has_tags_def wf_index_edge)
      qed
    qed
  qed (use v in auto)
qed (use v in auto)

lemma spec_update_visible:
  assumes P: "stable P" and v: "\<And>lat. P lat \<Longrightarrow> valid_vertex from lat \<and> valid_vertex to lat"
  shows "spec P (update_visible from to) (\<lambda>_ _. True)"
proof -
  have 1: "spec P (firstOutEdge from m) (\<lambda>_ _. True)" "spec P (firstInEdge to m) (\<lambda>_ _. True)" for m
    using spec_conseq[OF spec_firstOutEdge[OF P], of "from" P] spec_conseq[OF spec_firstInEdge[OF P], of to P] v by simp_all
  have "spec P (bindE (gets symbolMask) (\<lambda>msk.
        bindE (firstOutEdge from msk) (\<lambda>_.
        thenE (set_visible from)
          (bindE (firstInEdge to msk) (\<lambda>ed.
           bindE (getsE (getEdgeSource ed)) set_visible))))) (\<lambda>_ _. True)"
    by (rule spec_bindE[OF spec_gets[where R = "\<lambda>_ _. True"] _ P], simp,
        rule spec_bindE[where R = "\<lambda>_ _. True"], simp add: 1,
        rule spec_thenE[OF spec_set_visible],
        rule spec_bindE[where R = "\<lambda>_ _. True"], simp add: 1,
        rule spec_bindE[OF spec_getsE[where R = "\<lambda>_ _. True"]])
      (simp_all add: P stable_intros spec_set_visible)
  then show ?thesis unfolding update_visible_def
    by (rule spec_catchE) (auto intro: spec_ret P split: if_splits)
qed

lemma becomes_implicit_joins:
  assumes "becomes_implicit from to tags lat = Inr True" "valid_vertex to lat"
  shows "edge_joins lat from to (ImplicitEdge (nat from)) \<and> has_tags (ImplicitEdge (nat from)) tags lat"
proof -
  from assms(1) have f: "0 \<le> from" and t: "tags = lat_symbolTag lat"
    and l: "from + int (symbolLength (allText lat) (nat from)) = to"
    by (auto simp: becomes_implicit_def isLooseVertex_def lat_symbolLength_def sbind_Inr split: if_splits)
  with assms(2) symbolLength_pos[of "allText lat" "nat from"] have "nat from < length (allText lat)"
    by (auto simp: valid_vertex_def split: if_splits)
  with f l t show ?thesis by (simp add: has_tags_def)
qed

lemma spec_add_new_edge:
  assumes P: "stable P" and v: "\<And>lat. P lat \<Longrightarrow> valid_vertex from lat \<and> valid_vertex to lat"
    and ft: "edge_between from to"
  shows "spec P (add_new_edge from to item tags q score ruleId treeChoice)
    (\<lambda>e lat. edge_joins lat from to e \<and> has_tags e tags lat)"
  unfolding add_new_edge_def
proof (rule spec_thenE[OF spec_modify _ P], goal_cases)
  case (1 lat)
  then show ?case by (auto intro: wf_counter le_cong)
next
  case 2
  let ?e = "ImplicitEdge (nat from)"
  let ?Q = "\<lambda>lat. edge_joins lat from to ?e \<and> has_tags ?e tags lat"
  have Q: "stable ?Q" by (intro stable_intros(2,4) stable_has_tags)
  have impl: "spec (\<lambda>lat. P lat \<and> ?Q lat) (bindE (getsE (\<lambda>lat. bit_put (implicitOutEdges lat) from True)) (\<lambda>bs.
          thenE (modify (\<lambda>lat. lat\<lparr>implicitOutEdges := bs,
                   vvcHash := vvc_push ((from, to), item) ?e (vvcHash lat)\<rparr>)) (ret ?e)))
      (\<lambda>e lat. edge_joins lat from to e \<and> has_tags e tags lat)"
  proof (rule spec_bindE'[OF spec_getsE[where R = "\<lambda>bs lat. ?Q lat \<and> length bs = length (allText lat) + 1 \<and>
      (\<forall>i < length bs. bs ! i \<longrightarrow> i < length (allText lat))"]], goal_cases)
    case (1 lat bs)
    then have "bs ! i \<Longrightarrow> i < length bs \<Longrightarrow> i < length (allText lat)" for i
      by (auto simp: bit_put_def nth_list_update lat_wf_def wf_bits_def split: if_splits)
    then show ?case using 1 bit_put_length[OF 1(3)] by (simp add: lat_wf_def wf_bits_def)
  next
    case (2 bs)
    show ?case
    proof (rule spec_thenE'[OF spec_modify[where R = "\<lambda>_. ?Q"]], goal_cases)
      case (1 lat)
      define lat1 where "lat1 = lat\<lparr>implicitOutEdges := bs\<rparr>"
      from 1 have l: "lat_wf lat" "?Q lat" "length bs = length (allText lat) + 1"
        "\<And>i. i < length bs \<Longrightarrow> bs ! i \<Longrightarrow> i < length (allText lat)" by simp_all
      have w: "lat_wf lat1" unfolding lat1_def by (rule wf_bits_update(1)[OF l(1,3,4)])
      have le: "lat_le lat lat1" unfolding lat1_def by (rule le_cong) simp_all
      have q1: "?Q lat1" using Q l(1,2) le unfolding stable_def by blast
      have "spec (\<lambda>l. edge_joins l from to ?e) (modify (\<lambda>lat. lat\<lparr>vvcHash := vvc_push ((from, to), item) ?e (vvcHash lat)\<rparr>)) (\<lambda>_ _. True)"
        by (rule spec_vvc_push)
      from specD[OF this w _ prod.collapse[symmetric]] q1 have w2: "lat_wf (lat1\<lparr>vvcHash := vvc_push ((from, to), item) ?e (vvcHash lat1)\<rparr>)"
        "lat_le lat1 (lat1\<lparr>vvcHash := vvc_push ((from, to), item) ?e (vvcHash lat1)\<rparr>)"
        by (auto simp: modify_def)
      moreover have "?Q (lat1\<lparr>vvcHash := vvc_push ((from, to), item) ?e (vvcHash lat1)\<rparr>)"
        using Q w w2(2) q1 unfolding stable_def by blast
      moreover have "lat\<lparr>implicitOutEdges := bs, vvcHash := vvc_push ((from, to), item) ?e (vvcHash lat)\<rparr>
          = lat1\<lparr>vvcHash := vvc_push ((from, to), item) ?e (vvcHash lat1)\<rparr>" by (simp add: lat1_def)
      ultimately show ?case using lat_le_trans[OF le w2(2)] by metis
    next
      case 2
      show ?case by (rule spec_ret) simp
    qed
  qed
  have rest: "spec P (bindE (getsE (becomes_implicit from to tags)) (\<lambda>impl.
        if impl then
          bindE (getsE (\<lambda>lat. bit_put (implicitOutEdges lat) from True)) (\<lambda>bs.
          thenE (modify (\<lambda>lat. lat\<lparr>implicitOutEdges := bs,
                   vvcHash := vvc_push ((from, to), item) ?e (vvcHash lat)\<rparr>)) (ret ?e))
        else insert_edge from to item tags q score ruleId treeChoice))
      (\<lambda>e lat. edge_joins lat from to e \<and> has_tags e tags lat)"
  proof (rule spec_bindE[OF spec_getsE[where R = "\<lambda>b lat. b \<longrightarrow> ?Q lat"] _ P], goal_cases)
    case (1 lat b)
    then show ?case using becomes_implicit_joins[of "from" to tags lat] v by (cases b) auto
  next
    case (2 b)
    show ?case
    proof (cases b)
      case True
      show ?thesis unfolding if_P[OF True] by (rule spec_conseq[OF impl]) (use True in blast)+
    next
      case False
      show ?thesis unfolding if_not_P[OF False] by (rule spec_conseq[OF spec_insert_edge[OF P v ft]]) blast+
    qed
  qed
  show ?case
    by (rule spec_bindE[OF spec_gets[where R = "\<lambda>_ _. True"] _ P], simp,
        rule spec_thenE[where P = "\<lambda>lat. P lat \<and> True"])
      (use rest in \<open>auto simp: P intro: spec_ret spec_update_visible[OF P v]\<close>)
qed

lemma isoplanar_in: "isoplanar tags es lat = Inr (Some e) \<Longrightarrow> e \<in> set es"
  by (induction tags es lat rule: isoplanar.induct) (auto simp: sbind_Inr split: if_splits)

lemma spec_addEdge:
  assumes P: "stable P" and v: "\<And>lat. P lat \<Longrightarrow> valid_vertex from lat \<and> valid_vertex to lat"
  shows "spec P (addEdge from to item tags q score ruleId treeChoice)
    (\<lambda>e lat. edge_joins lat from to e \<and> has_tags e tags lat)"
  unfolding addEdge_def
proof (rule spec_bindE[OF spec_getsE[where R = "\<lambda>tags' _. isSubset tags tags'"] _ P], goal_cases)
  case (1 lat tags')
  then show ?case by (auto simp: sbind_Inr split: if_splits)
next
  case (2 tags')
  let ?add = "\<lambda>tags'. add_new_edge from to item tags' q score ruleId treeChoice"
  show ?case
  proof (cases "isSubset tags tags' \<and> \<not> from = to \<and> \<not> (from \<ge> 0 \<and> to \<ge> 0 \<and> from > to)")
    case False
    then show ?thesis
    proof (cases "isSubset tags tags'")
      case True
      with False show ?thesis by (auto simp: spec_throw)
    next
      case False
      then show ?thesis by (simp add: spec_def)
    qed
  next
    case True
    then have st: "isSubset tags tags'" and ft: "edge_between from to" by (auto simp: edge_between_def)
    have grow: "has_tags e tags'' lat \<Longrightarrow> isSubset tags' tags'' \<Longrightarrow> has_tags e tags lat" for e tags'' lat
      using st by (auto simp: has_tags_def isSubset_iff split: EdgeDescriptor.splits)
    have add: "spec P (?add tags'') (\<lambda>e lat. edge_joins lat from to e \<and> has_tags e tags lat)"
      if "isSubset tags' tags''" for tags''
      by (rule spec_conseq[OF spec_add_new_edge[OF P v ft, where tags = tags'']]) (use grow that in auto)
    let ?R = "\<lambda>es lat. case es of None \<Rightarrow> True | Some es \<Rightarrow> \<forall>e \<in> set es. edge_joins lat from to e"
    have R: "stable (?R es)" for es
      using edge_joins_mono by (cases es) (auto simp: stable_def)
    have main: "spec P (bindE (gets (\<lambda>lat. vvc_lookup ((from, to), item) (vvcHash lat))) (\<lambda>found.
       thenE (modify (\<lambda>lat. lat\<lparr>vvcHash := vvc_insert ((from, to), item) (vvcHash lat)\<rparr>))
       (bindE (getsE (isoplanar tags' (case found of None \<Rightarrow> [] | Some es \<Rightarrow> es))) (\<lambda>iso.
          case iso of
            None \<Rightarrow> ?add tags'
          | Some edge \<Rightarrow>
              bindE (merge_edge edge from tags' q score ruleId treeChoice) (\<lambda>(tags', needToAdd).
                if needToAdd then ?add tags' else ret edge)))))
      (\<lambda>e lat. edge_joins lat from to e \<and> has_tags e tags lat)"
    proof (rule spec_bindE[OF spec_gets[where R = ?R] _ P], goal_cases)
      case (1 lat)
      then show ?case using wf_vvcD vvc_lookup_set by (fastforce split: option.splits)
    next
      case (2 found)
      have PR: "stable (\<lambda>lat. P lat \<and> ?R found lat)" by (rule stable_intros(2)[OF P R])
      show ?case
      proof (rule spec_thenE[OF spec_modify _ PR], goal_cases)
        case (1 lat)
        then show ?case by (auto intro!: wf_vvc_update le_cong dest!: vvc_insert_set wf_vvcD)
      next
        case 2
        show ?case
        proof (rule spec_bindE[OF spec_getsE[where R = "\<lambda>iso lat. case iso of None \<Rightarrow> True | Some e \<Rightarrow> edge_joins lat from to e"] _ PR], goal_cases)
          case (1 lat iso)
          then show ?case by (auto dest: isoplanar_in split: option.splits)
        next
          case (2 iso)
          show ?case
          proof (cases iso)
            case None
            then show ?thesis by (auto intro: spec_conseq[OF add[of tags']])
          next
            case (Some e)
            have S: "stable (\<lambda>lat. P lat \<and> edge_joins lat from to e)" by (intro stable_intros P)
            have "spec (\<lambda>lat. P lat \<and> edge_joins lat from to e)
              (bindE (merge_edge e from tags' q score ruleId treeChoice) (\<lambda>(tags', needToAdd).
                if needToAdd then ?add tags' else ret e))
              (\<lambda>e lat. edge_joins lat from to e \<and> has_tags e tags lat)"
            proof (rule spec_bindE[OF spec_merge_edge[OF S] _ S], goal_cases)
              case (1 x)
              obtain tags'' need where x: "x = (tags'', need)" by (cases x)
              show ?case
              proof (cases "isSubset tags' tags''")
                case True
                then show ?thesis using x grow
                  by (cases need) (auto intro: spec_ret spec_conseq[OF add[OF True]])
              qed (simp add: x spec_def)
            qed
            then show ?thesis using Some by (auto elim: spec_conseq)
          qed
        qed
      qed
    qed
    then show ?thesis using True by (auto intro: spec_conseq)
  qed
qed

end
