(* ===== verification/Lattice_Evolution.thy ===== *)
theory Lattice_Evolution
  imports Lattice_Facts
begin

text \<open>
  What the operations of the lattice leave of the bit vectors and of the hash, which the order
  of evolution in \<open>Lattice_Facts\<close> does not speak of: the bits of hidden and visible symbols are
  only ever set, the entries of the hash only ever extended, and the only implicit edge that
  can disappear is the one an addition replaces by an edge of the graph.
\<close>

section \<open>What is kept\<close>

definition bits_grow :: "bool list \<Rightarrow> bool list \<Rightarrow> bool" where
  "bits_grow bs bs' \<longleftrightarrow> length bs' = length bs \<and> (\<forall>i < length bs. bs ! i \<longrightarrow> bs' ! i)"

definition hash_grows :: "(vvc_key \<times> EdgeDescriptor list) list \<Rightarrow> (vvc_key \<times> EdgeDescriptor list) list \<Rightarrow> bool" where
  "hash_grows h h' \<longleftrightarrow> (\<forall>k es. vvc_lookup k h = Some es \<longrightarrow> (\<exists>es'. vvc_lookup k h' = Some es' \<and> prefix es es'))"

text \<open>Everything is kept but, possibly, the implicit edge at one vertex.\<close>

definition kept_but :: "VertexDescriptor \<Rightarrow> Lattice \<Rightarrow> Lattice \<Rightarrow> bool" where
  "kept_but v lat lat' \<longleftrightarrow>
     length (implicitOutEdges lat') = length (implicitOutEdges lat) \<and>
     (\<forall>i < length (implicitOutEdges lat). int i \<noteq> v \<longrightarrow> implicitOutEdges lat' ! i = implicitOutEdges lat ! i) \<and>
     bits_grow (hiddenImplicitOutEdges lat) (hiddenImplicitOutEdges lat') \<and>
     bits_grow (visibleImplicitOutEdges lat) (visibleImplicitOutEdges lat') \<and>
     hash_grows (vvcHash lat) (vvcHash lat')"

lemma bits_grow_refl [simp]: "bits_grow bs bs"
  by (simp add: bits_grow_def)

lemma hash_grows_refl [simp]: "hash_grows h h"
  by (simp add: hash_grows_def)

lemma kept_but_refl [simp]: "kept_but v lat lat"
  by (simp add: kept_but_def)

lemma kept_but_trans: "kept_but v a b \<Longrightarrow> kept_but v b c \<Longrightarrow> kept_but v a c"
  unfolding kept_but_def bits_grow_def hash_grows_def by (auto dest: prefix_order.trans) (metis prefix_order.trans)

text \<open>No vertex of the text is excepted when \<open>v\<close> is loose.\<close>

lemma kept_but_none: "kept_but (-1) lat lat' \<Longrightarrow> kept_but v lat lat' \<and> implicitOutEdges lat' = implicitOutEdges lat"
  by (auto simp: kept_but_def intro: nth_equalityI)

lemma kept_but_cong:
  "implicitOutEdges lat' = implicitOutEdges lat \<Longrightarrow> hiddenImplicitOutEdges lat' = hiddenImplicitOutEdges lat \<Longrightarrow>
   visibleImplicitOutEdges lat' = visibleImplicitOutEdges lat \<Longrightarrow> vvcHash lat' = vvcHash lat \<Longrightarrow> kept_but v lat lat'"
  by (simp add: kept_but_def)

lemma hash_grows_insert: "hash_grows h (vvc_insert k h)"
proof -
  have "vvc_lookup k' h = Some es \<Longrightarrow> vvc_lookup k' (h @ [(k, [])]) = Some es" for k' es
    by (induction h) (auto split: if_splits)
  then show ?thesis by (auto simp: hash_grows_def vvc_insert_def)
qed

lemma hash_grows_push: "hash_grows h (vvc_push k e h)"
proof -
  have "\<exists>es'. vvc_lookup k' (vvc_push k e h) = Some es' \<and> prefix es es'" if "vvc_lookup k' h = Some es" for k' es
    using that by (induction h) (auto split: if_splits)
  then show ?thesis by (simp add: hash_grows_def)
qed

section \<open>Programs that keep everything\<close>

definition keeps :: "VertexDescriptor \<Rightarrow> 'a lat_prog \<Rightarrow> bool" where
  "keeps v m \<longleftrightarrow> (\<forall>lat. kept_but v lat (snd (m lat)))"

named_theorems keeps_rules "what the operations of the lattice keep"

lemma keepsD: "keeps v m \<Longrightarrow> m lat = (r, lat') \<Longrightarrow> kept_but v lat lat'"
  by (auto simp: keeps_def dest!: spec[of _ lat])

lemma keepsI: "(\<And>lat r lat'. m lat = (r, lat') \<Longrightarrow> kept_but v lat lat') \<Longrightarrow> keeps v m"
  by (auto simp: keeps_def intro: prod.collapse[symmetric])

lemma keeps_bindE [keeps_rules]: "keeps v m \<Longrightarrow> (\<And>a. keeps v (f a)) \<Longrightarrow> keeps v (bindE m f)"
  unfolding keeps_def bindE_def by (auto split: prod.splits sum.splits) (metis kept_but_trans snd_conv)+

lemma keeps_thenE [keeps_rules]: "keeps v m \<Longrightarrow> keeps v n \<Longrightarrow> keeps v (thenE m n)"
  by (simp add: thenE_def keeps_bindE)

lemma keeps_basic [keeps_rules]: "keeps v (ret a)" "keeps v (throw e)" "keeps v (gets g)" "keeps v (getsE h)"
  by (simp_all add: keeps_def prog_defs)

lemma keeps_modify: "(\<And>lat. kept_but v lat (f lat)) \<Longrightarrow> keeps v (modify f)"
  by (simp add: keeps_def modify_def)

lemma keeps_if [keeps_rules]: "(b \<Longrightarrow> keeps v m) \<Longrightarrow> (\<not> b \<Longrightarrow> keeps v n) \<Longrightarrow> keeps v (if b then m else n)"
  by simp

lemma keeps_catchE [keeps_rules]: "keeps v m \<Longrightarrow> (\<And>e n. h e = Some n \<Longrightarrow> keeps v n) \<Longrightarrow> keeps v (catchE m h)"
  unfolding keeps_def catchE_def
  by (auto split: prod.splits sum.splits option.splits) (metis kept_but_trans snd_conv)+

lemma keeps_split [keeps_rules]: "(\<And>a b. x = (a, b) \<Longrightarrow> keeps v (f a b)) \<Longrightarrow> keeps v (case x of (a, b) \<Rightarrow> f a b)"
  by (cases x) simp

lemma keeps_addTagMaskIndex [keeps_rules]: "keeps v (addTagMaskIndex m)"
proof -
  have "implicitOutEdges (fold (\<lambda>(_, v). index_vertex m v) vs lat) = implicitOutEdges lat \<and>
      hiddenImplicitOutEdges (fold (\<lambda>(_, v). index_vertex m v) vs lat) = hiddenImplicitOutEdges lat \<and>
      visibleImplicitOutEdges (fold (\<lambda>(_, v). index_vertex m v) vs lat) = visibleImplicitOutEdges lat \<and>
      vvcHash (fold (\<lambda>(_, v). index_vertex m v) vs lat) = vvcHash lat" for vs :: "(int \<times> nat) list" and lat
    by (induction vs arbitrary: lat) (auto simp: index_vertex_def Let_def)
  then show ?thesis
    by (auto simp: keeps_def addTagMaskIndex_def Let_def intro!: kept_but_cong split: option.splits)
qed

lemma keeps_vertex_ref [keeps_rules]: "keeps v (vertex_ref u)"
  by (auto simp: keeps_def vertex_ref_def intro!: kept_but_cong split: option.splits)

lemma keeps_edges [keeps_rules]: "keeps v (outEdges u m)" "keeps v (inEdges u m)"
  unfolding outEdges_def inEdges_def allOutEdges_def allInEdges_def by (intro keeps_rules)+

lemma keeps_first [keeps_rules]: "keeps v (firstOutEdge u m)" "keeps v (firstInEdge u m)"
  unfolding firstOutEdge_def firstInEdge_def by (intro keeps_rules)+

lemma keeps_si_next [keeps_rules]: "keeps v (si_next it)"
  unfolding si_next_def si_nextUsage_def by (auto split: prod.split intro!: keeps_rules)

lemma keeps_check_self_reference [keeps_rules]: "keeps v (check_self_reference edge it)"
proof (induction edge it rule: check_self_reference.induct)
  case (1 edge it)
  show ?case
  proof (cases "si_links it \<le> length (links (si_seq it)) \<and> si_hasNext it")
    case False
    then show ?thesis by (subst check_self_reference.simps) (auto intro: keeps_rules)
  next
    case True
    have "kept_but v lat (snd (check_self_reference edge it lat))" for lat
    proof (cases "si_next it lat")
      case (Pair r lat1)
      note k = keepsD[OF keeps_si_next Pair, of v]
      show ?thesis
      proof (cases r)
        case (Inl e)
        then show ?thesis using k True Pair by (subst check_self_reference.simps) (simp add: bindE_def)
      next
        case (Inr x)
        obtain e it' where x: "x = (e, it')" by (cases x)
        have "kept_but v lat1 (snd ((if e = edge then throw EdgeSelfReferenceException
            else check_self_reference edge it') lat1))"
          using 1[OF True Pair[unfolded Inr x] refl] by (auto simp: keeps_def throw_def)
        then have "kept_but v lat (snd ((if e = edge then throw EdgeSelfReferenceException
            else check_self_reference edge it') lat1))" by (rule kept_but_trans[OF k])
        then show ?thesis using True Pair Inr x by (subst check_self_reference.simps) (simp add: bindE_def)
      qed
    qed
    then show ?thesis by (simp add: keeps_def)
  qed
qed

lemma keeps_update_edge [keeps_rules]: "keeps v (update_edge d f)"
  by (auto simp: keeps_def update_edge_def intro: kept_but_cong)

lemma keeps_bindE_getsE: "(\<And>lat a. g lat = Inr a \<Longrightarrow> kept_but v lat (snd (f a lat))) \<Longrightarrow> keeps v (bindE (getsE g) f)"
  by (auto simp: keeps_def bindE_def getsE_def split: sum.splits)

lemma keeps_set_visible [keeps_rules]: "keeps v (set_visible u)"
  unfolding set_visible_def
  by (rule keeps_bindE_getsE)
    (auto simp: modify_def kept_but_def bit_put_def bits_grow_def nth_list_update split: if_splits)

lemma keeps_update_visible [keeps_rules]: "keeps v (update_visible f t)"
  unfolding update_visible_def by (intro keeps_rules) (auto intro: keeps_rules split: if_splits)

lemma keeps_ensure_vertex [keeps_rules]: "keeps v (ensure_vertex u)"
  by (auto simp: keeps_def ensure_vertex_def Let_def intro!: kept_but_cong split: option.splits)

lemma keeps_hide_range [keeps_rules]: "keeps v (hide_range f t)"
  by (auto simp: keeps_def hide_range_def Let_def kept_but_def bits_grow_def)

lemma keeps_insert_edge [keeps_rules]: "keeps v (insert_edge from to item tags q score ruleId treeChoice)"
  unfolding insert_edge_def
  by (intro keeps_rules keeps_modify) (simp_all add: index_edge_def Let_def kept_but_def hash_grows_push)

lemma keeps_put_implicit:
  "bit_put (implicitOutEdges lat) v b = Inr bs \<Longrightarrow> hash_grows (vvcHash lat) h \<Longrightarrow>
     kept_but v lat (lat\<lparr>implicitOutEdges := bs, vvcHash := h\<rparr>)"
  by (auto simp: kept_but_def bit_put_def nth_list_update split: if_splits)

lemma keeps_add_new_edge [keeps_rules]: "keeps from (add_new_edge from to item tags q score ruleId treeChoice)"
proof -
  have "keeps from (bindE (getsE (\<lambda>lat. bit_put (implicitOutEdges lat) from True)) (\<lambda>bs.
          thenE (modify (\<lambda>lat. lat\<lparr>implicitOutEdges := bs,
                   vvcHash := vvc_push ((from, to), item) (ImplicitEdge (nat from)) (vvcHash lat)\<rparr>))
            (ret (ImplicitEdge (nat from)))))"
    by (rule keeps_bindE_getsE) (simp add: prog_defs keeps_put_implicit hash_grows_push)
  then show ?thesis unfolding add_new_edge_def
    by (intro keeps_thenE[OF keeps_modify] keeps_bindE[OF keeps_basic(3)] keeps_thenE[OF keeps_if]
        keeps_bindE[OF keeps_basic(4)])
      (simp_all add: kept_but_def keeps_rules)
qed

lemma keeps_merge_edge [keeps_rules]: "keeps from (merge_edge edge from tags q score ruleId treeChoice)"
proof -
  have "keeps from (bindE (getsE (\<lambda>lat. bit_put (implicitOutEdges lat) from False)) (\<lambda>bs.
          modify (\<lambda>lat. lat\<lparr>implicitOutEdges := bs\<rparr>)))"
    by (rule keeps_bindE_getsE)
      (auto simp: prog_defs kept_but_def bit_put_def nth_list_update split: if_splits)
  then show ?thesis unfolding merge_edge_def Let_def
    by (cases edge) (auto intro!: keeps_rules)
qed

lemma keeps_addEdge: "keeps from (addEdge from to item tags q score ruleId treeChoice)"
  unfolding addEdge_def
  by (intro keeps_rules keeps_modify)
    (auto simp: kept_but_def hash_grows_insert intro!: keeps_rules split: option.splits)

section \<open>The implicit edge an addition can replace\<close>

text \<open>A new edge takes no implicit edge away; one with other tags than those of symbols is an edge
  of the graph, and one with the tags of symbols that fits becomes implicit when nothing fails.\<close>

lemma add_new_edge_grows:
  assumes "add_new_edge from to item tags q score ruleId treeChoice lat = (r, lat')"
  shows "bits_grow (implicitOutEdges lat) (implicitOutEdges lat')"
proof -
  let ?u = "if tags = lat_symbolTag lat then update_visible from to else ret ()"
  define lat1 where "lat1 = lat\<lparr>edgeCounterHash :=
        (edgeCounterHash lat)((from, to) := edgeCounterHash lat (from, to) + 1)\<rparr>"
  obtain r2 lat2 where u: "?u lat1 = (r2, lat2)" by (cases "?u lat1")
  have "keeps (-1) ?u" by (intro keeps_rules)
  from kept_but_none[OF keepsD[OF this u]] have i2: "implicitOutEdges lat2 = implicitOutEdges lat" by (simp add: lat1_def)
  show ?thesis
  proof (cases r2)
    case (Inl e)
    then have "lat' = lat2" using assms u
      by (auto simp: add_new_edge_def thenE_def bindE_def modify_def gets_def lat1_def split: if_splits)
    then show ?thesis using i2 by simp
  next
    case (Inr x)
    then have rest: "bindE (getsE (becomes_implicit from to tags)) (\<lambda>impl.
        if impl then
          bindE (getsE (\<lambda>lat. bit_put (implicitOutEdges lat) from True)) (\<lambda>bs.
          thenE (modify (\<lambda>lat. lat\<lparr>implicitOutEdges := bs,
                   vvcHash := vvc_push ((from, to), item) (ImplicitEdge (nat from)) (vvcHash lat)\<rparr>))
            (ret (ImplicitEdge (nat from))))
        else insert_edge from to item tags q score ruleId treeChoice) lat2 = (r, lat')"
      using assms u by (auto simp: add_new_edge_def thenE_def bindE_def modify_def gets_def lat1_def split: if_splits)
    have "implicitOutEdges lat' = implicitOutEdges lat2"
      if "insert_edge from to item tags q score ruleId treeChoice lat2 = (r, lat')"
      using kept_but_none[OF keepsD[OF keeps_insert_edge that]] by simp
    then show ?thesis using rest i2
      by (auto simp: bindE_def getsE_def thenE_def modify_def ret_def bits_grow_def bit_put_def nth_list_update
        split: sum.splits if_splits)
  qed
qed

lemma insert_edge_total:
  assumes "lat_wf lat" "valid_vertex to lat"
  shows "\<exists>d. fst (insert_edge from to item tags q score ruleId treeChoice lat) = Inr (ExplicitEdge d)"
proof -
  have e: "\<exists>v lat'. ensure_vertex u l = (Inr v, lat') \<and> hiddenImplicitOutEdges lat' = hiddenImplicitOutEdges l" for u l
    by (cases "map_of (vertices l) u") (simp_all add: ensure_vertex_def Let_def)
  have n: "to < 0 \<or> nat to \<le> length (hiddenImplicitOutEdges lat)"
    using assms by (auto simp: lat_wf_def wf_bits_def valid_vertex_def split: if_splits)
  obtain s lat1 where 1: "ensure_vertex from lat = (Inr s, lat1)" "hiddenImplicitOutEdges lat1 = hiddenImplicitOutEdges lat"
    using e by blast
  obtain t lat2 where 2: "ensure_vertex to lat1 = (Inr t, lat2)" "hiddenImplicitOutEdges lat2 = hiddenImplicitOutEdges lat1"
    using e by blast
  show ?thesis using 1 2 n
    by (auto simp: insert_edge_def prog_defs index_edge_def hide_range_def Let_def isLooseVertex_def)
qed

lemma add_new_edge_explicit:
  assumes "lat_wf lat" "valid_vertex to lat" "tags \<noteq> lat_symbolTag lat"
  shows "\<exists>d. fst (add_new_edge from to item tags q score ruleId treeChoice lat) = Inr (ExplicitEdge d)"
proof -
  define lat1 where "lat1 = lat\<lparr>edgeCounterHash :=
        (edgeCounterHash lat)((from, to) := edgeCounterHash lat (from, to) + 1)\<rparr>"
  have "lat_wf lat1" "valid_vertex to lat1"
    using assms(1,2) wf_counter by (simp_all add: lat1_def valid_vertex_def)
  from insert_edge_total[OF this] assms(3) show ?thesis
    by (simp add: add_new_edge_def prog_defs becomes_implicit_def lat1_def)
qed

lemma add_new_edge_implicit:
  assumes "lat_wf lat" "from = int i" "i < length (implicitOutEdges lat)" "0 \<le> to"
    and "to = from + int (symbolLength (allText lat) i)" "tags = lat_symbolTag lat" "\<not> implicitOutEdges lat ! i"
    and a: "add_new_edge from to item tags q score ruleId treeChoice lat = (r, lat')"
    and v: "valid_vertex from lat" "valid_vertex to lat"
  shows "(\<exists>e. r = Inl e) \<or> implicitOutEdges lat' ! i"
proof -
  define lat1 where "lat1 = lat\<lparr>edgeCounterHash :=
        (edgeCounterHash lat)((from, to) := edgeCounterHash lat (from, to) + 1)\<rparr>"
  have w1: "lat_wf lat1" "valid_vertex from lat1 \<and> valid_vertex to lat1"
    using assms(1) v wf_counter by (simp_all add: lat1_def valid_vertex_def)
  obtain r2 lat2 where u: "update_visible from to lat1 = (r2, lat2)" by (cases "update_visible from to lat1")
  have st: "stable (\<lambda>lat. valid_vertex from lat \<and> valid_vertex to lat)" by (intro stable_intros)
  have le: "lat_le lat1 lat2" using specD[OF spec_update_visible[OF st] w1 u] by blast
  from kept_but_none[OF keepsD[OF keeps_update_visible u]] have i2: "implicitOutEdges lat2 = implicitOutEdges lat"
    by (simp add: lat1_def)
  have l: "allText lat2 = allText lat" "lat_symbolTag lat2 = lat_symbolTag lat" using le by (simp_all add: lat_le_def lat1_def)
  have i: "i \<le> length (allText lat)" using assms(1,3) by (simp add: lat_wf_def wf_bits_def)
  have b: "becomes_implicit from to tags lat2 = Inr True"
    using assms(2-7) i i2 l
    by (simp add: becomes_implicit_def isLooseVertex_def lat_symbolLength_def bit_at_def at_index_def)
  show ?thesis
  proof (cases r2)
    case (Inl e)
    then show ?thesis using a u assms(6)
      by (auto simp: add_new_edge_def thenE_def bindE_def modify_def gets_def lat1_def)
  next
    case (Inr x)
    have p: "bit_put (implicitOutEdges lat2) from True = Inr ((implicitOutEdges lat)[i := True])"
      using i2 assms(2,3) by (simp add: bit_put_def)
    have "add_new_edge from to item tags q score ruleId treeChoice lat
        = (Inr (ImplicitEdge (nat from)), lat2\<lparr>implicitOutEdges := (implicitOutEdges lat)[i := True],
             vvcHash := vvc_push ((from, to), item) (ImplicitEdge (nat from)) (vvcHash lat2)\<rparr>)"
      unfolding add_new_edge_def
      by (simp add: thenE_def bindE_def modify_def gets_def getsE_def ret_def assms(6) lat1_def[symmetric] u Inr
          b[unfolded assms(6)] p)
    then show ?thesis using a assms(3) by auto
  qed
qed

text \<open>Merging takes an implicit edge away only by the assignment at its end.\<close>

lemma merge_edge_lost:
  assumes "lat_wf lat" "merge_edge edge from tags q score ruleId treeChoice lat = (r, lat')"
    and "i < length (implicitOutEdges lat)" "implicitOutEdges lat ! i" "\<not> implicitOutEdges lat' ! i"
  shows "(\<exists>j. edge = ImplicitEdge j) \<and> from = int i \<and>
    r = Inr (if tags = lat_symbolTag lat then tags else createUnion (lat_symbolTag lat) tags, True)"
proof -
  obtain r1 lat1 where c: "check_self_reference edge (seq_iterator q) lat = (r1, lat1)"
    by (cases "check_self_reference edge (seq_iterator q) lat")
  have i1: "implicitOutEdges lat1 = implicitOutEdges lat"
    using kept_but_none[OF keepsD[OF keeps_check_self_reference c]] by blast
  have s1: "lat_symbolTag lat1 = lat_symbolTag lat"
    using specD[OF spec_check_self_reference[of "\<lambda>_. True"] assms(1) TrueI c] by (simp add: stable_intros lat_le_def)
  show ?thesis
  proof (cases edge)
    case (ExplicitEdge d)
    then have "implicitOutEdges lat' = implicitOutEdges lat1"
      using assms(2) c by (auto simp: merge_edge_def prog_defs update_edge_def Let_def split: sum.splits if_splits prod.splits)
    then show ?thesis using assms i1 by simp
  next
    case (ImplicitEdge j)
    then show ?thesis using assms c i1 s1
      by (auto simp: merge_edge_def prog_defs Let_def bit_put_def nth_list_update split: sum.splits if_splits)
  qed
qed

lemma prog_at:
  "bindE (gets g) f s = f (g s) s" "thenE (modify h) n s = n (h s)"
  "bindE (getsE k) f s = (case k s of Inl e \<Rightarrow> (Inl e, s) | Inr a \<Rightarrow> f a s)"
  by (simp_all add: prog_defs split: sum.split)

lemma bindE_getsE_at: "g lat = Inr a \<Longrightarrow> bindE (getsE g) f lat = f a lat"
  by (simp add: bindE_def getsE_def)

lemma addEdge_lost:
  assumes wf: "lat_wf lat" and v: "valid_vertex from lat" "valid_vertex to lat"
    and a: "addEdge from to item tags q score ruleId treeChoice lat = (r, lat')"
    and i: "i < length (implicitOutEdges lat)" "implicitOutEdges lat ! i" "\<not> implicitOutEdges lat' ! i"
  shows "from = int i \<and> to = from + int (symbolLength (allText lat) i) \<and>
    ((\<exists>d. r = Inr (ExplicitEdge d) \<and> d < length (g_edges lat') \<and>
        isSubset (lat_symbolTag lat) (e_tags (g_edges lat' ! d))) \<or>
     (\<exists>e. r = Inl e) \<and> isSubset tags (lat_symbolTag lat))"
proof -
  let ?add = "\<lambda>t. add_new_edge from to item t q score ruleId treeChoice"
  obtain t1 where t1: "isSubset tags t1" and ft: "from \<noteq> to" "\<not> (from \<ge> 0 \<and> to \<ge> 0 \<and> from > to)"
    and rest: "bindE (gets (\<lambda>lat. vvc_lookup ((from, to), item) (vvcHash lat))) (\<lambda>found.
       thenE (modify (\<lambda>lat. lat\<lparr>vvcHash := vvc_insert ((from, to), item) (vvcHash lat)\<rparr>))
       (bindE (getsE (isoplanar t1 (case found of None \<Rightarrow> [] | Some es \<Rightarrow> es))) (\<lambda>iso.
          case iso of
            None \<Rightarrow> ?add t1
          | Some edge \<Rightarrow>
              bindE (merge_edge edge from t1 q score ruleId treeChoice) (\<lambda>(tags', needToAdd).
                if needToAdd then ?add tags' else ret edge)))) lat = (r, lat')"
  proof -
    define g where "g = (\<lambda>lat. if tags_isEmpty (onlyPlaneTags (tagManager lat) tags)
        then sbind (gatherPlaneTags q lat) (\<lambda>pt. Inr (createUnion tags pt)) else Inr tags)"
    note a1 = a[unfolded addEdge_def g_def[symmetric]]
    have "lat' = lat" if "g lat = Inl e" for e
      using a1 that by (simp add: bindE_def getsE_def)
    then obtain t1 where t: "g lat = Inr t1" using i by (metis sumE)
    then have "isSubset tags t1" by (auto simp: g_def sbind_Inr split: if_splits)
    moreover have "from \<noteq> to" "\<not> (from \<ge> 0 \<and> to \<ge> 0 \<and> from > to)"
      using a1 i unfolding bindE_getsE_at[of g, OF t] by (auto simp: throw_def split: if_splits)
    ultimately show thesis using that a1 unfolding bindE_getsE_at[of g, OF t] by (simp only: if_False simp_thms)
  qed
  define lat1 where "lat1 = lat\<lparr>vvcHash := vvc_insert ((from, to), item) (vvcHash lat)\<rparr>"
  have w1: "lat_wf lat1" unfolding lat1_def
    by (rule wf_vvc_update[OF wf]) (auto dest!: vvc_insert_set wf_vvcD[OF wf])
  have i1: "implicitOutEdges lat1 = implicitOutEdges lat" "allText lat1 = allText lat" "lat_symbolTag lat1 = lat_symbolTag lat"
    "valid_vertex from lat1" "valid_vertex to lat1"
    using v by (simp_all add: lat1_def valid_vertex_def)
  define es where "es = (case vvc_lookup ((from, to), item) (vvcHash lat) of None \<Rightarrow> [] | Some es \<Rightarrow> es)"
  have es: "edge_joins lat from to e" if e: "e \<in> set es" for e
  proof -
    from e have "vvc_lookup ((from, to), item) (vvcHash lat) = Some es"
      by (cases "vvc_lookup ((from, to), item) (vvcHash lat)") (simp_all add: es_def)
    from vvc_lookup_set[OF this] obtain it where "(((from, to), it), es) \<in> set (vvcHash lat)" by auto
    then show ?thesis using wf_vvcD[OF wf] e by blast
  qed
  have no_add: "?add t1 lat1 \<noteq> (r, lat')"
    using add_new_edge_grows[of "from" to item t1 q score ruleId treeChoice lat1 r lat'] i i1 by (auto simp: bits_grow_def)
  from rest have rest': "(case isoplanar t1 es lat1 of Inl e \<Rightarrow> (Inl e, lat1)
      | Inr None \<Rightarrow> ?add t1 lat1
      | Inr (Some edge) \<Rightarrow> bindE (merge_edge edge from t1 q score ruleId treeChoice) (\<lambda>(tags', needToAdd).
                if needToAdd then ?add tags' else ret edge) lat1) = (r, lat')"
    unfolding prog_at es_def[symmetric] lat1_def[symmetric] by (auto split: sum.splits option.splits)
  then obtain edge where iso: "isoplanar t1 es lat1 = Inr (Some edge)"
    and m: "bindE (merge_edge edge from t1 q score ruleId treeChoice) (\<lambda>(tags', needToAdd).
                if needToAdd then ?add tags' else ret edge) lat1 = (r, lat')"
    using no_add i i1 by (auto split: sum.splits option.splits)
  have join: "edge_joins lat from to edge" using es isoplanar_in[OF iso] by blast
  obtain r2 lat2 where m2: "merge_edge edge from t1 q score ruleId treeChoice lat1 = (r2, lat2)"
    by (cases "merge_edge edge from t1 q score ruleId treeChoice lat1")
  have lost2: "\<not> implicitOutEdges lat2 ! i"
  proof
    assume "implicitOutEdges lat2 ! i"
    moreover have "lat' = lat2 \<or> (\<exists>t. ?add t lat2 = (r, lat'))"
      using m m2 by (auto simp: bindE_def ret_def split: sum.splits prod.splits if_splits)
    moreover have "length (implicitOutEdges lat2) = length (implicitOutEdges lat)"
      using keepsD[OF keeps_merge_edge m2] i1 by (simp add: kept_but_def)
    ultimately show False using add_new_edge_grows[of "from" to item _ q score ruleId treeChoice lat2 r lat'] i
      by (auto simp: bits_grow_def)
  qed
  from merge_edge_lost[OF w1 m2, of i] lost2 i i1 obtain j where j: "edge = ImplicitEdge j" and fi: "from = int i"
    and r2: "r2 = Inr (if t1 = lat_symbolTag lat then t1 else createUnion (lat_symbolTag lat) t1, True)" by auto
  define t2 where "t2 = (if t1 = lat_symbolTag lat then t1 else createUnion (lat_symbolTag lat) t1)"
  have add: "?add t2 lat2 = (r, lat')" using m m2 r2 by (simp add: bindE_def t2_def)
  have st: "stable (\<lambda>lat. valid_vertex from lat \<and> valid_vertex to lat)" by (intro stable_intros)
  from specD[OF spec_merge_edge[OF st] w1 _ m2] i1 have w2: "lat_wf lat2" "lat_le lat1 lat2" by simp_all
  have v2: "valid_vertex from lat2" "valid_vertex to lat2" using valid_vertex_mono[OF w2(2)] i1 by simp_all
  have f2: "allText lat2 = allText lat" "lat_symbolTag lat2 = lat_symbolTag lat" using w2(2) i1 by (simp_all add: lat_le_def)
  have to: "to = from + int (symbolLength (allText lat) i)" "0 \<le> to" using join j fi by auto
  have "(\<exists>d. r = Inr (ExplicitEdge d) \<and> d < length (g_edges lat') \<and>
        isSubset (lat_symbolTag lat) (e_tags (g_edges lat' ! d))) \<or>
     (\<exists>e. r = Inl e) \<and> isSubset tags (lat_symbolTag lat)"
  proof (cases "t2 = lat_symbolTag lat")
    case False
    then obtain d where d: "r = Inr (ExplicitEdge d)"
      using add_new_edge_explicit[OF w2(1) v2(2), of t2 "from" item q score ruleId treeChoice] f2 add by auto
    have "edge_between from to" using ft by (auto simp: edge_between_def)
    from specD[OF spec_add_new_edge[OF st _ this] w2(1) _ add] v2 d have "has_tags (ExplicitEdge d) t2 lat'" by simp
    moreover have "isSubset (lat_symbolTag lat) t2" using False by (simp add: t2_def)
    ultimately show ?thesis using d isSubset_trans by (auto simp: has_tags_def)
  next
    case True
    then have "isSubset t1 (lat_symbolTag lat)" unfolding t2_def by (metis createUnion_subset(2) isSubset_refl)
    then have "isSubset tags (lat_symbolTag lat)" using isSubset_trans[OF t1] by blast
    moreover have "i < length (implicitOutEdges lat2)"
      using keepsD[OF keeps_merge_edge m2] i1 i by (simp add: kept_but_def)
    ultimately show ?thesis
      using add_new_edge_implicit[OF w2(1) fi _ to(2) _ _ lost2 add v2] True to f2 i(3) by simp
  qed
  then show ?thesis using fi to by simp
qed

section \<open>The implicit edge that arrives at a vertex\<close>

text \<open>Where the text before a vertex is valid UTF-8, the prior vertex is one symbol back.\<close>

lemma priorVertex_valid:
  assumes "is_valid (take (nat v) (allText lat))" "0 < v" "v \<le> int (length (allText lat))"
  shows "\<exists>p. priorVertex v lat = Inr (int p) \<and> p < length (allText lat) \<and>
    int p + int (symbolLength (allText lat) p) = v"
proof -
  from valid_chars[OF assms(1)] obtain cs where cs: "list_all is_char cs" "take (nat v) (allText lat) = concat cs" by blast
  have l: "length (concat cs) = nat v" using cs(2) assms(3) by (metis length_take min.absorb2 nat_le_iff)
  then have "cs \<noteq> []" using assms(2) by auto
  then obtain ds c where dc: "cs = ds @ [c]" using rev_exhaust by blast
  from cs(1) dc obtain cp where c: "utf8_append cp = Inr c" "is_char c" by (auto simp: is_char_def)
  define rest where "rest = drop (nat v) (allText lat)"
  have t: "allText lat = concat ds @ c @ rest"
    using append_take_drop_id[of "nat v" "allText lat"] cs(2) dc by (simp add: rest_def)
  have n: "nat v = length (concat ds) + length c" using l dc by simp
  have "priorVertex v lat = Inr (int (length (concat ds)))"
    using assms(2,3) n utf8_prior_char[OF c(1), of "concat ds" rest] c(1)
    by (simp add: priorVertex_def t lift_utf8_def sbind_def)
  moreover have "symbolLength (allText lat) (length (concat ds)) = length c"
    using symbolLength_char[OF c(2)] t by simp
  moreover have "c \<noteq> []" using is_char_shape[OF c(2)] by auto
  ultimately show ?thesis using n assms(2) t by (intro exI[of _ "length (concat ds)"]) auto
qed

lemma priorImplicit_found:
  "priorImplicit v lat = Inr i \<Longrightarrow> 0 \<le> i \<Longrightarrow> priorVertex v lat = Inr i \<and> bit_at (implicitOutEdges lat) i = Inr True"
  by (auto simp: priorImplicit_def sbind_Inr sbind_def split: sum.splits if_splits lattice_error.splits)

lemma in_implicit_edge:
  assumes wf: "lat_wf lat'" and e: "inEdges v m lat = (Inr it, lat')" "ImplicitEdge i \<in> set (ioi_edges it lat')"
  shows "i < length (allText lat') \<and> implicitOutEdges lat' ! i \<and>
    (mask_isAny m \<or> canBeAppliedToImplicitSymbol (tagManager lat') m) \<and>
    (is_valid (take (nat v) (allText lat')) \<longrightarrow> getEdgeTarget (ImplicitEdge i) lat' = Inr v)"
proof -
  have p: "priorImplicit v lat' = Inr (int i)" and m: "mask_isAny m \<or> canBeAppliedToImplicitSymbol (tagManager lat') m"
    using e
    by (auto simp: inEdges_def allInEdges_def prog_defs ioi_edges_def sbind_Inr ioi_def
      split: if_splits prod.splits sum.splits option.splits)
  from priorImplicit_found[OF p] have pv: "priorVertex v lat' = Inr (int i)" and b: "bit_at (implicitOutEdges lat') (int i) = Inr True" by simp_all
  have v: "0 < v" "v \<le> int (length (allText lat'))" using pv by (auto simp: priorVertex_def split: if_splits)
  have i: "i < length (allText lat') \<and> implicitOutEdges lat' ! i"
    using b wf by (auto simp: bit_at_def at_index_def lat_wf_def wf_bits_def split: if_splits)
  have "getEdgeTarget (ImplicitEdge i) lat' = Inr v" if "is_valid (take (nat v) (allText lat'))"
    using priorVertex_valid[OF that v] pv i by (auto simp: lat_symbolLength_def)
  then show ?thesis using i m by blast
qed

end
