(* ===== verification/Lattice_Theorems.thy ===== *)
theory Lattice_Theorems
  imports Lattice_Ops Lattice_Evolution "HOL-Library.Code_Target_Numeral"
begin

text \<open>
  What the lattice promises: every lattice that its operations can reach is well-formed, an
  addition returns an edge between its vertices with its tags and never takes anything away,
  the iterators return the edges they are asked for, and the symbols of a text are its
  characters.
\<close>

section \<open>Every reachable lattice is well-formed\<close>

lemma bits_resize_length [simp]: "length (bits_resize n bs) = n"
  by (simp add: bits_resize_def)

lemma wf_newLattice: "lat_wf newLattice"
proof -
  have e: "g_vertices newLattice = []" "g_edges newLattice = []" "allText newLattice = []"
    "vertices newLattice = []" "vvcHash newLattice = []" "implicitOutEdges newLattice = [False]"
    "length (hiddenImplicitOutEdges newLattice) = 1" "length (visibleImplicitOutEdges newLattice) = 1"
    by (simp_all add: newLattice_def resizeImplicitEdgesStructures_def bits_resize_def Let_def split_def)
  then show ?thesis by (simp add: wf_defs)
qed

lemma symbolLength_append: "i < length s \<Longrightarrow> symbolLength (s @ t) i = symbolLength s i"
  by (cases "drop i s") (simp_all add: symbolLength_def Let_def)

lemma appendString_fields [simp]:
  "allText (appendString s lat) = allText lat @ s" "g_edges (appendString s lat) = g_edges lat"
  "g_vertices (appendString s lat) = g_vertices lat" "vertices (appendString s lat) = vertices lat"
  "nLooseVertices (appendString s lat) = nLooseVertices lat" "vvcHash (appendString s lat) = vvcHash lat"
  "indexedTagMasks (appendString s lat) = indexedTagMasks lat" "tagManager (appendString s lat) = tagManager lat"
  "lat_symbolTag (appendString s lat) = lat_symbolTag lat" "symbolMask (appendString s lat) = symbolMask lat"
  by (auto simp: appendString_def resizeImplicitEdgesStructures_def Let_def)

lemma edge_joins_appendString: "edge_joins lat f t e \<Longrightarrow> edge_joins (appendString s lat) f t e"
  by (cases e) (auto simp: source_index_def target_index_def symbolLength_append)

lemma wf_appendString:
  assumes "lat_wf lat"
  shows "lat_wf (appendString s lat)"
proof -
  have "wf_bits (appendString s lat)" using assms
    by (auto simp: lat_wf_def wf_bits_def appendString_def resizeImplicitEdgesStructures_def Let_def bits_resize_def nth_append)
  moreover have "wf_vertices (appendString s lat)"
    using assms by (fastforce simp: lat_wf_def wf_vertices_def)
  moreover have "wf_edges (appendString s lat)" "wf_index (appendString s lat)"
    using assms by (simp_all add: lat_wf_def wf_edges_def wf_index_def source_index_def target_index_def)
  moreover have "wf_vvc (appendString s lat)"
    using assms edge_joins_appendString by (fastforce simp: lat_wf_def wf_vvc_def)
  ultimately show ?thesis by (simp add: lat_wf_def)
qed

text \<open>The ends of an edge are vertices of the lattice, but for the target of a character edge in a
  text that ends within a character.\<close>

lemma vertex_in_map:
  assumes "lat_wf lat" "v < length (g_vertices lat)"
  shows "map_of (vertices lat) (v_index (g_vertices lat ! v)) = Some v"
proof -
  from assms have d: "distinct (map fst (vertices lat))" and "v \<in> snd ` set (vertices lat)"
    by (auto simp: lat_wf_def wf_vertices_def)
  then obtain vd where m: "(vd, v) \<in> set (vertices lat)" by auto
  then have "v_index (g_vertices lat ! v) = vd" using assms(1) by (auto simp: lat_wf_def wf_vertices_def)
  then show ?thesis using map_of_is_SomeI[OF d m] by simp
qed

lemma joins_valid:
  assumes "lat_wf lat" "edge_joins lat f t e"
  shows "valid_vertex f lat" "isExplicit e \<Longrightarrow> valid_vertex t lat"
proof -
  have "valid_vertex f lat \<and> (isExplicit e \<longrightarrow> valid_vertex t lat)"
  proof (cases e)
    case (ExplicitEdge d)
    then have "e_source (g_edges lat ! d) < length (g_vertices lat)" "e_target (g_edges lat ! d) < length (g_vertices lat)"
      "source_index lat d = f" "target_index lat d = t"
      using assms by (auto simp: lat_wf_def wf_edges_def)
    then have "map_of (vertices lat) f = Some (e_source (g_edges lat ! d))" "map_of (vertices lat) t = Some (e_target (g_edges lat ! d))"
      using vertex_in_map[OF assms(1)] by (auto simp: source_index_def target_index_def)
    then show ?thesis using map_of_vertices[OF assms(1)] by (auto simp: valid_vertex_def)
  qed (use assms(2) in \<open>simp add: valid_vertex_def\<close>)
  then show "valid_vertex f lat" "isExplicit e \<Longrightarrow> valid_vertex t lat" by auto
qed

text \<open>An edge of the lattice whose ends are vertices of it.\<close>

definition valid_edge :: "EdgeDescriptor \<Rightarrow> Lattice \<Rightarrow> bool" where
  "valid_edge e lat \<longleftrightarrow> (\<exists>f t. edge_joins lat f t e \<and> valid_vertex t lat)"

lemma spec_addPartitionToEdge:
  assumes P: "stable P" and v: "\<And>lat. P lat \<Longrightarrow> edge_joins lat f t edge \<and> valid_vertex t lat"
  shows "spec P (addPartitionToEdge edge tags q score ruleId treeChoice)
    (\<lambda>e lat. edge_joins lat f t e \<and> has_tags e tags lat)"
  unfolding addPartitionToEdge_def
proof (rule spec_bindE[OF spec_getsE[where R = "\<lambda>_ _. True"] _ P], simp, goal_cases)
  case (1 plane)
  show ?case
  proof (rule spec_bindE[OF spec_getsE[where R = "\<lambda>s _. s = f"]], goal_cases)
    case (1 lat s)
    then show ?case using edge_joins_ends[of lat f t edge] v by simp
  next
    case (2 s)
    show ?case
    proof (rule spec_bindE[OF spec_getsE[where R = "\<lambda>s _. s = t"]], goal_cases)
      case (1 lat s)
      then show ?case using edge_joins_ends[of lat f t edge] v by simp
    next
      case (2 u)
      have "spec P (addEdge f t item (createUnion tags plane) q score ruleId treeChoice)
        (\<lambda>e lat. edge_joins lat f t e \<and> has_tags e tags lat)" for item
        by (rule spec_conseq[OF spec_addEdge[where P = "\<lambda>lat. valid_vertex f lat \<and> valid_vertex t lat"]])
          (use stable_intros v joins_valid(1)[of _ f t edge] in \<open>auto simp: has_tags_def isSubset_iff split: EdgeDescriptor.splits\<close>)
      then have "spec (\<lambda>lat. P lat \<and> s = f \<and> u = t) (addEdge s u item (createUnion tags plane) q score ruleId treeChoice)
        (\<lambda>e lat. edge_joins lat f t e \<and> has_tags e tags lat)" for item
        by (cases "s = f \<and> u = t") (auto elim!: spec_conseq, auto simp: spec_def)
      then show ?case by (intro spec_bindE[OF spec_getsE[where R = "\<lambda>_ _. True"]]) (auto simp: P stable_intros)
    qed (simp add: P stable_intros)
  qed (simp add: P stable_intros)
qed

text \<open>One operation on a lattice, with its arguments and whatever its outcome; \<open>on_tags\<close> runs any program of
  the tag manager.\<close>

inductive lattice_step :: "Lattice \<Rightarrow> Lattice \<Rightarrow> bool" where
  step_append: "lattice_step lat (appendString s lat)"
| step_loose: "addLooseVertex lat = (r, lat') \<Longrightarrow> lattice_step lat lat'"
| step_add: "valid_vertex f lat \<Longrightarrow> valid_vertex t lat \<Longrightarrow>
    addEdge f t item tags q score ruleId treeChoice lat = (r, lat') \<Longrightarrow> lattice_step lat lat'"
| step_partition: "valid_edge e lat \<Longrightarrow>
    addPartitionToEdge e tags q score ruleId treeChoice lat = (r, lat') \<Longrightarrow> lattice_step lat lat'"
| step_discard: "valid_edge e lat \<Longrightarrow> discard e lat = (u, lat') \<Longrightarrow> lattice_step lat lat'"
| step_out: "valid_vertex v lat \<Longrightarrow> outEdges v m lat = (i, lat') \<Longrightarrow> lattice_step lat lat'"
| step_in: "valid_vertex v lat \<Longrightarrow> inEdges v m lat = (i, lat') \<Longrightarrow> lattice_step lat lat'"
| step_tags: "on_tags (p :: unit tags_prog) lat = (x, lat') \<Longrightarrow> lattice_step lat lat'"

inductive lattice_reachable :: "Lattice \<Rightarrow> bool" where
  reach_new: "lattice_reachable newLattice"
| reach_step: "lattice_reachable lat \<Longrightarrow> lattice_step lat lat' \<Longrightarrow> lattice_reachable lat'"

lemma spec_discard:
  assumes P: "stable P" and v: "\<And>lat. P lat \<Longrightarrow> edge_joins lat f t edge \<and> valid_vertex t lat"
  shows "spec P (discard edge) (\<lambda>_ _. True)"
  unfolding discard_def
  by (rule spec_bindE[OF spec_gets[where R = "\<lambda>_ _. True"] _ P], simp,
      rule spec_bindE'[where R = "\<lambda>_ _. True"],
      rule spec_conseq[OF spec_addPartitionToEdge[OF P v]])
    (auto intro: spec_ret)

lemma wf_on_tags:
  assumes "lat_wf lat" "on_tags p lat = (x, lat')"
  shows "lat_wf lat'"
proof -
  from assms(2) obtain mgr where l: "lat' = lat\<lparr>tagManager := mgr\<rparr>"
    by (auto simp: on_tags_def split: prod.splits)
  have "wf_vvc lat'" using assms(1) wf_vvc_cong[of lat' lat] by (simp add: l lat_wf_def)
  moreover have "wf_bits lat'" using assms(1) by (simp add: l lat_wf_def wf_bits_def)
  ultimately show ?thesis by (intro wf_cong[OF assms(1)]) (simp_all add: l)
qed

lemma stable_ends: "stable (\<lambda>lat. edge_joins lat f t e \<and> valid_vertex t lat)"
  "stable (\<lambda>lat. valid_vertex f lat \<and> valid_vertex t lat)"
  by (intro stable_intros)+

lemma step_wf:
  assumes "lattice_step lat lat'" "lat_wf lat"
  shows "lat_wf lat'"
  using assms
proof (induction rule: lattice_step.induct)
  case (step_append lat s)
  then show ?case by (rule wf_appendString)
next
  case (step_loose lat r lat')
  then show ?case using specD[OF spec_addLooseVertex[where P = "\<lambda>_. True"]] by blast
next
  case (step_add f lat t item tags q score ruleId treeChoice r lat')
  then show ?case using specD[OF spec_addEdge[OF stable_ends(2)]] by blast
next
  case (step_partition e lat tags q score ruleId treeChoice r lat')
  then obtain f t where ft: "edge_joins lat f t e \<and> valid_vertex t lat" by (auto simp: valid_edge_def)
  from specD[OF spec_addPartitionToEdge[OF stable_ends(1)] _ ft] step_partition show ?case by blast
next
  case (step_discard e lat u lat')
  then obtain f t where ft: "edge_joins lat f t e \<and> valid_vertex t lat" by (auto simp: valid_edge_def)
  from specD[OF spec_discard[OF stable_ends(1)] _ ft] step_discard show ?case by blast
next
  case (step_out v lat m i lat')
  then show ?case using specD[OF spec_outEdges[where P = "valid_vertex v"], of v lat]
    by (auto simp: stable_intros)
next
  case (step_in v lat m i lat')
  then show ?case using specD[OF spec_inEdges[where P = "valid_vertex v"], of v lat]
    by (auto simp: stable_intros)
next
  case (step_tags p lat x lat')
  then show ?case using wf_on_tags by blast
qed

text \<open>C1: Every lattice that construction and any sequence of operations, failing ones included,
  can produce is well-formed: the vertex map and the Boost vertices correspond, the bit vectors
  cover the text, edges join known vertices and lead forward in the text, index lists hold only
  edges of their vertex that match their mask, and hash entries hold only edges between the
  vertices of their key.\<close>

theorem reachable_lattice_wf:
  assumes "lattice_reachable lat"
  shows "wf_vertices lat \<and> wf_bits lat \<and> wf_edges lat \<and> wf_index lat \<and> wf_vvc lat"
proof -
  have "lat_wf lat" using assms by induction (auto intro: wf_newLattice step_wf)
  then show ?thesis by (simp add: lat_wf_def)
qed

text \<open>A lattice over \<open>ab\<close> with one edge over the whole text.\<close>

definition sample_lattice :: Lattice where
  "sample_lattice = snd (addPlainEdge 0 2 (new_item ''t'' frag_empty) 4 (appendString ''ab'' newLattice))"

lemma sample_reachable: "lattice_reachable sample_lattice"
proof -
  have v: "valid_vertex 0 (appendString ''ab'' newLattice)" "valid_vertex 2 (appendString ''ab'' newLattice)"
    by (auto simp: valid_vertex_def)
  have "lattice_reachable (appendString ''ab'' newLattice)" by (rule reach_step[OF reach_new step_append])
  moreover have "lattice_step (appendString ''ab'' newLattice) sample_lattice"
    unfolding sample_lattice_def addPlainEdge_def by (rule step_add[OF v]) (rule prod.collapse[symmetric])
  ultimately show ?thesis by (rule reach_step)
qed

theorem reachable_lattice_wf_witness:
  "wf_vertices sample_lattice \<and> wf_bits sample_lattice \<and> wf_edges sample_lattice \<and>
   wf_index sample_lattice \<and> wf_vvc sample_lattice \<and>
   length (g_vertices sample_lattice) = 2 \<and> length (g_edges sample_lattice) = 1"
proof -
  have "length (g_vertices sample_lattice) = 2 \<and> length (g_edges sample_lattice) = 1" by code_simp
  with reachable_lattice_wf[OF sample_reachable] show ?thesis by simp
qed

section \<open>Additions\<close>

text \<open>C3: An addition between vertices of a well-formed lattice that returns an edge returns one
  from the first to the second vertex whose tags include the given ones, and whatever its
  outcome the lattice is well-formed and has only grown: no edge of the graph, vertex, tag,
  partition or mask is lost, no score drops, no symbol that was hidden or visible ceases to be,
  every entry of the hash is still there and begins as it did, and every implicit edge but the one
  that leaves the first vertex is as it was. That one is lost only when it is the character
  between the two vertices and the addition returns an edge of the graph in its place, whose tags
  include those of symbols, or, for tags that are all tags of symbols, when the addition fails.\<close>

theorem addEdge_grows:
  assumes "lat_wf lat" "valid_vertex from lat" "valid_vertex to lat"
    and "addEdge from to item tags q score ruleId treeChoice lat = (r, lat')"
  shows "lat_wf lat' \<and> lat_le lat lat' \<and> kept_but from lat lat' \<and>
    (\<forall>e. r = Inr e \<longrightarrow> getEdgeSource e lat' = Inr from \<and> getEdgeTarget e lat' = Inr to \<and>
       (\<exists>t. getEdgeLayerTags e lat' = Inr t \<and> isSubset tags t)) \<and>
    (\<forall>i < length (implicitOutEdges lat). implicitOutEdges lat ! i \<longrightarrow> \<not> implicitOutEdges lat' ! i \<longrightarrow>
       from = int i \<and> to = from + int (symbolLength (allText lat) i) \<and>
       ((\<exists>d. r = Inr (ExplicitEdge d) \<and> d < length (g_edges lat') \<and>
           isSubset (lat_symbolTag lat) (e_tags (g_edges lat' ! d))) \<or>
        (\<exists>e. r = Inl e) \<and> isSubset tags (lat_symbolTag lat)))"
proof -
  have v: "valid_vertex from lat \<and> valid_vertex to lat" using assms(2,3) by simp
  have w: "lat_wf lat'" "lat_le lat lat'"
    and e: "\<And>e. r = Inr e \<Longrightarrow> edge_joins lat' from to e \<and> has_tags e tags lat'"
    using specD[OF spec_addEdge[OF stable_ends(2)] assms(1) v assms(4)] by simp_all
  have t: "\<exists>t. getEdgeLayerTags e lat' = Inr t \<and> isSubset tags t" if "has_tags e tags lat'" for e
    using that by (cases e) (simp_all add: has_tags_def the_edge_def at_index_def)
  have ends: "r = Inr e \<Longrightarrow> getEdgeSource e lat' = Inr from \<and> getEdgeTarget e lat' = Inr to \<and>
       (\<exists>t. getEdgeLayerTags e lat' = Inr t \<and> isSubset tags t)" for e
    using e[of e] t[of e] edge_joins_ends[OF w(1)] by blast
  show ?thesis
    by (intro conjI allI impI w keepsD[OF keeps_addEdge assms(4)]) (use ends addEdge_lost[OF assms] in simp_all)
qed

lemma sample_base: "lat_wf (appendString ''ab'' newLattice)" "valid_vertex 0 (appendString ''ab'' newLattice)"
  "valid_vertex 2 (appendString ''ab'' newLattice)"
  by (simp_all add: wf_appendString wf_newLattice valid_vertex_def)

theorem addEdge_grows_witness:
  "\<exists>lat lat' e. addEdge 0 2 (new_item ''t'' frag_empty) 4 emptySequence 0 (-1) (-1) lat = (Inr e, lat') \<and>
     lat_wf lat' \<and> lat_le lat lat' \<and> getEdgeSource e lat' = Inr 0 \<and> getEdgeTarget e lat' = Inr 2"
proof -
  let ?lat = "appendString ''ab'' newLattice"
  let ?p = "addEdge 0 2 (new_item ''t'' frag_empty) 4 emptySequence 0 (-1) (-1) ?lat"
  have r: "fst ?p = Inr (ExplicitEdge 0)" by code_simp
  show ?thesis
    using addEdge_grows[OF sample_base, of _ _ _ _ _ _ "fst ?p" "snd ?p"] r
    by (metis prod.collapse)
qed

text \<open>An edge from a vertex to itself and an edge that leads backwards in the text are refused,
  whatever else they are, and the lattice is left as it was.\<close>

theorem addEdge_refuses:
  assumes "from = to \<or> 0 \<le> to \<and> to < from"
  shows "\<exists>e. addEdge from to item tags q score ruleId treeChoice lat = (Inl e, lat) \<and>
    (tags_isEmpty (onlyPlaneTags (tagManager lat) tags) \<and> links q \<noteq> [] \<or>
       e = (if from = to then LoopEdgeException else ReversedEdgeException))"
  using assms
  by (cases "gatherPlaneTags q lat")
    (auto simp: addEdge_def prog_defs gatherPlaneTags_def split: sum.splits)

theorem addEdge_refuses_witness:
  "\<exists>e. addEdge 2 1 (new_item ''t'' frag_empty) 4 emptySequence 0 (-1) (-1) newLattice = (Inl e, newLattice) \<and>
    (tags_isEmpty (onlyPlaneTags (tagManager newLattice) 4) \<and> links emptySequence \<noteq> [] \<or>
       e = (if (2 :: int) = 1 then LoopEdgeException else ReversedEdgeException))"
  by (rule addEdge_refuses) simp

section \<open>Iteration over the edges of a vertex\<close>

text \<open>C35: The out-edges for a mask that the code lists leave the vertex they were asked for and
  match the mask (an implicit edge stands for the tag of symbols). The in-edges that are in the
  graph arrive at it and match; an implicit in-edge is one the lattice has and matches, and it
  arrives at the vertex when the text before the vertex is valid UTF-8 (the code finds it by
  going back one code point, which in other text can be another vertex than the one the length
  announced by its first octet leads back from).\<close>

theorem edges_of_vertex_match:
  assumes "lat_wf lat" "valid_vertex v lat"
  shows "(\<forall>it lat'. outEdges v m lat = (Inr it, lat') \<longrightarrow> (\<forall>e \<in> set (ioi_edges it lat').
      getEdgeSource e lat' = Inr v \<and>
      (mask_isAny m \<or> (case e of
         ExplicitEdge d \<Rightarrow> matches (e_tags (g_edges lat' ! d)) m
       | ImplicitEdge _ \<Rightarrow> canBeAppliedToImplicitSymbol (tagManager lat') m)))) \<and>
    (\<forall>it lat' d. inEdges v m lat = (Inr it, lat') \<longrightarrow> ExplicitEdge d \<in> set (ioi_edges it lat') \<longrightarrow>
      getEdgeTarget (ExplicitEdge d) lat' = Inr v \<and> (mask_isAny m \<or> matches (e_tags (g_edges lat' ! d)) m)) \<and>
    (\<forall>it lat' i. inEdges v m lat = (Inr it, lat') \<longrightarrow> ImplicitEdge i \<in> set (ioi_edges it lat') \<longrightarrow>
      i < length (allText lat') \<and> implicitOutEdges lat' ! i \<and>
      (mask_isAny m \<or> canBeAppliedToImplicitSymbol (tagManager lat') m) \<and>
      (is_valid (take (nat v) (allText lat)) \<longrightarrow> getEdgeTarget (ImplicitEdge i) lat' = Inr v))"
    (is "?out \<and> ?in \<and> ?impl")
proof (intro conjI)
  note st = stable_intros(3)[of v]
  have "out_sound v m it lat'" if "outEdges v m lat = (Inr it, lat')" for it lat'
    using specD[OF spec_outEdges[OF st] assms that] by simp
  then show ?out unfolding out_sound_def by (fastforce split: EdgeDescriptor.splits)
  have i: "in_sound v m it lat' \<and> lat_wf lat' \<and> allText lat' = allText lat" if "inEdges v m lat = (Inr it, lat')" for it lat'
    using specD[OF spec_inEdges[OF st] assms that] by (simp add: lat_le_def)
  then show ?in unfolding in_sound_def by blast
  show ?impl using i in_implicit_edge by metis
qed

lemma sample_wf: "lat_wf sample_lattice" "valid_vertex 0 sample_lattice"
proof -
  show wf: "lat_wf sample_lattice"
    using sample_reachable step_wf by (induction rule: lattice_reachable.induct) (auto intro: wf_newLattice)
  have "allText sample_lattice = ''ab''" by code_simp
  then show "valid_vertex 0 sample_lattice" by (simp add: valid_vertex_def)
qed

theorem edges_of_vertex_match_witness:
  "\<exists>it lat'. outEdges 0 (mask_of_tags 4) sample_lattice = (Inr it, lat') \<and> ioi_edges it lat' = [ExplicitEdge 0] \<and>
     getEdgeSource (ExplicitEdge 0) lat' = Inr 0 \<and> matches (e_tags (g_edges lat' ! 0)) (mask_of_tags 4)"
proof -
  have "case outEdges 0 (mask_of_tags 4) sample_lattice of (r, lat') \<Rightarrow>
      (case r of Inl _ \<Rightarrow> False | Inr it \<Rightarrow> ioi_edges it lat' = [ExplicitEdge 0])" by code_simp
  then obtain it lat' where o: "outEdges 0 (mask_of_tags 4) sample_lattice = (Inr it, lat')"
    "ioi_edges it lat' = [ExplicitEdge 0]" by (auto split: prod.splits sum.splits)
  moreover have "\<not> mask_isAny (mask_of_tags 4)" by code_simp
  ultimately show ?thesis using edges_of_vertex_match[OF sample_wf, of "mask_of_tags 4"] by fastforce
qed

text \<open>C25: Without a mask, the out-edges of a vertex of the text are exactly the edges of the lattice
  that leave it: those of the graph in the order of their addition, after the implicit one.\<close>

theorem all_out_edges_complete:
  assumes "lat_wf lat" "0 \<le> v" "v \<le> int (length (allText lat))"
  shows "\<exists>it. allOutEdges v lat = (Inr it, lat) \<and>
    ioi_edges it lat = (if implicitOutEdges lat ! nat v then [ImplicitEdge (nat v)] else []) @
      map ExplicitEdge (filter (\<lambda>d. source_index lat d = v) [0..<length (g_edges lat)])"
proof -
  have bit: "bit_at (implicitOutEdges lat) v = Inr (implicitOutEdges lat ! nat v)"
    using assms by (simp add: bit_at_def at_index_def lat_wf_def wf_bits_def)
  show ?thesis
  proof (cases "map_of (vertices lat) v")
    case None
    have "source_index lat d \<noteq> v" if "d < length (g_edges lat)" for d
    proof -
      have "e_source (g_edges lat ! d) < length (g_vertices lat)" using assms(1) that by (simp add: lat_wf_def wf_edges_def)
      from vertex_in_map[OF assms(1) this] None show ?thesis by (auto simp: source_index_def)
    qed
    then have "filter (\<lambda>d. source_index lat d = v) [0..<length (g_edges lat)] = []" by simp
    then show ?thesis using bit None assms(2)
      by (auto simp: allOutEdges_def isLooseVertex_def getsE_def ioi_edges_def ioi_def)
  next
    case (Some u)
    have "(e_source (g_edges lat ! d) = u) = (source_index lat d = v)" if "d < length (g_edges lat)" for d
    proof
      have l: "e_source (g_edges lat ! d) < length (g_vertices lat)" using assms(1) that by (simp add: lat_wf_def wf_edges_def)
      assume "source_index lat d = v"
      with vertex_in_map[OF assms(1) l] Some show "e_source (g_edges lat ! d) = u" by (simp add: source_index_def)
    qed (use map_of_vertices[OF assms(1) Some] in \<open>simp add: source_index_def\<close>)
    then have "out_edges u lat = filter (\<lambda>d. source_index lat d = v) [0..<length (g_edges lat)]"
      unfolding out_edges_def by (intro filter_cong) auto
    then show ?thesis using bit Some assms(2)
      by (auto simp: allOutEdges_def isLooseVertex_def getsE_def ioi_edges_def ioi_def)
  qed
qed

theorem all_out_edges_complete_witness:
  "\<exists>it. allOutEdges 0 sample_lattice = (Inr it, sample_lattice) \<and>
    ioi_edges it sample_lattice = (if implicitOutEdges sample_lattice ! nat 0 then [ImplicitEdge (nat 0)] else []) @
      map ExplicitEdge (filter (\<lambda>d. source_index sample_lattice d = 0) [0..<length (g_edges sample_lattice)])"
  by (rule all_out_edges_complete[OF sample_wf(1)]) simp_all

section \<open>Paths\<close>

text \<open>Asking for edges changes index lists only.\<close>

lemma addTagMaskIndex_frame:
  "addTagMaskIndex m lat = (r, lat') \<Longrightarrow> nLooseVertices lat' = nLooseVertices lat \<and> g_edges lat' = g_edges lat"
proof -
  have "nLooseVertices (fold (\<lambda>(_, v). index_vertex m v) vs lat) = nLooseVertices lat \<and>
      g_edges (fold (\<lambda>(_, v). index_vertex m v) vs lat) = g_edges lat" for vs :: "(int \<times> nat) list"
    by (induction vs arbitrary: lat) (auto simp: index_vertex_def Let_def)
  then show "addTagMaskIndex m lat = (r, lat') \<Longrightarrow> ?thesis"
    by (auto simp: addTagMaskIndex_def Let_def split: option.splits)
qed

lemma outEdges_frame:
  "outEdges v m lat = (r, lat') \<Longrightarrow> nLooseVertices lat' = nLooseVertices lat \<and> g_edges lat' = g_edges lat"
  by (auto simp: outEdges_def allOutEdges_def prog_defs vertex_ref_def
    dest!: addTagMaskIndex_frame split: if_splits prod.splits sum.splits option.splits)

lemma outEdges_total:
  assumes "lat_wf lat" "0 \<le> v" "v \<le> int (length (allText lat))"
  shows "\<exists>it lat'. outEdges v m lat = (Inr it, lat')"
proof (cases "mask_isAny m")
  case True
  have "bit_at (implicitOutEdges lat) v = Inr (implicitOutEdges lat ! nat v)"
    using assms by (simp add: bit_at_def at_index_def lat_wf_def wf_bits_def)
  with True assms(2) show ?thesis by (simp add: outEdges_def allOutEdges_def isLooseVertex_def getsE_def Let_def)
next
  case False
  have tot: "\<exists>ix. fst (addTagMaskIndex m lat) = Inr ix"
    by (cases "find_mask m (indexedTagMasks lat)") (simp_all add: addTagMaskIndex_def Let_def)
  then obtain ix lat1 where a: "addTagMaskIndex m lat = (Inr ix, lat1)" by (metis prod.collapse)
  have w: "lat_wf lat1" "lat_le lat lat1" "ix < length (indexedTagMasks lat1)"
    using specD[OF spec_addTagMaskIndex[of "\<lambda>_. True"] assms(1) _ a] by auto
  have bit: "bit_at (implicitOutEdges lat1) v = Inr (implicitOutEdges lat1 ! nat v)"
    using assms(2,3) w by (simp add: bit_at_def at_index_def lat_wf_def wf_bits_def lat_le_def)
  have r: "\<exists>r. (case map_of (vertices lat1) v of None \<Rightarrow> Inr NoEdges
      | Some u \<Rightarrow> indexed_range IndexedOut outEdgesIndex u ix lat1) = Inr r"
    using indexed_range_out(1)[OF w(1) _ w(3)] by (cases "map_of (vertices lat1) v") auto
  show ?thesis using False a bit r assms(2)
    by (auto simp: outEdges_def bindE_def isLooseVertex_def getsE_def)
qed

text \<open>The implicit edge an iterator starts with is there.\<close>

lemma out_implicit_bit:
  assumes "lat_wf lat'" "outEdges v m lat = (Inr it, lat')" "ImplicitEdge i \<in> set (ioi_edges it lat')"
  shows "int i = v \<and> i < length (allText lat')"
proof -
  have "int i = v \<and> bit_at (implicitOutEdges lat') v = Inr True"
    using assms(2,3)
    by (auto simp: outEdges_def allOutEdges_def prog_defs set_ioi_edges sbind_Inr Let_def isLooseVertex_def bit_at_def
      split: if_splits prod.splits sum.splits option.splits)
  with assms(1) show ?thesis by (auto simp: bit_at_def at_index_def lat_wf_def wf_bits_def split: if_splits)
qed

text \<open>With no loose vertices, an out-edge leads to a greater vertex of the text, and the builder
  takes it.\<close>

lemma out_edge_forward:
  assumes wf: "lat_wf lat" "lat_wf lat'" and nl: "nLooseVertices lat' = 0" and valid: "is_valid (allText lat')"
    and v: "valid_vertex v lat"
    and o: "outEdges v m lat = (Inr it, lat')" and e: "e \<in> set (ioi_edges it lat')"
  shows "\<exists>t. getEdgeTarget e lat' = Inr t \<and> v < t \<and> t \<le> int (length (allText lat'))"
    and "\<exists>b'. builder_add e z b lat' = Inr b'"
proof -
  have src: "getEdgeSource e lat' = Inr v"
    and ex: "e = ExplicitEdge d \<Longrightarrow> mask_isAny m \<or> d < length (g_edges lat')" for d
    using specD[OF spec_outEdges[OF stable_intros(3)] wf(1) v o] e by (auto simp: out_sound_def)
  have "(\<exists>t. getEdgeTarget e lat' = Inr t \<and> v < t \<and> t \<le> int (length (allText lat'))) \<and>
      (\<exists>b'. builder_add e z b lat' = Inr b')"
  proof (cases e)
    case (ImplicitEdge i)
    from out_implicit_bit[OF wf(2) o] e ImplicitEdge have i: "int i = v" "i < length (allText lat')" by auto
    have l: "length (hiddenImplicitOutEdges lat') = length (allText lat') + 1"
      "length (visibleImplicitOutEdges lat') = length (allText lat') + 1"
      using wf(2) by (simp_all add: lat_wf_def wf_bits_def)
    have n: "lat_symbolLength v lat' = Inr (symbolLength (allText lat') i)" using i by (auto simp: lat_symbolLength_def)
    have "\<exists>t. getEdgeTarget e lat' = Inr t \<and> v < t \<and> t \<le> int (length (allText lat'))"
      using ImplicitEdge n i valid_symbolLength[OF valid i(2)] symbolLength_pos[of "allText lat'" i] by auto
    moreover have "\<exists>b'. builder_add e z b lat' = Inr b'"
      using ImplicitEdge i l n
      by (auto simp: builder_add_def at_index_def getEdgeBeginIndex_def getEdgeEndIndex_def isLooseVertex_def)
    ultimately show ?thesis by simp
  next
    case (ExplicitEdge d)
    from src ExplicitEdge have d: "d < length (g_edges lat')"
      by (auto simp: the_edge_def at_index_def sbind_Inr split: if_splits)
    have j: "edge_joins lat' (source_index lat' d) (target_index lat' d) (ExplicitEdge d)" using d by simp
    have "0 \<le> x \<and> x \<le> int (length (allText lat'))" if "valid_vertex x lat'" for x
      using that nl map_of_vertices[OF wf(2), of x] by (auto simp: valid_vertex_def split: if_splits)
    then have r: "0 \<le> source_index lat' d" "0 \<le> target_index lat' d"
      "target_index lat' d \<le> int (length (allText lat'))"
      using joins_valid[OF wf(2) j] by auto
    then have "source_index lat' d < target_index lat' d" using wf(2) d by (simp add: lat_wf_def wf_edges_def)
    moreover have "source_index lat' d = v" using src ExplicitEdge getEdgeSource_explicit[OF wf(2) d] by simp
    ultimately show ?thesis using ExplicitEdge r(3) getEdgeTarget_explicit[OF wf(2) d] by (simp add: builder_add_def)
  qed
  then show "\<exists>t. getEdgeTarget e lat' = Inr t \<and> v < t \<and> t \<le> int (length (allText lat'))"
    and "\<exists>b'. builder_add e z b lat' = Inr b'" by simp_all
qed

lemma path_loop_total:
  assumes "lat_wf lat" "nLooseVertices lat = 0" "is_valid (allText lat)"
    and "0 \<le> v" "v \<le> int (length (allText lat))" "nat (int (length (allText lat)) - v) < fuel"
  shows "\<exists>q w lat'. path_loop fuel b v m lat = (Inr (q, w), lat') \<and> v \<le> w \<and> w \<le> int (length (allText lat)) \<and>
    lat_wf lat' \<and> lat_le lat lat' \<and> (\<exists>l it. outEdges w m l = (Inr it, lat') \<and> ioi_edges it lat' = [])"
  using assms
proof (induction fuel b v m arbitrary: lat rule: path_loop.induct)
  case (2 fuel b v m)
  note p = "2.prems"
  have val: "valid_vertex v lat" using p(4,5) by (simp add: valid_vertex_def)
  from outEdges_total[OF p(1,4,5), of m] obtain it lat1 where o: "outEdges v m lat = (Inr it, lat1)" by auto
  from specD[OF spec_outEdges[OF stable_intros(3)] p(1) val o] have w: "lat_wf lat1" "lat_le lat lat1" by auto
  have nl: "nLooseVertices lat1 = 0" "allText lat1 = allText lat" using outEdges_frame[OF o] p(2) w by (simp_all add: lat_le_def)
  show ?case
  proof (cases "ioi_edges it lat1 = []")
    case True
    then show ?thesis using o w p(4,5) by (auto simp: bindE_def gets_def ret_def)
  next
    case False
    let ?e = "last (ioi_edges it lat1)"
    have val1: "is_valid (allText lat1)" using nl p(3) by simp
    note f = out_edge_forward[OF p(1) w(1) nl(1) val1 val o, of ?e, OF last_in_set[OF False]]
    from f(1) obtain t where t: "getEdgeTarget ?e lat1 = Inr t" "v < t" "t \<le> int (length (allText lat1))" by blast
    from f(2)[of NULL_ZVALUE b] obtain b' where b: "builder_add ?e NULL_ZVALUE b lat1 = Inr b'" by blast
    have "nat (int (length (allText lat1)) - t) < fuel" "0 \<le> t" using t p(4,6) nl by auto
    have g: "gets (ioi_edges it) lat1 = (Inr (ioi_edges it lat1), lat1)"
      "getsE (builder_add ?e NULL_ZVALUE b) lat1 = (Inr b', lat1)" "getsE (getEdgeTarget ?e) lat1 = (Inr t, lat1)"
      using t b by (simp_all add: gets_def getsE_def)
    from "2.IH"[OF o g(1) False g(2,3) w(1) nl(1) val1 \<open>0 \<le> t\<close> t(3) \<open>nat _ < fuel\<close>]
    obtain q u lat' where r: "path_loop fuel b' t m lat1 = (Inr (q, u), lat')" "t \<le> u" "u \<le> int (length (allText lat1))"
      "lat_wf lat'" "lat_le lat1 lat'" "\<exists>l it. outEdges u m l = (Inr it, lat') \<and> ioi_edges it lat' = []" by blast
    then have "path_loop (Suc fuel) b v m lat = (Inr (q, u), lat')" using o g(2,3) False by (simp add: bindE_def gets_def)
    with r t nl lat_le_trans[OF w(2) r(5)] show ?thesis by (intro exI[of _ q] exI[of _ u] exI[of _ lat']) auto
  qed
qed simp

text \<open>C22: In a well-formed lattice without loose vertices whose text is valid UTF-8, the search for a
  path from a vertex ends, without an error and after at most as many steps as there are bytes
  ahead, in a vertex that has no more edges for the mask.\<close>

theorem getPath_total:
  assumes "lat_wf lat" "nLooseVertices lat = 0" "is_valid (allText lat)"
    and "0 \<le> v" "v \<le> int (length (allText lat))" "nat (int (length (allText lat)) - v) < fuel"
  shows "\<exists>q w lat'. getPath fuel v m lat = (Inr (q, w), lat') \<and> v \<le> w \<and> w \<le> int (length (allText lat)) \<and>
    (\<exists>l it. outEdges w m l = (Inr it, lat') \<and> ioi_edges it lat' = [])"
  using path_loop_total[OF assms] unfolding getPath_def by blast

theorem getPath_total_witness:
  "\<exists>q w lat'. getPath 3 0 (mask_of_bool True) sample_lattice = (Inr (q, w), lat') \<and>
    0 \<le> w \<and> w \<le> int (length (allText sample_lattice)) \<and>
    (\<exists>l it. outEdges w (mask_of_bool True) l = (Inr it, lat') \<and> ioi_edges it lat' = [])"
proof (rule getPath_total[OF sample_wf(1)])
  show "nLooseVertices sample_lattice = 0" "is_valid (allText sample_lattice)"
    "nat (int (length (allText sample_lattice)) - 0) < 3" by code_simp+
qed simp_all

section \<open>The text of consecutive edges\<close>

text \<open>Edges each of which starts where the one before it ends, all between vertices of the text.\<close>

fun consecutive :: "Lattice \<Rightarrow> nat \<Rightarrow> EdgeDescriptor list \<Rightarrow> nat \<Rightarrow> bool" where
  "consecutive lat v [] w \<longleftrightarrow> v = w"
| "consecutive lat v (e # es) w \<longleftrightarrow>
     (\<exists>u. edge_joins lat (int v) (int u) e \<and> v < u \<and> u \<le> length (allText lat) \<and> consecutive lat u es w)"

lemma edge_frag:
  assumes "lat_wf lat" "edge_joins lat (int v) (int u) e" "v < u" "u \<le> length (allText lat)"
    and n: "length (allText lat) < npos"
  shows "getEdgeTextAsStringFrag e lat = Inr (frag_of_range (allText lat) v (u - v))"
proof -
  from edge_joins_ends[OF assms(1,2)] have st: "getEdgeSource e lat = Inr (int v)" "getEdgeTarget e lat = Inr (int u)" by auto
  have "getEdgeLength e lat = Inr (int u - int v)"
  proof (cases e)
    case (ExplicitEdge d)
    then show ?thesis using st assms(3) by (simp add: isLooseVertex_def)
  next
    case (ImplicitEdge i)
    then show ?thesis using assms(2) by (auto simp: lat_symbolLength_def)
  qed
  moreover have "to_size (int v) = v" "to_size (int u - int v) = u - v"
    using assms(3,4) n by (simp_all add: to_size_def npos_def)
  ultimately show ?thesis using st assms(3)
    by (simp add: getEdgeTextAsStringFrag_def getEdgeBeginIndex_def isLooseVertex_def)
qed

text \<open>A fragment that names the range from \<open>b\<close> to \<open>v\<close> of the text.\<close>

definition ranges :: "Lattice \<Rightarrow> nat \<Rightarrow> nat \<Rightarrow> StringFrag \<Rightarrow> bool" where
  "ranges lat b v f \<longleftrightarrow> frag_ok f \<and> src f = allText lat \<and> frag_begin f = b \<and> frag_len f = v - b \<and> b < v \<and>
     v \<le> length (allText lat)"

lemma append_frags_ranges:
  assumes "lat_wf lat" "length (allText lat) < npos" "ranges lat b v f" "consecutive lat v es w"
  shows "\<exists>g. append_frags f es lat = Inr g \<and> ranges lat b w g"
  using assms(3,4)
proof (induction es arbitrary: f v)
  case (Cons e es)
  from Cons.prems(2) obtain u where u: "edge_joins lat (int v) (int u) e" "v < u" "u \<le> length (allText lat)"
    and c: "consecutive lat u es w" by auto
  let ?g = "frag_of_range (allText lat) v (u - v)"
  have st: "\<not> frag_stored f" "\<not> frag_stored ?g"
    using Cons.prems(1) u assms(2) by (auto simp: ranges_def frag_stored_def frag_of_range_def)
  have "frag_ok ?g" using u assms(2) st(2) by (simp add: frag_ok_def frag_of_range_def)
  moreover have "frag_adjacent f ?g" using st Cons.prems(1) by (simp add: frag_adjacent_def ranges_def frag_of_range_def)
  ultimately obtain h where h: "frag_append f ?g = Inr h" "h = f\<lparr>frag_len := frag_len f + frag_len ?g,
      contents := take (min (frag_len f + frag_len ?g) ABBR_LENGTH) (drop (frag_begin f) (src f))\<rparr>"
    using frag_append_ok[of f ?g] Cons.prems(1) by (simp add: ranges_def)
  have "ranges lat b u h"
    using Cons.prems(1) h(2) u assms(2) by (auto simp: ranges_def frag_ok_def frag_stored_def frag_of_range_def)
  from Cons.IH[OF this c] show ?case using edge_frag[OF assms(1) u assms(2)] h(1) by (simp add: lift_string_def)
qed simp

text \<open>The text a cutter gets for a path of consecutive edges: a range of the text of the lattice,
  which a cutter can cut.\<close>

lemma consecutive_edges_text:
  assumes "lat_wf lat" "length (allText lat) < npos" "consecutive lat v es w" "es \<noteq> []"
  shows "\<exists>f. append_frags frag_empty es lat = Inr f \<and> range_text (FragText f) \<and>
    text_string (FragText f) = take (w - v) (drop v (allText lat))"
proof -
  from assms(3,4) obtain e es' u where e: "es = e # es'" "edge_joins lat (int v) (int u) e" "v < u"
    "u \<le> length (allText lat)" "consecutive lat u es' w" by (cases es) auto
  have g: "frag_append frag_empty (frag_of_range (allText lat) v (u - v)) = Inr (frag_of_range (allText lat) v (u - v))"
    by (simp add: frag_append_def frag_empty_def frag_of_string_def frag_stored_def)
  have "ranges lat v u (frag_of_range (allText lat) v (u - v))"
    using e(3,4) assms(2) by (simp add: ranges_def frag_ok_def frag_of_range_def frag_stored_def)
  from append_frags_ranges[OF assms(1,2) this e(5)] obtain f
    where f: "append_frags (frag_of_range (allText lat) v (u - v)) es' lat = Inr f" "ranges lat v w f" by blast
  have "frag_begin f < npos" using f(2) assms(2) by (auto simp: ranges_def)
  then show ?thesis using f e(1) edge_frag[OF assms(1) e(2-4) assms(2)] g
    by (intro exI[of _ f]) (auto simp: lift_string_def ranges_def frag_stored_def frag_text_def)
qed

end
