(* ===== verification/Lattice_Symbols.thy ===== *)
theory Lattice_Symbols
  imports Lattice_Theorems
begin

text \<open>
  The symbols of a text: what \<open>appendStringWithSymbols\<close> makes of a lattice, and that the path
  of symbols reads back the text.
\<close>

section \<open>The symbols of a text\<close>

text \<open>A lattice that holds the symbols of \<open>ds\<close> and in addition the text of \<open>rs\<close>.\<close>

fun char_starts :: "nat \<Rightarrow> string list \<Rightarrow> nat list" where
  "char_starts n [] = []"
| "char_starts n (c # cs) = n # char_starts (n + length c) cs"

definition symbol_core :: "string list \<Rightarrow> string list \<Rightarrow> Lattice \<Rightarrow> bool" where
  "symbol_core ds rs lat \<longleftrightarrow>
     allText lat = concat (ds @ rs) \<and> g_vertices lat = [] \<and> g_edges lat = [] \<and> vertices lat = [] \<and>
     nLooseVertices lat = 0 \<and>
     implicitOutEdges lat = map (\<lambda>i. i \<in> set (char_starts 0 ds)) [0..<length (concat (ds @ rs)) + 1] \<and>
     hiddenImplicitOutEdges lat = replicate (length (concat (ds @ rs)) + 1) False \<and>
     visibleImplicitOutEdges lat = replicate (length (concat (ds @ rs)) + 1) False \<and>
     tagManager lat = tagManager newLattice \<and> lat_symbolTag lat = lat_symbolTag newLattice \<and>
     symbolMask lat = symbolMask newLattice"

definition symbol_state :: "string list \<Rightarrow> string list \<Rightarrow> Lattice \<Rightarrow> bool" where
  "symbol_state ds rs lat \<longleftrightarrow> symbol_core ds rs lat \<and>
     (\<forall>(((f, t), item), es) \<in> set (vvcHash lat). f < int (length (concat ds)))"

lemma char_starts_append: "char_starts n (cs @ ds) = char_starts n cs @ char_starts (n + length (concat cs)) ds"
  by (induction n cs rule: char_starts.induct) (simp_all add: add.assoc)

lemma char_starts_less: "list_all is_char cs \<Longrightarrow> i \<in> set (char_starts n cs) \<Longrightarrow> n \<le> i \<and> i < n + length (concat cs)"
proof (induction n cs rule: char_starts.induct)
  case (2 n c cs)
  then have "c \<noteq> []" using is_char_shape by auto
  with 2 show ?case by (fastforce simp: length_greater_0_conv[symmetric] simp del: length_greater_0_conv)
qed simp

text \<open>The facts about the tags of a new lattice that the proofs use.\<close>

lemma new_tags:
  "onlyPlaneTags (tagManager newLattice) (lat_symbolTag newLattice) = 0"
  "\<not> mask_isAny (symbolMask newLattice)"
  "canBeAppliedToImplicitSymbol (tagManager newLattice) (symbolMask newLattice)"
  by code_simp+

lemma addTagMaskIndex_no_vertices:
  assumes "vertices lat = []"
  shows "\<exists>ix ms. addTagMaskIndex m lat = (Inr ix, lat\<lparr>indexedTagMasks := ms\<rparr>)"
  using assms by (cases "find_mask m (indexedTagMasks lat)")
    (auto simp: addTagMaskIndex_def Let_def intro: exI[of _ "indexedTagMasks lat"])

text \<open>The symbol edges that leave a position.\<close>

lemma symbol_outEdges:
  assumes "symbol_core ds rs lat" "n \<le> length (concat (ds @ rs))"
  shows "\<exists>ms. outEdges (int n) (symbolMask newLattice) lat =
    (Inr (ioi (if n \<in> set (char_starts 0 ds) then int n else -1) NoEdges), lat\<lparr>indexedTagMasks := ms\<rparr>)"
proof -
  from assms have "vertices lat = []" by (simp add: symbol_core_def)
  from addTagMaskIndex_no_vertices[OF this] obtain ix ms
    where a: "addTagMaskIndex (symbolMask newLattice) lat = (Inr ix, lat\<lparr>indexedTagMasks := ms\<rparr>)" by blast
  have "bit_at (implicitOutEdges lat) (int n) = Inr (n \<in> set (char_starts 0 ds))"
    using assms by (simp add: symbol_core_def bit_at_def at_index_def del: upt_Suc)
  then show ?thesis using a assms new_tags
    by (auto simp: outEdges_def bindE_def getsE_def isLooseVertex_def symbol_core_def)
qed

lemma symbol_core_cong [simp]:
  "symbol_core ds rs (lat\<lparr>indexedTagMasks := ms\<rparr>) = symbol_core ds rs lat"
  "symbol_core ds rs (lat\<lparr>edgeCounterHash := ec\<rparr>) = symbol_core ds rs lat"
  "symbol_core ds rs (lat\<lparr>vvcHash := h\<rparr>) = symbol_core ds rs lat"
  by (simp_all add: symbol_core_def)

lemma no_symbol_edge:
  assumes "symbol_core ds rs lat" "list_all is_char ds"
  shows "\<exists>ms. firstOutEdge (int (length (concat ds))) (symbolMask newLattice) lat =
    (Inl NoEdgeException, lat\<lparr>indexedTagMasks := ms\<rparr>)"
proof -
  have n: "length (concat ds) \<notin> set (char_starts 0 ds)" using char_starts_less[OF assms(2), of _ 0] by fastforce
  from symbol_outEdges[OF assms(1), of "length (concat ds)"] n show ?thesis
    by (auto simp: firstOutEdge_def bindE_def gets_def throw_def ioi_hasNext_def ioi_def)
qed

lemma vvc_lookup_fresh:
  "(\<And>k es. (k, es) \<in> set h \<Longrightarrow> fst k \<noteq> fst k0) \<Longrightarrow> vvc_lookup k0 h = None"
proof (induction k0 h rule: vvc_lookup.induct)
  case (2 k k' es h)
  have "fst k' \<noteq> fst k" using "2.prems"[of k' es] by simp
  moreover from this have "vvc_lookup k h = None" using 2 by (auto simp: vvc_same_def)
  ultimately show ?case by (simp add: vvc_same_def)
qed simp

text \<open>Adding the next symbol.\<close>

lemma add_symbol:
  assumes st: "symbol_state ds (c # rs) lat" and ds: "list_all is_char ds" and c: "is_char c"
  shows "\<exists>lat'. addPlainEdge (int (length (concat ds))) (int (length (concat ds)) + int (length c)) item (lat_symbolTag newLattice) lat
     = (Inr (ImplicitEdge (length (concat ds))), lat') \<and> symbol_state (ds @ [c]) rs lat'"
proof -
  let ?n = "length (concat ds)" and ?sym = "lat_symbolTag newLattice"
  let ?key = "((int ?n, int ?n + int (length c)), item)"
  have c0: "c \<noteq> []" using is_char_shape[OF c] by simp
  have sl: "symbolLength (allText lat) ?n = length c"
    using symbolLength_char[OF c, of "concat ds" "concat rs"] st by (simp add: symbol_state_def symbol_core_def)
  have fresh: "vvc_lookup ?key (vvcHash lat) = None"
    by (rule vvc_lookup_fresh) (use st in \<open>fastforce simp: symbol_state_def\<close>)
  define lat1 where "lat1 = lat\<lparr>vvcHash := vvcHash lat @ [(?key, [])],
    edgeCounterHash := (edgeCounterHash lat)((int ?n, int ?n + int (length c)) := edgeCounterHash lat (int ?n, int ?n + int (length c)) + 1)\<rparr>"
  have 1: "symbol_core ds (c # rs) lat1" using st by (simp add: symbol_state_def lat1_def)
  from no_symbol_edge[OF 1 ds] obtain ms
    where fo: "firstOutEdge (int ?n) (symbolMask newLattice) lat1 = (Inl NoEdgeException, lat1\<lparr>indexedTagMasks := ms\<rparr>)" by blast
  define lat2 where "lat2 = lat1\<lparr>indexedTagMasks := ms\<rparr>"
  have 2: "symbol_core ds (c # rs) lat2" using 1 by (simp add: lat2_def)
  have "symbolMask lat1 = symbolMask newLattice" using 1 by (simp add: symbol_core_def)
  with fo have uv: "update_visible (int ?n) (int ?n + int (length c)) lat1 = (Inr (), lat2)"
    by (simp add: update_visible_def catchE_def bindE_def gets_def ret_def lat2_def)
  have n: "?n \<notin> set (char_starts 0 ds)" using char_starts_less[OF ds, of _ 0] by fastforce
  have len: "length (allText lat2) = ?n + length c + length (concat rs)" using 2 by (simp add: symbol_core_def)
  have bits: "implicitOutEdges lat2 = map (\<lambda>i. i \<in> set (char_starts 0 ds)) [0..<length (allText lat2) + 1]"
    using 2 by (simp add: symbol_core_def)
  have "symbolLength (allText lat2) ?n = length c" using sl by (simp add: lat2_def lat1_def)
  then have imp: "becomes_implicit (int ?n) (int ?n + int (length c)) (lat_symbolTag newLattice) lat2 = Inr True"
    using len bits n 2
    by (simp add: becomes_implicit_def isLooseVertex_def lat_symbolLength_def bit_at_def at_index_def symbol_core_def del: upt_Suc)
  define bs where "bs = (implicitOutEdges lat2)[?n := True]"
  have put: "bit_put (implicitOutEdges lat2) (int ?n) True = Inr bs"
    using len bits by (simp add: bit_put_def bs_def del: upt_Suc)
  define lat3 where "lat3 = lat2\<lparr>implicitOutEdges := bs, vvcHash := vvc_push ?key (ImplicitEdge ?n) (vvcHash lat2)\<rparr>"
  have "bs = map (\<lambda>i. i \<in> set (char_starts 0 (ds @ [c]))) [0..<length (allText lat2) + 1]"
    using len unfolding bs_def bits
    by (intro nth_equalityI) (auto simp: nth_list_update char_starts_append simp del: upt_Suc)
  then have 3: "symbol_core (ds @ [c]) rs lat3" using 2 len by (simp add: symbol_core_def lat3_def add.assoc del: upt_Suc)
  have keys: "fst (fst k) < int ?n + int (length c)" if "(k, es) \<in> set (vvcHash lat3)" for k es
    using that st c0 vvc_push_set[of k es ?key "ImplicitEdge ?n" "vvcHash lat2"]
    by (fastforce simp: lat3_def lat2_def lat1_def symbol_state_def)
  have "symbol_state (ds @ [c]) rs lat3" using 3 keys by (fastforce simp: symbol_state_def)
  moreover have "addPlainEdge (int ?n) (int ?n + int (length c)) item ?sym lat = (Inr (ImplicitEdge ?n), lat3)"
  proof -
    have t: "tagManager lat = tagManager newLattice" "lat_symbolTag lat1 = ?sym" "lat_symbolTag lat = ?sym"
      using st 1 by (simp_all add: symbol_state_def symbol_core_def)
    have "add_new_edge (int ?n) (int ?n + int (length c)) item ?sym emptySequence 0 (- 1) (- 1)
        (lat\<lparr>vvcHash := vvcHash lat @ [(?key, [])]\<rparr>) = (Inr (ImplicitEdge ?n), lat3)"
      using uv imp put t
      by (simp add: add_new_edge_def thenE_def bindE_def modify_def gets_def getsE_def ret_def lat1_def[symmetric] lat3_def)
    then show ?thesis using t(1) new_tags(1) fresh c0
      by (simp add: addPlainEdge_def addEdge_def thenE_def bindE_def modify_def gets_def getsE_def tags_isEmpty_def
        gatherPlaneTags_def emptySequence_def createUnion_def vvc_insert_def)
  qed
  ultimately show ?thesis by blast
qed

lemma add_symbols_loop_chars:
  assumes "symbol_state ds rs lat" "list_all is_char ds" "list_all is_char rs"
  shows "\<exists>lat'. add_symbols_loop (concat rs) (int (length (concat ds))) lat = (Inr (), lat') \<and> symbol_state (ds @ rs) [] lat'"
  using assms
proof (induction rs arbitrary: ds lat)
  case Nil
  then show ?case by (simp add: add_symbols_loop.simps ret_def)
next
  case (Cons c rs)
  then have c: "is_char c" "c \<noteq> []" using is_char_shape by auto
  then obtain cp where cp: "utf8_append cp = Inr c" by (auto simp: is_char_def)
  have sym: "lat_symbolTag lat = lat_symbolTag newLattice" using Cons.prems(1) by (simp add: symbol_state_def symbol_core_def)
  from add_symbol[OF Cons.prems(1,2) c(1)] obtain lat1
    where a: "addPlainEdge (int (length (concat ds))) (int (length (concat ds)) + int (length c))
        (new_item (CHR 0x27 # c) frag_empty) (lat_symbolTag newLattice) lat = (Inr (ImplicitEdge (length (concat ds))), lat1)"
      "symbol_state (ds @ [c]) rs lat1" by blast
  from Cons.IH[OF a(2)] Cons.prems c obtain lat2
    where "add_symbols_loop (concat rs) (int (length (concat (ds @ [c])))) lat1 = (Inr (), lat2)" "symbol_state (ds @ [c] @ rs) [] lat2"
    by auto
  then show ?case using a(1) c(2) cp sym utf8_next_append[OF cp, of "concat rs"]
    by (simp add: add_symbols_loop.simps[of "c @ concat rs"] bindE_def gets_def)
qed

lemma getLastVertex_symbols:
  assumes "symbol_state ds rs lat" "list_all is_char ds"
  shows "getLastVertex ts lat = (Inr (int (length (allText lat))), lat)"
proof -
  let ?n = "length (allText lat)"
  have l: "?n = length (concat (ds @ rs))" using assms(1) by (simp add: symbol_state_def symbol_core_def)
  then have "?n \<notin> set (char_starts 0 ds)" using char_starts_less[OF assms(2), of _ 0] by fastforce
  then have "?n < length (implicitOutEdges lat) \<and> \<not> implicitOutEdges lat ! ?n"
    using assms(1) l by (simp add: symbol_state_def symbol_core_def del: upt_Suc)
  then have "bit_at (implicitOutEdges lat) (int ?n) = Inr False" by (simp add: bit_at_def at_index_def)
  then show ?thesis using assms(1)
    by (simp add: getLastVertex_def bindE_def gets_def ret_def allOutEdges_def isLooseVertex_def getsE_def
      symbol_state_def symbol_core_def ioi_hasNext_def ioi_def)
qed

lemma bits_resize_map:
  assumes "\<And>i. i \<ge> n \<Longrightarrow> \<not> P i" "n \<le> m"
  shows "bits_resize m (map P [0..<n]) = map P [0..<m]"
  using assms by (intro nth_equalityI) (auto simp: bits_resize_def nth_append)

lemma appendString_bits:
  "implicitOutEdges (appendString s lat) = bits_resize (length (allText lat @ s) + 1) (implicitOutEdges lat)"
  "hiddenImplicitOutEdges (appendString s lat) = bits_resize (length (allText lat @ s) + 1) (hiddenImplicitOutEdges lat)"
  "visibleImplicitOutEdges (appendString s lat) = bits_resize (length (allText lat @ s) + 1) (visibleImplicitOutEdges lat)"
  by (auto simp: appendString_def resizeImplicitEdgesStructures_def Let_def)

lemma symbol_state_append:
  assumes "symbol_state ds [] lat" "list_all is_char ds"
  shows "symbol_state ds rs (appendString (concat rs) lat)"
proof -
  let ?n = "length (concat ds) + 1" and ?m = "length (concat (ds @ rs)) + 1"
  have "i \<notin> set (char_starts 0 ds)" if "i \<ge> ?n" for i
    using char_starts_less[OF assms(2), of i 0] that by fastforce
  from bits_resize_map[of ?n "\<lambda>i. i \<in> set (char_starts 0 ds)" ?m, OF this]
  have 1: "bits_resize ?m (map (\<lambda>i. i \<in> set (char_starts 0 ds)) [0..<?n]) = map (\<lambda>i. i \<in> set (char_starts 0 ds)) [0..<?m]"
    by simp
  have 2: "bits_resize ?m (replicate ?n False) = replicate ?m False"
    by (intro nth_equalityI) (auto simp: bits_resize_def nth_append simp del: replicate.simps replicate_Suc)
  have "implicitOutEdges (appendString (concat rs) lat) = bits_resize ?m (implicitOutEdges lat)"
    "hiddenImplicitOutEdges (appendString (concat rs) lat) = bits_resize ?m (hiddenImplicitOutEdges lat)"
    "visibleImplicitOutEdges (appendString (concat rs) lat) = bits_resize ?m (visibleImplicitOutEdges lat)"
    using assms(1) by (simp_all add: appendString_bits symbol_state_def symbol_core_def)
  then show ?thesis using assms(1) 1 2
    by (simp add: symbol_state_def symbol_core_def del: upt_Suc replicate.simps replicate_Suc)
qed

lemma symbol_state_new: "symbol_state [] [] newLattice"
proof -
  have "allText newLattice = [] \<and> g_vertices newLattice = [] \<and> g_edges newLattice = [] \<and> vertices newLattice = [] \<and>
    nLooseVertices newLattice = 0 \<and> implicitOutEdges newLattice = [False] \<and> hiddenImplicitOutEdges newLattice = [False] \<and>
    visibleImplicitOutEdges newLattice = [False] \<and> vvcHash newLattice = []" by code_simp
  then show ?thesis by (simp add: symbol_state_def symbol_core_def)
qed

lemma appendStringWithSymbols_chars:
  assumes "symbol_state ds [] lat" "list_all is_char ds" "list_all is_char rs"
  shows "\<exists>lat'. appendStringWithSymbols ts (concat rs) lat = (Inr (), lat') \<and> symbol_state (ds @ rs) [] lat'"
proof -
  let ?lat = "appendString (concat rs) lat"
  note st = symbol_state_append[OF assms(1,2), of rs]
  have t: "allText lat = concat ds" "allText ?lat = concat (ds @ rs)"
    using assms(1) by (simp_all add: symbol_state_def symbol_core_def)
  from add_symbols_loop_chars[OF st assms(2,3)] obtain lat'
    where "add_symbols_loop (concat rs) (int (length (concat ds))) ?lat = (Inr (), lat')" "symbol_state (ds @ rs) [] lat'" by blast
  then show ?thesis
    using getLastVertex_symbols[OF assms(1,2), of ts] getLastVertex_symbols[OF st assms(2), of ts] t
    by (simp add: appendStringWithSymbols_def bindE_def thenE_def modify_def addSymbols_def isLooseVertex_def getsE_def)
qed

text \<open>The symbols of a valid text, at the positions of its characters.\<close>

lemma char_starts_iff:
  assumes "list_all is_char cs"
  shows "i \<in> set (char_starts 0 cs) \<longleftrightarrow> i < length (concat cs) \<and> \<not> is_trail (concat cs ! i)"
  using assms
proof (induction cs rule: rev_induct)
  case (snoc c cs)
  then have c: "is_char c" by simp
  have h: "is_trail (c ! j) \<longleftrightarrow> j \<noteq> 0" if "j < length c" for j
    using is_char_shape[OF c] that by (cases c) (auto simp: nth_Cons')
  have "c \<noteq> []" using is_char_shape[OF c] by simp
  then show ?case using snoc h[of "i - length (concat cs)"] char_starts_less[of cs i 0]
    by (auto simp: char_starts_append nth_append)
qed simp

text \<open>C21: Adding a valid text with its symbols to a new lattice succeeds and yields an implicit symbol
  edge at every character start, and nothing else: no edge or vertex in the graph.\<close>

theorem appendStringWithSymbols_symbols:
  assumes "is_valid s"
  shows "\<exists>lat. appendStringWithSymbols ts s newLattice = (Inr (), lat) \<and> allText lat = s \<and>
    g_edges lat = [] \<and> g_vertices lat = [] \<and> length (implicitOutEdges lat) = length s + 1 \<and>
    (\<forall>i \<le> length s. implicitOutEdges lat ! i \<longleftrightarrow> i < length s \<and> \<not> is_trail (s ! i))"
proof -
  from valid_chars[OF assms] obtain cs where cs: "list_all is_char cs" "s = concat cs" by blast
  from appendStringWithSymbols_chars[OF symbol_state_new _ cs(1)] obtain lat
    where "appendStringWithSymbols ts s newLattice = (Inr (), lat)" "symbol_core cs [] lat"
    using cs(2) by (auto simp: symbol_state_def)
  then show ?thesis using cs char_starts_iff[OF cs(1)] by (auto simp: symbol_core_def simp del: upt_Suc)
qed

theorem appendStringWithSymbols_symbols_witness:
  "\<exists>lat. appendStringWithSymbols (\<lambda>_ _. None) ''ab'' newLattice = (Inr (), lat) \<and> allText lat = ''ab'' \<and>
    g_edges lat = [] \<and> g_vertices lat = [] \<and> length (implicitOutEdges lat) = length ''ab'' + 1 \<and>
    (\<forall>i \<le> length ''ab''. implicitOutEdges lat ! i \<longleftrightarrow> i < length ''ab'' \<and> \<not> is_trail (''ab'' ! i))"
  by (rule appendStringWithSymbols_symbols) code_simp

text \<open>The path of symbols.\<close>

lemma symbol_builder_add:
  assumes "symbol_core cs [] lat" "i \<le> length (concat cs)"
  shows "builder_add (ImplicitEdge i) z b lat = Inr (b\<lparr>b_begin := 1, b_end := 0, b_links := b_links b @ [(ImplicitEdge i, z)]\<rparr>)"
proof -
  have "isEdgeHidden (ImplicitEdge i) lat = Inr False"
    using assms by (simp add: at_index_def symbol_core_def del: replicate_Suc upt_Suc)
  then show ?thesis by (simp add: builder_add_def)
qed

lemma symbol_path:
  assumes "symbol_core (ds @ rs) [] lat" "list_all is_char (ds @ rs)" "length rs < fuel"
  shows "\<exists>lat'. path_loop fuel b (int (length (concat ds))) (symbolMask newLattice) lat =
      (Inr (builder_build (if rs = [] then b else b\<lparr>b_begin := 1, b_end := 0,
         b_links := b_links b @ map (\<lambda>i. (ImplicitEdge i, NULL_ZVALUE)) (char_starts (length (concat ds)) rs)\<rparr>),
       int (length (concat (ds @ rs)))), lat') \<and> symbol_core (ds @ rs) [] lat'"
  using assms
proof (induction rs arbitrary: ds fuel b lat)
  case Nil
  then obtain f where f: "fuel = Suc f" by (cases fuel) auto
  have n: "length (concat ds) \<notin> set (char_starts 0 ds)" using char_starts_less[of ds _ 0] Nil.prems(2) by fastforce
  from symbol_outEdges[of ds "[]" lat "length (concat ds)"] Nil.prems(1) n
  obtain ms where "outEdges (int (length (concat ds))) (symbolMask newLattice) lat = (Inr (ioi (-1) NoEdges), lat\<lparr>indexedTagMasks := ms\<rparr>)"
    by auto
  then show ?case using Nil.prems(1) f by (simp add: bindE_def gets_def ret_def ioi_edges_def ioi_def)
next
  case (Cons c rs)
  then obtain f where f: "fuel = Suc f" by (cases fuel) auto
  let ?n = "length (concat ds)" and ?cs = "ds @ c # rs"
  have c: "is_char c" using Cons.prems(2) by simp
  have m: "?n \<in> set (char_starts 0 ?cs)" by (simp add: char_starts_append)
  from symbol_outEdges[OF Cons.prems(1), of ?n] m
  obtain ms where o: "outEdges (int ?n) (symbolMask newLattice) lat = (Inr (ioi (int ?n) NoEdges), lat\<lparr>indexedTagMasks := ms\<rparr>)"
    by auto
  define lat1 where "lat1 = lat\<lparr>indexedTagMasks := ms\<rparr>"
  have st: "symbol_core ?cs [] lat1" using Cons.prems(1) by (simp add: lat1_def)
  have "symbolLength (allText lat1) ?n = length c"
    using symbolLength_char[OF c, of "concat ds" "concat rs"] st by (simp add: symbol_core_def)
  then have t: "getEdgeTarget (ImplicitEdge ?n) lat1 = Inr (int (length (concat (ds @ [c]))))"
    using st by (simp add: lat_symbolLength_def symbol_core_def)
  define b' where "b' = b\<lparr>b_begin := 1, b_end := 0, b_links := b_links b @ [(ImplicitEdge ?n, NULL_ZVALUE)]\<rparr>"
  have b: "builder_add (ImplicitEdge ?n) NULL_ZVALUE b lat1 = Inr b'"
    unfolding b'_def by (rule symbol_builder_add[OF st]) simp
  from Cons.IH[of "ds @ [c]" lat1 f b'] st Cons.prems(2,3) f obtain lat2 where
    "path_loop f b' (int (length (concat (ds @ [c])))) (symbolMask newLattice) lat1 =
      (Inr (builder_build (if rs = [] then b' else b'\<lparr>b_begin := 1, b_end := 0,
         b_links := b_links b' @ map (\<lambda>i. (ImplicitEdge i, NULL_ZVALUE)) (char_starts (length (concat (ds @ [c]))) rs)\<rparr>),
       int (length (concat ?cs))), lat2)" "symbol_core ?cs [] lat2" by auto
  then show ?case using o t b f
    by (auto simp: bindE_def gets_def getsE_def ret_def ioi_edges_def ioi_def lat1_def[symmetric] b'_def)
qed

lemma symbol_texts:
  assumes "symbol_core (ds @ rs) [] lat" "list_all is_char (ds @ rs)" "length (concat (ds @ rs)) < 2 ^ 64"
  shows "edge_texts (map ImplicitEdge (char_starts (length (concat ds)) rs)) lat = Inr (concat rs)"
  using assms
proof (induction rs arbitrary: ds)
  case (Cons c rs)
  let ?n = "length (concat ds)"
  have c: "is_char c" "c \<noteq> []" using Cons.prems(2) is_char_shape by auto
  have t: "allText lat = concat ds @ c @ concat rs" using Cons.prems(1) by (simp add: symbol_core_def)
  then have l: "lat_symbolLength (int ?n) lat = Inr (length c)"
    using symbolLength_char[OF c(1), of "concat ds" "concat rs"] by (simp add: lat_symbolLength_def)
  have sz: "to_size (int ?n) = ?n" "to_size (int (length c)) = length c"
    using Cons.prems(3) by (simp_all add: to_size_def)
  have "getEdgeText (ImplicitEdge ?n) lat = Inr c"
    using t l sz by (simp add: getEdgeText_def getEdgeBeginIndex_def isLooseVertex_def std_substr_def lift_string_def)
  moreover have "edge_texts (map ImplicitEdge (char_starts (length (concat (ds @ [c]))) rs)) lat = Inr (concat rs)"
    by (rule Cons.IH) (use Cons.prems in auto)
  ultimately show ?case by simp
qed simp

lemma si_edges_links:
  assumes "links (si_seq it) \<noteq> []" "si_links it \<le> length (links (si_seq it))"
  shows "si_edges it lat = (Inr (map fst (drop (si_links it) (links (si_seq it)))), lat)"
  using assms
proof (induction "length (links (si_seq it)) - si_links it" arbitrary: it)
  case 0
  then show ?case by (simp add: si_edges.simps si_hasNext_def ret_def)
next
  case (Suc n)
  let ?it = "it\<lparr>si_links := Suc (si_links it)\<rparr>"
  have "si_edges ?it lat = (Inr (map fst (drop (Suc (si_links it)) (links (si_seq it)))), lat)"
    using Suc.hyps(1)[of ?it] Suc.hyps(2) Suc.prems by simp
  moreover have "drop (si_links it) (links (si_seq it)) = links (si_seq it) ! si_links it # drop (Suc (si_links it)) (links (si_seq it))"
    using Suc.hyps(2) by (simp add: Cons_nth_drop_Suc)
  ultimately show ?case using Suc.hyps(2) Suc.prems
    by (subst si_edges.simps) (auto simp: si_hasNext_def si_next_def si_nextUsage_def bindE_def ret_def split: prod.splits)
qed

lemma char_count: "list_all is_char cs \<Longrightarrow> length cs \<le> length (concat cs)"
proof (induction cs)
  case (Cons c cs)
  then have "c \<noteq> []" using is_char_shape by auto
  then show ?case using Cons by (cases c) auto
qed simp

text \<open>C2: The path of symbols through a text just added reads back the text.\<close>

theorem symbols_path_text:
  assumes "is_valid s" "length s < 2 ^ 64"
  shows "fst (bindE (appendStringWithSymbols ts s) (\<lambda>_.
           bindE (gets symbolMask) (\<lambda>msk.
           bindE (getPath (length s + 1) 0 msk) (\<lambda>(q, _). getSequenceText q))) newLattice) = Inr s"
proof -
  from valid_chars[OF assms(1)] obtain cs where cs: "list_all is_char cs" "s = concat cs" by blast
  from appendStringWithSymbols_chars[OF symbol_state_new _ cs(1)] obtain lat
    where a: "appendStringWithSymbols ts s newLattice = (Inr (), lat)" and st: "symbol_core cs [] lat"
    using cs(2) by (auto simp: symbol_state_def)
  have m: "symbolMask lat = symbolMask newLattice" using st by (simp add: symbol_core_def)
  let ?ls = "map (\<lambda>i. (ImplicitEdge i, NULL_ZVALUE)) (char_starts 0 cs)"
  have "length cs < length s + 1" using char_count[OF cs(1)] cs(2) by simp
  from symbol_path[of "[]" cs lat "length s + 1" newBuilder] st cs(1) this obtain lat1
    where p: "getPath (length s + 1) 0 (symbolMask newLattice) lat =
        (Inr (\<lparr>links = ?ls, seq_begin = 0, seq_end = 0\<rparr>, int (length (concat cs))), lat1)" "symbol_core cs [] lat1"
    by (cases cs) (auto simp: getPath_def builder_build_def newBuilder_def)
  have "seq_edges \<lparr>links = ?ls, seq_begin = 0, seq_end = 0\<rparr> lat1 = (Inr (map ImplicitEdge (char_starts 0 cs)), lat1)"
  proof (cases "?ls = []")
    case True
    then show ?thesis by (simp add: seq_edges_def seq_iterator_def si_edges.simps si_hasNext_def ret_def)
  next
    case False
    then show ?thesis
      using si_edges_links[of "seq_iterator \<lparr>links = ?ls, seq_begin = 0, seq_end = 0\<rparr>" lat1]
      by (simp add: seq_edges_def seq_iterator_def comp_def)
  qed
  moreover have "edge_texts (map ImplicitEdge (char_starts 0 cs)) lat1 = Inr s"
    using symbol_texts[of "[]" cs lat1] p(2) cs assms(2) by simp
  ultimately show ?thesis using a m p(1)
    by (simp add: bindE_def gets_def getSequenceText_def getsE_def)
qed

theorem symbols_path_text_witness:
  "fst (bindE (appendStringWithSymbols (\<lambda>_ _. None) ''ab'') (\<lambda>_.
           bindE (gets symbolMask) (\<lambda>msk.
           bindE (getPath (length ''ab'' + 1) 0 msk) (\<lambda>(q, _). getSequenceText q))) newLattice) = Inr ''ab''"
  by (rule symbols_path_text) code_simp+

end
