(* ===== verification/Lattice_Behaviours.thy ===== *)
theory Lattice_Behaviours
  imports Lattice_Symbols
begin

text \<open>
  Concrete runs of the lattice whose outcome differs from what the rest of the code assumes:
  index lists that miss an edge, a counter that counts an edge twice, a search that never ends.
\<close>

section \<open>Behaviours worth knowing\<close>

text \<open>A lattice over \<open>ab\<close> whose edge over the text has the tag 8, with an index for the mask of 16.\<close>

definition item_t :: AnnotationItem where "item_t = new_item ''t'' frag_empty"

definition before_merge :: Lattice where
  "before_merge = snd (thenE (addPlainEdge 0 2 item_t 8) (outEdges 0 (mask_of_tags 16)) (appendString ''ab'' newLattice))"

text \<open>When an addition merges new tags into an existing edge, the index lists are not brought up to
  date: the edge matches the mask afterwards, but the out-edges for the mask do not contain it.\<close>

theorem merged_tags_missing_from_index:
  "fst (bindE (addPlainEdge 0 2 item_t 16) (\<lambda>e.
        bindE (outEdges 0 (mask_of_tags 16)) (\<lambda>it.
        bindE (gets (ioi_edges it)) (\<lambda>found.
        bindE (getsE (getEdgeLayerTags e)) (\<lambda>t. ret (e, found, matches t (mask_of_tags 16)))))) before_merge)
     = Inr (ExplicitEdge 0, [], True)"
  by code_simp

text \<open>Adding the same symbol twice leaves one implicit edge, but the edge counter says two.\<close>

theorem repeated_symbol_counted_twice:
  "fst (thenE (addPlainEdge 0 1 item_t 1) (thenE (addPlainEdge 0 1 item_t 1)
      (bindE (allOutEdges 0) (\<lambda>it. bindE (gets (ioi_edges it)) (\<lambda>found.
        bindE (gets (countEdges 0 1)) (\<lambda>n. ret (found, n)))))) (appendString ''ab'' newLattice))
     = Inr ([ImplicitEdge 0], 2)"
  by code_simp

text \<open>Two edges over \<open>ab\<close> that are constituents of each other: the second is built over the first,
  then the first is added again over the second.\<close>

definition over :: "EdgeDescriptor \<Rightarrow> EdgeSequence" where
  "over e = \<lparr>links = [(e, NULL_ZVALUE)], seq_begin = 0, seq_end = 0\<rparr>"

definition cyclic_lattice :: Lattice where
  "cyclic_lattice = snd (thenE (on_tags (createSingletonTagCollection ''lemma''))
    (bindE (addEdge 0 2 item_t 4 emptySequence 0 (-1) (-1)) (\<lambda>a.
     bindE (addEdge 0 2 (new_item ''u'' frag_empty) 4 (over a) 0 (-1) (-1)) (\<lambda>b.
       addEdge 0 2 item_t 4 (over b) 0 (-1) (-1)))) (appendString ''ab'' newLattice))"

definition cyclic :: "Lattice \<Rightarrow> bool" where
  "cyclic lat \<longleftrightarrow> length (g_edges lat) = 2 \<and> map e_tags (g_edges lat) = [4, 4] \<and>
     map (map (links \<circ> part_sequence) \<circ> e_partitions) (g_edges lat) =
       [[[], [(ExplicitEdge 1, NULL_ZVALUE)]], [[(ExplicitEdge 0, NULL_ZVALUE)]]] \<and>
     list_all (list_all (\<lambda>p. seq_end (part_sequence p) \<le> seq_begin (part_sequence p)) \<circ> e_partitions) (g_edges lat) \<and>
     tag_insert ''lemma'' (tagManager lat) = tagManager lat \<and> tag_index ''lemma'' (tagManager lat) = 3"

lemma cyclic_lattice_cyclic: "cyclic cyclic_lattice"
  by code_simp

lemma find_matching_any:
  assumes "seq_end q \<le> seq_begin q" "links q = [] \<or> (\<exists>t. getEdgeLayerTags (fst (hd (links q))) lat = Inr t)"
  shows "find_matching (seq_iterator q) anyTag lat =
    (Inr (if links q = [] then None else Some (fst (hd (links q)))), lat)"
proof -
  have "matches t anyTag" for t by (simp add: matches_def anyTag_def mask_of_bool_def computeHash_def)
  with assms show ?thesis
    by (subst find_matching.simps, cases "links q")
      (auto simp: seq_iterator_def si_hasNext_def si_next_def si_nextUsage_def
        bindE_def getsE_def ret_def split: prod.splits)
qed

lemma cyclic_parents:
  assumes "cyclic lat"
  shows "getParent (ExplicitEdge 0) lat = (Inr (Some (ExplicitEdge 1)), lat)"
    "getParent (ExplicitEdge 1) lat = (Inr (Some (ExplicitEdge 0)), lat)"
proof -
  from assms obtain e f where g: "g_edges lat = [e, f]" by (auto simp: cyclic_def length_Suc_conv numeral_2_eq_2)
  from assms g obtain p q r where p: "e_partitions e = [p, q]" "e_partitions f = [r]"
    and l: "links (part_sequence p) = []" "links (part_sequence q) = [(ExplicitEdge 1, NULL_ZVALUE)]"
      "links (part_sequence r) = [(ExplicitEdge 0, NULL_ZVALUE)]"
    and b: "seq_end (part_sequence p) \<le> seq_begin (part_sequence p)" "seq_end (part_sequence q) \<le> seq_begin (part_sequence q)"
      "seq_end (part_sequence r) \<le> seq_begin (part_sequence r)"
    by (auto simp: cyclic_def map_eq_Cons_conv)
  have t: "getEdgeLayerTags (ExplicitEdge 0) lat = Inr (e_tags e)" "getEdgeLayerTags (ExplicitEdge 1) lat = Inr (e_tags f)"
    by (simp_all add: the_edge_def at_index_def g)
  note fm = find_matching_any[of "part_sequence p" lat] find_matching_any[of "part_sequence q" lat] find_matching_any[of "part_sequence r" lat]
  show "getParent (ExplicitEdge 0) lat = (Inr (Some (ExplicitEdge 1)), lat)"
    "getParent (ExplicitEdge 1) lat = (Inr (Some (ExplicitEdge 0)), lat)"
    using fm l b t by (simp_all add: getParent_def getParentMatching_def the_edge_def at_index_def g p bindE_def getsE_def ret_def)
qed

lemma origin_loop_cyclic:
  assumes "cyclic lat"
  shows "origin_loop n ''lemma'' (Some (ExplicitEdge 0)) lat = (Inl Diverges, lat) \<and>
    origin_loop n ''lemma'' (Some (ExplicitEdge 1)) lat = (Inl Diverges, lat)"
proof (induction n)
  case (Suc n)
  have t: "getEdgeLayerTags (ExplicitEdge 0) lat = Inr 4" "getEdgeLayerTags (ExplicitEdge 1) lat = Inr 4"
    using assms by (auto simp: cyclic_def the_edge_def at_index_def map_eq_Cons_conv numeral_2_eq_2)
  have "\<not> bit (4 :: 64 word) 3" by simp
  then have "on_tags (isThere ''lemma'' 4) lat = (Inr False, lat)"
    using assms by (simp add: cyclic_def on_tags_def isThere_def prog_defs tags_resize_def)
  with Suc t cyclic_parents[OF assms] show ?case by (simp add: bindE_def getsE_def)
qed (simp add: throw_def)

text \<open>C36: \<open>addEdge\<close> refuses an edge among its own constituents, but not one among the constituents of
  these: with such a cycle the search for the origin of an edge, and so for its lemma, never
  ends, whatever the fuel.\<close>

theorem edge_origin_diverges:
  "fst (getEdgeOrigin n ''lemma'' (ExplicitEdge 0) cyclic_lattice) = Inl Diverges \<and>
   fst (getEdgeLemma n (ExplicitEdge 0) cyclic_lattice) = Inl Diverges"
  using cyclic_parents[OF cyclic_lattice_cyclic] origin_loop_cyclic[OF cyclic_lattice_cyclic]
  by (simp add: getEdgeLemma_def getEdgeOrigin_def LEMMA_TAG_NAME_def bindE_def)

end
