(* ===== verification/Limit_Checker.thy ===== *)
theory Limit_Checker
  imports Prelude
begin

text \<open>
  Limits on values that depend on an argument (\<open>common/limit_checker.hpp\<close>,
  \<open>common/limit_checker.cpp\<close>), used to bound the number of edges of a given length.
\<close>

definition INT_MAX :: int where
  "INT_MAX = 2 ^ 31 - 1"

record LimitSpec =
  spec_argument :: int
  spec_limit :: int

record LimitChecker =
  ready :: bool
  absoluteLimit :: int
  specs :: "LimitSpec list"

definition new_unlimited :: LimitChecker where
  "new_unlimited = \<lparr>ready = True, absoluteLimit = INT_MAX, specs = []\<rparr>"

definition new_limited :: "int \<Rightarrow> LimitChecker" where
  "new_limited limit = \<lparr>ready = True, absoluteLimit = limit, specs = []\<rparr>"

definition setAbsoluteLimit :: "int \<Rightarrow> LimitChecker \<Rightarrow> LimitChecker" where
  "setAbsoluteLimit limit lc = lc\<lparr>absoluteLimit := limit\<rparr>"

definition addLimitSpec :: "int \<Rightarrow> int \<Rightarrow> LimitChecker \<Rightarrow> LimitChecker" where
  "addLimitSpec argument limit lc =
     (let lc1 = (if specs lc \<noteq> [] \<and> argument < spec_argument (last (specs lc))
                 then lc\<lparr>ready := False\<rparr> else lc) in
      lc1\<lparr>specs := specs lc1 @ [\<lparr>spec_argument = argument, spec_limit = limit\<rparr>]\<rparr>)"

definition addUnlimitedSpec :: "int \<Rightarrow> LimitChecker \<Rightarrow> LimitChecker" where
  "addUnlimitedSpec argument = addLimitSpec argument INT_MAX"

text \<open>\<open>std::list::sort\<close> is stable, as \<open>sort_key\<close> is.\<close>

fun allowed_by :: "LimitSpec list \<Rightarrow> int \<Rightarrow> int \<Rightarrow> int \<Rightarrow> bool" where
  "allowed_by [] limit argument v = (v \<le> limit)"
| "allowed_by (spec # rest) limit argument v =
     (if spec_argument spec \<ge> argument then v \<le> spec_limit spec
      else allowed_by rest limit argument v)"

definition isAllowed :: "int \<Rightarrow> int \<Rightarrow> LimitChecker \<Rightarrow> bool \<times> LimitChecker" where
  "isAllowed argument v lc =
     (let lc1 = (if \<not> ready lc then lc\<lparr>specs := sort_key spec_argument (specs lc), ready := True\<rparr> else lc) in
      (allowed_by (specs lc1) (absoluteLimit lc1) argument v, lc1))"

text \<open>A checker that claims to be ready has its specifications sorted: every operation keeps
  this.\<close>

definition lc_inv :: "LimitChecker \<Rightarrow> bool" where
  "lc_inv lc \<longleftrightarrow> (ready lc \<longrightarrow> sorted (map spec_argument (specs lc)))"

inductive lc_reachable :: "LimitChecker \<Rightarrow> bool" where
  lc_unlimited: "lc_reachable new_unlimited"
| lc_limited: "lc_reachable (new_limited limit)"
| lc_set: "lc_reachable lc \<Longrightarrow> lc_reachable (setAbsoluteLimit limit lc)"
| lc_add: "lc_reachable lc \<Longrightarrow> lc_reachable (addLimitSpec argument limit lc)"
| lc_ask: "lc_reachable lc \<Longrightarrow> lc_reachable (snd (isAllowed argument v lc))"

lemma lc_reachable_inv: "lc_reachable lc \<Longrightarrow> lc_inv lc"
proof (induction rule: lc_reachable.induct)
  case (lc_add lc argument limit)
  have s: "sorted (xs @ [x])" if "sorted xs" "xs \<noteq> [] \<longrightarrow> last xs \<le> x" for xs and x :: int
    using that by (cases xs rule: rev_cases) (auto simp: sorted_append)
  show ?case
  proof (cases "specs lc \<noteq> [] \<and> argument < spec_argument (last (specs lc))")
    case True
    then show ?thesis by (simp add: lc_inv_def addLimitSpec_def)
  next
    case False
    then have "sorted (map spec_argument (specs lc)) \<Longrightarrow> sorted (map spec_argument (specs lc) @ [argument])"
      by (intro s) (auto simp: last_map)
    with False lc_add(2) show ?thesis by (auto simp: lc_inv_def addLimitSpec_def Let_def)
  qed
qed (auto simp: lc_inv_def new_unlimited_def new_limited_def setAbsoluteLimit_def isAllowed_def Let_def)

text \<open>What the class promises: the limit for an argument is that of the specification with the
  least argument that is not below it (the one added first among equals), or else the absolute
  limit.\<close>

definition limit_for :: "LimitSpec list \<Rightarrow> int \<Rightarrow> int \<Rightarrow> int" where
  "limit_for ss limit argument =
     (let cs = filter (\<lambda>s. spec_argument s \<ge> argument) ss in
      if cs = [] then limit
      else spec_limit (hd (filter (\<lambda>s. spec_argument s = Min (spec_argument ` set cs)) ss)))"

lemma limit_for_Cons_less: "spec_argument s < argument \<Longrightarrow> limit_for (s # rest) limit argument = limit_for rest limit argument"
proof -
  assume a: "spec_argument s < argument"
  let ?cs = "filter (\<lambda>s. spec_argument s \<ge> argument) rest"
  have "spec_argument s \<noteq> Min (spec_argument ` set ?cs)" if "?cs \<noteq> []"
  proof -
    have "Min (spec_argument ` set ?cs) \<in> spec_argument ` set ?cs"
      using that by (intro Min_in) (auto simp: filter_empty_conv)
    then show ?thesis using a by auto
  qed
  then show ?thesis using a by (simp add: limit_for_def Let_def)
qed

lemma allowed_by_sorted:
  "sorted (map spec_argument ss) \<Longrightarrow> allowed_by ss limit argument v \<longleftrightarrow> v \<le> limit_for ss limit argument"
proof (induction ss)
  case Nil
  then show ?case by (simp add: limit_for_def)
next
  case (Cons s ss)
  show ?case
  proof (cases "spec_argument s \<ge> argument")
    case True
    have "Min (spec_argument ` set (filter (\<lambda>s. spec_argument s \<ge> argument) (s # ss))) = spec_argument s"
      using Cons.prems True by (intro Min_eqI) auto
    with True show ?thesis by (simp add: limit_for_def Let_def)
  next
    case False
    then show ?thesis using Cons by (simp add: limit_for_Cons_less)
  qed
qed

lemma limit_for_sort: "limit_for (sort_key spec_argument ss) limit argument = limit_for ss limit argument"
proof -
  have m: "set (filter (\<lambda>s. argument \<le> spec_argument s) (sort_key spec_argument ss)) =
      set (filter (\<lambda>s. argument \<le> spec_argument s) ss)" by auto
  then have "filter (\<lambda>s. argument \<le> spec_argument s) (sort_key spec_argument ss) = [] \<longleftrightarrow>
      filter (\<lambda>s. argument \<le> spec_argument s) ss = []" by (metis set_empty)
  then show ?thesis unfolding limit_for_def Let_def m sort_key_stable by simp
qed

text \<open>C20: whatever was asked and added before, a checker answers by the limit of the least
  specified argument that is not below the given one, or by the absolute limit.\<close>

theorem isAllowed_spec:
  assumes "lc_reachable lc"
  shows "fst (isAllowed argument v lc) \<longleftrightarrow> v \<le> limit_for (specs lc) (absoluteLimit lc) argument"
  using lc_reachable_inv[OF assms] allowed_by_sorted[of "specs lc"]
    allowed_by_sorted[of "sort_key spec_argument (specs lc)"]
  by (auto simp: isAllowed_def Let_def lc_inv_def limit_for_sort)

theorem isAllowed_spec_witness:
  "fst (isAllowed 25 20 (addLimitSpec 20 30 (addLimitSpec 30 20 (new_limited 8)))) \<longleftrightarrow>
     20 \<le> limit_for (specs (addLimitSpec 20 30 (addLimitSpec 30 20 (new_limited 8))))
       (absoluteLimit (addLimitSpec 20 30 (addLimitSpec 30 20 (new_limited 8)))) 25"
  by (rule isAllowed_spec) (intro lc_reachable.intros)

end
