(* ===== verification/Quoter.thy ===== *)
theory Quoter
  imports Prelude
begin

text \<open>
  The escaping of field values in the PSI and UTT formats
  (\<open>common/utt_like_quoter.cpp\<close>, \<open>common/psi_quoter.cpp\<close>, \<open>common/quoter.cpp\<close>) and
  the test for escaped positions (\<open>common/escaping.cpp\<close>).
\<close>

section \<open>The quoter of the UTT and PSI formats\<close>

datatype quoter_error = QuoterException

text \<open>The \<open>switch\<close> of \<open>doEscape\<close> for one character; the \<open>default\<close> branch scans
  \<open>additionalQuotations_\<close>, whose characters get a backslash.\<close>

definition escape_char :: "string \<Rightarrow> char \<Rightarrow> string" where
  "escape_char additionalQuotations c =
     (if c = CHR '' '' then ''_''
      else if c = CHR 0x0A then [CHR 0x5C, CHR ''n'']
      else if c = CHR 0x09 then [CHR 0x5C, CHR ''t'']
      else if c = CHR 0x0D then [CHR 0x5C, CHR ''r'']
      else if c = CHR ''_'' then [CHR 0x5C, CHR ''_'']
      else if c = CHR ''*'' then [CHR 0x5C, CHR ''*'']
      else if c = CHR 0x5C then [CHR 0x5C, CHR 0x5C]
      else if c \<in> set additionalQuotations then [CHR 0x5C, c]
      else [c])"

definition doEscape :: "string \<Rightarrow> string \<Rightarrow> string" where
  "doEscape additionalQuotations str = concat (map (escape_char additionalQuotations) str)"

text \<open>The inner \<open>switch\<close> of \<open>doUnescape\<close>: the character after a backslash.\<close>

definition unescape_char :: "string \<Rightarrow> char \<Rightarrow> quoter_error + char" where
  "unescape_char additionalQuotations c =
     (if c = CHR ''n'' then Inr (CHR 0x0A)
      else if c = CHR ''t'' then Inr (CHR 0x09)
      else if c = CHR ''r'' then Inr (CHR 0x0D)
      else if c = CHR ''_'' then Inr (CHR ''_'')
      else if c = CHR ''*'' then Inr (CHR ''*'')
      else if c = CHR 0x5C then Inr (CHR 0x5C)
      else if c \<in> set additionalQuotations then Inr c
      else Inl QuoterException)"

fun doUnescape :: "string \<Rightarrow> string \<Rightarrow> quoter_error + string" where
  "doUnescape aq [] = Inr []"
| "doUnescape aq (c # cs) =
     (if c = CHR ''_'' then map_sum id (Cons (CHR '' '')) (doUnescape aq cs)
      else if c = CHR 0x5C then
        (case cs of
           [] \<Rightarrow> Inl QuoterException
         | d # ds \<Rightarrow>
             (case unescape_char aq d of
                Inl e \<Rightarrow> Inl e
              | Inr r \<Rightarrow> map_sum id (Cons r) (doUnescape aq ds)))
      else map_sum id (Cons c) (doUnescape aq cs))"

text \<open>\<open>PsiQuoter\<close> is the UTT-like quoter with \<open>#\<close> as the only additional character.\<close>

definition psiQuotations :: string where
  "psiQuotations = ''#''"


section \<open>Escaped positions\<close>

text \<open>\<open>s.find_last_not_of('\', pos)\<close>: the last position not above \<open>pos\<close> whose character is
  no backslash, \<open>None\<close> for \<open>npos\<close>.\<close>

fun find_last_not_backslash :: "string \<Rightarrow> nat \<Rightarrow> nat option" where
  "find_last_not_backslash s 0 =
     (if s \<noteq> [] \<and> s ! 0 \<noteq> CHR 0x5C then Some 0 else None)"
| "find_last_not_backslash s (Suc i) =
     (if Suc i < length s \<and> s ! Suc i \<noteq> CHR 0x5C then Some (Suc i)
      else find_last_not_backslash s i)"

definition isEscaped :: "string \<Rightarrow> nat \<Rightarrow> bool" where
  "isEscaped s pos =
     (if pos = 0 then False
      else (case find_last_not_backslash s (pos - 1) of
              None \<Rightarrow> pos mod 2 = 1
            | Some p \<Rightarrow> (pos - p) mod 2 = 0))"

text \<open>What \<open>isEscaped\<close> is for: the number of backslashes right before \<open>pos\<close> is odd.\<close>

definition backslashes_before :: "string \<Rightarrow> nat \<Rightarrow> nat" where
  "backslashes_before s pos = length (takeWhile (\<lambda>c. c = CHR 0x5C) (rev (take pos s)))"

section \<open>Escaping and unescaping\<close>

text \<open>The interface the readers and writers of the line-based formats rely on: unescaping
  inverts escaping, and no separator survives escaping.\<close>

locale field_codec =
  fixes esc :: "string \<Rightarrow> string" and unesc :: "string \<Rightarrow> 'e + string"
    and seps :: "char set"
  assumes unesc_esc: "unesc (esc s) = Inr s"
    and esc_no_sep: "c \<in> seps \<Longrightarrow> c \<notin> set (esc s)"
begin

lemma esc_inj: "esc s = esc t \<Longrightarrow> s = t"
  by (metis unesc_esc sum.inject(2))

lemma join_inj:
  assumes "c \<in> seps" and "esc s @ c # xs = esc t @ c # ys"
  shows "s = t \<and> xs = ys"
proof -
  have "esc s = esc t \<and> xs = ys"
    using assms esc_no_sep[OF assms(1)] by (simp add: append_sep_eq_iff)
  then show ?thesis using esc_inj by blast
qed

end

lemma doUnescape_escape_char:
  assumes "CHR ''n'' \<notin> set aq" "CHR ''t'' \<notin> set aq" "CHR ''r'' \<notin> set aq"
  shows "doUnescape aq (escape_char aq c @ cs) = map_sum id (Cons c) (doUnescape aq cs)"
  using assms by (auto simp: escape_char_def unescape_char_def)

lemma doUnescape_doEscape:
  assumes "CHR ''n'' \<notin> set aq" "CHR ''t'' \<notin> set aq" "CHR ''r'' \<notin> set aq"
  shows "doUnescape aq (doEscape aq s) = Inr s"
  by (induction s)
    (simp_all add: doEscape_def doUnescape_escape_char[OF assms])

lemma set_escape_char:
  "c \<in> {CHR '' '', CHR 0x0A, CHR 0x09, CHR 0x0D} \<Longrightarrow> c \<notin> set (escape_char aq d)"
  by (auto simp: escape_char_def split: if_splits)

lemma set_doEscape:
  "c \<in> {CHR '' '', CHR 0x0A, CHR 0x09, CHR 0x0D} \<Longrightarrow> c \<notin> set (doEscape aq s)"
  using set_escape_char by (auto simp: doEscape_def)

interpretation psi_codec: field_codec "doEscape psiQuotations" "doUnescape psiQuotations"
  "{CHR '' '', CHR 0x0A, CHR 0x09, CHR 0x0D}"
proof (unfold_locales, goal_cases)
  case 1
  show ?case by (rule doUnescape_doEscape) (auto simp: psiQuotations_def)
next
  case 2
  then show ?case by (rule set_doEscape)
qed

lemma find_last_not_backslash_None:
  "i < length s \<Longrightarrow> find_last_not_backslash s i = None \<longleftrightarrow> (\<forall>j\<le>i. s ! j = CHR 0x5C)"
  by (induction i) (auto simp: le_Suc_eq)

lemma find_last_not_backslash_Some:
  "i < length s \<Longrightarrow> find_last_not_backslash s i = Some l \<longleftrightarrow>
     l \<le> i \<and> s ! l \<noteq> CHR 0x5C \<and> (\<forall>j. l < j \<and> j \<le> i \<longrightarrow> s ! j = CHR 0x5C)"
proof (induction i)
  case 0
  then show ?case by (cases l) auto
next
  case (Suc i)
  then show ?case by (auto simp: le_Suc_eq)
qed

lemma backslashes_before_Suc:
  "i < length s \<Longrightarrow> backslashes_before s (Suc i) =
     (if s ! i = CHR 0x5C then Suc (backslashes_before s i) else 0)"
  by (simp add: backslashes_before_def take_Suc_conv_app_nth)

lemma backslashes_before_run:
  "n \<le> length s \<Longrightarrow> m \<le> n \<Longrightarrow> (\<forall>j. m \<le> j \<and> j < n \<longrightarrow> s ! j = CHR 0x5C) \<Longrightarrow>
   backslashes_before s n = (n - m) + backslashes_before s m"
proof (induction n)
  case (Suc n)
  then show ?case
    by (cases "m = Suc n") (auto simp: backslashes_before_Suc)
qed (simp add: backslashes_before_def)

text \<open>\<open>Escaping::isEscaped\<close> says exactly whether an odd number of backslashes stands right
  before the position.\<close>

theorem isEscaped_correct:
  assumes "pos < length s"
  shows "isEscaped s pos \<longleftrightarrow> odd (backslashes_before s pos)"
proof (cases pos)
  case 0
  then show ?thesis by (simp add: isEscaped_def backslashes_before_def)
next
  case (Suc i)
  with assms have i: "i < length s" by simp
  show ?thesis
  proof (cases "find_last_not_backslash s i")
    case None
    with i have "backslashes_before s (Suc i) = Suc i + backslashes_before s 0"
      using backslashes_before_run[of "Suc i" s 0] by (simp add: find_last_not_backslash_None)
    with Suc None show ?thesis
      by (simp add: isEscaped_def backslashes_before_def) presburger
  next
    case (Some l)
    with i have l: "l \<le> i" "s ! l \<noteq> CHR 0x5C" "\<forall>j. l < j \<and> j \<le> i \<longrightarrow> s ! j = CHR 0x5C"
      by (simp_all add: find_last_not_backslash_Some)
    with i have "backslashes_before s (Suc i) = (i - l) + backslashes_before s (Suc l)"
      using backslashes_before_run[of "Suc i" s "Suc l"] by simp
    moreover have "backslashes_before s (Suc l) = 0"
      using l i by (simp add: backslashes_before_Suc)
    ultimately show ?thesis using Suc Some l(1)
      by (simp add: isEscaped_def) presburger
  qed
qed

theorem isEscaped_correct_witness:
  "isEscaped [CHR ''a'', CHR 0x5C, CHR ''b''] 2 \<longleftrightarrow>
     odd (backslashes_before [CHR ''a'', CHR 0x5C, CHR ''b''] 2)"
  by (rule isEscaped_correct) simp

text \<open>C29: a field written by the PSI quoter is read back unchanged, whatever its characters.\<close>

theorem psi_quoter_roundtrip:
  "doUnescape psiQuotations (doEscape psiQuotations s) = Inr s"
  by (rule psi_codec.unesc_esc)

end
