(* ===== verification/Http_Request.thy ===== *)
theory Http_Request
  imports Prelude Annotation
begin

text \<open>
  The incremental parser of HTTP requests of the PSI server (\<open>server/server/header.hpp\<close>,
  \<open>server/server/request.hpp\<close>, \<open>server/server/request_parser.hpp\<close> and
  \<open>server/server/request_parser.cpp\<close>): a state machine that consumes one byte at a time and
  fills the request. One definition models each \<open>case\<close> of \<open>consume\<close>; the result \<open>None\<close> stands
  for undefined behaviour (\<open>back()\<close> of an empty vector).

  The first part of the theorems shows that undefined behaviour is never reached and that a
  request written in the HTTP syntax is read back; the second part what becomes of the data of a POST request.
\<close>

section \<open>Requests\<close>

record header =
  header_name :: string
  header_value :: string

record request =
  req_method :: string
  req_uri :: string
  http_version_major :: int
  http_version_minor :: int
  headers :: "header list"
  post_data :: string

text \<open>The object \<open>request_()\<close> of a connection, value-initialised.\<close>

definition new_request :: request where
  "new_request = \<lparr>req_method = [], req_uri = [], http_version_major = 0, http_version_minor = 0,
     headers = [], post_data = []\<rparr>"

text \<open>The loop runs from the last header to the first.\<close>

fun header_from :: "nat \<Rightarrow> header list \<Rightarrow> string \<Rightarrow> string" where
  "header_from 0 hs n = []"
| "header_from (Suc i) hs n = (if header_name (hs ! i) = n then header_value (hs ! i) else header_from i hs n)"

definition get_header_value :: "request \<Rightarrow> string \<Rightarrow> string" where
  "get_header_value req n = header_from (length (headers req)) (headers req) n"

section \<open>Bytes\<close>

text \<open>A \<open>char\<close> is signed: a byte from 128 on is negative as an \<open>int\<close>.\<close>

definition char_int :: "char \<Rightarrow> int" where
  "char_int c = (if (of_char c :: nat) < 128 then int (of_char c) else int (of_char c) - 256)"

definition is_char :: "int \<Rightarrow> bool" where
  "is_char c \<longleftrightarrow> c \<ge> 0 \<and> c \<le> 127"

definition is_ctl :: "int \<Rightarrow> bool" where
  "is_ctl c \<longleftrightarrow> (c \<ge> 0 \<and> c \<le> 31) \<or> c = 127"

definition is_tspecial :: "int \<Rightarrow> bool" where
  "is_tspecial c \<longleftrightarrow> c \<in> set (map char_int [CHR ''('', CHR '')'', CHR ''<'', CHR ''>'', CHR ''@'',
     CHR '','', CHR '';'', CHR '':'', CHR 0x5C, CHR 0x22, CHR ''/'', CHR ''['', CHR '']'', CHR ''?'',
     CHR ''='', CHR ''{'', CHR ''}'', CHR '' '', CHR 0x09])"

definition is_digit_int :: "int \<Rightarrow> bool" where
  "is_digit_int c \<longleftrightarrow> c \<ge> char_int (CHR ''0'') \<and> c \<le> char_int (CHR ''9'')"

text \<open>The bytes a token (a method, the name of a header) is made of.\<close>

definition is_token :: "char \<Rightarrow> bool" where
  "is_token c \<longleftrightarrow> \<not> (\<not> is_char (char_int c) \<or> is_ctl (char_int c) \<or> is_tspecial (char_int c))"

text \<open>A 32-bit \<open>int\<close> keeps the low 32 bits of a result.\<close>

definition to_int32 :: "int \<Rightarrow> int" where
  "to_int32 v = (v + 2 ^ 31) mod 2 ^ 32 - 2 ^ 31"

text \<open>\<open>atoi\<close>, which is \<open>strtol\<close> cast to \<open>int\<close>: blanks, a sign, digits, saturation at 64 bits.\<close>

definition atoi :: "string \<Rightarrow> int" where
  "atoi s =
     (let s1 = dropWhile is_space (NUL_free_prefix s);
          neg = (s1 \<noteq> [] \<and> hd s1 = CHR ''-'');
          s2 = (if s1 \<noteq> [] \<and> (hd s1 = CHR ''-'' \<or> hd s1 = CHR ''+'') then tl s1 else s1);
          n = int (digits_value (takeWhile is_digit s2))
      in to_int32 (if neg then max (- (2 ^ 63)) (- n) else min (2 ^ 63 - 1) n))"

section \<open>The state machine\<close>

datatype parser_state =
    Method_start | Method | Uri_start | Uri
  | Http_version_h | Http_version_t_1 | Http_version_t_2 | Http_version_p | Http_version_slash
  | Http_version_major_start | Http_version_major | Http_version_minor_start | Http_version_minor
  | Expecting_newline_1 | Header_line_start | Header_lws | Header_name | Space_before_header_value
  | Header_value | Expecting_newline_2 | Expecting_newline_3 | Post_line_start | Multipart_start

record request_parser =
  pstate :: parser_state
  post_data_length :: int
  post_data_length_counter :: int

definition new_parser :: request_parser where
  "new_parser = \<lparr>pstate = Method_start, post_data_length = 0, post_data_length_counter = 0\<rparr>"

definition parser_reset :: "request_parser \<Rightarrow> request_parser" where
  "parser_reset p = p\<lparr>pstate := Method_start\<rparr>"

datatype tribool = Tri_true | Tri_false | Indeterminate

type_synonym consumed = "(tribool \<times> request_parser \<times> request) option"

definition goto :: "parser_state \<Rightarrow> request_parser \<Rightarrow> request \<Rightarrow> consumed" where
  "goto s p req = Some (Indeterminate, p\<lparr>pstate := s\<rparr>, req)"

definition reject :: "request_parser \<Rightarrow> request \<Rightarrow> consumed" where
  "reject p req = Some (Tri_false, p, req)"

definition push_method :: "char \<Rightarrow> request \<Rightarrow> request" where
  "push_method c req = req\<lparr>req_method := req_method req @ [c]\<rparr>"

definition push_uri :: "char \<Rightarrow> request \<Rightarrow> request" where
  "push_uri c req = req\<lparr>req_uri := req_uri req @ [c]\<rparr>"

definition push_post_data :: "char \<Rightarrow> request \<Rightarrow> request" where
  "push_post_data c req = req\<lparr>post_data := post_data req @ [c]\<rparr>"

text \<open>\<open>headers.back()\<close> is undefined on an empty vector.\<close>

definition with_last_header :: "(header \<Rightarrow> header) \<Rightarrow> request \<Rightarrow> request option" where
  "with_last_header f req =
     (if headers req = [] then None
      else Some (req\<lparr>headers := butlast (headers req) @ [f (last (headers req))]\<rparr>))"

definition push_name :: "char \<Rightarrow> header \<Rightarrow> header" where
  "push_name c h = h\<lparr>header_name := header_name h @ [c]\<rparr>"

definition push_value :: "char \<Rightarrow> header \<Rightarrow> header" where
  "push_value c h = h\<lparr>header_value := header_value h @ [c]\<rparr>"

definition push_major :: "char \<Rightarrow> request \<Rightarrow> request" where
  "push_major c req = req\<lparr>http_version_major :=
     to_int32 (http_version_major req * 10 + char_int c - char_int (CHR ''0''))\<rparr>"

definition push_minor :: "char \<Rightarrow> request \<Rightarrow> request" where
  "push_minor c req = req\<lparr>http_version_minor :=
     to_int32 (http_version_minor req * 10 + char_int c - char_int (CHR ''0''))\<rparr>"

subsection \<open>The request line\<close>

definition consume_method_start :: "request_parser \<Rightarrow> request \<Rightarrow> char \<Rightarrow> consumed" where
  "consume_method_start p req c =
     (if \<not> is_char (char_int c) \<or> is_ctl (char_int c) \<or> is_tspecial (char_int c) then reject p req
      else goto Method p (push_method c req))"

definition consume_method :: "request_parser \<Rightarrow> request \<Rightarrow> char \<Rightarrow> consumed" where
  "consume_method p req c =
     (if c = CHR '' '' then goto Uri p req
      else if \<not> is_char (char_int c) \<or> is_ctl (char_int c) \<or> is_tspecial (char_int c) then reject p req
      else goto Method p (push_method c req))"

definition consume_uri_start :: "request_parser \<Rightarrow> request \<Rightarrow> char \<Rightarrow> consumed" where
  "consume_uri_start p req c =
     (if is_ctl (char_int c) then reject p req else goto Uri p (push_uri c req))"

definition consume_uri :: "request_parser \<Rightarrow> request \<Rightarrow> char \<Rightarrow> consumed" where
  "consume_uri p req c =
     (if c = CHR '' '' then goto Http_version_h p req
      else if is_ctl (char_int c) then reject p req
      else goto Uri p (push_uri c req))"

text \<open>The four states that read the letters of \<open>HTTP\<close>.\<close>

definition consume_http :: "request_parser \<Rightarrow> request \<Rightarrow> char \<Rightarrow> consumed" where
  "consume_http p req c =
     (case pstate p of
        Http_version_h \<Rightarrow> if c = CHR ''H'' then goto Http_version_t_1 p req else reject p req
      | Http_version_t_1 \<Rightarrow> if c = CHR ''T'' then goto Http_version_t_2 p req else reject p req
      | Http_version_t_2 \<Rightarrow> if c = CHR ''T'' then goto Http_version_p p req else reject p req
      | _ \<Rightarrow> if c = CHR ''P'' then goto Http_version_slash p req else reject p req)"

definition consume_slash :: "request_parser \<Rightarrow> request \<Rightarrow> char \<Rightarrow> consumed" where
  "consume_slash p req c =
     (if c = CHR ''/'' then
        goto Http_version_major_start p (req\<lparr>http_version_major := 0, http_version_minor := 0\<rparr>)
      else reject p req)"

definition consume_major_start :: "request_parser \<Rightarrow> request \<Rightarrow> char \<Rightarrow> consumed" where
  "consume_major_start p req c =
     (if is_digit_int (char_int c) then goto Http_version_major p (push_major c req) else reject p req)"

definition consume_major :: "request_parser \<Rightarrow> request \<Rightarrow> char \<Rightarrow> consumed" where
  "consume_major p req c =
     (if c = CHR ''.'' then goto Http_version_minor_start p req
      else if is_digit_int (char_int c) then goto Http_version_major p (push_major c req)
      else reject p req)"

definition consume_minor_start :: "request_parser \<Rightarrow> request \<Rightarrow> char \<Rightarrow> consumed" where
  "consume_minor_start p req c =
     (if is_digit_int (char_int c) then goto Http_version_minor p (push_minor c req) else reject p req)"

definition consume_minor :: "request_parser \<Rightarrow> request \<Rightarrow> char \<Rightarrow> consumed" where
  "consume_minor p req c =
     (if c = CHR 0x0D then goto Expecting_newline_1 p req
      else if is_digit_int (char_int c) then goto Http_version_minor p (push_minor c req)
      else reject p req)"

definition consume_newline_1 :: "request_parser \<Rightarrow> request \<Rightarrow> char \<Rightarrow> consumed" where
  "consume_newline_1 p req c = (if c = CHR 0x0A then goto Header_line_start p req else reject p req)"

subsection \<open>Headers\<close>

definition consume_header_line_start :: "request_parser \<Rightarrow> request \<Rightarrow> char \<Rightarrow> consumed" where
  "consume_header_line_start p req c =
     (if c = CHR 0x0D then goto Expecting_newline_3 p req
      else if headers req \<noteq> [] \<and> (c = CHR '' '' \<or> c = CHR 0x09) then goto Header_lws p req
      else if \<not> is_char (char_int c) \<or> is_ctl (char_int c) \<or> is_tspecial (char_int c) then reject p req
      else goto Header_name p
        (req\<lparr>headers := headers req @ [push_name c \<lparr>header_name = [], header_value = []\<rparr>]\<rparr>))"

definition consume_header_lws :: "request_parser \<Rightarrow> request \<Rightarrow> char \<Rightarrow> consumed" where
  "consume_header_lws p req c =
     (if c = CHR 0x0D then goto Expecting_newline_2 p req
      else if c = CHR '' '' \<or> c = CHR 0x09 then goto Header_lws p req
      else if is_ctl (char_int c) then reject p req
      else Option.bind (with_last_header (push_value c) req) (goto Header_value p))"

definition consume_header_name :: "request_parser \<Rightarrow> request \<Rightarrow> char \<Rightarrow> consumed" where
  "consume_header_name p req c =
     (if c = CHR '':'' then goto Space_before_header_value p req
      else if \<not> is_char (char_int c) \<or> is_ctl (char_int c) \<or> is_tspecial (char_int c) then reject p req
      else Option.bind (with_last_header (push_name c) req) (goto Header_name p))"

definition consume_space_before_header_value :: "request_parser \<Rightarrow> request \<Rightarrow> char \<Rightarrow> consumed" where
  "consume_space_before_header_value p req c =
     (if c = CHR '' '' then goto Header_value p req else reject p req)"

definition consume_header_value :: "request_parser \<Rightarrow> request \<Rightarrow> char \<Rightarrow> consumed" where
  "consume_header_value p req c =
     (if c = CHR 0x0D then goto Expecting_newline_2 p req
      else if is_ctl (char_int c) then reject p req
      else Option.bind (with_last_header (push_value c) req) (goto Header_value p))"

definition consume_newline_2 :: "request_parser \<Rightarrow> request \<Rightarrow> char \<Rightarrow> consumed" where
  "consume_newline_2 p req c = (if c = CHR 0x0A then goto Header_line_start p req else reject p req)"

subsection \<open>Data of a POST request\<close>

definition is_multipart :: "request \<Rightarrow> bool" where
  "is_multipart req \<longleftrightarrow> take 9 (get_header_value req ''Content-Type'') = ''multipart''"

definition set_post_data_length :: "request \<Rightarrow> request_parser \<Rightarrow> request_parser" where
  "set_post_data_length req p =
     (let val = get_header_value req ''Content-Length''
      in p\<lparr>post_data_length_counter := 1, post_data_length := (if val \<noteq> [] then atoi val else 0)\<rparr>)"

definition consume_newline_3 :: "request_parser \<Rightarrow> request \<Rightarrow> char \<Rightarrow> consumed" where
  "consume_newline_3 p req c =
     (if c = CHR 0x0A then
        if req_method req = ''POST'' then
          goto (if \<not> is_multipart req then Post_line_start else Multipart_start)
            (set_post_data_length req p) req
        else Some (Tri_true, p, req)
      else reject p req)"

definition count_post_data :: "request_parser \<Rightarrow> request_parser" where
  "count_post_data p = p\<lparr>post_data_length_counter := to_int32 (post_data_length_counter p + 1)\<rparr>"

definition consume_post_line_start :: "request_parser \<Rightarrow> request \<Rightarrow> char \<Rightarrow> consumed" where
  "consume_post_line_start p req c =
     (if c \<noteq> CHR 0x0A \<and> c \<noteq> CHR 0x0D then
        if post_data_length_counter p < post_data_length p then
          Some (Indeterminate, count_post_data p, push_post_data c req)
        else Some (Tri_true, p, push_post_data c req)
      else reject p req)"

definition consume_multipart_start :: "request_parser \<Rightarrow> request \<Rightarrow> char \<Rightarrow> consumed" where
  "consume_multipart_start p req c =
     (if post_data_length_counter p < post_data_length p then
        Some (Indeterminate, count_post_data p, push_post_data c req)
      else Some (Tri_true, p, req))"

subsection \<open>The parser\<close>

definition consume :: "request_parser \<Rightarrow> request \<Rightarrow> char \<Rightarrow> consumed" where
  "consume p req c = (case pstate p of
       Method_start \<Rightarrow> consume_method_start p req c
     | Method \<Rightarrow> consume_method p req c
     | Uri_start \<Rightarrow> consume_uri_start p req c
     | Uri \<Rightarrow> consume_uri p req c
     | Http_version_h \<Rightarrow> consume_http p req c
     | Http_version_t_1 \<Rightarrow> consume_http p req c
     | Http_version_t_2 \<Rightarrow> consume_http p req c
     | Http_version_p \<Rightarrow> consume_http p req c
     | Http_version_slash \<Rightarrow> consume_slash p req c
     | Http_version_major_start \<Rightarrow> consume_major_start p req c
     | Http_version_major \<Rightarrow> consume_major p req c
     | Http_version_minor_start \<Rightarrow> consume_minor_start p req c
     | Http_version_minor \<Rightarrow> consume_minor p req c
     | Expecting_newline_1 \<Rightarrow> consume_newline_1 p req c
     | Header_line_start \<Rightarrow> consume_header_line_start p req c
     | Header_lws \<Rightarrow> consume_header_lws p req c
     | Header_name \<Rightarrow> consume_header_name p req c
     | Space_before_header_value \<Rightarrow> consume_space_before_header_value p req c
     | Header_value \<Rightarrow> consume_header_value p req c
     | Expecting_newline_2 \<Rightarrow> consume_newline_2 p req c
     | Expecting_newline_3 \<Rightarrow> consume_newline_3 p req c
     | Post_line_start \<Rightarrow> consume_post_line_start p req c
     | Multipart_start \<Rightarrow> consume_multipart_start p req c)"

lemmas consume_cases = consume_method_start_def consume_method_def consume_uri_start_def consume_uri_def
  consume_http_def consume_slash_def consume_major_start_def consume_major_def consume_minor_start_def
  consume_minor_def consume_newline_1_def consume_header_line_start_def consume_header_lws_def
  consume_header_name_def consume_space_before_header_value_def consume_header_value_def
  consume_newline_2_def consume_newline_3_def consume_post_line_start_def consume_multipart_start_def

text \<open>The bytes between \<open>begin\<close> and \<open>end\<close>; the last component of the result are those not
  consumed.\<close>

fun parse :: "request_parser \<Rightarrow> request \<Rightarrow> string \<Rightarrow> (tribool \<times> request_parser \<times> request \<times> string) option"
where
  "parse p req [] = Some (Indeterminate, p, req, [])"
| "parse p req (c # cs) =
     (case consume p req c of
        None \<Rightarrow> None
      | Some (Indeterminate, p', req') \<Rightarrow> parse p' req' cs
      | Some (r, p', req') \<Rightarrow> Some (r, p', req', cs))"

section \<open>Steps of the parser\<close>

lemma parse_goto: "consume p req c = goto s p' req' \<Longrightarrow> parse p req (c # cs) = parse (p'\<lparr>pstate := s\<rparr>) req' cs"
  by (simp add: goto_def)

text \<open>A header has been started whenever the parser is inside one.\<close>

definition header_open :: "request_parser \<Rightarrow> request \<Rightarrow> bool" where
  "header_open p req \<longleftrightarrow>
     (pstate p \<in> {Header_lws, Header_name, Space_before_header_value, Header_value} \<longrightarrow> headers req \<noteq> [])"

lemma consume_header_open:
  assumes "header_open p req"
  obtains r p' req' where "consume p req c = Some (r, p', req')" "header_open p' req'"
proof -
  have "\<exists>r p' req'. consume p req c = Some (r, p', req') \<and> header_open p' req'"
    using assms
    by (cases "pstate p")
      (simp_all add: consume_def consume_cases goto_def reject_def header_open_def with_last_header_def
        set_post_data_length_def count_post_data_def push_method_def push_uri_def push_major_def
        push_minor_def push_post_data_def Let_def)
  with that show thesis by blast
qed

lemma parse_header_open: "header_open p req \<Longrightarrow> parse p req s \<noteq> None"
proof (induction s arbitrary: p req)
  case (Cons c s)
  obtain r p' req' where c: "consume p req c = Some (r, p', req')" "header_open p' req'"
    using consume_header_open[OF Cons.prems] by metis
  then show ?case using Cons.IH[OF c(2)] by (cases r) simp_all
qed simp

text \<open>C37: No input makes the parser access the last header of a request without headers: on every
  sequence of bytes, from the initial parser and request, its behaviour is defined.\<close>

theorem parse_defined: "parse new_parser new_request s \<noteq> None"
  by (rule parse_header_open) (simp add: header_open_def new_parser_def)

section \<open>Requests as text\<close>

text \<open>The HTTP syntax of a request: what a client sends.\<close>

definition render_header :: "header \<Rightarrow> string" where
  "render_header h = header_name h @ CHR '':'' # CHR '' '' # header_value h @ [CHR 0x0D, CHR 0x0A]"

definition render_request :: "request \<Rightarrow> string" where
  "render_request req = req_method req @ CHR '' '' # req_uri req @ '' HTTP/'' @
     itoa (http_version_major req) @ CHR ''.'' # itoa (http_version_minor req) @
     [CHR 0x0D, CHR 0x0A] @ concat (map render_header (headers req)) @ [CHR 0x0D, CHR 0x0A]"

definition no_ctl :: "string \<Rightarrow> bool" where
  "no_ctl s \<longleftrightarrow> (\<forall>c \<in> set s. \<not> is_ctl (char_int c))"

definition wf_token :: "string \<Rightarrow> bool" where
  "wf_token s \<longleftrightarrow> s \<noteq> [] \<and> (\<forall>c \<in> set s. is_token c)"

definition wf_header :: "header \<Rightarrow> bool" where
  "wf_header h \<longleftrightarrow> wf_token (header_name h) \<and> no_ctl (header_value h)"

definition wf_request :: "request \<Rightarrow> bool" where
  "wf_request req \<longleftrightarrow> wf_token (req_method req) \<and> no_ctl (req_uri req) \<and> CHR '' '' \<notin> set (req_uri req) \<and>
     0 \<le> http_version_major req \<and> http_version_major req < 2 ^ 31 \<and>
     0 \<le> http_version_minor req \<and> http_version_minor req < 2 ^ 31 \<and>
     list_all wf_header (headers req) \<and> post_data req = []"

lemma token_special: "is_token c \<Longrightarrow> c \<noteq> CHR '' '' \<and> c \<noteq> CHR '':'' \<and> c \<noteq> CHR 0x0D \<and> c \<noteq> CHR 0x09"
  by (auto simp: is_token_def is_tspecial_def is_ctl_def char_int_def)

lemma ctl_special: "\<not> is_ctl (char_int c) \<Longrightarrow> c \<noteq> CHR 0x0D \<and> c \<noteq> CHR 0x0A"
  by (auto simp: is_ctl_def char_int_def)

lemma char_int_digit: "n < 10 \<Longrightarrow> char_int (digit n) = 48 + int n"
  by (simp add: char_int_def digit_def)

lemma is_digit_int_digit: "n < 10 \<Longrightarrow> is_digit_int (48 + int n)"
  by (simp add: is_digit_int_def char_int_def)

lemma request_same:
  "http_version_major req = v \<Longrightarrow> req\<lparr>http_version_major := v\<rparr> = req"
  "headers req = hs \<Longrightarrow> req\<lparr>headers := hs\<rparr> = req"
  by auto

lemma parser_same: "pstate p = s \<Longrightarrow> p\<lparr>pstate := s\<rparr> = p"
  by auto

lemma update_swap:
  "req\<lparr>http_version_minor := b, http_version_major := a\<rparr> = req\<lparr>http_version_major := a, http_version_minor := b\<rparr>"
  by (cases req) simp

lemma header_fields: "\<lparr>header_name = header_name h, header_value = header_value h\<rparr> = (h :: header)"
  by (cases h) simp

lemma request_fields:
  assumes "post_data req = []"
  shows "\<lparr>req_method = req_method req, req_uri = req_uri req, http_version_major = http_version_major req,
    http_version_minor = http_version_minor req, headers = [], post_data = []\<rparr> = req\<lparr>headers := []\<rparr>"
  using assms by (cases req) simp

lemma digit_special: "n < 10 \<Longrightarrow> digit n \<noteq> CHR ''.'' \<and> digit n \<noteq> CHR 0x0D"
  by (auto dest!: arg_cong[where f = "of_char :: char \<Rightarrow> nat"])

lemma to_int32_id [simp]: "- (2 ^ 31) \<le> v \<Longrightarrow> v < 2 ^ 31 \<Longrightarrow> to_int32 v = v"
  by (simp add: to_int32_def)

subsection \<open>The request line\<close>

lemma parse_method:
  "\<forall>c \<in> set m. is_token c \<Longrightarrow> pstate p = Method \<Longrightarrow>
   parse p req (m @ CHR '' '' # cs) = parse (p\<lparr>pstate := Uri\<rparr>) (req\<lparr>req_method := req_method req @ m\<rparr>) cs"
proof (induction m arbitrary: p req)
  case (Cons c m)
  then have "consume p req c = goto Method p (push_method c req)"
    using token_special[of c] by (auto simp: consume_def consume_method_def is_token_def)
  with Cons show ?case by (simp add: goto_def push_method_def)
qed (simp add: consume_def consume_method_def goto_def)

lemma parse_uri:
  "no_ctl u \<Longrightarrow> CHR '' '' \<notin> set u \<Longrightarrow> pstate p = Uri \<Longrightarrow>
   parse p req (u @ CHR '' '' # cs) = parse (p\<lparr>pstate := Http_version_h\<rparr>) (req\<lparr>req_uri := req_uri req @ u\<rparr>) cs"
proof (induction u arbitrary: p req)
  case (Cons c u)
  then have "consume p req c = goto Uri p (push_uri c req)"
    by (auto simp: consume_def consume_uri_def no_ctl_def)
  with Cons show ?case by (simp add: goto_def push_uri_def no_ctl_def)
qed (simp add: consume_def consume_uri_def goto_def)

lemma parse_major:
  "int n < 2 ^ 31 \<Longrightarrow> parse (p\<lparr>pstate := Http_version_major_start\<rparr>) (req\<lparr>http_version_major := 0\<rparr>) (itoa_nat n @ cs) =
     parse (p\<lparr>pstate := Http_version_major\<rparr>) (req\<lparr>http_version_major := int n\<rparr>) cs"
proof (induction n arbitrary: cs rule: itoa_nat.induct)
  case (1 n)
  have d: "n mod 10 < 10" by simp
  show ?case
  proof (cases "n < 10")
    case True
    then show ?thesis
      by (simp add: itoa_nat.simps[of n] consume_def consume_major_start_def is_digit_int_digit goto_def
          push_major_def char_int_digit char_int_def[of "CHR ''0''"])
  next
    case False
    have "int (n div 10) * 10 + int (n mod 10) = int n"
      by (metis div_mult_mod_eq of_nat_add of_nat_mult of_nat_numeral)
    with 1 False show ?thesis
      by (simp add: itoa_nat.simps[of n] consume_def consume_major_def is_digit_int_digit[OF d] goto_def
          push_major_def char_int_digit[OF d] char_int_def[of "CHR ''0''"] digit_special)
  qed
qed

lemma parse_minor:
  "int n < 2 ^ 31 \<Longrightarrow> parse (p\<lparr>pstate := Http_version_minor_start\<rparr>) (req\<lparr>http_version_minor := 0\<rparr>) (itoa_nat n @ cs) =
     parse (p\<lparr>pstate := Http_version_minor\<rparr>) (req\<lparr>http_version_minor := int n\<rparr>) cs"
proof (induction n arbitrary: cs rule: itoa_nat.induct)
  case (1 n)
  have d: "n mod 10 < 10" by simp
  show ?case
  proof (cases "n < 10")
    case True
    then show ?thesis
      by (simp add: itoa_nat.simps[of n] consume_def consume_minor_start_def is_digit_int_digit goto_def
          push_minor_def char_int_digit char_int_def[of "CHR ''0''"])
  next
    case False
    have "int (n div 10) * 10 + int (n mod 10) = int n"
      by (metis div_mult_mod_eq of_nat_add of_nat_mult of_nat_numeral)
    with 1 False show ?thesis
      by (simp add: itoa_nat.simps[of n] consume_def consume_minor_def is_digit_int_digit[OF d] goto_def
          push_minor_def char_int_digit[OF d] char_int_def[of "CHR ''0''"] digit_special)
  qed
qed

lemma parse_http:
  assumes "pstate p = Http_version_h" "0 \<le> major" "major < 2 ^ 31" "0 \<le> minor" "minor < 2 ^ 31"
  shows "parse p req (''HTTP/'' @ itoa major @ CHR ''.'' # itoa minor @ [CHR 0x0D, CHR 0x0A] @ cs) =
    parse (p\<lparr>pstate := Header_line_start\<rparr>) (req\<lparr>http_version_major := major, http_version_minor := minor\<rparr>) cs"
proof -
  let ?r0 = "req\<lparr>http_version_major := 0, http_version_minor := 0\<rparr>"
  let ?tail = "[CHR 0x0D, CHR 0x0A] @ cs"
  have "parse p req (''HTTP/'' @ itoa major @ CHR ''.'' # itoa minor @ ?tail) =
    parse (p\<lparr>pstate := Http_version_major_start\<rparr>) (?r0\<lparr>http_version_major := 0\<rparr>)
      (itoa_nat (nat major) @ CHR ''.'' # itoa_nat (nat minor) @ ?tail)"
    using assms by (simp add: consume_def consume_http_def consume_slash_def goto_def itoa_def request_same)
  also have "\<dots> = parse (p\<lparr>pstate := Http_version_major\<rparr>) (?r0\<lparr>http_version_major := major\<rparr>)
      (CHR ''.'' # itoa_nat (nat minor) @ ?tail)"
    using assms(2,3) by (subst parse_major) simp_all
  also have "\<dots> = parse (p\<lparr>pstate := Http_version_minor_start\<rparr>)
      (req\<lparr>http_version_major := major, http_version_minor := 0\<rparr>) (itoa_nat (nat minor) @ ?tail)"
    by (simp add: consume_def consume_major_def goto_def update_swap)
  also have "\<dots> = parse (p\<lparr>pstate := Http_version_minor\<rparr>)
      (req\<lparr>http_version_major := major, http_version_minor := minor\<rparr>) ?tail"
    using parse_minor[of "nat minor" p "req\<lparr>http_version_major := major\<rparr>" ?tail] assms(4,5) by simp
  also have "\<dots> = parse (p\<lparr>pstate := Header_line_start\<rparr>)
      (req\<lparr>http_version_major := major, http_version_minor := minor\<rparr>) cs"
    by (simp add: consume_def consume_minor_def consume_newline_1_def goto_def)
  finally show ?thesis .
qed

subsection \<open>Headers\<close>

lemma parse_header_name:
  "\<forall>c \<in> set n. is_token c \<Longrightarrow> pstate p = Header_name \<Longrightarrow> headers req = hs @ [h] \<Longrightarrow>
   parse p req (n @ CHR '':'' # CHR '' '' # cs) =
     parse (p\<lparr>pstate := Header_value\<rparr>) (req\<lparr>headers := hs @ [h\<lparr>header_name := header_name h @ n\<rparr>]\<rparr>) cs"
proof (induction n arbitrary: p req h)
  case (Cons c n)
  then have "consume p req c = goto Header_name p (req\<lparr>headers := hs @ [push_name c h]\<rparr>)"
    using token_special[of c] by (auto simp: consume_def consume_header_name_def is_token_def with_last_header_def)
  with Cons show ?case by (simp add: goto_def push_name_def)
qed (simp add: consume_def consume_header_name_def consume_space_before_header_value_def goto_def request_same)

lemma parse_header_value:
  "no_ctl v \<Longrightarrow> pstate p = Header_value \<Longrightarrow> headers req = hs @ [h] \<Longrightarrow>
   parse p req (v @ [CHR 0x0D, CHR 0x0A] @ cs) =
     parse (p\<lparr>pstate := Header_line_start\<rparr>) (req\<lparr>headers := hs @ [h\<lparr>header_value := header_value h @ v\<rparr>]\<rparr>) cs"
proof (induction v arbitrary: p req h)
  case (Cons c v)
  then have "consume p req c = goto Header_value p (req\<lparr>headers := hs @ [push_value c h]\<rparr>)"
    using ctl_special[of c] by (auto simp: consume_def consume_header_value_def no_ctl_def with_last_header_def)
  with Cons show ?case by (simp add: goto_def push_value_def no_ctl_def)
qed (simp add: consume_def consume_header_value_def consume_newline_2_def goto_def request_same)

lemma parse_header:
  assumes "wf_header h" "pstate p = Header_line_start"
  shows "parse p req (render_header h @ cs) = parse p (req\<lparr>headers := headers req @ [h]\<rparr>) cs"
proof -
  obtain c n where n: "header_name h = c # n" "is_token c" "\<forall>c \<in> set n. is_token c"
    using assms(1) by (cases "header_name h") (auto simp: wf_header_def wf_token_def)
  let ?h = "push_name c \<lparr>header_name = [], header_value = []\<rparr>"
  have "consume p req c = goto Header_name p (req\<lparr>headers := headers req @ [?h]\<rparr>)"
    using n(2) token_special[OF n(2)] assms(2)
    by (auto simp: consume_def consume_header_line_start_def is_token_def)
  then have "parse p req (render_header h @ cs) = parse (p\<lparr>pstate := Header_name\<rparr>)
      (req\<lparr>headers := headers req @ [?h]\<rparr>)
      (n @ CHR '':'' # CHR '' '' # header_value h @ [CHR 0x0D, CHR 0x0A] @ cs)"
    by (simp add: render_header_def n(1) goto_def)
  also have "\<dots> = parse (p\<lparr>pstate := Header_value\<rparr>)
      (req\<lparr>headers := headers req @ [\<lparr>header_name = c # n, header_value = []\<rparr>]\<rparr>)
      (header_value h @ [CHR 0x0D, CHR 0x0A] @ cs)"
    by (subst parse_header_name[OF n(3) _ , where hs = "headers req" and h = ?h]) (simp_all add: push_name_def)
  also have "\<dots> = parse (p\<lparr>pstate := Header_line_start\<rparr>) (req\<lparr>headers := headers req @ [h]\<rparr>) cs"
    using assms(1)
    by (subst parse_header_value[where hs = "headers req" and h = "\<lparr>header_name = c # n, header_value = []\<rparr>"])
      (simp_all add: wf_header_def n(1)[symmetric] header_fields)
  finally show ?thesis unfolding parser_same[OF assms(2)] .
qed

lemma parse_headers:
  "list_all wf_header hs \<Longrightarrow> pstate p = Header_line_start \<Longrightarrow>
   parse p req (concat (map render_header hs) @ cs) = parse p (req\<lparr>headers := headers req @ hs\<rparr>) cs"
  by (induction hs arbitrary: req) (simp_all add: parse_header)

text \<open>Everything up to the empty line that ends the headers.\<close>

lemma parse_head:
  assumes "wf_request req"
  shows "parse new_parser new_request (render_request req @ cs) =
     parse (new_parser\<lparr>pstate := Expecting_newline_3\<rparr>) req (CHR 0x0A # cs)"
proof -
  obtain c m where m: "req_method req = c # m" "is_token c" "\<forall>c \<in> set m. is_token c"
    using assms by (cases "req_method req") (auto simp: wf_request_def wf_token_def)
  let ?hs = "concat (map render_header (headers req)) @ [CHR 0x0D, CHR 0x0A] @ cs"
  let ?v = "''HTTP/'' @ itoa (http_version_major req) @ CHR ''.'' # itoa (http_version_minor req) @ [CHR 0x0D, CHR 0x0A] @ ?hs"
  have "parse new_parser new_request (render_request req @ cs) =
     parse (new_parser\<lparr>pstate := Method\<rparr>) (new_request\<lparr>req_method := [c]\<rparr>)
       (m @ CHR '' '' # req_uri req @ CHR '' '' # ?v)"
    using m(2)
    by (simp add: render_request_def m(1) consume_def consume_method_start_def is_token_def goto_def
        new_parser_def push_method_def new_request_def)
  also have "\<dots> = parse (new_parser\<lparr>pstate := Uri\<rparr>) (new_request\<lparr>req_method := req_method req\<rparr>)
       (req_uri req @ CHR '' '' # ?v)"
    by (subst parse_method[OF m(3)]) (simp_all add: m(1))
  also have "\<dots> = parse (new_parser\<lparr>pstate := Http_version_h\<rparr>)
       (new_request\<lparr>req_method := req_method req, req_uri := req_uri req\<rparr>) ?v"
    using assms by (subst parse_uri) (simp_all add: wf_request_def new_request_def)
  also have "\<dots> = parse (new_parser\<lparr>pstate := Header_line_start\<rparr>) (req\<lparr>headers := []\<rparr>) ?hs"
    using assms by (subst parse_http) (simp_all add: wf_request_def new_request_def request_fields)
  also have "\<dots> = parse (new_parser\<lparr>pstate := Header_line_start\<rparr>) req ([CHR 0x0D, CHR 0x0A] @ cs)"
    using assms by (subst parse_headers) (simp_all add: wf_request_def)
  also have "\<dots> = parse (new_parser\<lparr>pstate := Expecting_newline_3\<rparr>) req (CHR 0x0A # cs)"
    by (simp add: consume_def consume_header_line_start_def goto_def)
  finally show ?thesis .
qed

subsection \<open>Round trips\<close>

text \<open>C4: A request without data that is written in the HTTP syntax is read back as it is: the parser
  accepts with its last byte, leaves what follows unconsumed, and the request it filled is the
  one that was written.\<close>

theorem request_roundtrip:
  assumes "wf_request req" "req_method req \<noteq> ''POST''"
  shows "parse new_parser new_request (render_request req @ rest) =
    Some (Tri_true, new_parser\<lparr>pstate := Expecting_newline_3\<rparr>, req, rest)"
  by (simp add: parse_head[OF assms(1)] consume_def consume_newline_3_def assms(2))

definition get_example :: request where
  "get_example = \<lparr>req_method = ''GET'', req_uri = ''/a.html?x=1'', http_version_major = 1,
     http_version_minor = 10, headers = [\<lparr>header_name = ''Host'', header_value = ''psi''\<rparr>],
     post_data = []\<rparr>"

lemma request_roundtrip_witness:
  "parse new_parser new_request (render_request get_example @ ''xy'') =
    Some (Tri_true, new_parser\<lparr>pstate := Expecting_newline_3\<rparr>, get_example, ''xy'')"
proof (rule request_roundtrip)
  show "wf_request get_example" by code_simp
  show "req_method get_example \<noteq> ''POST''" by (simp add: get_example_def)
qed

section \<open>The data of a POST request\<close>

lemma itoa_nat_no_nul: "NUL_free_prefix (itoa_nat n) = itoa_nat n"
  using itoa_nat_props[of n]
  by (auto simp: NUL_free_prefix_def takeWhile_eq_all_conv is_digit_def)

lemma atoi_itoa:
  assumes "n < 2 ^ 31"
  shows "atoi (itoa_nat n) = int n"
proof -
  note p = itoa_nat_props[of n]
  then have h: "is_digit (hd (itoa_nat n))" by (simp add: hd_in_set)
  have "dropWhile is_space (itoa_nat n) = itoa_nat n"
    by (rule dropWhile_hd) (simp add: digit_not_space[OF h])
  moreover have tw: "takeWhile is_digit (itoa_nat n) = itoa_nat n"
    using p takeWhile_all[of "itoa_nat n" is_digit] by blast
  ultimately show ?thesis
    using assms p digit_not_space[OF h] by (simp add: atoi_def itoa_nat_no_nul Let_def tw)
qed

text \<open>Inside the data the counter says how many bytes the parser will have read with the next.\<close>

lemma parse_post_data:
  assumes "pstate p = Post_line_start" "body \<noteq> []" "set body \<inter> {CHR 0x0A, CHR 0x0D} = {}"
    and "post_data_length_counter p + int (length body) = post_data_length p + 1"
    and "post_data_length p < 2 ^ 31" "1 \<le> post_data_length_counter p"
  shows "\<exists>p'. parse p req (body @ rest) = Some (Tri_true, p', req\<lparr>post_data := post_data req @ body\<rparr>, rest)"
  using assms
proof (induction body arbitrary: p req)
  case (Cons c body)
  show ?case
  proof (cases "body = []")
    case True
    with Cons.prems show ?thesis
      by (auto simp: consume_def consume_post_line_start_def push_post_data_def)
  next
    case False
    let ?p = "count_post_data p"
    have n: "post_data_length_counter ?p = post_data_length_counter p + 1"
      using False Cons.prems by (cases body) (simp_all add: count_post_data_def)
    have "consume p req c = Some (Indeterminate, ?p, push_post_data c req)"
      using False Cons.prems by (cases body) (auto simp: consume_def consume_post_line_start_def)
    with Cons.IH[of ?p "push_post_data c req"] Cons.prems False n show ?thesis
      by (simp add: count_post_data_def push_post_data_def)
  qed
qed simp

lemma parse_multipart_data:
  assumes "pstate p = Multipart_start" "body \<noteq> []"
    and "post_data_length_counter p + int (length body) = post_data_length p + 1"
    and "post_data_length p < 2 ^ 31" "1 \<le> post_data_length_counter p"
  shows "\<exists>p'. parse p req (body @ rest) = Some (Tri_true, p', req\<lparr>post_data := post_data req @ butlast body\<rparr>, rest)"
  using assms
proof (induction body arbitrary: p req)
  case (Cons c body)
  show ?case
  proof (cases "body = []")
    case True
    with Cons.prems show ?thesis
      by (simp add: consume_def consume_multipart_start_def)
  next
    case False
    let ?p = "count_post_data p"
    have n: "post_data_length_counter ?p = post_data_length_counter p + 1"
      using False Cons.prems by (cases body) (simp_all add: count_post_data_def)
    have "consume p req c = Some (Indeterminate, ?p, push_post_data c req)"
      using False Cons.prems by (cases body) (simp_all add: consume_def consume_multipart_start_def)
    with Cons.IH[of ?p "push_post_data c req"] Cons.prems False n show ?thesis
      by (simp add: count_post_data_def push_post_data_def)
  qed
qed simp

lemma parse_post_head:
  assumes "wf_request req" "req_method req = ''POST''"
    and "get_header_value req ''Content-Length'' = itoa_nat n" "n < 2 ^ 31"
  shows "parse new_parser new_request (render_request req @ cs) =
    parse \<lparr>pstate = (if is_multipart req then Multipart_start else Post_line_start),
      post_data_length = int n, post_data_length_counter = 1\<rparr> req cs"
  unfolding parse_head[OF assms(1)] using itoa_nat_props[of n]
  by (simp add: consume_def consume_newline_3_def assms(2) goto_def
      set_post_data_length_def assms(3) atoi_itoa[OF assms(4)] new_parser_def)

text \<open>C23: The data of a POST request that is not multipart is read back as it is when it contains no
  line ends and its length is announced: the parser consumes just the announced bytes.\<close>

theorem post_roundtrip:
  assumes "wf_request req" "req_method req = ''POST''" "\<not> is_multipart req"
    and "get_header_value req ''Content-Length'' = itoa_nat (length body)" "length body < 2 ^ 31"
    and "body \<noteq> []" "set body \<inter> {CHR 0x0A, CHR 0x0D} = {}"
  shows "\<exists>p. parse new_parser new_request (render_request req @ body @ rest) =
    Some (Tri_true, p, req\<lparr>post_data := body\<rparr>, rest)"
proof -
  let ?p = "\<lparr>pstate = Post_line_start, post_data_length = int (length body), post_data_length_counter = 1\<rparr>"
  have "post_data req = []" using assms(1) by (simp add: wf_request_def)
  then show ?thesis
    using parse_post_data[of ?p body req rest] assms(3,5,6,7)
    by (simp add: parse_post_head[OF assms(1,2,4,5)])
qed

text \<open>The data of a multipart request loses its last byte: the parser consumes the announced bytes
  but stores all of them except the last.\<close>

theorem multipart_loses_last_byte:
  assumes "wf_request req" "req_method req = ''POST''" "is_multipart req"
    and "get_header_value req ''Content-Length'' = itoa_nat (length body)" "length body < 2 ^ 31"
    and "body \<noteq> []"
  shows "\<exists>p. parse new_parser new_request (render_request req @ body @ rest) =
    Some (Tri_true, p, req\<lparr>post_data := butlast body\<rparr>, rest)"
proof -
  let ?p = "\<lparr>pstate = Multipart_start, post_data_length = int (length body), post_data_length_counter = 1\<rparr>"
  have "post_data req = []" using assms(1) by (simp add: wf_request_def)
  then show ?thesis
    using parse_multipart_data[of ?p body req rest] assms(3,5,6)
    by (simp add: parse_post_head[OF assms(1,2,4,5)])
qed

definition post_example :: "string \<Rightarrow> request" where
  "post_example ty = \<lparr>req_method = ''POST'', req_uri = ''/a.psis'', http_version_major = 1,
     http_version_minor = 1, headers = [\<lparr>header_name = ''Content-Type'', header_value = ty\<rparr>,
       \<lparr>header_name = ''Content-Length'', header_value = ''3''\<rparr>], post_data = []\<rparr>"

lemma post_roundtrip_witness:
  "\<exists>p. parse new_parser new_request (render_request (post_example ''text/plain'') @ ''a=b'' @ ''Z'') =
    Some (Tri_true, p, (post_example ''text/plain'')\<lparr>post_data := ''a=b''\<rparr>, ''Z'')"
proof (rule post_roundtrip)
  show "wf_request (post_example ''text/plain'')" by code_simp
  show "req_method (post_example ''text/plain'') = ''POST''" by code_simp
  show "\<not> is_multipart (post_example ''text/plain'')" by code_simp
  show "get_header_value (post_example ''text/plain'') ''Content-Length'' = itoa_nat (length ''a=b'')" by code_simp
qed simp_all

lemma multipart_loses_last_byte_witness:
  "\<exists>p. parse new_parser new_request (render_request (post_example ''multipart/form-data'') @ ''a=b'' @ ''Z'') =
    Some (Tri_true, p, (post_example ''multipart/form-data'')\<lparr>post_data := butlast ''a=b''\<rparr>, ''Z'')"
proof (rule multipart_loses_last_byte)
  show "wf_request (post_example ''multipart/form-data'')" by code_simp
  show "req_method (post_example ''multipart/form-data'') = ''POST''" by code_simp
  show "is_multipart (post_example ''multipart/form-data'')" by code_simp
  show "get_header_value (post_example ''multipart/form-data'') ''Content-Length'' = itoa_nat (length ''a=b'')"
    by code_simp
qed simp_all

end
