(* ===== verification/Std_String.thy ===== *)
theory Std_String
  imports Prelude Annotation
begin

text \<open>
  The searching operations of \<open>std::string\<close> the server uses beyond those of the annotation
  items: \<open>find\<close> of a string, \<open>find_last_of\<close> a character, \<open>substr\<close> with an \<open>int\<close> count, and the
  reading of a hexadecimal \<open>int\<close>. \<open>npos\<close> as a result is \<open>None\<close>; positions are below the
  length of the string, which fits an \<open>int\<close> for the strings the server holds.
\<close>

section \<open>Searching\<close>

fun find_sub :: "string \<Rightarrow> string \<Rightarrow> nat option" where
  "find_sub pat [] = (if pat = [] then Some 0 else None)"
| "find_sub pat (c # s) =
     (if take (length pat) (c # s) = pat then Some 0 else map_option Suc (find_sub pat s))"

definition std_find_sub :: "string \<Rightarrow> string \<Rightarrow> nat \<Rightarrow> nat option" where
  "std_find_sub s pat pos =
     (if pos > length s then None else map_option (\<lambda>i. pos + i) (find_sub pat (drop pos s)))"

fun find_last :: "char \<Rightarrow> string \<Rightarrow> nat option" where
  "find_last c [] = None"
| "find_last c (d # s) =
     (case find_last c s of
        Some i \<Rightarrow> Some (Suc i)
      | None \<Rightarrow> if c = d then Some 0 else None)"

text \<open>\<open>substr\<close> with an \<open>int\<close> count: a negative count is a huge \<open>size_t\<close>.\<close>

definition substr_int :: "string \<Rightarrow> nat \<Rightarrow> int \<Rightarrow> string_error + string" where
  "substr_int s pos n =
     (if pos > length s then Inl StringOutOfRange
      else Inr (if n < 0 then drop pos s else take (nat n) (drop pos s)))"

lemma find_sub_Some:
  "find_sub pat s = Some i \<Longrightarrow> i + length pat \<le> length s \<and> take (length pat) (drop i s) = pat"
proof (induction s arbitrary: i)
  case (Cons c s)
  show ?case
  proof (cases "take (length pat) (c # s) = pat")
    case True
    then have "length pat \<le> length (c # s)" by (metis length_take min.absorb_iff2 min.commute)
    with True Cons.prems show ?thesis by (simp del: length_Cons)
  next
    case False
    with Cons show ?thesis by auto
  qed
qed (auto split: if_splits)

text \<open>The first occurrence: no earlier position has one.\<close>

lemma find_sub_first:
  "find_sub pat s = Some i \<Longrightarrow> j < i \<Longrightarrow> take (length pat) (drop j s) \<noteq> pat"
proof (induction s arbitrary: i j)
  case (Cons c s)
  then show ?case by (cases j) (auto split: if_splits)
qed (auto split: if_splits)

lemma find_sub_None: "find_sub pat s = None \<Longrightarrow> take (length pat) (drop j s) \<noteq> pat"
proof (induction s arbitrary: j)
  case (Cons c s)
  then show ?case by (cases j) (auto split: if_splits)
qed (auto split: if_splits)

lemma find_sub_here [simp]: "find_sub pat (pat @ s) = Some 0"
proof (cases "pat @ s")
  case (Cons c t)
  then have "take (length pat) (c # t) = pat" by (metis append_eq_conv_conj)
  with Cons show ?thesis by simp
qed simp

text \<open>A search for a single character, which stops at the first one.\<close>

lemma find_sub_char: "c \<notin> set xs \<Longrightarrow> find_sub [c] (xs @ c # ys) = Some (length xs)"
  by (induction xs) auto

lemma find_sub_no_char: "c \<notin> set xs \<Longrightarrow> find_sub [c] xs = None"
  by (induction xs) auto

lemma std_find_sub_drop:
  "pos \<le> length s \<Longrightarrow> std_find_sub s pat pos = map_option (\<lambda>i. pos + i) (find_sub pat (drop pos s))"
  by (simp add: std_find_sub_def)

lemma find_last_Some: "find_last c s = Some i \<Longrightarrow> i < length s \<and> s ! i = c \<and> c \<notin> set (drop (Suc i) s)"
proof (induction s arbitrary: i)
  case (Cons d s)
  show ?case
  proof (cases "find_last c s")
    case None
    then have "c \<notin> set s" by (induction s) (auto split: option.splits if_splits)
    with Cons None show ?thesis by (auto split: if_splits)
  next
    case (Some k)
    with Cons show ?thesis by auto
  qed
qed simp

section \<open>Replacing\<close>

text \<open>\<open>boost::replace_first\<close> and \<open>boost::replace_all\<close>; the search goes on behind the inserted text.
  An empty pattern, which the server never uses, replaces nothing.\<close>

definition replace_first :: "string \<Rightarrow> string \<Rightarrow> string \<Rightarrow> string" where
  "replace_first pat rep s =
     (case find_sub pat s of
        None \<Rightarrow> s
      | Some i \<Rightarrow> if pat = [] then s else take i s @ rep @ drop (i + length pat) s)"

function replace_all :: "string \<Rightarrow> string \<Rightarrow> string \<Rightarrow> string" where
  "replace_all pat rep s =
     (if pat = [] then s
      else case find_sub pat s of
        None \<Rightarrow> s
      | Some i \<Rightarrow> take i s @ rep @ replace_all pat rep (drop (i + length pat) s))"
  by pat_completeness auto
termination
proof (relation "measure (\<lambda>(_, _, s). length s)", goal_cases)
  case (2 pat rep s i)
  then show ?case using find_sub_Some[of pat s i] by (cases pat) auto
qed simp

declare replace_all.simps [simp del]

section \<open>Hexadecimal numbers\<close>

definition hex_value :: "char \<Rightarrow> nat option" where
  "hex_value c =
     (let n = (of_char c :: nat)
      in if 48 \<le> n \<and> n \<le> 57 then Some (n - 48)
         else if 65 \<le> n \<and> n \<le> 70 then Some (n - 55)
         else if 97 \<le> n \<and> n \<le> 102 then Some (n - 87)
         else None)"

definition is_hex :: "char \<Rightarrow> bool" where
  "is_hex c \<longleftrightarrow> hex_value c \<noteq> None"

definition hex_number :: "string \<Rightarrow> nat" where
  "hex_number ds = foldl (\<lambda>n c. n * 16 + the (hex_value c)) 0 ds"

text \<open>
  \<open>is >> std::hex >> value\<close> and \<open>sscanf(s, "%x", &value)\<close> on a short text: blanks are skipped, a
  sign and a prefix \<open>0x\<close> are read, and at least one digit is needed. \<open>None\<close> is a failed read.
\<close>

definition read_hex :: "string \<Rightarrow> int option" where
  "read_hex s =
     (let s1 = dropWhile is_space s;
          neg = (s1 \<noteq> [] \<and> hd s1 = CHR ''-'');
          s2 = (if s1 \<noteq> [] \<and> (hd s1 = CHR ''-'' \<or> hd s1 = CHR ''+'') then tl s1 else s1);
          s3 = (if take 2 s2 = ''0x'' \<or> take 2 s2 = ''0X'' then drop 2 s2 else s2);
          ds = takeWhile is_hex s3
      in if ds = [] then None
         else Some (if neg then - int (hex_number ds) else int (hex_number ds)))"

text \<open>\<open>static_cast<char>\<close> of an \<open>int\<close> keeps its low 8 bits.\<close>

definition char_of_int :: "int \<Rightarrow> char" where
  "char_of_int v = char_of (nat (v mod 256))"

end
