(* ===== verification/Http_Reply.thy ===== *)
theory Http_Reply
  imports Http_Request Std_String
begin

text \<open>
  Replies of the PSI server and the handler for files (\<open>server/server/reply.hpp\<close>,
  \<open>server/server/reply.cpp\<close>, \<open>server/server/mime_types.cpp\<close>,
  \<open>server/server/request_handler.cpp\<close>). The files of the document root are a parameter: a function
  from the path given to the operating system to the content that can be read there, \<open>None\<close>
  when the file does not open.
\<close>

section \<open>Replies\<close>

datatype status_type =
    OK_status | Created_status | Accepted_status | No_content | Multiple_choices | Moved_permanently
  | Moved_temporarily | Not_modified | Bad_request | Unauthorized | Forbidden | Not_found
  | Internal_server_error | Not_implemented | Bad_gateway | Service_unavailable

record reply =
  status :: status_type
  reply_headers :: "header list"
  content :: string

abbreviation crlf :: string where
  "crlf \<equiv> [CHR 0x0D, CHR 0x0A]"

definition name_value_separator :: string where
  "name_value_separator = '': ''"

definition status_line :: "status_type \<Rightarrow> string" where
  "status_line s = (case s of
       OK_status \<Rightarrow> ''HTTP/1.0 200 OK'' @ crlf
     | Created_status \<Rightarrow> ''HTTP/1.0 201 Created'' @ crlf
     | Accepted_status \<Rightarrow> ''HTTP/1.0 202 Accepted'' @ crlf
     | No_content \<Rightarrow> ''HTTP/1.0 204 No Content'' @ crlf
     | Multiple_choices \<Rightarrow> ''HTTP/1.0 300 Multiple Choices'' @ crlf
     | Moved_permanently \<Rightarrow> ''HTTP/1.0 301 Moved Permanently'' @ crlf
     | Moved_temporarily \<Rightarrow> ''HTTP/1.0 302 Moved Temporarily'' @ crlf
     | Not_modified \<Rightarrow> ''HTTP/1.0 304 Not Modified'' @ crlf
     | Bad_request \<Rightarrow> ''HTTP/1.0 400 Bad Request'' @ crlf
     | Unauthorized \<Rightarrow> ''HTTP/1.0 401 Unauthorized'' @ crlf
     | Forbidden \<Rightarrow> ''HTTP/1.0 403 Forbidden'' @ crlf
     | Not_found \<Rightarrow> ''HTTP/1.0 404 Not Found'' @ crlf
     | Internal_server_error \<Rightarrow> ''HTTP/1.0 500 Internal Server Error'' @ crlf
     | Not_implemented \<Rightarrow> ''HTTP/1.0 501 Not Implemented'' @ crlf
     | Bad_gateway \<Rightarrow> ''HTTP/1.0 502 Bad Gateway'' @ crlf
     | Service_unavailable \<Rightarrow> ''HTTP/1.0 503 Service Unavailable'' @ crlf)"

text \<open>The buffers are sent one after the other.\<close>

definition to_buffers :: "reply \<Rightarrow> string list" where
  "to_buffers rep = [status_line (status rep)] @
     concat (map (\<lambda>h. [header_name h, name_value_separator, header_value h, crlf]) (reply_headers rep)) @
     [crlf, content rep]"

definition html_page :: "string \<Rightarrow> string \<Rightarrow> string" where
  "html_page title heading = ''<html><head><title>'' @ title @ ''</title></head><body><h1>'' @ heading @
     ''</h1></body></html>''"

definition stock_content :: "status_type \<Rightarrow> string" where
  "stock_content s = (case s of
       OK_status \<Rightarrow> []
     | Created_status \<Rightarrow> html_page ''Created'' ''201 Created''
     | Accepted_status \<Rightarrow> html_page ''Accepted'' ''202 Accepted''
     | No_content \<Rightarrow> html_page ''No Content'' ''204 Content''
     | Multiple_choices \<Rightarrow> html_page ''Multiple Choices'' ''300 Multiple Choices''
     | Moved_permanently \<Rightarrow> html_page ''Moved Permanently'' ''301 Moved Permanently''
     | Moved_temporarily \<Rightarrow> html_page ''Moved Temporarily'' ''302 Moved Temporarily''
     | Not_modified \<Rightarrow> html_page ''Not Modified'' ''304 Not Modified''
     | Bad_request \<Rightarrow> html_page ''Bad Request'' ''400 Bad Request''
     | Unauthorized \<Rightarrow> html_page ''Unauthorized'' ''401 Unauthorized''
     | Forbidden \<Rightarrow> html_page ''Forbidden'' ''403 Forbidden''
     | Not_found \<Rightarrow> html_page ''Not Found'' ''404 Not Found''
     | Internal_server_error \<Rightarrow> html_page ''Internal Server Error'' ''500 Internal Server Error''
     | Not_implemented \<Rightarrow> html_page ''Not Implemented'' ''501 Not Implemented''
     | Bad_gateway \<Rightarrow> html_page ''Bad Gateway'' ''502 Bad Gateway''
     | Service_unavailable \<Rightarrow> html_page ''Service Unavailable'' ''503 Service Unavailable'')"

definition two_headers :: "string \<Rightarrow> string \<Rightarrow> header list" where
  "two_headers body ty = [\<lparr>header_name = ''Content-Length'', header_value = itoa_nat (length body)\<rparr>,
     \<lparr>header_name = ''Content-Type'', header_value = ty\<rparr>]"

definition stock_reply :: "status_type \<Rightarrow> reply" where
  "stock_reply s = \<lparr>status = s, reply_headers = two_headers (stock_content s) ''text/html'',
     content = stock_content s\<rparr>"

section \<open>Types of files\<close>

definition mime_mappings :: "(string \<times> string) list" where
  "mime_mappings = [(''gif'', ''image/gif''), (''htm'', ''text/html''), (''html'', ''text/html''),
     (''jpg'', ''image/jpeg''), (''png'', ''image/png'')]"

definition extension_to_type :: "string \<Rightarrow> string" where
  "extension_to_type e = (case map_of mime_mappings e of Some t \<Rightarrow> t | None \<Rightarrow> ''text/plain'')"

section \<open>Paths\<close>

text \<open>\<open>None\<close> when the function returns \<open>false\<close>; its caller then does not use the output.\<close>

function url_decode :: "string \<Rightarrow> string option" where
  "url_decode s =
     (case s of
        [] \<Rightarrow> Some []
      | c # rest \<Rightarrow>
          if c = CHR ''%'' then
            if 2 \<le> length rest then
              case read_hex (take 2 rest) of
                Some v \<Rightarrow> map_option (\<lambda>out. char_of_int v # out) (url_decode (drop 2 rest))
              | None \<Rightarrow> None
            else None
          else if c = CHR ''+'' then map_option (\<lambda>out. CHR '' '' # out) (url_decode rest)
          else map_option (\<lambda>out. c # out) (url_decode rest))"
  by pat_completeness auto
termination
  by (relation "measure length") auto

declare url_decode.simps [simp del]

text \<open>The checks and completions of \<open>handle_request\<close>; \<open>None\<close> is a bad request.\<close>

definition request_path :: "string \<Rightarrow> string option" where
  "request_path uri =
     Option.bind (url_decode uri) (\<lambda>path.
       if path = [] \<or> hd path \<noteq> CHR ''/'' \<or> find_sub ''..'' path \<noteq> None then None
       else Some (if last path = CHR ''/'' then path @ ''index.html'' else path))"

definition path_extension :: "string \<Rightarrow> string" where
  "path_extension path =
     (case (find_last CHR ''/'' path, find_last CHR ''.'' path) of
        (Some last_slash_pos, Some last_dot_pos) \<Rightarrow>
          if last_dot_pos > last_slash_pos then drop (last_dot_pos + 1) path else []
      | _ \<Rightarrow> [])"

text \<open>Reading a file in blocks of 512 bytes.\<close>

function read_blocks :: "string \<Rightarrow> string \<Rightarrow> string" where
  "read_blocks out file =
     (if take 512 file = [] then out else read_blocks (out @ take 512 file) (drop 512 file))"
  by pat_completeness auto
termination
  by (relation "measure (\<lambda>(_, f). length f)") auto

declare read_blocks.simps [simp del]

text \<open>\<open>c_str()\<close> ends at the first NUL byte.\<close>

definition handle_request :: "(string \<Rightarrow> string option) \<Rightarrow> string \<Rightarrow> request \<Rightarrow> reply \<Rightarrow> reply" where
  "handle_request fs doc_root req rep =
     (case request_path (req_uri req) of
        None \<Rightarrow> stock_reply Bad_request
      | Some path \<Rightarrow>
          (case fs (NUL_free_prefix (doc_root @ path)) of
             None \<Rightarrow> stock_reply Not_found
           | Some file \<Rightarrow>
               let body = read_blocks (content rep) file
               in rep\<lparr>status := OK_status, content := body,
                    reply_headers := two_headers body (extension_to_type (path_extension path))\<rparr>))"

section \<open>Decoding of URLs\<close>

text \<open>The ways to write a byte in a URL.\<close>

definition url_encodes :: "char \<Rightarrow> string \<Rightarrow> bool" where
  "url_encodes c e \<longleftrightarrow>
     (e = [c] \<and> c \<noteq> CHR ''%'' \<and> c \<noteq> CHR ''+'') \<or> (e = ''+'' \<and> c = CHR '' '') \<or>
     (\<exists>h l. e = [CHR ''%'', h, l] \<and> is_hex h \<and> is_hex l \<and>
        of_char c = the (hex_value h) * 16 + the (hex_value l))"

lemma is_hex_iff: "is_hex c \<longleftrightarrow> (48 \<le> (of_char c :: nat) \<and> (of_char c :: nat) \<le> 57) \<or>
    (65 \<le> (of_char c :: nat) \<and> (of_char c :: nat) \<le> 70) \<or> (97 \<le> (of_char c :: nat) \<and> (of_char c :: nat) \<le> 102)"
  by (simp add: is_hex_def hex_value_def Let_def)

lemma hex_not_special: "is_hex c \<Longrightarrow> \<not> is_space c \<and> c \<noteq> CHR ''-'' \<and> c \<noteq> CHR ''+'' \<and> c \<noteq> CHR ''x'' \<and> c \<noteq> CHR ''X''"
  by (auto simp: is_hex_iff is_space_def)

lemma read_hex_digits:
  "is_hex h \<Longrightarrow> is_hex l \<Longrightarrow> read_hex [h, l] = Some (int (the (hex_value h) * 16 + the (hex_value l)))"
  using hex_not_special[of h] hex_not_special[of l]
  by (simp add: read_hex_def Let_def hex_number_def)

lemma url_decode_step:
  assumes "url_encodes c e"
  shows "url_decode (e @ s) = map_option (\<lambda>out. c # out) (url_decode s)"
proof -
  consider "e = [c]" "c \<noteq> CHR ''%''" "c \<noteq> CHR ''+''" | "e = ''+''" "c = CHR '' ''"
    | h l where "e = [CHR ''%'', h, l]" "is_hex h" "is_hex l"
        "of_char c = the (hex_value h) * 16 + the (hex_value l)"
    using assms by (auto simp: url_encodes_def)
  then show ?thesis
  proof cases
    case 3
    have "of_char c < (256 :: nat)" by (simp add: of_char_def)
    then have "char_of_int (int (the (hex_value h) * 16 + the (hex_value l))) = c"
      unfolding char_of_int_def 3(4)[symmetric] by (simp del: of_nat_add)
    with 3 show ?thesis by (subst url_decode.simps) (simp add: read_hex_digits)
  qed (subst url_decode.simps, simp)+
qed

text \<open>Decoding inverts encoding: a text each of whose bytes is written as itself, as \<open>%\<close> with
  two hexadecimal digits or, a space, as \<open>+\<close>, is decoded to that text.\<close>

theorem url_decode_encoded:
  "list_all2 url_encodes s es \<Longrightarrow> url_decode (concat es) = Some s"
proof (induction rule: list_all2_induct)
  case Nil
  then show ?case by (subst url_decode.simps) simp
next
  case (Cons c s e es)
  then show ?case by (simp add: url_decode_step)
qed

lemma url_decode_encoded_witness:
  "url_decode (concat [''a'', ''+'', ''%2F'', ''%c5'']) = Some [CHR ''a'', CHR '' '', CHR ''/'', CHR 0xC5]"
  by (rule url_decode_encoded)
    (simp add: url_encodes_def is_hex_def hex_value_def)

section \<open>Files\<close>

lemma read_blocks_append: "read_blocks out file = out @ file"
proof (induction out "file" rule: read_blocks.induct)
  case (1 out f)
  then show ?case by (subst read_blocks.simps) (simp add: append_take_drop_id)
qed

text \<open>The paths a request may reach: below the document root, without a parent directory.\<close>

definition safe_path :: "string \<Rightarrow> bool" where
  "safe_path p \<longleftrightarrow> p \<noteq> [] \<and> hd p = CHR ''/'' \<and> (\<forall>i. take 2 (drop i p) \<noteq> ''..'')"

lemma two_takeWhile: "take 2 (drop i (takeWhile P p)) = [a, b] \<Longrightarrow> take 2 (drop i p) = [a, b]"
proof (induction p arbitrary: i)
  case (Cons c p)
  show ?case
  proof (cases i)
    case 0
    with Cons.prems show ?thesis by (cases p) (auto split: if_splits)
  next
    case (Suc j)
    with Cons show ?thesis by (auto split: if_splits)
  qed
qed simp

lemma safe_path_c_str: "safe_path p \<Longrightarrow> safe_path (NUL_free_prefix p)"
  using two_takeWhile[of _ "\<lambda>c. c \<noteq> CHR 0x00" p "CHR ''.''" "CHR ''.''"]
  by (cases p) (auto simp: safe_path_def NUL_free_prefix_def)

lemma two_at: "take 2 (drop i p) = [a, b] \<longleftrightarrow> Suc i < length p \<and> p ! i = a \<and> p ! Suc i = b"
proof (induction p arbitrary: i)
  case (Cons c p)
  then show ?case by (cases i; cases p) auto
qed simp

lemma dots_index:
  assumes "\<forall>i. take 2 (drop i p) \<noteq> ''..''" "p \<noteq> []" "last p = CHR ''/''"
  shows "take 2 (drop i (p @ ''index.html'')) \<noteq> ''..''"
proof
  let ?t = "''index.html''"
  assume "take 2 (drop i (p @ ?t)) = ''..''"
  then have i: "Suc i < length p + 10" "(p @ ?t) ! i = CHR ''.''" "(p @ ?t) ! Suc i = CHR ''.''"
    unfolding two_at by simp_all
  show False
  proof (cases "Suc i < length p")
    case True
    with i have "take 2 (drop i p) = ''..''" unfolding two_at by (simp add: nth_append)
    with assms(1) show False by blast
  next
    case False
    have "Suc i \<noteq> length p"
    proof
      assume e: "Suc i = length p"
      then have "p ! i = CHR ''/''" using assms(2,3) by (metis diff_Suc_1 last_conv_nth)
      with i(2) e show False by (simp add: nth_append)
    qed
    with False i(1) have "i - length p \<in> {0..<9}" "length p \<le> i" by auto
    then have "i - length p \<in> {0, 1, 2, 3, 4, 5, 6, 7, 8}" by force
    with i(2,3) \<open>length p \<le> i\<close> show False by (auto simp: nth_append Suc_diff_le)
  qed
qed

lemma request_path_safe:
  assumes "request_path uri = Some p"
  shows "safe_path p"
proof -
  obtain q where q: "url_decode uri = Some q" "q \<noteq> []" "hd q = CHR ''/''" "find_sub ''..'' q = None"
    and p: "p = (if last q = CHR ''/'' then q @ ''index.html'' else q)"
    using assms by (auto simp: request_path_def split: bind_splits if_splits)
  have "\<forall>i. take 2 (drop i q) \<noteq> ''..''" using find_sub_None[OF q(4)] by (simp add: numeral_2_eq_2)
  with q p dots_index[of q] show ?thesis by (simp add: safe_path_def)
qed

text \<open>C31: The answer to a request depends only on files below the document root whose path contains no
  two dots in a row: two file systems that agree on those give the same reply, whatever the URI
  encodes.\<close>

theorem handle_request_confined:
  assumes "CHR 0x00 \<notin> set doc_root" "\<And>p. safe_path p \<Longrightarrow> fs (doc_root @ p) = fs' (doc_root @ p)"
  shows "handle_request fs doc_root req rep = handle_request fs' doc_root req rep"
proof (cases "request_path (req_uri req)")
  case (Some p)
  have "NUL_free_prefix (doc_root @ p) = doc_root @ NUL_free_prefix p"
    using assms(1) by (auto simp: NUL_free_prefix_def takeWhile_append)
  with Some show ?thesis
    using assms(2)[OF safe_path_c_str[OF request_path_safe[OF Some]]]
    by (simp add: handle_request_def)
qed (simp add: handle_request_def)

definition example_files :: "string \<Rightarrow> string option" where
  "example_files p = (if p = ''/srv/a.html'' then Some ''hello'' else if p = ''/etc/passwd'' then Some ''secret'' else None)"

lemma handle_request_confined_witness:
  "handle_request example_files ''/srv'' get_example (stock_reply Not_found) =
   handle_request (\<lambda>p. if p = ''/srv/a.html'' then Some ''hello'' else None) ''/srv'' get_example (stock_reply Not_found)"
  by (rule handle_request_confined) (simp_all add: example_files_def)

text \<open>A file that is found is sent completely, after a status line, its length, its type and an
  empty line: the bytes on the wire end with the file, and the announced length is its length.\<close>

theorem file_reply_text:
  assumes "request_path (req_uri req) = Some path" "fs (NUL_free_prefix (doc_root @ path)) = Some body"
  shows "concat (to_buffers (handle_request fs doc_root req \<lparr>status = s, reply_headers = [], content = []\<rparr>)) =
    ''HTTP/1.0 200 OK'' @ crlf @ ''Content-Length: '' @ itoa_nat (length body) @ crlf @
    ''Content-Type: '' @ extension_to_type (path_extension path) @ crlf @ crlf @ body"
  using assms
  by (simp add: handle_request_def read_blocks_append to_buffers_def two_headers_def status_line_def
      name_value_separator_def)

lemma file_reply_text_witness:
  "concat (to_buffers (handle_request example_files ''/srv'' (new_request\<lparr>req_uri := ''/a%2ehtml''\<rparr>)
     \<lparr>status = Not_found, reply_headers = [], content = []\<rparr>)) =
    ''HTTP/1.0 200 OK'' @ crlf @ ''Content-Length: '' @ itoa_nat (length ''hello'') @ crlf @
    ''Content-Type: '' @ extension_to_type (path_extension ''/a.html'') @ crlf @ crlf @ ''hello''"
proof (rule file_reply_text)
  show "request_path (req_uri (new_request\<lparr>req_uri := ''/a%2ehtml''\<rparr>)) = Some ''/a.html''" by code_simp
  show "example_files (NUL_free_prefix (''/srv'' @ ''/a.html'')) = Some ''hello''" by code_simp
qed

end
