(* ===== verification/Sessions.thy ===== *)
theory Sessions
  imports Http_Request Std_String
begin

text \<open>
  Sessions of the PSI server (\<open>server/session.cpp\<close>, \<open>server/session_manager.cpp\<close>,
  \<open>common/guid_generator.cpp\<close>). The clock, the calendar and the generator of random numbers
  are a parameter (\<open>Env\<close>): the time, the date as six digits and, for every seed, the sequence
  of numbers \<open>rand()\<close> yields.
\<close>

section \<open>Identifiers\<close>

record Env =
  env_time :: int
  env_date :: string
  env_rand :: "int \<Rightarrow> nat \<Rightarrow> nat"

record GUIDGenerator =
  guid_length :: int
  guid_withDate :: bool
  guid_lengthOfRandomPart :: int
  guid_counter :: int

definition GUID_MIN_SIZE :: int where "GUID_MIN_SIZE = 16"
definition GUID_DATE_SIZE :: int where "GUID_DATE_SIZE = 6"
definition GUID_PAD_SIZE :: int where "GUID_PAD_SIZE = 4"

definition determineLength :: "int \<Rightarrow> int" where
  "determineLength len = (if len < GUID_MIN_SIZE then GUID_MIN_SIZE else len)"

definition determineLengthOfRandomPart :: "int \<Rightarrow> bool \<Rightarrow> int" where
  "determineLengthOfRandomPart len withDate =
     (let currSize = (if withDate then GUID_PAD_SIZE + GUID_DATE_SIZE + 2 else GUID_PAD_SIZE + 1)
      in len - currSize)"

definition new_guid_generator :: "int \<Rightarrow> bool \<Rightarrow> GUIDGenerator" where
  "new_guid_generator len withDate = \<lparr>guid_length = determineLength len, guid_withDate = withDate,
     guid_lengthOfRandomPart = determineLengthOfRandomPart (determineLength len) withDate,
     guid_counter = 0\<rparr>"

text \<open>\<open>setw\<close> pads to four characters, \<open>erase\<close> keeps the last four.\<close>

definition zeroPadNumber :: "int \<Rightarrow> string" where
  "zeroPadNumber num =
     (let s = itoa num; result = replicate (nat GUID_PAD_SIZE - length s) (CHR ''0'') @ s
      in if int (length result) > GUID_PAD_SIZE then drop (length result - nat GUID_PAD_SIZE) result else result)"

definition random_char :: "nat \<Rightarrow> char" where
  "random_char r =
     (let randomChar = r mod (26 + 26 + 10)
      in if randomChar < 26 then char_of (97 + randomChar)
         else if randomChar < 26 + 26 then char_of (65 + randomChar - 26)
         else char_of (48 + randomChar - 26 - 26))"

definition randomString :: "Env \<Rightarrow> int \<Rightarrow> int \<Rightarrow> string" where
  "randomString env counter len = map (\<lambda>i. random_char (env_rand env (env_time env + counter) i)) [0..<nat len]"

definition getGUID :: "Env \<Rightarrow> GUIDGenerator \<Rightarrow> string \<times> GUIDGenerator" where
  "getGUID env g =
     (let counter = to_int32 (guid_counter g + 1);
          guid = (if guid_withDate g then env_date env @ ''-'' else []) @ zeroPadNumber counter @ ''-'' @
            randomString env counter (guid_lengthOfRandomPart g)
      in (guid, g\<lparr>guid_counter := counter\<rparr>))"

section \<open>A session\<close>

record Session =
  session_id :: string
  createdTime :: int
  session_data :: "string \<rightharpoonup> string"

definition new_session :: "Env \<Rightarrow> string \<Rightarrow> Session" where
  "new_session env sid = \<lparr>session_id = sid, createdTime = env_time env, session_data = Map.empty\<rparr>"

definition isData :: "string \<Rightarrow> Session \<Rightarrow> bool" where
  "isData key s = (case session_data s key of Some v \<Rightarrow> (if v = [] then False else True) | None \<Rightarrow> False)"

definition getData :: "string \<Rightarrow> Session \<Rightarrow> string" where
  "getData key s = (case session_data s key of Some v \<Rightarrow> v | None \<Rightarrow> [])"

definition setData :: "string \<Rightarrow> string \<Rightarrow> Session \<Rightarrow> Session" where
  "setData key val s = s\<lparr>session_data := (session_data s)(key \<mapsto> val)\<rparr>"

definition clearData :: "string \<Rightarrow> Session \<Rightarrow> Session" where
  "clearData key s = s\<lparr>session_data := (session_data s)(key \<mapsto> [])\<rparr>"

definition getDataOrSetIfNotExists :: "string \<Rightarrow> string \<Rightarrow> Session \<Rightarrow> string \<times> Session" where
  "getDataOrSetIfNotExists key val s =
     (let s' = (if \<not> isData key s then setData key val s else s) in (getData key s', s'))"

section \<open>The manager\<close>

record SessionManager =
  currentSessionId :: string
  guidGenerator :: GUIDGenerator
  sessions :: "string \<rightharpoonup> Session"

definition cookieIdentifier :: string where
  "cookieIdentifier = ''PSISESSIONID''"

definition sessionIdLength :: int where
  "sessionIdLength = 25"

definition new_session_manager :: SessionManager where
  "new_session_manager = \<lparr>currentSessionId = [], guidGenerator = new_guid_generator sessionIdLength True,
     sessions = Map.empty\<rparr>"

text \<open>\<open>substr\<close> throws when its first argument is beyond the end.\<close>

definition SessionId :: "string \<Rightarrow> string_error + string" where
  "SessionId cookies =
     (case std_find_sub cookies cookieIdentifier 0 of
        Some hasId \<Rightarrow> substr_int cookies (hasId + length cookieIdentifier + 1) sessionIdLength
      | None \<Rightarrow> Inr [])"

definition CookieHeaderValue :: "string \<Rightarrow> string" where
  "CookieHeaderValue sid = cookieIdentifier @ ''='' @ sid"

definition isSession :: "string \<Rightarrow> SessionManager \<Rightarrow> bool" where
  "isSession sid sm \<longleftrightarrow> sessions sm sid \<noteq> None"

definition generateNewId :: "Env \<Rightarrow> SessionManager \<Rightarrow> string \<times> SessionManager" where
  "generateNewId env sm = (let (sid, g) = getGUID env (guidGenerator sm) in (sid, sm\<lparr>guidGenerator := g\<rparr>))"

text \<open>\<open>std::map::insert\<close> keeps the session that has the key.\<close>

definition addSession :: "Session \<Rightarrow> SessionManager \<Rightarrow> SessionManager" where
  "addSession s sm =
     (if sessions sm (session_id s) \<noteq> None then sm
      else sm\<lparr>sessions := (sessions sm)(session_id s \<mapsto> s)\<rparr>)"

definition newSession :: "Env \<Rightarrow> SessionManager \<Rightarrow> Session \<times> SessionManager" where
  "newSession env sm =
     (let (sid, sm') = generateNewId env sm; s = new_session env sid in (s, addSession s sm'))"

definition setCurrentSession :: "string \<Rightarrow> SessionManager \<Rightarrow> SessionManager" where
  "setCurrentSession sid sm = sm\<lparr>currentSessionId := sid\<rparr>"

text \<open>
  A call of a method on \<open>getSession(id)\<close>, which points to the stored session, or to a new one that
  is not stored and lost after the call.
\<close>

definition on_session :: "Env \<Rightarrow> string \<Rightarrow> (Session \<Rightarrow> 'a \<times> Session) \<Rightarrow> SessionManager \<Rightarrow> 'a \<times> SessionManager"
where
  "on_session env sid f sm =
     (case sessions sm sid of
        Some s \<Rightarrow> (let (a, s') = f s in (a, sm\<lparr>sessions := (sessions sm)(sid \<mapsto> s')\<rparr>))
      | None \<Rightarrow> (let (new_id, sm') = generateNewId env sm in (fst (f (new_session env new_id)), sm')))"

definition on_current_session :: "Env \<Rightarrow> (Session \<Rightarrow> 'a \<times> Session) \<Rightarrow> SessionManager \<Rightarrow> 'a \<times> SessionManager"
where
  "on_current_session env f sm = on_session env (currentSessionId sm) f sm"

end
