(* ===== verification/Psi_Server.thy ===== *)
theory Psi_Server
  imports Http_Reply Sessions
begin

text \<open>
  The PSI server proper (\<open>server/psi_server.cpp\<close>, \<open>server/psi_request_handler.cpp\<close>): pages with
  generated parts, form data, and the handler that puts requests, sessions and pages together.

  The functions a site registers see and change the server's world: the session manager and
  the site's own state, the type parameter \<open>'p\<close>. Exceptions and undefined reads are errors of
  the programs. The decoder of multipart data is the library MPFD and a parameter; the loop over
  the pairs of a form takes fuel, since it need not end.
\<close>

section \<open>State\<close>

record 'p world =
  manager :: SessionManager
  site :: 'p

datatype server_error = Out_of_range | Uninitialised_read | Out_of_fuel

type_synonym ('p, 'a) server_prog = "(server_error, 'p world, 'a) prog"

type_synonym 'p callback = "'p world \<Rightarrow> string \<times> 'p world"

record 'p PsiServer =
  include_codes :: "string \<rightharpoonup> 'p callback"
  action_codes :: "string \<rightharpoonup> 'p callback"
  server_env :: Env

text \<open>The first function registered for a code stays.\<close>

definition registerIncludeCode :: "string \<Rightarrow> 'p callback \<Rightarrow> 'p PsiServer \<Rightarrow> 'p PsiServer" where
  "registerIncludeCode idname f srv =
     (if include_codes srv idname \<noteq> None then srv else srv\<lparr>include_codes := (include_codes srv)(idname \<mapsto> f)\<rparr>)"

definition registerActionCode :: "string \<Rightarrow> 'p callback \<Rightarrow> 'p PsiServer \<Rightarrow> 'p PsiServer" where
  "registerActionCode idname f srv =
     (if action_codes srv idname \<noteq> None then srv else srv\<lparr>action_codes := (action_codes srv)(idname \<mapsto> f)\<rparr>)"

text \<open>The result of a callback is a \<open>char*\<close> and ends at the first NUL byte.\<close>

definition call :: "'p callback \<Rightarrow> ('p, string) server_prog" where
  "call f = (\<lambda>w. let (s, w') = f w in (Inr (NUL_free_prefix s), w'))"

definition out_of_range :: "string_error + 'a \<Rightarrow> ('p, 'a) server_prog" where
  "out_of_range r = (case r of Inl _ \<Rightarrow> throw Out_of_range | Inr a \<Rightarrow> ret a)"

section \<open>Generated parts of a page\<close>

definition psis_marker :: string where "psis_marker = ''<!--#psis''"
definition comment_end :: string where "comment_end = ''-->''"

text \<open>The text generated for a code, nothing for an unknown one.\<close>

definition generate :: "'p PsiServer \<Rightarrow> string \<Rightarrow> ('p, string) server_prog" where
  "generate srv code = (case include_codes srv code of None \<Rightarrow> ret [] | Some f \<Rightarrow> call f)"

text \<open>One round of the loop: the markup between \<open>p\<close> and \<open>q\<close> is replaced by the generated text.\<close>

definition replace_markup :: "'p PsiServer \<Rightarrow> string \<Rightarrow> nat \<Rightarrow> nat \<Rightarrow> ('p, string) server_prog" where
  "replace_markup srv reply p q =
     bindE (out_of_range (substr_int reply (p + 10) (int q - int p - 14))) (\<lambda>code.
       let deleted = take p reply @ drop q reply
       in bindE (generate srv code) (\<lambda>text. ret (take p deleted @ text @ drop p deleted)))"

lemma find_marker:
  assumes "std_find_sub reply pat p = Some p'"
  shows "p \<le> p'" "p' + length pat \<le> length reply" "p \<le> length reply"
    "take (length pat) (drop p' reply) = pat"
proof -
  obtain i where i: "find_sub pat (drop p reply) = Some i" "p' = p + i" "p \<le> length reply"
    using assms by (auto simp: std_find_sub_def split: if_splits)
  from find_sub_Some[OF i(1)] i(2,3)
  show "p \<le> p'" "p' + length pat \<le> length reply" "p \<le> length reply"
    "take (length pat) (drop p' reply) = pat"
    by (auto simp: add.commute)
qed

lemma replace_markup_length:
  "replace_markup srv reply p q w = (Inr reply', w') \<Longrightarrow> p \<le> q \<Longrightarrow> q \<le> length reply \<Longrightarrow>
   length reply \<le> length reply' + q - p"
  by (auto simp: replace_markup_def bindE_def out_of_range_def Let_def ret_def throw_def
      split: sum.splits prod.splits)

function include_from :: "'p PsiServer \<Rightarrow> string \<Rightarrow> nat \<Rightarrow> ('p, string) server_prog" where
  "include_from srv reply p =
     (case std_find_sub reply psis_marker p of
        None \<Rightarrow> ret reply
      | Some p1 \<Rightarrow>
          (case std_find_sub reply comment_end p1 of
             None \<Rightarrow> ret reply
           | Some q0 \<Rightarrow>
               bindE (replace_markup srv reply p1 (q0 + 3)) (\<lambda>reply'.
                 include_from srv reply' (q0 + 3 + length reply' - length reply))))"
  by pat_completeness auto
termination
proof (relation "measure (\<lambda>(_, reply, p). length reply - p)", goal_cases)
  case (2 srv reply p p1 q0 w reply' w')
  note f = find_marker[OF 2(1)] and g = find_marker[OF 2(2)]
  have len: "q0 + 3 \<le> length reply" using g(2) by (simp add: comment_end_def)
  have m: "p1 + 9 \<le> length reply" using f(2) by (simp add: psis_marker_def)
  have "length reply \<le> length reply' + (q0 + 3) - p1"
    using replace_markup_length[OF 2(3)] len g(1) by simp
  with len m f(1) g(1) show ?case by simp
qed simp

declare include_from.simps [simp del]

definition psi_include :: "'p PsiServer \<Rightarrow> string \<Rightarrow> ('p, string) server_prog" where
  "psi_include srv reply = include_from srv reply 0"

section \<open>Forms\<close>

text \<open>
  \<open>sscanf\<close> with \<open>%2x\<close> leaves \<open>j\<close> as it was when there is no number to read: \<open>None\<close> is its
  value before the first assignment.
\<close>

function form_url_decode :: "int option \<Rightarrow> string \<Rightarrow> server_error + string" where
  "form_url_decode j s =
     (case s of
        [] \<Rightarrow> Inr []
      | c # rest \<Rightarrow>
          if c = CHR ''%'' then
            (case (case read_hex (take 2 rest) of Some v \<Rightarrow> Some v | None \<Rightarrow> j) of
               None \<Rightarrow> Inl Uninitialised_read
             | Some v \<Rightarrow> sbind (form_url_decode (Some v) (drop 2 rest)) (\<lambda>out. Inr (char_of_int v # out)))
          else sbind (form_url_decode j rest) (\<lambda>out. Inr (c # out)))"
  by pat_completeness auto
termination
  by (relation "measure (\<lambda>(_, s). length s)") auto

declare form_url_decode.simps [simp del]

definition urlDecode :: "string \<Rightarrow> server_error + string" where
  "urlDecode encodedString = form_url_decode None encodedString"

text \<open>The loop that turns every plus sign into a space.\<close>

function replace_plus :: "string \<Rightarrow> string" where
  "replace_plus val =
     (case find_sub ''+'' val of
        None \<Rightarrow> val
      | Some p \<Rightarrow> replace_plus (take p val @ '' '' @ drop (p + 1) val))"
  by pat_completeness auto
termination
proof (relation "measure (\<lambda>val. length (filter (\<lambda>c. c = CHR ''+'') val))", goal_cases)
  case (2 val p)
  have "take 1 (drop p val) = ''+''" "p < length val" using find_sub_Some[OF 2] by auto
  then have "val ! p = CHR ''+''"
    by (metis One_nat_def hd_drop_conv_nth list.sel(1) take_eq_Nil2 hd_take zero_less_one)
  then have "val = take p val @ CHR ''+'' # drop (Suc p) val" using \<open>p < length val\<close> by (metis id_take_nth_drop)
  then have "filter (\<lambda>c. c = CHR ''+'') val =
      filter (\<lambda>c. c = CHR ''+'') (take p val @ CHR ''+'' # drop (Suc p) val)" by simp
  then show ?case by simp
qed simp

declare replace_plus.simps [simp del]

definition addDataToCurrentSession :: "'p PsiServer \<Rightarrow> string \<Rightarrow> string \<Rightarrow> ('p, unit) server_prog" where
  "addDataToCurrentSession srv key val =
     modify (\<lambda>w. w\<lparr>manager := snd (on_current_session (server_env srv) (\<lambda>s. ((), setData key val s)) (manager w))\<rparr>)"

text \<open>Positions are \<open>int\<close>; \<open>-1\<close> is \<open>npos\<close>.\<close>

definition find_int :: "string \<Rightarrow> string \<Rightarrow> nat \<Rightarrow> int" where
  "find_int s pat pos = (case std_find_sub s pat pos of Some i \<Rightarrow> int i | None \<Rightarrow> -1)"

fun pairs_loop :: "nat \<Rightarrow> 'p PsiServer \<Rightarrow> string \<Rightarrow> nat \<Rightarrow> ('p, unit) server_prog" where
  "pairs_loop 0 srv uri p = throw Out_of_fuel"
| "pairs_loop (Suc fuel) srv uri p =
     (let q = find_int uri ''='' p in
      bindE (out_of_range (substr_int uri p (q - int p))) (\<lambda>nam.
      let p2 = nat (q + 1); q2 = find_int uri ''&'' p2 in
      bindE (out_of_range (if q2 \<noteq> -1 then substr_int uri p2 (q2 - int p2) else substr_int uri p2 (-1))) (\<lambda>val.
      bindE (getsE (\<lambda>_. urlDecode (replace_plus val))) (\<lambda>decoded.
      thenE (addDataToCurrentSession srv nam decoded)
        (if q2 = -1 then ret () else pairs_loop fuel srv uri (nat (q2 + 1)))))))"

definition parseNamesAndValues :: "nat \<Rightarrow> 'p PsiServer \<Rightarrow> string \<Rightarrow> nat \<Rightarrow> ('p, unit) server_prog" where
  "parseNamesAndValues fuel srv uri q = pairs_loop fuel srv uri q"

text \<open>The fields MPFD finds in the data, in the order of its map; \<open>None\<close> when it throws, which is
  caught and logged.\<close>

datatype mpfd_field = TextField string | FileField string string

type_synonym mpfd = "string \<Rightarrow> string \<Rightarrow> (string \<times> mpfd_field) list option"

fun add_field :: "'p PsiServer \<Rightarrow> string \<times> mpfd_field \<Rightarrow> ('p, unit) server_prog" where
  "add_field srv (nam, FileField filename body) =
     thenE (addDataToCurrentSession srv (nam @ ''-filename'') filename) (addDataToCurrentSession srv nam body)"
| "add_field srv (nam, TextField text) = addDataToCurrentSession srv nam text"

fun add_fields :: "'p PsiServer \<Rightarrow> (string \<times> mpfd_field) list \<Rightarrow> ('p, unit) server_prog" where
  "add_fields srv [] = ret ()"
| "add_fields srv (f # fs) = thenE (add_field srv f) (add_fields srv fs)"

definition parseMultipartFormData :: "mpfd \<Rightarrow> 'p PsiServer \<Rightarrow> request \<Rightarrow> ('p, unit) server_prog" where
  "parseMultipartFormData mp srv req =
     (case mp (get_header_value req ''Content-Type'') (post_data req) of
        None \<Rightarrow> ret ()
      | Some fs \<Rightarrow> add_fields srv fs)"

definition checkForAction :: "nat \<Rightarrow> mpfd \<Rightarrow> 'p PsiServer \<Rightarrow> request \<Rightarrow> ('p, request) server_prog" where
  "checkForAction fuel mp srv req =
     (let uri = req_uri req; post = (req_method req = ''POST'') in
      case find_sub (if \<not> post then ''.psis?'' else ''.psis'') uri of
        None \<Rightarrow> ret req
      | Some q \<Rightarrow>
          bindE (out_of_range (substr_int uri 1 (int q - 1))) (\<lambda>code.
            case action_codes srv code of
              None \<Rightarrow> ret req
            | Some f \<Rightarrow>
                thenE
                  (if find_sub ''multipart/form-data;'' (get_header_value req ''Content-Type'') = Some 0 then
                     parseMultipartFormData mp srv req
                   else if post then parseNamesAndValues fuel srv (post_data req) 0
                   else parseNamesAndValues fuel srv uri (q + 6))
                  (bindE (call f) (\<lambda>target. ret (req\<lparr>req_uri := target\<rparr>)))))"

section \<open>The handler\<close>

definition filesToContentTypes :: "(string \<times> string) list" where
  "filesToContentTypes = [(''htm'', ''text/html''), (''html'', ''text/html''), (''shtml'', ''text/html''),
     (''css'', ''text/css''), (''js'', ''application/javascript''), (''pdf'', ''application/pdf''),
     (''ps'', ''application/postscript''), (''eps'', ''application/postscript''),
     (''ai'', ''application/postscript''), (''doc'', ''application/msword''),
     (''xdoc'', ''application/msword''), (''rtf'', ''application/rtf''), (''zip'', ''application/zip''),
     (''jpg'', ''image/jpeg''), (''jpeg'', ''image/jpeg''), (''jpe'', ''image/jpeg''),
     (''png'', ''image/png''), (''gif'', ''image/gif''), (''tiff'', ''image/tiff''), (''tif'', ''image/tif'')]"

definition fileExceptionsToContentTypes :: "(string \<times> string) list" where
  "fileExceptionsToContentTypes = [(''json.psis'', ''text/javascript'')]"

definition getFileName :: "string \<Rightarrow> string" where
  "getFileName uri =
     (case find_last CHR ''/'' uri of
        None \<Rightarrow> []
      | Some startFile \<Rightarrow>
          (case find_last CHR ''?'' uri of
             Some endFile \<Rightarrow>
               let n = int endFile - int startFile - 1; rest = drop (startFile + 1) uri
               in if n < 0 then rest else take (nat n) rest
           | None \<Rightarrow> drop (startFile + 1) uri))"

definition getFileExtension :: "string \<Rightarrow> string" where
  "getFileExtension fileName =
     (case find_last CHR ''.'' fileName of Some i \<Rightarrow> drop (i + 1) fileName | None \<Rightarrow> [])"

definition getContentType :: "string \<Rightarrow> string" where
  "getContentType uri =
     (let fileName = getFileName uri;
          c1 = (case map_of fileExceptionsToContentTypes fileName of Some t \<Rightarrow> t | None \<Rightarrow> []);
          c2 = (if c1 = [] then
                  case map_of filesToContentTypes (getFileExtension fileName) of Some t \<Rightarrow> t | None \<Rightarrow> c1
                else c1);
          c3 = (if c2 = [] then ''text/html'' else c2)
      in c3 @ '';charset=UTF-8'')"

definition createCookieHeader :: "string \<Rightarrow> header" where
  "createCookieHeader sid = \<lparr>header_name = ''Set-Cookie'', header_value = CookieHeaderValue sid\<rparr>"

text \<open>The session of a request: the one its cookie names, or a new one.\<close>

definition open_session :: "'p PsiServer \<Rightarrow> request \<Rightarrow> ('p, bool \<times> string) server_prog" where
  "open_session srv req =
     bindE (out_of_range (SessionId (get_header_value req ''Cookie''))) (\<lambda>sid.
     bindE (gets (\<lambda>w. isSession sid (manager w))) (\<lambda>hasId.
     bindE
       (\<lambda>w. if hasId then
              (let (s, sm) = on_session (server_env srv) sid (\<lambda>s. (session_id s, s)) (manager w)
               in (Inr s, w\<lparr>manager := sm\<rparr>))
            else
              (let (s, sm) = newSession (server_env srv) (manager w)
               in (Inr (session_id s), w\<lparr>manager := sm\<rparr>)))
       (\<lambda>current. thenE (modify (\<lambda>w. w\<lparr>manager := setCurrentSession current (manager w)\<rparr>))
          (ret (hasId, current)))))"

definition set_header :: "nat \<Rightarrow> string \<Rightarrow> reply \<Rightarrow> reply" where
  "set_header i val rep = rep\<lparr>reply_headers :=
     (reply_headers rep)[i := (reply_headers rep ! i)\<lparr>header_value := val\<rparr>]\<rparr>"

definition psi_handle_request ::
  "nat \<Rightarrow> mpfd \<Rightarrow> (string \<Rightarrow> string option) \<Rightarrow> string \<Rightarrow> 'p PsiServer \<Rightarrow> request \<Rightarrow> reply \<Rightarrow> ('p, reply) server_prog"
where
  "psi_handle_request fuel mp fs doc_root srv req rep =
     bindE (open_session srv req) (\<lambda>(hasId, sid).
     bindE (checkForAction fuel mp srv req) (\<lambda>req_modified.
     let rep1 = handle_request fs doc_root req_modified rep in
     bindE (psi_include srv (content rep1)) (\<lambda>body.
     let rep2 = rep1\<lparr>content := body\<rparr>;
         rep3 = set_header 0 (itoa_nat (length body)) rep2;
         rep4 = set_header 1 (getContentType (req_uri req)) rep3
     in ret (if \<not> hasId then rep4\<lparr>reply_headers := reply_headers rep4 @ [createCookieHeader sid]\<rparr>
             else rep4))))"

section \<open>What the replacement of markup does\<close>

text \<open>The code between the marker and the end of the comment; a comment too short to hold a code
  makes the length negative and takes the rest of the page for one.\<close>

definition markup_code :: "string \<Rightarrow> nat \<Rightarrow> string" where
  "markup_code s j = (if j < 11 then drop 10 s else take (j - 11) (drop 10 s))"

text \<open>A page is copied up to the first marker, the generated text put in place of the markup, and
  the rest treated likewise; generated text is not searched again.\<close>

function include_spec :: "'p PsiServer \<Rightarrow> string \<Rightarrow> ('p, string) server_prog" where
  "include_spec srv s =
     (case find_sub psis_marker s of
        None \<Rightarrow> ret s
      | Some i \<Rightarrow>
          (case find_sub comment_end (drop i s) of
             None \<Rightarrow> ret s
           | Some j \<Rightarrow>
               bindE (generate srv (markup_code (drop i s) j)) (\<lambda>text.
               bindE (include_spec srv (drop (i + j + 3) s)) (\<lambda>rest.
               ret (take i s @ text @ rest)))))"
  by pat_completeness auto
termination
proof (relation "measure (\<lambda>(_, s). length s)", goal_cases)
  case (2 srv s i j)
  then show ?case using find_sub_Some[of psis_marker s i] by (auto simp: psis_marker_def)
qed simp

declare include_spec.simps [simp del]

lemma marker_length: "length psis_marker = 9" "length comment_end = 3"
  by (simp_all add: psis_marker_def comment_end_def)

lemma marker_before_end:
  assumes "take 9 s = psis_marker" "find_sub comment_end s = Some j"
  shows "9 \<le> j" "j + 3 \<le> length s"
proof -
  have j: "j + 3 \<le> length s" "take 3 (drop j s) = ''-->''"
    using find_sub_Some[OF assms(2)] unfolding marker_length by (simp_all add: comment_end_def)
  have m: "s ! k = psis_marker ! k" if "k < 9" for k
    using assms(1) that by (metis nth_take)
  have e: "s ! (j + k) = ''-->'' ! k" if "k < 3" for k
    using j that by (metis add_leD1 nth_drop nth_take)
  show "j + 3 \<le> length s" by (rule j(1))
  show "9 \<le> j"
  proof (rule ccontr)
    assume "\<not> 9 \<le> j"
    then have "j \<in> {0, 1, 2, 3, 4, 5, 6, 7, 8}" by force
    moreover have "s ! j = CHR ''-''" using e[of 0] by simp
    moreover have "s ! (j + 1) = CHR ''-''" using e[of 1] by simp
    moreover have "s ! (j + 2) = CHR ''>''" using e[of 2] by simp
    ultimately show False
      using m[of 0] m[of 1] m[of 2] m[of 3] m[of 4] m[of 5] m[of 6] m[of 7] m[of 8]
      by (auto simp: psis_marker_def)
  qed
qed

lemma replace_markup_spec:
  assumes "take 9 (drop i s) = psis_marker" "find_sub comment_end (drop i s) = Some j"
  shows "replace_markup srv (pre @ s) (length pre + i) (length pre + i + j + 3) =
    bindE (generate srv (markup_code (drop i s) j)) (\<lambda>text. ret (pre @ take i s @ text @ drop (i + j + 3) s))"
proof -
  note m = marker_before_end[OF assms]
  have i: "i + j + 3 \<le> length s" using m by simp
  have "substr_int (pre @ s) (length pre + i + 10) (int (length pre + i + j + 3) - int (length pre + i) - 14) =
      Inr (markup_code (drop i s) j)"
    using i m(1) by (auto simp: substr_int_def markup_code_def add.commute nat_diff_distrib)
  then show ?thesis
    using i by (simp add: replace_markup_def out_of_range_def add.assoc)
qed

text \<open>C6: Replacing the markup of a page in place, with a position that is moved behind each inserted
  text, is the recursive replacement: every markup of the original page is replaced by the text
  generated for its code, in order, nothing else changes, and no access is out of range.\<close>

theorem include_correct: "psi_include srv reply = include_spec srv reply"
proof -
  have "include_from srv (pre @ s) (length pre) = bindE (include_spec srv s) (\<lambda>r. ret (pre @ r))" for pre s
  proof (induction "length s" arbitrary: pre s rule: less_induct)
    case less
    show ?case
    proof (cases "find_sub psis_marker s")
      case None
      then show ?thesis
        by (simp add: include_from.simps[of srv "pre @ s"] include_spec.simps[of srv s] std_find_sub_def)
    next
      case (Some i)
      note f = find_sub_Some[OF Some]
      have i: "take 9 (drop i s) = psis_marker" "i + 9 \<le> length s" using f unfolding marker_length by simp_all
      show ?thesis
      proof (cases "find_sub comment_end (drop i s)")
        case None
        with Some i show ?thesis
          by (simp add: include_from.simps[of srv "pre @ s"] include_spec.simps[of srv s] std_find_sub_def)
      next
        case (Some j)
        note m = marker_before_end[OF i(1) Some]
        let ?rest = "drop (i + j + 3) s"
        have r: "length ?rest < length s" using m i(2) by simp
        have idx: "length pre + i + j + 3 + length (pre @ take i s @ x @ ?rest) - length (pre @ s) =
            length (pre @ take i s @ x)" for x
          using m i(2) by simp
        have "include_from srv (pre @ s) (length pre) =
          bindE (replace_markup srv (pre @ s) (length pre + i) (length pre + i + j + 3)) (\<lambda>reply'.
            include_from srv reply' (length pre + i + j + 3 + length reply' - length (pre @ s)))"
          using \<open>find_sub psis_marker s = Some i\<close> Some i(2)
          by (simp add: include_from.simps[of srv "pre @ s"] std_find_sub_def)
        also have "\<dots> = bindE (generate srv (markup_code (drop i s) j)) (\<lambda>text.
            include_from srv ((pre @ take i s @ text) @ ?rest) (length (pre @ take i s @ text)))"
          unfolding replace_markup_spec[OF i(1) Some]
          by (simp only: bindE_assoc ret_bindE idx append_assoc)
        also have "\<dots> = bindE (generate srv (markup_code (drop i s) j)) (\<lambda>text.
            bindE (include_spec srv ?rest) (\<lambda>r. ret ((pre @ take i s @ text) @ r)))"
          by (simp only: less[OF r])
        also have "\<dots> = bindE (include_spec srv s) (\<lambda>r. ret (pre @ r))"
          using \<open>find_sub psis_marker s = Some i\<close> Some
          by (simp add: include_spec.simps[of srv s] bindE_assoc)
        finally show ?thesis .
      qed
    qed
  qed
  from this[of "[]" reply] show ?thesis
    by (simp add: psi_include_def bindE_def ret_def fun_eq_iff split: prod.splits sum.splits)
qed

section \<open>Form data\<close>

lemma replace_plus_map: "replace_plus val = map (\<lambda>c. if c = CHR ''+'' then CHR '' '' else c) val"
proof (induction val rule: replace_plus.induct)
  case (1 val)
  show ?case
  proof (cases "find_sub ''+'' val")
    case None
    then have "CHR ''+'' \<notin> set val"
      using find_sub_None[OF None] by (metis One_nat_def length_Cons list.size(3) take_Suc_Cons take0
        in_set_conv_nth Cons_nth_drop_Suc)
    then have "map (\<lambda>c. if c = CHR ''+'' then CHR '' '' else c) val = val" by (auto intro: map_idI)
    with None show ?thesis by (simp add: replace_plus.simps[of val])
  next
    case (Some p)
    have "take 1 (drop p val) = ''+''" "p < length val" using find_sub_Some[OF Some] by auto
    then have "val ! p = CHR ''+''" by (simp add: take_Suc_conv_app_nth)
    then have "val = take p val @ CHR ''+'' # drop (Suc p) val"
      using \<open>p < length val\<close> by (metis id_take_nth_drop)
    then have "map (\<lambda>c. if c = CHR ''+'' then CHR '' '' else c) val =
      map (\<lambda>c. if c = CHR ''+'' then CHR '' '' else c) (take p val @ CHR ''+'' # drop (Suc p) val)" by simp
    then show ?thesis using Some 1[OF Some] by (simp add: replace_plus.simps[of val])
  qed
qed

abbreviation plus_to_space :: "string \<Rightarrow> string" where
  "plus_to_space \<equiv> map (\<lambda>c. if c = CHR ''+'' then CHR '' '' else c)"

lemma form_url_decode_step:
  assumes "url_encodes c e"
  shows "\<exists>j'. form_url_decode j (plus_to_space e @ s) = sbind (form_url_decode j' s) (\<lambda>out. Inr (c # out))"
proof -
  consider "e = [c]" "c \<noteq> CHR ''%''" "c \<noteq> CHR ''+''" | "e = ''+''" "c = CHR '' ''"
    | h l where "e = [CHR ''%'', h, l]" "is_hex h" "is_hex l"
        "of_char c = the (hex_value h) * 16 + the (hex_value l)"
    using assms by (auto simp: url_encodes_def)
  then show ?thesis
  proof cases
    case 3
    have "of_char c < (256 :: nat)" by (simp add: of_char_def)
    then have "char_of_int (int (the (hex_value h) * 16 + the (hex_value l))) = c"
      unfolding char_of_int_def 3(4)[symmetric] by (simp del: of_nat_add)
    with 3 hex_not_special[OF 3(2)] hex_not_special[OF 3(3)] show ?thesis
      by (subst form_url_decode.simps) (auto simp: read_hex_digits)
  qed (subst form_url_decode.simps, auto)+
qed

definition form_encodes :: "string \<Rightarrow> string \<Rightarrow> bool" where
  "form_encodes v e \<longleftrightarrow> (\<exists>es. e = concat es \<and> list_all2 url_encodes v es)"

lemma form_url_decode_encoded:
  "list_all2 url_encodes v es \<Longrightarrow> form_url_decode j (plus_to_space (concat es)) = Inr v"
proof (induction arbitrary: j rule: list_all2_induct)
  case Nil
  then show ?case by (subst form_url_decode.simps) simp
next
  case (Cons c v e es)
  obtain j' where "form_url_decode j (plus_to_space e @ plus_to_space (concat es)) =
      sbind (form_url_decode j' (plus_to_space (concat es))) (\<lambda>out. Inr (c # out))"
    using form_url_decode_step[OF Cons.hyps(1)] by blast
  then show ?case by (simp add: Cons.IH)
qed

lemma urlDecode_encoded: "form_encodes v e \<Longrightarrow> urlDecode (replace_plus e) = Inr v"
  by (auto simp: form_encodes_def urlDecode_def replace_plus_map form_url_decode_encoded)

text \<open>The current session of a world, and a world in which it has been replaced.\<close>

definition current :: "'p world \<Rightarrow> Session option" where
  "current w = sessions (manager w) (currentSessionId (manager w))"

definition set_current :: "Session \<Rightarrow> 'p world \<Rightarrow> 'p world" where
  "set_current s w = w\<lparr>manager := (manager w)\<lparr>sessions :=
     (sessions (manager w))(currentSessionId (manager w) \<mapsto> s)\<rparr>\<rparr>"

lemma addData_current:
  "current w = Some s \<Longrightarrow> addDataToCurrentSession srv k v w = (Inr (), set_current (setData k v s) w)"
  by (simp add: addDataToCurrentSession_def modify_def on_current_session_def on_session_def current_def
      set_current_def)

lemma current_set_current [simp]: "current (set_current s w) = Some s"
  "set_current s' (set_current s w) = set_current s' w"
  by (simp_all add: current_def set_current_def)

text \<open>The text of a form: names, encoded values and separators.\<close>

fun form_text :: "(string \<times> string) list \<Rightarrow> string" where
  "form_text [] = []"
| "form_text [(n, e)] = n @ CHR ''='' # e"
| "form_text ((n, e) # ps) = n @ CHR ''='' # e @ CHR ''&'' # form_text ps"

lemma find_int_char:
  "c \<notin> set xs \<Longrightarrow> find_int (pre @ xs @ c # ys) [c] (length pre) = int (length pre + length xs)"
  "c \<notin> set xs \<Longrightarrow> find_int (pre @ xs) [c] (length pre) = -1"
  by (simp_all add: find_int_def std_find_sub_def find_sub_char find_sub_no_char)

lemma substr_int_mid:
  "substr_int (pre @ xs @ ys) (length pre) (int (length pre + length xs) - int (length pre)) = Inr xs"
  "n < 0 \<Longrightarrow> substr_int (pre @ xs) (length pre) n = Inr xs"
  by (simp_all add: substr_int_def)

lemma out_of_range_Inr [simp]: "out_of_range (Inr a) = ret a"
  by (simp add: out_of_range_def)

text \<open>One pair that is followed by another, and the last pair.\<close>

lemma pairs_loop_step:
  assumes "CHR ''='' \<notin> set n" "CHR ''&'' \<notin> set e" "urlDecode (replace_plus e) = Inr v" "current w = Some s"
  shows "pairs_loop (Suc fuel) srv (pre @ n @ CHR ''='' # e @ CHR ''&'' # rest) (length pre) w =
      pairs_loop fuel srv (pre @ n @ CHR ''='' # e @ CHR ''&'' # rest)
        (length (pre @ n @ CHR ''='' # e @ ''&'')) (set_current (setData n v s) w)"
    and "pairs_loop (Suc fuel) srv (pre @ n @ CHR ''='' # e) (length pre) w =
      (Inr (), set_current (setData n v s) w)"
proof -
  let ?pre = "pre @ n @ ''=''"
  have p2: "nat (int (length pre + length n) + 1) = length ?pre" by simp
  let ?u = "pre @ n @ CHR ''='' # e @ CHR ''&'' # rest"
  have "find_int ?u ''='' (length pre) = int (length pre + length n)"
    by (rule find_int_char(1)[OF assms(1)])
  moreover have "find_int ?u ''&'' (length ?pre) = int (length ?pre + length e)"
    using find_int_char(1)[OF assms(2), of ?pre rest] by simp
  moreover have "substr_int ?u (length ?pre) (int (length ?pre + length e) - int (length ?pre)) = Inr e"
    using substr_int_mid(1)[of ?pre e "CHR ''&'' # rest"] by simp
  moreover have "nat (int (length ?pre + length e) + 1) = length (pre @ n @ CHR ''='' # e @ ''&'')" by simp
  ultimately show "pairs_loop (Suc fuel) srv ?u (length pre) w =
      pairs_loop fuel srv ?u (length (pre @ n @ CHR ''='' # e @ ''&'')) (set_current (setData n v s) w)"
    unfolding pairs_loop.simps Let_def using assms(3) addData_current[OF assms(4), of srv n v]
    by (simp only: p2 substr_int_mid(1)) (simp add: bindE_def thenE_def getsE_def ret_def)
  let ?u = "pre @ n @ CHR ''='' # e"
  have "find_int ?u ''='' (length pre) = int (length pre + length n)"
    by (rule find_int_char(1)[OF assms(1)])
  moreover have "find_int ?u ''&'' (length ?pre) = -1"
    using find_int_char(2)[OF assms(2), of ?pre] by simp
  moreover have "substr_int ?u (length ?pre) (-1) = Inr e"
    using substr_int_mid(2)[of "-1" ?pre e] by simp
  ultimately show "pairs_loop (Suc fuel) srv ?u (length pre) w = (Inr (), set_current (setData n v s) w)"
    unfolding pairs_loop.simps Let_def using assms(3) addData_current[OF assms(4), of srv n v]
    by (simp only: p2 substr_int_mid(1)) (simp add: bindE_def thenE_def getsE_def ret_def)
qed


text \<open>C24: The pairs of a form are all stored in the current session, in order: whatever precedes the
  form in the text, if the values are encoded (a space as a plus sign or a number), each name gets
  its decoded value, later values of a name replace earlier ones, and the loop ends after one round
  for each pair.\<close>

theorem form_data_stored:
  assumes "ps \<noteq> []" "length ps \<le> fuel" "current w = Some s"
    and "list_all2 (\<lambda>(n, e) (m, v). m = n \<and> form_encodes v e \<and> CHR ''='' \<notin> set n \<and> CHR ''&'' \<notin> set e) ps vs"
  shows "parseNamesAndValues fuel srv (pre @ form_text ps) (length pre) w =
    (Inr (), set_current (fold (\<lambda>(n, v). setData n v) vs s) w)"
  unfolding parseNamesAndValues_def using assms
proof (induction ps arbitrary: fuel pre vs s w rule: form_text.induct)
  case (2 n e)
  then obtain f where f: "fuel = Suc f" by (cases fuel) auto
  obtain v where "vs = [(n, v)]" "urlDecode (replace_plus e) = Inr v" "CHR ''='' \<notin> set n" "CHR ''&'' \<notin> set e"
    using 2(4) by (auto simp: list_all2_Cons1 urlDecode_encoded)
  with 2(3) show ?case by (simp add: f pairs_loop_step(2) del: pairs_loop.simps)
next
  case (3 n e p ps)
  then obtain f where f: "fuel = Suc f" "length (p # ps) \<le> f" by (cases fuel) auto
  obtain v vs' where v: "vs = (n, v) # vs'" "urlDecode (replace_plus e) = Inr v" "CHR ''='' \<notin> set n"
    "CHR ''&'' \<notin> set e" and
    vs': "list_all2 (\<lambda>(n, e) (m, v). m = n \<and> form_encodes v e \<and> CHR ''='' \<notin> set n \<and> CHR ''&'' \<notin> set e) (p # ps) vs'"
    using 3(5) by (auto simp: list_all2_Cons1[where xs = "p # ps"] list_all2_Cons1[of _ "(n, e)"] urlDecode_encoded)
  let ?pre = "pre @ n @ CHR ''='' # e @ ''&''"
  have "pairs_loop fuel srv (pre @ form_text ((n, e) # p # ps)) (length pre) w =
    pairs_loop f srv (?pre @ form_text (p # ps)) (length ?pre) (set_current (setData n v s) w)"
    using pairs_loop_step(1)[OF v(3,4,2) 3(4), of f srv pre "form_text (p # ps)"] by (simp add: f(1) del: pairs_loop.simps)
  also have "\<dots> = (Inr (), set_current (fold (\<lambda>(n, v). setData n v) vs' (setData n v s)) w)"
    using 3(1)[of f "set_current (setData n v s) w" "setData n v s" vs' ?pre] vs' f(2) by simp
  finally show ?case by (simp add: v(1))
qed simp

lemma form_data_stored_witness:
  "\<forall>srv env w. parseNamesAndValues 2 srv (''/x.psis?'' @ form_text [(''a'', ''1%2c+2''), (''b'', ''y'')]) (length ''/x.psis?'')
     (set_current (new_session env ''k'') w) =
   (Inr (), set_current (fold (\<lambda>(n, v). setData n v) [(''a'', ''1, 2''), (''b'', ''y'')] (new_session env ''k''))
     (set_current (new_session env ''k'') w))"
proof (intro allI, rule form_data_stored)
  have "list_all2 url_encodes ''1, 2'' [''1'', ''%2c'', ''+'', ''2'']" "list_all2 url_encodes ''y'' [''y'']"
    by (simp_all add: url_encodes_def is_hex_def hex_value_def)
  then have "form_encodes ''1, 2'' (concat [''1'', ''%2c'', ''+'', ''2''])" "form_encodes ''y'' (concat [''y''])"
    unfolding form_encodes_def by blast+
  then show "list_all2 (\<lambda>(n, e) (m, v). m = n \<and> form_encodes v e \<and> CHR ''='' \<notin> set n \<and> CHR ''&'' \<notin> set e)
      [(''a'', ''1%2c+2''), (''b'', ''y'')] [(''a'', ''1, 2''), (''b'', ''y'')]"
    by simp
qed simp_all

subsection \<open>Forms the loop does not survive\<close>

lemma form_url_decode_plain: "CHR ''%'' \<notin> set s \<Longrightarrow> form_url_decode j s = Inr s"
proof (induction s)
  case (Cons c s)
  then show ?case by (subst form_url_decode.simps) auto
qed (subst form_url_decode.simps, simp)

lemma urlDecode_plain: "CHR ''%'' \<notin> set s \<Longrightarrow> urlDecode (replace_plus s) = Inr (plus_to_space s)"
  unfolding urlDecode_def replace_plus_map by (rule form_url_decode_plain) auto

lemma addData_returns: "\<exists>w'. addDataToCurrentSession srv k v w = (Inr (), w')"
  by (simp add: addDataToCurrentSession_def modify_def)

lemma last_pair_loops:
  assumes "CHR ''='' \<notin> set x" "CHR ''&'' \<notin> set pair" "CHR ''%'' \<notin> set pair"
  shows "fst (pairs_loop fuel srv (pair @ CHR ''&'' # x) (length pair + 1) w) = Inl Out_of_fuel"
proof (induction fuel arbitrary: w)
  case 0
  then show ?case by (simp add: throw_def)
next
  case (Suc fuel)
  let ?u = "pair @ CHR ''&'' # x"
  have "find_int ?u ''='' (length pair + 1) = -1"
    using find_int_char(2)[OF assms(1), of "pair @ ''&''"] by simp
  moreover have "substr_int ?u (length pair + 1) (-1 - int (length pair + 1)) = Inr x"
    using substr_int_mid(2)[of "-1 - int (length pair + 1)" "pair @ ''&''" x] by simp
  moreover have "find_int ?u ''&'' 0 = int (length pair)"
    using find_int_char(1)[OF assms(2), of "[]" x] by simp
  moreover have "substr_int ?u 0 (int (length pair)) = Inr pair"
    using substr_int_mid(1)[of "[]" pair "CHR ''&'' # x"] by simp
  moreover have "nat (int (length pair) + 1) = length pair + 1" by simp
  moreover obtain w' where "addDataToCurrentSession srv x (plus_to_space pair) w = (Inr (), w')"
    using addData_returns by blast
  ultimately show ?case
    unfolding pairs_loop.simps Let_def using urlDecode_plain[OF assms(3)] Suc[of w']
    by (simp add: bindE_def thenE_def getsE_def ret_def)
qed

text \<open>Form data whose last part has no equals sign, as in \<open>a=b&c\<close> or \<open>a=b&\<close>, makes
  the loop run for ever: after the last part it starts again at the first ampersand. No amount of
  fuel is enough.\<close>

theorem form_without_equals_hangs:
  assumes "CHR ''='' \<notin> set n" "CHR ''&'' \<notin> set n" "CHR ''%'' \<notin> set n"
    and "CHR ''&'' \<notin> set v" "CHR ''%'' \<notin> set v" "CHR ''='' \<notin> set x"
  shows "fst (parseNamesAndValues fuel srv (n @ CHR ''='' # v @ CHR ''&'' # x) 0 w) = Inl Out_of_fuel"
proof (cases fuel)
  case (Suc f)
  let ?pair = "n @ CHR ''='' # v"
  let ?u = "n @ CHR ''='' # v @ CHR ''&'' # x"
  have "find_int ?u ''='' 0 = int (length n)"
    using find_int_char(1)[OF assms(1), of "[]"] by simp
  moreover have "substr_int ?u 0 (int (length n)) = Inr n"
    using substr_int_mid(1)[of "[]" n] by simp
  moreover have "nat (int (length n) + 1) = length n + 1" by simp
  moreover have "find_int ?u ''&'' (length n + 1) = int (length ?pair)"
    using find_int_char(1)[OF assms(4), of "n @ ''=''" x] by simp
  moreover have "substr_int ?u (length n + 1) (int (length ?pair) - int (length n + 1)) = Inr v"
    using substr_int_mid(1)[of "n @ ''=''" v "CHR ''&'' # x"] by simp
  moreover have "nat (int (length ?pair) + 1) = length ?pair + 1" by simp
  moreover obtain w' where "addDataToCurrentSession srv n (plus_to_space v) w = (Inr (), w')"
    using addData_returns by blast
  ultimately show ?thesis
    unfolding parseNamesAndValues_def Suc pairs_loop.simps Let_def
    using urlDecode_plain[OF assms(5)] last_pair_loops[of x ?pair f srv w'] assms
    by (simp add: bindE_def thenE_def getsE_def ret_def)
qed (simp add: parseNamesAndValues_def throw_def)

lemma form_without_equals_hangs_witness:
  "\<forall>fuel srv w. fst (parseNamesAndValues fuel srv (''a'' @ CHR ''='' # ''b'' @ CHR ''&'' # ''c'') 0 w) = Inl Out_of_fuel"
  by (intro allI, rule form_without_equals_hangs) simp_all

section \<open>Cookies\<close>

lemma SessionId_end:
  "SessionId c = Inl e \<longleftrightarrow> find_sub cookieIdentifier c = Some (length c - 12) \<and> 12 \<le> length c \<and> e = StringOutOfRange"
  using find_sub_Some[of cookieIdentifier c]
  by (auto simp: SessionId_def std_find_sub_def substr_int_def cookieIdentifier_def split: option.splits)

text \<open>A request whose \<open>Cookie\<close> header ends with the first mention of the session cookie's name is
  not answered: the substring after the name is out of range and the exception leaves the
  handler, before anything else has happened.\<close>

theorem cookie_name_at_end_throws:
  assumes "get_header_value req ''Cookie'' = pre @ cookieIdentifier" "find_sub cookieIdentifier (pre @ cookieIdentifier) = Some (length pre)"
  shows "psi_handle_request fuel mp fs doc_root srv req rep w = (Inl Out_of_range, w)"
proof -
  have "SessionId (pre @ cookieIdentifier) = Inl StringOutOfRange"
    using assms(2) unfolding SessionId_end by (simp add: cookieIdentifier_def)
  then show ?thesis
    by (simp add: psi_handle_request_def open_session_def assms(1) out_of_range_def throw_def bindE_def)
qed

lemma cookie_name_at_end_throws_witness:
  "\<forall>fuel mp fs doc_root srv rep w. psi_handle_request fuel mp fs doc_root srv
     (new_request\<lparr>headers := [\<lparr>header_name = ''Cookie'', header_value = ''a=1; '' @ cookieIdentifier\<rparr>]\<rparr>) rep w =
   (Inl Out_of_range, w)"
proof (intro allI, rule cookie_name_at_end_throws)
  show "get_header_value (new_request\<lparr>headers := [\<lparr>header_name = ''Cookie'', header_value = ''a=1; '' @ cookieIdentifier\<rparr>]\<rparr>)
      ''Cookie'' = ''a=1; '' @ cookieIdentifier"
    by (simp add: get_header_value_def new_request_def)
  show "find_sub cookieIdentifier (''a=1; '' @ cookieIdentifier) = Some (length ''a=1; '')"
    by (simp add: cookieIdentifier_def)
qed

lemma SessionId_cookie:
  assumes "length sid = 25" "find_sub cookieIdentifier (pre @ CookieHeaderValue sid @ post) = Some (length pre)"
  shows "SessionId (pre @ CookieHeaderValue sid @ post) = Inr sid"
  using assms
  by (simp add: SessionId_def std_find_sub_def substr_int_def CookieHeaderValue_def cookieIdentifier_def
      sessionIdLength_def)

lemma length_zeroPadNumber: "length (zeroPadNumber n) = 4"
  by (simp add: zeroPadNumber_def Let_def GUID_PAD_SIZE_def)

definition wf_generator :: "GUIDGenerator \<Rightarrow> bool" where
  "wf_generator g \<longleftrightarrow> guid_withDate g \<and> guid_lengthOfRandomPart g = 13"

lemma wf_new_generator: "wf_generator (guidGenerator new_session_manager)"
  by (simp add: new_session_manager_def wf_generator_def new_guid_generator_def
      determineLengthOfRandomPart_def determineLength_def sessionIdLength_def GUID_PAD_SIZE_def
      GUID_DATE_SIZE_def GUID_MIN_SIZE_def)

lemma length_getGUID:
  "wf_generator g \<Longrightarrow> length (env_date env) = 6 \<Longrightarrow> length (fst (getGUID env g)) = 25 \<and> wf_generator (snd (getGUID env g))"
  by (simp add: getGUID_def wf_generator_def Let_def length_zeroPadNumber randomString_def)

section \<open>Sites\<close>

text \<open>What one request may do to the sessions: the current session stays the current one and keeps
  its identifier, the others stay as they are.\<close>

definition keeps_others :: "'p world \<Rightarrow> 'p world \<Rightarrow> bool" where
  "keeps_others w w' \<longleftrightarrow>
     currentSessionId (manager w') = currentSessionId (manager w) \<and>
     (\<forall>sid. sid \<noteq> currentSessionId (manager w) \<longrightarrow> sessions (manager w') sid = sessions (manager w) sid) \<and>
     map_option session_id (current w') = map_option session_id (current w)"

lemma keeps_others_refl [simp]: "keeps_others w w"
  by (simp add: keeps_others_def)

lemma keeps_others_trans: "keeps_others w w' \<Longrightarrow> keeps_others w' w'' \<Longrightarrow> keeps_others w w''"
  by (simp add: keeps_others_def)

definition confined :: "('p, 'a) server_prog \<Rightarrow> bool" where
  "confined m \<longleftrightarrow> (\<forall>w. keeps_others w (snd (m w)))"

lemma confinedD: "confined m \<Longrightarrow> keeps_others w (snd (m w))"
  by (simp add: confined_def)

named_theorems confined_intros "programs that change only the current session"

lemma confined_ret [confined_intros]: "confined (ret a)" "confined (throw e)" "confined (getsE f)"
  by (simp_all add: confined_def ret_def throw_def getsE_def)

lemma confined_bindE [confined_intros]: "confined m \<Longrightarrow> (\<And>a. confined (f a)) \<Longrightarrow> confined (bindE m f)"
  unfolding confined_def bindE_def
  by (fastforce split: prod.splits sum.splits intro: keeps_others_trans)

lemma confined_thenE [confined_intros]: "confined m \<Longrightarrow> confined n \<Longrightarrow> confined (thenE m n)"
  by (simp add: thenE_def confined_bindE)

lemma confined_out_of_range [confined_intros]: "confined (out_of_range r)"
  by (cases r) (simp_all add: out_of_range_def confined_ret)

text \<open>A method that is called on the current session keeps its identifier.\<close>

lemma keeps_others_session:
  assumes "\<And>s. session_id (snd (f s)) = session_id s"
  shows "keeps_others w (w\<lparr>manager := snd (on_current_session env f (manager w))\<rparr>)"
  using assms
  by (auto simp: keeps_others_def on_current_session_def on_session_def current_def generateNewId_def
      split: option.splits prod.splits)
    (metis snd_conv)

lemma session_id_ops [simp]: "session_id (setData k v s) = session_id s" "session_id (clearData k s) = session_id s"
  by (simp_all add: setData_def clearData_def)

lemma confined_addData [confined_intros]: "confined (addDataToCurrentSession srv k v)"
  unfolding confined_def addDataToCurrentSession_def modify_def snd_conv
  by (intro allI keeps_others_session) simp

lemma confined_pairs [confined_intros]: "confined (parseNamesAndValues fuel srv uri q)"
  unfolding parseNamesAndValues_def
proof (induction fuel arbitrary: q)
  case (Suc fuel)
  then show ?case
    unfolding pairs_loop.simps Let_def by (auto intro!: confined_intros split: if_splits)
qed (simp add: confined_intros)

lemma confined_multipart [confined_intros]: "confined (parseMultipartFormData mp srv req)"
proof -
  have field: "confined (add_field srv f)" for f
    by (cases "(srv, f)" rule: add_field.cases) (simp_all add: confined_intros)
  have "confined (add_fields srv fs)" for fs
    by (induction fs) (simp_all add: confined_intros field)
  then show ?thesis by (auto simp: parseMultipartFormData_def confined_intros split: option.splits)
qed

text \<open>
  The contract between the server and a site: every function the site registers changes, of the
  sessions, only the current one.
\<close>

locale confined_site =
  fixes srv :: "'p PsiServer"
  assumes include_keeps: "include_codes srv code = Some f \<Longrightarrow> keeps_others w (snd (f w))"
    and action_keeps: "action_codes srv code = Some f \<Longrightarrow> keeps_others w (snd (f w))"
begin

lemma confined_generate: "confined (generate srv code)"
  using include_keeps[of code]
  by (auto simp: generate_def confined_def ret_def call_def split: option.splits prod.splits) (metis snd_conv)

lemma confined_include: "confined (psi_include srv reply)"
  unfolding include_correct
proof (induction "length reply" arbitrary: reply rule: less_induct)
  case less
  show ?case
  proof (cases "find_sub psis_marker reply")
    case None
    then show ?thesis by (simp add: include_spec.simps[of srv reply] confined_intros)
  next
    case (Some i)
    have i: "i + 9 \<le> length reply" using find_sub_Some[OF Some] unfolding marker_length by simp
    have "confined (include_spec srv (drop (i + j + 3) reply))" for j
      by (rule less) (use i in simp)
    with Some show ?thesis
      by (auto simp: include_spec.simps[of srv reply] intro!: confined_intros confined_generate split: option.splits)
  qed
qed

lemma confined_action: "confined (checkForAction fuel mp srv req)"
proof -
  have "confined (call f)" if "action_codes srv code = Some f" for code f
    using action_keeps[OF that] by (auto simp: call_def confined_def split: prod.splits) (metis snd_conv)
  then show ?thesis
    by (auto simp: checkForAction_def Let_def intro!: confined_intros split: option.splits)
qed

text \<open>After the session of a request has been opened, only this session changes.\<close>

lemma handle_keeps:
  assumes "open_session srv req w = (Inr (hasId, sid), w1)"
  shows "keeps_others w1 (snd (psi_handle_request fuel mp fs doc_root srv req rep w))"
  unfolding psi_handle_request_def Let_def
  by (subst bindE_def) (auto simp: assms intro!: confinedD confined_intros confined_action confined_include)

end

section \<open>Replies\<close>

lemma handle_request_headers: "\<exists>body ty. reply_headers (handle_request fs doc_root req rep) = two_headers body ty"
  by (auto simp: handle_request_def stock_reply_def Let_def split: option.splits)

lemma set_header_fields:
  "content (set_header i v rep) = content rep"
  "reply_headers rep = [h0, h1] \<Longrightarrow> reply_headers (set_header 0 v rep) = [h0\<lparr>header_value := v\<rparr>, h1]"
  "reply_headers rep = [h0, h1] \<Longrightarrow> reply_headers (set_header 1 v rep) = [h0, h1\<lparr>header_value := v\<rparr>]"
  by (simp_all add: set_header_def)

text \<open>The reply of the handler, from the page with its generated parts.\<close>

lemma psi_handle_request_reply:
  assumes "psi_handle_request fuel mp fs doc_root srv req rep w = (Inr out, w')"
  obtains hasId sid w1 where "open_session srv req w = (Inr (hasId, sid), w1)"
    "reply_headers out =
      [\<lparr>header_name = ''Content-Length'', header_value = itoa_nat (length (content out))\<rparr>,
       \<lparr>header_name = ''Content-Type'', header_value = getContentType (req_uri req)\<rparr>] @
      (if hasId then [] else [createCookieHeader sid])"
proof -
  obtain hasId sid w1 where o: "open_session srv req w = (Inr (hasId, sid), w1)"
    using assms by (auto simp: psi_handle_request_def bindE_def split: prod.splits sum.splits)
  obtain req' w2 where a: "checkForAction fuel mp srv req w1 = (Inr req', w2)"
    using assms o by (auto simp: psi_handle_request_def bindE_def split: prod.splits sum.splits)
  let ?rep1 = "handle_request fs doc_root req' rep"
  obtain body w3 where i: "psi_include srv (content ?rep1) w2 = (Inr body, w3)"
    using assms o a by (auto simp: psi_handle_request_def bindE_def Let_def split: prod.splits sum.splits)
  obtain b ty where h: "reply_headers ?rep1 = two_headers b ty" using handle_request_headers by metis
  let ?rep4 = "set_header 1 (getContentType (req_uri req))
    (set_header 0 (itoa_nat (length body)) (?rep1\<lparr>content := body\<rparr>))"
  have "reply_headers (set_header 0 (itoa_nat (length body)) (?rep1\<lparr>content := body\<rparr>)) =
      [\<lparr>header_name = ''Content-Length'', header_value = itoa_nat (length body)\<rparr>,
       \<lparr>header_name = ''Content-Type'', header_value = ty\<rparr>]"
    using h by (simp add: set_header_def two_headers_def)
  from set_header_fields(3)[OF this]
  have h4: "reply_headers ?rep4 =
      [\<lparr>header_name = ''Content-Length'', header_value = itoa_nat (length body)\<rparr>,
       \<lparr>header_name = ''Content-Type'', header_value = getContentType (req_uri req)\<rparr>]"
    by simp
  have "out = (if \<not> hasId then ?rep4\<lparr>reply_headers := reply_headers ?rep4 @ [createCookieHeader sid]\<rparr> else ?rep4)"
    using assms o a i by (auto simp: psi_handle_request_def bindE_def Let_def ret_def)
  then have "content out = body" and
    "reply_headers out = reply_headers ?rep4 @ (if hasId then [] else [createCookieHeader sid])"
    by (auto simp: set_header_fields(1))
  with that[OF o] h4 show thesis by simp
qed

text \<open>The announced length of a page is the length of the page that is sent, generated parts
  included.\<close>

theorem page_length_announced:
  assumes "psi_handle_request fuel mp fs doc_root srv req rep w = (Inr out, w')"
  shows "reply_headers out ! 0 = \<lparr>header_name = ''Content-Length'', header_value = itoa_nat (length (content out))\<rparr>"
  using assms by (rule psi_handle_request_reply) simp

text \<open>C30: A request without a known session gets one: the reply sets a cookie, and from this cookie the
  identifier of a session that is then stored is read back.\<close>

theorem session_established:
  assumes "psi_handle_request fuel mp fs doc_root srv req rep w = (Inr out, w')"
    and "SessionId (get_header_value req ''Cookie'') = Inr old" "\<not> isSession old (manager w)"
    and "wf_generator (guidGenerator (manager w))" "length (env_date (server_env srv)) = 6"
  shows "\<exists>sid. last (reply_headers out) = createCookieHeader sid \<and>
    SessionId (header_value (createCookieHeader sid)) = Inr sid \<and>
    (\<exists>w1. open_session srv req w = (Inr (False, sid), w1) \<and> isSession sid (manager w1) \<and>
       currentSessionId (manager w1) = sid)"
  using assms(1)
proof (rule psi_handle_request_reply)
  fix hasId sid w1
  assume o: "open_session srv req w = (Inr (hasId, sid), w1)"
    and h: "reply_headers out =
      [\<lparr>header_name = ''Content-Length'', header_value = itoa_nat (length (content out))\<rparr>,
       \<lparr>header_name = ''Content-Type'', header_value = getContentType (req_uri req)\<rparr>] @
      (if hasId then [] else [createCookieHeader sid])"
  have s: "\<not> hasId" "sid = fst (getGUID (server_env srv) (guidGenerator (manager w)))"
    "isSession sid (manager w1)" "currentSessionId (manager w1) = sid"
    using o assms(2,3)
    by (auto simp: open_session_def out_of_range_def bindE_def thenE_def gets_def ret_def modify_def
        newSession_def generateNewId_def addSession_def new_session_def setCurrentSession_def isSession_def
        Let_def split: prod.splits if_splits)
  have "SessionId (header_value (createCookieHeader sid)) = Inr sid"
    using SessionId_cookie[of sid "[]" "[]"] length_getGUID[OF assms(4,5)] s(2)
      find_sub_here[of cookieIdentifier "''='' @ sid"]
    by (simp add: createCookieHeader_def CookieHeaderValue_def)
  with h s o show ?thesis by auto
qed


definition example_env :: Env where
  "example_env = \<lparr>env_time = 1000, env_date = ''260101'', env_rand = (\<lambda>seed i. nat seed + i)\<rparr>"

definition example_server :: "unit PsiServer" where
  "example_server = registerIncludeCode ''hi'' (\<lambda>w. (''hello'', w))
     \<lparr>include_codes = Map.empty, action_codes = Map.empty, server_env = example_env\<rparr>"

definition example_site :: "string \<Rightarrow> string option" where
  "example_site p = (if p = ''/srv/index.html'' then Some ''<p><!--#psis hi --></p>'' else None)"

definition example_run :: "(server_error + reply) \<times> unit world" where
  "example_run = psi_handle_request 1 (\<lambda>_ _. None) example_site ''/srv'' example_server
     (new_request\<lparr>req_method := ''GET'', req_uri := ''/''\<rparr>)
     \<lparr>status = Not_found, reply_headers = [], content = []\<rparr>
     \<lparr>manager = new_session_manager, site = ()\<rparr>"

lemma example_run_call:
  "psi_handle_request 1 (\<lambda>_ _. None) example_site ''/srv'' example_server
     (new_request\<lparr>req_method := ''GET'', req_uri := ''/''\<rparr>)
     \<lparr>status = Not_found, reply_headers = [], content = []\<rparr>
     \<lparr>manager = new_session_manager, site = ()\<rparr> = (Inr (projr (fst example_run)), snd example_run)"
proof -
  have "\<not> isl (fst example_run)" by code_simp
  then have "example_run = (Inr (projr (fst example_run)), snd example_run)"
    by (metis prod.collapse sum.collapse(2))
  then show ?thesis by (simp only: example_run_def)
qed

lemma page_length_announced_witness:
  "reply_headers (projr (fst example_run)) ! 0 = \<lparr>header_name = ''Content-Length'',
     header_value = itoa_nat (length (content (projr (fst example_run))))\<rparr> \<and>
   content (projr (fst example_run)) = ''<p>hello</p>''"
proof
  show "reply_headers (projr (fst example_run)) ! 0 = \<lparr>header_name = ''Content-Length'',
     header_value = itoa_nat (length (content (projr (fst example_run))))\<rparr>"
    by (rule page_length_announced[OF example_run_call])
  show "content (projr (fst example_run)) = ''<p>hello</p>''" by code_simp
qed

lemma session_established_witness:
  "\<exists>sid. last (reply_headers (projr (fst example_run))) = createCookieHeader sid \<and>
    SessionId (header_value (createCookieHeader sid)) = Inr sid \<and>
    (\<exists>w1. open_session example_server (new_request\<lparr>req_method := ''GET'', req_uri := ''/''\<rparr>)
        \<lparr>manager = new_session_manager, site = ()\<rparr> = (Inr (False, sid), w1) \<and>
       isSession sid (manager w1) \<and> currentSessionId (manager w1) = sid)"
proof (rule session_established[OF example_run_call])
  show "SessionId (get_header_value (new_request\<lparr>req_method := ''GET'', req_uri := ''/''\<rparr>) ''Cookie'') = Inr []"
    by code_simp
  show "\<not> isSession [] (manager \<lparr>manager = new_session_manager, site = ()\<rparr>)"
    by (simp add: isSession_def new_session_manager_def)
  show "wf_generator (guidGenerator (manager \<lparr>manager = new_session_manager, site = ()\<rparr>))"
    by (simp add: wf_new_generator)
  show "length (env_date (server_env example_server)) = 6"
    by (simp add: example_server_def registerIncludeCode_def example_env_def)
qed

end
