(* ===== verification/Pipe_Site.thy ===== *)
theory Pipe_Site
  imports Psi_Server "HOL-Library.Code_Target_Numeral"
begin

text \<open>
  The site that runs pipelines (\<open>server/site/pipe_site.cpp\<close>). Parameters (\<open>PipeEnv\<close>) are what lies
  outside the server: running a pipeline, which gives its output and perhaps the text of an
  exception, the storage of files, the conversion of encodings, the recognition of file types by
  libmagic and the aliases of the guessing reader.

  The site is the instance of the contract \<open>confined_site\<close>; the theorems show that requests of
  one session leave the others alone, what is encoded in the pages, and one way in which the
  output of a session still becomes visible to others.
\<close>

section \<open>State\<close>

record PipeEnv =
  run_pipeline :: "string \<Rightarrow> string \<Rightarrow> string \<times> string option"
  store_file :: "string \<Rightarrow> string"
  convert :: "string \<Rightarrow> string"
  reader_aliases :: "string list"
  recognize :: "string \<Rightarrow> string \<times> string"

record PipeSite =
  initialText :: string
  initialPipe :: string
  initialOutput :: string
  inputFromFile :: bool

type_synonym 'a pipe_prog = "PipeSite world \<Rightarrow> 'a \<times> PipeSite world"

definition GUESSING_READER :: string where "GUESSING_READER = ''guessing-reader''"
definition MAX_INPUT_SIZE :: nat where "MAX_INPUT_SIZE = 524288"
definition TOO_LARGE_INPUT_MSG :: string where
  "TOO_LARGE_INPUT_MSG = ''Input is too large. Limit is 512 KBs.''"

text \<open>Methods of \<open>psiServer_.session()\<close>.\<close>

definition with_session :: "Env \<Rightarrow> (Session \<Rightarrow> 'a \<times> Session) \<Rightarrow> 'a pipe_prog" where
  "with_session env f w = (let (a, sm) = on_current_session env f (manager w) in (a, w\<lparr>manager := sm\<rparr>))"

definition get_data :: "Env \<Rightarrow> string \<Rightarrow> string pipe_prog" where
  "get_data env key = with_session env (\<lambda>s. (getData key s, s))"

definition set_data :: "Env \<Rightarrow> string \<Rightarrow> string \<Rightarrow> PipeSite world \<Rightarrow> PipeSite world" where
  "set_data env key val w = snd (with_session env (\<lambda>s. ((), setData key val s)) w)"

definition clear_data :: "Env \<Rightarrow> string \<Rightarrow> PipeSite world \<Rightarrow> PipeSite world" where
  "clear_data env key w = snd (with_session env (\<lambda>s. ((), clearData key s)) w)"

definition getOrSetDefaultData :: "Env \<Rightarrow> string \<Rightarrow> string \<Rightarrow> string pipe_prog" where
  "getOrSetDefaultData env nam initialValue w =
     (let (known, w1) = with_session env (\<lambda>s. (isData nam s, s)) w;
          w2 = (if \<not> known then set_data env nam initialValue w1 else w1)
      in get_data env nam w2)"

section \<open>Running a pipeline\<close>

definition getInput :: "Env \<Rightarrow> string pipe_prog" where
  "getInput env w =
     (let (input0, w1) = get_data env ''input-text'' w;
          (isFile, w2) = get_data env ''radio-file'' w1;
          (input1, w3) = (if isFile = ''on'' then get_data env ''input-file'' w2 else (input0, w2));
          w4 = w3\<lparr>site := (site w3)\<lparr>inputFromFile := (isFile = ''on'')\<rparr>\<rparr>
      in (if input1 = [] then initialText (site w4) else input1, w4))"

definition getPipe :: "Env \<Rightarrow> string pipe_prog" where
  "getPipe env w =
     (let (pip, w1) = get_data env ''pipe-text'' w
      in (if pip = [] then initialPipe (site w1) else pip, w1))"

definition tryToAddGuessingReader :: "PipeEnv \<Rightarrow> string \<Rightarrow> string" where
  "tryToAddGuessingReader penv pip =
     (if find_sub ''read'' pip \<noteq> None then pip
      else if list_ex (\<lambda>alias. take (length alias) pip = alias) (reader_aliases penv) then pip
      else GUESSING_READER @ '' ! '' @ pip)"

definition preparePipelineAndInput :: "PipeEnv \<Rightarrow> PipeSite \<Rightarrow> string \<Rightarrow> string \<Rightarrow> string \<times> string" where
  "preparePipelineAndInput penv st pip input =
     (let pip1 = replace_all '' | '' '' ! '' pip
      in if input = [] then (pip1, initialText st)
         else if inputFromFile st then
           (let pip2 = tryToAddGuessingReader penv pip1;
                pip3 = replace_first ''--encoding-conversion '' '' '' pip2;
                pip4 = replace_first ''-c '' '' '' pip3
            in (pip4, convert penv input))
         else (pip1, input))"

definition clearPreviousFileFromOutput :: "Env \<Rightarrow> PipeSite world \<Rightarrow> PipeSite world" where
  "clearPreviousFileFromOutput env w = clear_data env ''error-occured'' (clear_data env ''output-file'' w)"

definition createFileFromOutput :: "Env \<Rightarrow> PipeEnv \<Rightarrow> string \<Rightarrow> PipeSite world \<Rightarrow> PipeSite world" where
  "createFileFromOutput env penv output w = set_data env ''output-file'' (store_file penv output) w"

definition runPipe :: "Env \<Rightarrow> PipeEnv \<Rightarrow> string \<Rightarrow> string \<Rightarrow> bool \<Rightarrow> string pipe_prog" where
  "runPipe env penv pip0 input0 withSession w =
     (let (pip, input) = preparePipelineAndInput penv (site w) pip0 input0;
          w1 = (if withSession then clearPreviousFileFromOutput env w else w)
      in if length input > MAX_INPUT_SIZE then
           (''There are some problems: '' @ TOO_LARGE_INPUT_MSG,
            if withSession then set_data env ''error-occured'' TOO_LARGE_INPUT_MSG w1 else w1)
         else
           (case run_pipeline penv pip input of
              (oss, None) \<Rightarrow> (oss, if withSession then createFileFromOutput env penv oss w1 else w1)
            | (oss, Some what) \<Rightarrow>
                (oss @ ''There are some problems: '' @ what,
                 if withSession then set_data env ''error-occured'' what w1 else w1)))"

definition actionPipe :: "Env \<Rightarrow> PipeEnv \<Rightarrow> string pipe_prog" where
  "actionPipe env penv w =
     (let (input, w1) = getInput env w;
          (pip, w2) = getPipe env w1;
          (output, w3) = runPipe env penv pip input True w2;
          w4 = set_data env ''output-text'' output w3;
          w5 = (if initialOutput (site w4) = [] then w4\<lparr>site := (site w4)\<lparr>initialOutput := output\<rparr>\<rparr> else w4)
      in (''/psitoolkit.html'', w5))"

section \<open>Generated parts\<close>

definition encode_html_char :: "char \<Rightarrow> string" where
  "encode_html_char c =
     (if c = CHR ''&'' then ''&amp;''
      else if c = CHR 0x22 then ''&quot;''
      else if c = CHR 0x27 then ''&apos;''
      else if c = CHR ''<'' then ''&lt;''
      else if c = CHR ''>'' then ''&gt;''
      else [c])"

definition encodeHTML :: "string \<Rightarrow> string" where
  "encodeHTML s = concat (map encode_html_char s)"

definition inputText :: "Env \<Rightarrow> string pipe_prog" where
  "inputText env w = getOrSetDefaultData env ''input-text'' (initialText (site w)) w"

definition pipeText :: "Env \<Rightarrow> string pipe_prog" where
  "pipeText env w =
     (let (pip, w1) = getOrSetDefaultData env ''pipe-text'' (initialPipe (site w)) w in (encodeHTML pip, w1))"

definition image_link :: "string \<Rightarrow> string \<Rightarrow> string" where
  "image_link href_file src_file = ''<a href='' @ [CHR 0x22] @ href_file @ [CHR 0x22] @ '' target='' @ [CHR 0x22] @
     ''_blank'' @ [CHR 0x22] @ '' >'' @ ''<img src='' @ [CHR 0x22] @ src_file @ [CHR 0x22] @ '' alt='' @
     [CHR 0x22] @ ''image output'' @ [CHR 0x22] @ '' />'' @ ''</a>''"

definition generateOutput :: "Env \<Rightarrow> PipeEnv \<Rightarrow> string \<Rightarrow> string pipe_prog" where
  "generateOutput env penv rawOutput w =
     (let (ty, ext) = recognize penv rawOutput
      in if ty = ''image'' then
           if ext = ''svg'' then (rawOutput, w)
           else (let (file1, w1) = get_data env ''output-file'' w; (file2, w2) = get_data env ''output-file'' w1
                 in (image_link file1 file2, w2))
         else if ty = ''application'' then (''No output preview.'', w)
         else if ty = ''text'' then (''<pre>'' @ encodeHTML rawOutput @ ''</pre>'', w)
         else if ty = ''UKNOWN'' then (''<pre>'' @ rawOutput @ ''</pre>'' @ ''[output format not recognized]'', w)
         else ([], w))"

definition outputText :: "Env \<Rightarrow> PipeEnv \<Rightarrow> string pipe_prog" where
  "outputText env penv w =
     (let (output, w1) = getOrSetDefaultData env ''output-text'' (initialOutput (site w)) w
      in generateOutput env penv output w1)"

definition quoted :: "string \<Rightarrow> string" where
  "quoted s = [CHR 0x27] @ s @ [CHR 0x27]"

definition hiddenOptions :: "Env \<Rightarrow> string pipe_prog" where
  "hiddenOptions env w =
     (let (fileOnOff, w1) = get_data env ''radio-file'' w;
          (outputFile, w2) = get_data env ''output-file'' w1;
          (outputType, w3) = get_data env ''output-type'' w2;
          (errorOccured, w4) = get_data env ''error-occured'' w3;
          opts = ''psisOptions = {'' @ quoted ''isInputFile'' @ '' : '' @ quoted fileOnOff @ '', '' @
            quoted ''fileToDownload'' @ '' : '' @ quoted outputFile @ '', '' @
            quoted ''initialOutputType'' @ '' : '' @ quoted outputType @ '', '' @
            quoted ''errorOccured'' @ '' : '' @ quoted errorOccured @ '' '' @ ''};''
      in (opts, clear_data env ''radio-file'' w4))"

section \<open>The site\<close>

definition registerIncludesAndActions :: "Env \<Rightarrow> PipeEnv \<Rightarrow> PipeSite PsiServer \<Rightarrow> PipeSite PsiServer" where
  "registerIncludesAndActions env penv srv =
     registerIncludeCode ''pipe_site_options'' (hiddenOptions env)
       (registerIncludeCode ''pipe_site_output_text'' (outputText env penv)
         (registerActionCode ''pipe'' (actionPipe env penv)
           (registerIncludeCode ''pipe_site_pipe_text'' (pipeText env)
             (registerIncludeCode ''pipe_site_input_text'' (inputText env) srv))))"

definition new_pipe_site :: "Env \<Rightarrow> PipeEnv \<Rightarrow> string \<Rightarrow> string \<Rightarrow> SessionManager \<Rightarrow> PipeSite world" where
  "new_pipe_site env penv pip txt sm =
     (let st = \<lparr>initialText = NUL_free_prefix txt, initialPipe = NUL_free_prefix pip, initialOutput = [],
            inputFromFile = False\<rparr>;
          (out, w) = runPipe env penv (initialPipe st) (initialText st) False \<lparr>manager = sm, site = st\<rparr>
      in w\<lparr>site := (site w)\<lparr>initialOutput := out\<rparr>\<rparr>)"

definition pipe_server :: "Env \<Rightarrow> PipeEnv \<Rightarrow> PipeSite PsiServer" where
  "pipe_server env penv = registerIncludesAndActions env penv
     \<lparr>include_codes = Map.empty, action_codes = Map.empty, server_env = env\<rparr>"

section \<open>The contract\<close>

lemma keeps_with_session:
  "(\<And>s. session_id (snd (f s)) = session_id s) \<Longrightarrow> keeps_others w (snd (with_session env f w))"
  using keeps_others_session[of f w env] by (auto simp: with_session_def split: prod.splits)

lemma keeps_data [simp]: "keeps_others w (snd (get_data env k w))" "keeps_others w (set_data env k v w)"
  "keeps_others w (clear_data env k w)"
  by (simp_all add: get_data_def set_data_def clear_data_def keeps_with_session)

text \<open>The site's own state does not matter.\<close>

lemma keeps_site [simp]: "keeps_others w (w'\<lparr>site := st\<rparr>) \<longleftrightarrow> keeps_others w w'"
  by (simp add: keeps_others_def current_def)

lemma kept_get: "get_data env k w = (a, w') \<Longrightarrow> keeps_others w w'"
  by (metis keeps_data(1) snd_conv)

lemma kept_with: "with_session env (\<lambda>s. (g s, s)) w = (a, w') \<Longrightarrow> keeps_others w w'"
  using keeps_with_session[of "\<lambda>s. (g s, s)" w env] by simp

lemma kept_set: "keeps_others w0 w \<Longrightarrow> keeps_others w0 (set_data env k v w)"
  by (rule keeps_others_trans[OF _ keeps_data(2)])

lemma kept_clear: "keeps_others w0 w \<Longrightarrow> keeps_others w0 (clear_data env k w)"
  by (rule keeps_others_trans[OF _ keeps_data(3)])

lemma kept_default: "getOrSetDefaultData env k v w = (a, w') \<Longrightarrow> keeps_others w w'"
  unfolding getOrSetDefaultData_def Let_def
  by (auto dest!: kept_get kept_with split: prod.splits if_splits) (meson keeps_others_trans kept_set)+

lemma kept_runPipe: "runPipe env penv pip inp b w = (a, w') \<Longrightarrow> keeps_others w w'"
  unfolding runPipe_def Let_def clearPreviousFileFromOutput_def createFileFromOutput_def
  by (auto split: prod.splits if_splits option.splits intro!: kept_set kept_clear)

lemma kept_getPipe: "getPipe env w = (a, w') \<Longrightarrow> keeps_others w w'"
  unfolding getPipe_def Let_def by (auto split: prod.splits dest!: kept_get)

lemma kept_getInput: "getInput env w = (a, w') \<Longrightarrow> keeps_others w w'"
  unfolding getInput_def Let_def
  by (auto split: prod.splits if_splits dest!: kept_get) (meson keeps_others_trans)+

lemmas kept_chain = keeps_others_trans[OF _ keeps_others_trans]

lemma keeps_actionPipe: "keeps_others w (snd (actionPipe env penv w))"
proof -
  obtain input w1 where i: "getInput env w = (input, w1)" by fastforce
  obtain pip w2 where p: "getPipe env w1 = (pip, w2)" by fastforce
  obtain out w3 where r: "runPipe env penv pip input True w2 = (out, w3)" by fastforce
  have "keeps_others w w3" by (rule kept_chain[OF kept_getInput[OF i] kept_getPipe[OF p] kept_runPipe[OF r]])
  then show ?thesis by (simp add: actionPipe_def Let_def i p r kept_set)
qed

lemma kept_generate: "generateOutput env penv r w = (a, w') \<Longrightarrow> keeps_others w w'"
  unfolding generateOutput_def Let_def
  by (auto split: prod.splits if_splits dest!: kept_get elim: keeps_others_trans)

lemma keeps_parts:
  "keeps_others w (snd (inputText env w))" "keeps_others w (snd (pipeText env w))"
  "keeps_others w (snd (outputText env penv w))" "keeps_others w (snd (hiddenOptions env w))"
proof -
  show "keeps_others w (snd (inputText env w))"
    unfolding inputText_def by (rule kept_default[OF prod.collapse[symmetric]])
  show "keeps_others w (snd (pipeText env w))"
    unfolding pipeText_def Let_def by (auto split: prod.splits dest!: kept_default)
  obtain out w1 where o: "getOrSetDefaultData env ''output-text'' (initialOutput (site w)) w = (out, w1)"
    by fastforce
  obtain page w2 where g: "generateOutput env penv out w1 = (page, w2)" by fastforce
  show "keeps_others w (snd (outputText env penv w))"
    using keeps_others_trans[OF kept_default[OF o] kept_generate[OF g]]
    by (simp add: outputText_def Let_def o g)
  obtain f1 v1 where 1: "get_data env ''radio-file'' w = (f1, v1)" by fastforce
  obtain f2 v2 where 2: "get_data env ''output-file'' v1 = (f2, v2)" by fastforce
  obtain f3 v3 where 3: "get_data env ''output-type'' v2 = (f3, v3)" by fastforce
  obtain f4 v4 where 4: "get_data env ''error-occured'' v3 = (f4, v4)" by fastforce
  have "keeps_others w v4"
    by (rule kept_chain[OF kept_get[OF 1] kept_get[OF 2] keeps_others_trans[OF kept_get[OF 3] kept_get[OF 4]]])
  then show "keeps_others w (snd (hiddenOptions env w))"
    by (simp add: hiddenOptions_def Let_def 1 2 3 4 kept_clear)
qed

lemma registered:
  "include_codes (pipe_server env penv) code = Some f \<Longrightarrow>
     f \<in> {inputText env, pipeText env, outputText env penv, hiddenOptions env}"
  "action_codes (pipe_server env penv) code = Some f \<Longrightarrow> f = actionPipe env penv"
  by (auto simp: pipe_server_def registerIncludesAndActions_def registerIncludeCode_def registerActionCode_def
      split: if_splits)

interpretation pipe: confined_site "pipe_server env penv"
proof
  fix code f w
  show "include_codes (pipe_server env penv) code = Some f \<Longrightarrow> keeps_others w (snd (f w))"
    by (drule registered) (auto intro: keeps_parts)
  show "action_codes (pipe_server env penv) code = Some f \<Longrightarrow> keeps_others w (snd (f w))"
    by (drule registered(2)) (simp add: keeps_actionPipe)
qed

text \<open>Every stored session carries the identifier it is stored under.\<close>

definition wf_sessions :: "SessionManager \<Rightarrow> bool" where
  "wf_sessions sm \<longleftrightarrow> (\<forall>sid s. sessions sm sid = Some s \<longrightarrow> session_id s = sid)"

lemma open_known_session:
  assumes "SessionId (get_header_value req ''Cookie'') = Inr sid" "isSession sid (manager w)" "wf_sessions (manager w)"
  obtains w1 where "open_session srv req w = (Inr (True, sid), w1)"
    "currentSessionId (manager w1) = sid" "sessions (manager w1) = sessions (manager w)"
proof -
  obtain s where s: "sessions (manager w) sid = Some s" "session_id s = sid"
    using assms(2,3) by (auto simp: isSession_def wf_sessions_def)
  have "(sessions (manager w))(sid \<mapsto> s) = sessions (manager w)" using s(1) by (simp add: map_upd_triv)
  then show thesis
    using that s assms(1,2)
    by (simp add: open_session_def out_of_range_def bindE_def thenE_def gets_def ret_def modify_def
        on_session_def setCurrentSession_def Let_def)
qed

text \<open>C7: A request that names a session changes no other one, whatever it asks for and whatever the
  pipelines it runs answer: the sessions of others are the same afterwards.\<close>

theorem session_isolation:
  assumes "SessionId (get_header_value req ''Cookie'') = Inr sid" "isSession sid (manager w)" "wf_sessions (manager w)"
    and "other \<noteq> sid"
  shows "sessions (manager (snd (psi_handle_request fuel mp fs doc_root (pipe_server env penv) req rep w))) other =
    sessions (manager w) other"
proof -
  obtain w1 where o: "open_session (pipe_server env penv) req w = (Inr (True, sid), w1)"
    "currentSessionId (manager w1) = sid" "sessions (manager w1) = sessions (manager w)"
    using open_known_session[OF assms(1-3)] by metis
  show ?thesis
    using pipe.handle_keeps[OF o(1), of fuel mp fs doc_root rep] assms(4) o(2,3)
    by (simp add: keeps_others_def)
qed

definition example_penv :: PipeEnv where
  "example_penv = \<lparr>run_pipeline = (\<lambda>p i. (p @ i, None)), store_file = (\<lambda>s. ''/storage/f.txt''), convert = id,
     reader_aliases = [], recognize = (\<lambda>s. (''text'', ''txt''))\<rparr>"

definition example_session :: "string \<Rightarrow> Session" where
  "example_session sid = \<lparr>session_id = sid, createdTime = 0, session_data = [''pipe-text'' \<mapsto> ''tokenize'']\<rparr>"

definition two_sessions :: SessionManager where
  "two_sessions = \<lparr>currentSessionId = ''A'', guidGenerator = new_guid_generator sessionIdLength True,
     sessions = [''A'' \<mapsto> example_session ''A'', ''B'' \<mapsto> example_session ''B'']\<rparr>"

definition request_of_A :: request where
  "request_of_A = new_request\<lparr>req_method := ''GET'', req_uri := ''/pipe.psis?input-text=x'',
     headers := [\<lparr>header_name = ''Cookie'', header_value = CookieHeaderValue ''A''\<rparr>]\<rparr>"

lemma session_isolation_witness:
  "\<forall>mp fs doc_root rep st. sessions (manager (snd (psi_handle_request 1 mp fs doc_root (pipe_server example_env example_penv) request_of_A rep
     \<lparr>manager = two_sessions, site = st\<rparr>))) ''B'' =
   sessions (manager \<lparr>manager = two_sessions, site = st\<rparr>) ''B''"
proof (intro allI, rule session_isolation)
  fix st :: PipeSite
  show "SessionId (get_header_value request_of_A ''Cookie'') = Inr ''A''" by code_simp
  show "isSession ''A'' (manager \<lparr>manager = two_sessions, site = st\<rparr>)"
    by (simp add: isSession_def two_sessions_def)
  show "wf_sessions (manager \<lparr>manager = two_sessions, site = st\<rparr>)"
    by (simp add: wf_sessions_def two_sessions_def example_session_def)
qed simp

section \<open>Encoded text\<close>

text \<open>Reading back the five entities; an ampersand that begins none of them stands for itself.\<close>

function html_decode :: "string \<Rightarrow> string" where
  "html_decode s =
     (if s = [] then []
      else if take 5 s = ''&amp;'' then CHR ''&'' # html_decode (drop 5 s)
      else if take 6 s = ''&quot;'' then CHR 0x22 # html_decode (drop 6 s)
      else if take 6 s = ''&apos;'' then CHR 0x27 # html_decode (drop 6 s)
      else if take 4 s = ''&lt;'' then CHR ''<'' # html_decode (drop 4 s)
      else if take 4 s = ''&gt;'' then CHR ''>'' # html_decode (drop 4 s)
      else hd s # html_decode (tl s))"
  by pat_completeness auto
termination
  by (relation "measure length") auto

declare html_decode.simps [simp del]

lemma encodeHTML_safe: "set (encodeHTML s) \<inter> {CHR ''<'', CHR ''>'', CHR 0x22, CHR 0x27} = {}"
  by (auto simp: encodeHTML_def encode_html_char_def split: if_splits)

text \<open>Encoding loses nothing: a browser that reads the five entities back gets the text that was
  encoded.\<close>

theorem encodeHTML_decode: "html_decode (encodeHTML s) = s"
proof (induction s)
  case Nil
  then show ?case by (simp add: encodeHTML_def html_decode.simps[of "[]"])
next
  case (Cons c s)
  have "encodeHTML (c # s) = encode_html_char c @ encodeHTML s" by (simp add: encodeHTML_def)
  moreover have "html_decode (encode_html_char c @ t) = c # html_decode t" for t
    by (subst html_decode.simps) (simp add: encode_html_char_def)
  ultimately show ?case using Cons by simp
qed

section \<open>What is not encoded, and what others see\<close>

lemma with_session_current:
  "current w = Some s \<Longrightarrow> with_session env f w = (fst (f s), set_current (snd (f s)) w)"
  by (simp add: with_session_def on_current_session_def on_session_def current_def set_current_def
      split: prod.splits)

lemma set_current_same: "current w = Some s \<Longrightarrow> set_current s w = w"
  by (cases w) (auto simp: set_current_def current_def map_upd_triv)

lemma get_data_current: "current w = Some s \<Longrightarrow> get_data env k w = (getData k s, w)"
  by (simp add: get_data_def with_session_current set_current_same)

lemma set_data_current: "current w = Some s \<Longrightarrow> set_data env k v w = set_current (setData k v s) w"
  by (simp add: set_data_def with_session_current)

lemma site_set_current [simp]: "site (set_current s w) = site w"
  by (simp add: set_current_def)

lemma getOrSet_current:
  assumes "current w = Some s"
  shows "getOrSetDefaultData env k v w =
    (if isData k s then (getData k s, w) else (v, set_current (setData k v s) w))"
  using assms
  by (simp add: getOrSetDefaultData_def with_session_current set_current_same set_data_current get_data_current
      Let_def) (simp add: getData_def setData_def)

text \<open>The input text is put into the page as it is, while the text of the pipeline is encoded:
  whatever markup a session's input contains becomes part of the page.\<close>

theorem input_text_not_encoded:
  assumes "current w = Some s" "session_data s ''input-text'' = Some inp" "inp \<noteq> []" "CHR 0x00 \<notin> set inp"
  shows "psi_include (pipe_server env penv) ''<!--#psis pipe_site_input_text -->'' w = (Inr inp, w)"
proof -
  have "isData ''input-text'' s" "getData ''input-text'' s = inp"
    using assms(2,3) by (simp_all add: isData_def getData_def)
  then have "inputText env w = (inp, w)"
    by (simp add: inputText_def getOrSet_current[OF assms(1)])
  moreover have "NUL_free_prefix inp = inp" using assms(4) by (auto simp: NUL_free_prefix_def takeWhile_eq_all_conv)
  moreover have "include_codes (pipe_server env penv) ''pipe_site_input_text'' = Some (inputText env)"
    by (simp add: pipe_server_def registerIncludesAndActions_def registerIncludeCode_def registerActionCode_def)
  ultimately show ?thesis
    unfolding include_correct
    by (subst include_spec.simps)
      (simp add: psis_marker_def comment_end_def markup_code_def generate_def call_def include_spec.simps[of _ "[]"]
        bindE_def ret_def)
qed


lemma input_text_not_encoded_witness:
  "psi_include (pipe_server env penv) ''<!--#psis pipe_site_input_text -->''
     (set_current (setData ''input-text'' ''<b>'' (new_session env ''k'')) w) =
   (Inr ''<b>'', set_current (setData ''input-text'' ''<b>'' (new_session env ''k'')) w)"
  by (rule input_text_not_encoded[where s = "setData ''input-text'' ''<b>'' (new_session env ''k'')"])
    (simp_all add: setData_def)

lemma getPipe_current: "current w = Some s \<Longrightarrow> snd (getPipe env w) = w"
  by (simp add: getPipe_def Let_def get_data_current)

lemma getInput_current:
  "current w = Some s \<Longrightarrow> \<exists>b. snd (getInput env w) = w\<lparr>site := (site w)\<lparr>inputFromFile := b\<rparr>\<rparr>"
  by (auto simp: getInput_def Let_def get_data_current)

lemma current_site [simp]: "current (w\<lparr>site := st\<rparr>) = current w"
  by (simp add: current_def)

lemma runPipe_site:
  assumes "current w = Some s"
  shows "site (snd (runPipe env penv pip inp b w)) = site w" "\<exists>s'. current (snd (runPipe env penv pip inp b w)) = Some s'"
  using assms
  by (auto simp: runPipe_def Let_def set_data_current clearPreviousFileFromOutput_def createFileFromOutput_def
      clear_data_def with_session_current split: prod.splits option.splits)

lemma actionPipe_output:
  assumes "current w = Some s" "initialOutput (site w) = []"
  obtains s1 where "current (snd (actionPipe env penv w)) = Some s1"
    "initialOutput (site (snd (actionPipe env penv w))) = getData ''output-text'' s1"
proof -
  obtain inp w1 where i: "getInput env w = (inp, w1)" by fastforce
  then have w1: "current w1 = Some s" "initialOutput (site w1) = []"
    using getInput_current[OF assms(1), of env] assms by auto
  obtain pip where p: "getPipe env w1 = (pip, w1)" using getPipe_current[OF w1(1), of env] by (metis prod.collapse)
  obtain out w3 where r: "runPipe env penv pip inp True w1 = (out, w3)" by fastforce
  have w3: "site w3 = site w1" "\<exists>s'. current w3 = Some s'"
    using runPipe_site[OF w1(1), of env penv pip inp True] by (simp_all add: r)
  then obtain s3 where s3: "current w3 = Some s3" by blast
  show thesis
    using that[of "setData ''output-text'' out s3"] s3 w1(2) w3(1)
    by (simp add: actionPipe_def Let_def i p r set_data_current) (simp add: getData_def setData_def)
qed

text \<open>When the site's initial output is empty, the output of the first pipeline a session runs
  becomes the initial output of the site: a session that has no output of its own is shown it.\<close>

theorem first_output_shown_to_others:
  assumes "current w = Some s" "initialOutput (site w) = []"
    and "w1 = snd (actionPipe env penv w)" "current w1 = Some s1"
    and "w2 = w1\<lparr>manager := setCurrentSession other (manager w1)\<rparr>" "current w2 = Some s2"
    and "\<not> isData ''output-text'' s2" "recognize penv (getData ''output-text'' s1) = (''text'', ext)"
  shows "fst (outputText env penv w2) = ''<pre>'' @ encodeHTML (getData ''output-text'' s1) @ ''</pre>''"
proof -
  have "initialOutput (site w2) = getData ''output-text'' s1"
    using actionPipe_output[OF assms(1,2), of env penv] assms(3,4,5) by auto
  with assms(6-8) show ?thesis
    by (simp add: outputText_def getOrSet_current Let_def generateOutput_def)
qed

definition empty_site :: "PipeSite world" where
  "empty_site = \<lparr>manager = two_sessions, site = \<lparr>initialText = ''secret'', initialPipe = [], initialOutput = [],
     inputFromFile = False\<rparr>\<rparr>"

definition after_A :: "PipeSite world" where
  "after_A = snd (actionPipe example_env example_penv empty_site)"

definition view_of_B :: "PipeSite world" where
  "view_of_B = after_A\<lparr>manager := setCurrentSession ''B'' (manager after_A)\<rparr>"

lemma first_output_shown_to_others_witness:
  "fst (outputText example_env example_penv view_of_B) =
     ''<pre>'' @ encodeHTML (getData ''output-text'' (the (current after_A))) @ ''</pre>'' \<and>
   getData ''output-text'' (the (current after_A)) = ''tokenizesecret''"
proof
  have some: "x = Some (the x)" if "x \<noteq> None" for x :: "Session option" using that by (cases x) auto
  have ne: "current empty_site \<noteq> None" "current after_A \<noteq> None" "current view_of_B \<noteq> None" by code_simp+
  show "fst (outputText example_env example_penv view_of_B) =
     ''<pre>'' @ encodeHTML (getData ''output-text'' (the (current after_A))) @ ''</pre>''"
  proof (rule first_output_shown_to_others[OF some[OF ne(1)] _ after_A_def some[OF ne(2)] view_of_B_def some[OF ne(3)]])
    show "initialOutput (site empty_site) = []" by (simp add: empty_site_def)
    show "\<not> isData ''output-text'' (the (current view_of_B))" by code_simp
    show "recognize example_penv (getData ''output-text'' (the (current after_A))) = (''text'', ''txt'')"
      by (simp add: example_penv_def)
  qed
  show "getData ''output-text'' (the (current after_A)) = ''tokenizesecret''" by code_simp
qed

end
