(* ===== verification/Aliaser.thy ===== *)
theory Aliaser
  imports Prelude
begin

text \<open>The aliaser (framework/aliaser.cpp): alternative names of processors and the two bounded
  searches through them.  A std::map is a map and a std::set a set: the searches only collect names,
  so that the order in which they visit them does not show.\<close>

section \<open>The aliaser\<close>

record aliaser =
  aliasDestinations :: "string \<rightharpoonup> string set"
  destinationAliases :: "string \<rightharpoonup> string set"

definition empty_aliaser :: aliaser where
  "empty_aliaser = \<lparr>aliasDestinations = Map.empty, destinationAliases = Map.empty\<rparr>"

definition isAlias :: "aliaser \<Rightarrow> string \<Rightarrow> bool" where
  "isAlias a name \<longleftrightarrow> aliasDestinations a name \<noteq> None"

definition createVoidAlias :: "string \<Rightarrow> aliaser \<Rightarrow> aliaser" where
  "createVoidAlias name a =
     (if aliasDestinations a name = None
      then a\<lparr>aliasDestinations := (aliasDestinations a)(name \<mapsto> {})\<rparr> else a)"

definition addAlias :: "string \<Rightarrow> string \<Rightarrow> aliaser \<Rightarrow> aliaser" where
  "addAlias alias destination a =
     (let a = (if aliasDestinations a alias = None then createVoidAlias alias a else a);
          a = a\<lparr>aliasDestinations := (aliasDestinations a)
                (alias \<mapsto> insert destination (the (aliasDestinations a alias)))\<rparr>;
          a = (if destinationAliases a destination = None
               then a\<lparr>destinationAliases := (destinationAliases a)(destination \<mapsto> {})\<rparr> else a)
      in a\<lparr>destinationAliases := (destinationAliases a)
                (destination \<mapsto> insert alias (the (destinationAliases a destination)))\<rparr>)"

definition addVoidAlias :: "string \<Rightarrow> aliaser \<Rightarrow> aliaser" where
  "addVoidAlias alias a = (if \<not> isAlias a alias then createVoidAlias alias a else a)"

definition getAliasNames :: "aliaser \<Rightarrow> string set" where
  "getAliasNames a = dom (aliasDestinations a)"

definition SEARCH_DEPTH_LIMIT :: nat where
  "SEARCH_DEPTH_LIMIT = 5"

text \<open>The names the search adds to its result; at depth 0 it only warns.\<close>

fun findDestinations :: "aliaser \<Rightarrow> string \<Rightarrow> nat \<Rightarrow> string set" where
  "findDestinations a alias 0 = (if isAlias a alias then {} else {alias})"
| "findDestinations a alias (Suc depthLimit) =
     (if isAlias a alias
      then (\<Union>name \<in> the (aliasDestinations a alias). findDestinations a name depthLimit)
      else {alias})"

definition getAllDestinations :: "aliaser \<Rightarrow> string \<Rightarrow> string set" where
  "getAllDestinations a alias = findDestinations a alias SEARCH_DEPTH_LIMIT"

text \<open>The opposite search also warns at depth 0 but goes on, with a depth that wraps round, so
  that nothing bounds it: the number here is the fuel of the model, not the depth of the code, and
  \<open>None\<close> is a call that has not returned within it.\<close>

definition aliases_of :: "aliaser \<Rightarrow> string \<Rightarrow> string set" where
  "aliases_of a name = (case destinationAliases a name of None \<Rightarrow> {} | Some names \<Rightarrow> names)"

fun findAliases :: "nat \<Rightarrow> aliaser \<Rightarrow> string \<Rightarrow> string set option" where
  "findAliases 0 a name = None"
| "findAliases (Suc fuel) a name =
     (let found = findAliases fuel a ` aliases_of a name
      in if None \<in> found then None
         else Some ((if isAlias a name then {name} else {}) \<union> (\<Union>s \<in> found. the s)))"

definition getAllAliases :: "nat \<Rightarrow> aliaser \<Rightarrow> string \<Rightarrow> string set option" where
  "getAllAliases fuel a destination = findAliases fuel a destination"

subsection \<open>The alias relation\<close>

definition alias_rel :: "aliaser \<Rightarrow> (string \<times> string) set" where
  "alias_rel a = {(alias, destination). \<exists>ds. aliasDestinations a alias = Some ds \<and> destination \<in> ds}"

text \<open>The two maps of an aliaser are inverse to each other and finite.\<close>

definition aliaser_ok :: "aliaser \<Rightarrow> bool" where
  "aliaser_ok a \<longleftrightarrow> finite (alias_rel a) \<and>
     (\<forall>alias destination. alias \<in> aliases_of a destination \<longleftrightarrow> (alias, destination) \<in> alias_rel a)"

text \<open>An aliaser as its clients build it.\<close>

datatype alias_op = Add_Alias string string | Add_Void_Alias string

fun alias_step :: "aliaser \<Rightarrow> alias_op \<Rightarrow> aliaser" where
  "alias_step a (Add_Alias alias destination) = addAlias alias destination a"
| "alias_step a (Add_Void_Alias alias) = addVoidAlias alias a"

definition build_aliaser :: "alias_op list \<Rightarrow> aliaser" where
  "build_aliaser ops = foldl alias_step empty_aliaser ops"

lemma alias_rel_createVoidAlias [simp]: "alias_rel (createVoidAlias name a) = alias_rel a"
  by (auto simp: alias_rel_def createVoidAlias_def split: if_splits)

lemma aliases_of_createVoidAlias [simp]: "aliases_of (createVoidAlias name a) = aliases_of a"
  by (simp add: aliases_of_def createVoidAlias_def fun_eq_iff)

lemma alias_rel_addAlias: "alias_rel (addAlias alias destination a) = insert (alias, destination) (alias_rel a)"
  by (auto simp: alias_rel_def addAlias_def createVoidAlias_def Let_def split: if_splits)

lemma aliases_of_addAlias:
  "aliases_of (addAlias alias destination a) =
     (aliases_of a)(destination := insert alias (aliases_of a destination))"
  by (auto simp: aliases_of_def addAlias_def createVoidAlias_def Let_def fun_eq_iff split: option.splits)

lemma alias_rel_addVoidAlias [simp]: "alias_rel (addVoidAlias name a) = alias_rel a"
  by (simp add: addVoidAlias_def)

lemma aliases_of_addVoidAlias [simp]: "aliases_of (addVoidAlias name a) = aliases_of a"
  by (simp add: addVoidAlias_def)

lemma isAlias_ops [simp]:
  "isAlias (addAlias alias destination a) name \<longleftrightarrow> name = alias \<or> isAlias a name"
  "isAlias (addVoidAlias alias a) name \<longleftrightarrow> name = alias \<or> isAlias a name"
  by (auto simp: isAlias_def addAlias_def addVoidAlias_def createVoidAlias_def Let_def)

lemma aliaser_ok_addAlias: "aliaser_ok a \<Longrightarrow> aliaser_ok (addAlias alias destination a)"
  by (auto simp: aliaser_ok_def alias_rel_addAlias aliases_of_addAlias)

lemma aliaser_ok_addVoidAlias: "aliaser_ok a \<Longrightarrow> aliaser_ok (addVoidAlias alias a)"
  by (simp add: aliaser_ok_def)

lemma aliaser_ok_empty: "aliaser_ok empty_aliaser"
  by (simp add: aliaser_ok_def empty_aliaser_def alias_rel_def aliases_of_def)

lemma aliaser_ok_build: "aliaser_ok (build_aliaser ops)"
proof -
  have "aliaser_ok (foldl alias_step a ops)" if "aliaser_ok a" for a
    using that
  proof (induction ops arbitrary: a)
    case (Cons x ops)
    then show ?case by (cases x) (simp_all add: aliaser_ok_addAlias aliaser_ok_addVoidAlias)
  qed simp
  then show ?thesis by (simp add: build_aliaser_def aliaser_ok_empty)
qed

lemma isAlias_alias_rel: "(x, y) \<in> alias_rel a \<Longrightarrow> isAlias a x"
  by (auto simp: alias_rel_def isAlias_def)

subsection \<open>Destinations\<close>

lemma findDestinations_iff:
  "d \<in> findDestinations a alias n \<longleftrightarrow> \<not> isAlias a d \<and> (\<exists>k \<le> n. (alias, d) \<in> alias_rel a ^^ k)"
proof (induction n arbitrary: "alias")
  case 0
  then show ?case by auto
next
  case (Suc n)
  have "d \<in> findDestinations a alias (Suc n) \<longleftrightarrow>
    (if isAlias a alias then \<exists>y. (alias, y) \<in> alias_rel a \<and> d \<in> findDestinations a y n else d = alias)"
    by (auto simp: alias_rel_def isAlias_def)
  also have "\<dots> \<longleftrightarrow> \<not> isAlias a d \<and> (\<exists>k \<le> Suc n. (alias, d) \<in> alias_rel a ^^ k)"
  proof (cases "isAlias a alias")
    case True
    have "(\<exists>y k. (alias, y) \<in> alias_rel a \<and> k \<le> n \<and> (y, d) \<in> alias_rel a ^^ k)
      \<longleftrightarrow> (\<exists>k \<le> Suc n. (alias, d) \<in> alias_rel a ^^ k)" if nd: "\<not> isAlias a d"
    proof
      assume "\<exists>k \<le> Suc n. (alias, d) \<in> alias_rel a ^^ k"
      then obtain k where k: "k \<le> Suc n" "(alias, d) \<in> alias_rel a ^^ k" by blast
      then obtain j where "k = Suc j" using nd True by (cases k) auto
      then show "\<exists>y k. (alias, y) \<in> alias_rel a \<and> k \<le> n \<and> (y, d) \<in> alias_rel a ^^ k"
        using k by (metis Suc_le_mono relpow_Suc_D2)
    qed (metis Suc_le_mono relpow_Suc_I2)
    then show ?thesis using True by (auto simp: Suc.IH)
  next
    case False
    then have "k = 0" if "(alias, d) \<in> alias_rel a ^^ k" for k
      using that False by (cases k) (auto dest!: relpow_Suc_D2 isAlias_alias_rel simp del: relpow.simps)
    then show ?thesis using False by fastforce
  qed
  finally show ?case .
qed

text \<open>C38: The destinations of an alias are the names that are no aliases themselves and are reached
  from it in at most five steps of the alias definitions; a definition that loops adds nothing and
  the search still ends.\<close>
theorem getAllDestinations_reached:
  "getAllDestinations a alias = {d. \<not> isAlias a d \<and> (\<exists>k \<le> 5. (alias, d) \<in> alias_rel a ^^ k)}"
  unfolding getAllDestinations_def SEARCH_DEPTH_LIMIT_def
  by (auto simp: findDestinations_iff)

subsection \<open>Aliases\<close>

lemma findAliases_Suc_Some:
  "findAliases (Suc n) a name = Some s \<longleftrightarrow>
     (\<forall>y \<in> aliases_of a name. findAliases n a y \<noteq> None) \<and>
     s = (if isAlias a name then {name} else {}) \<union> (\<Union>y \<in> aliases_of a name. the (findAliases n a y))"
  by (auto simp: Let_def image_iff eq_commute)

declare findAliases.simps(2) [simp del]

lemma findAliases_Some:
  assumes "aliaser_ok a" "findAliases n a name = Some s"
  shows "s = {x. isAlias a x \<and> (x, name) \<in> (alias_rel a)\<^sup>*}"
  using assms(2)
proof (induction n arbitrary: name s)
  case 0
  then show ?case by simp
next
  case (Suc n)
  have up: "y \<in> aliases_of a name \<longleftrightarrow> (y, name) \<in> alias_rel a" for y
    using assms(1) by (simp add: aliaser_ok_def)
  have "\<exists>sy. findAliases n a y = Some sy" if "(y, name) \<in> alias_rel a" for y
    using Suc.prems that up by (auto simp: findAliases_Suc_Some)
  then have IH: "findAliases n a y = Some {x. isAlias a x \<and> (x, y) \<in> (alias_rel a)\<^sup>*}"
    if "(y, name) \<in> alias_rel a" for y
    using that Suc.IH by blast
  have "s = (if isAlias a name then {name} else {}) \<union>
      (\<Union>y \<in> aliases_of a name. {x. isAlias a x \<and> (x, y) \<in> (alias_rel a)\<^sup>*})"
    using Suc.prems IH up by (simp add: findAliases_Suc_Some)
  also have "\<dots> = {x. isAlias a x \<and> (x, name) \<in> (alias_rel a)\<^sup>*}"
    using up rtrancl.simps [of _ name "alias_rel a"] by auto
  finally show ?case .
qed

lemma findAliases_loop:
  assumes "aliaser_ok a" "(x, x) \<in> (alias_rel a)\<^sup>+" "(x, name) \<in> (alias_rel a)\<^sup>*"
  shows "findAliases n a name = None"
  using assms(3)
proof (induction n arbitrary: name)
  case (Suc n)
  have up: "y \<in> aliases_of a name \<longleftrightarrow> (y, name) \<in> alias_rel a" for y
    using assms(1) by (simp add: aliaser_ok_def)
  obtain y where "(x, y) \<in> (alias_rel a)\<^sup>*" "(y, name) \<in> alias_rel a"
    using Suc.prems assms(2) by (metis rtranclE tranclD2)
  then have "findAliases n a y = None" "y \<in> aliases_of a name"
    using Suc.IH up by blast+
  then show ?case by (cases "findAliases (Suc n) a name") (auto simp: findAliases_Suc_Some)
qed simp

lemma findAliases_mono:
  "findAliases n a name = Some s \<Longrightarrow> n \<le> m \<Longrightarrow> findAliases m a name = Some s"
proof (induction n arbitrary: name s m)
  case (Suc n)
  from Suc.prems(2) obtain m' where m: "m = Suc m'" "n \<le> m'" by (cases m) auto
  have "findAliases m' a y = findAliases n a y" if y: "y \<in> aliases_of a name" for y
  proof -
    obtain sy where "findAliases n a y = Some sy"
      using Suc.prems(1) y by (auto simp: findAliases_Suc_Some)
    then show ?thesis using Suc.IH [OF _ m(2)] by simp
  qed
  then show ?case using Suc.prems(1) m(1) by (simp add: findAliases_Suc_Some)
qed simp

lemma findAliases_total:
  assumes ok: "aliaser_ok a" and loop_free: "\<And>x. (x, name) \<in> (alias_rel a)\<^sup>* \<Longrightarrow> (x, x) \<notin> (alias_rel a)\<^sup>+"
  shows "\<exists>n s. findAliases n a name = Some s"
proof -
  define R where "R = {(x, y) \<in> alias_rel a. (y, name) \<in> (alias_rel a)\<^sup>*}"
  have R: "R \<subseteq> alias_rel a" by (auto simp: R_def)
  have "acyclic R"
  proof (rule acyclicI, rule allI, rule notI)
    fix x assume x: "(x, x) \<in> R\<^sup>+"
    then have "(x, name) \<in> (alias_rel a)\<^sup>*" by (auto simp: R_def dest: tranclD2)
    moreover have "(x, x) \<in> (alias_rel a)\<^sup>+" using x trancl_mono R by blast
    ultimately show False using loop_free by blast
  qed
  moreover have "finite R" using ok R by (auto simp: aliaser_ok_def intro: finite_subset)
  ultimately have wf: "wf R" by (rule finite_acyclic_wf[rotated])
  have "\<exists>n s. findAliases n a y = Some s" if "(y, name) \<in> (alias_rel a)\<^sup>*" for y
    using wf that
  proof (induction y rule: wf_induct_rule)
    case (less y)
    have up: "x \<in> aliases_of a y \<longleftrightarrow> (x, y) \<in> alias_rel a" for x
      using ok by (simp add: aliaser_ok_def)
    have "\<exists>n s. findAliases n a x = Some s" if "x \<in> aliases_of a y" for x
    proof -
      have "(x, y) \<in> R" "(x, name) \<in> (alias_rel a)\<^sup>*"
        using that up less.prems by (auto simp: R_def intro: converse_rtrancl_into_rtrancl)
      then show ?thesis by (rule less.IH)
    qed
    then obtain f where f: "\<And>x. x \<in> aliases_of a y \<Longrightarrow> \<exists>s. findAliases (f x) a x = Some s"
      by metis
    have "aliases_of a y \<subseteq> fst ` alias_rel a" using up by force
    then have fin: "finite (aliases_of a y)" using ok by (auto simp: aliaser_ok_def intro: finite_subset)
    have "findAliases (Max (f ` aliases_of a y)) a x \<noteq> None" if "x \<in> aliases_of a y" for x
      using that f findAliases_mono Max_ge [OF finite_imageI [OF fin]]
      by (metis imageI option.distinct(1))
    then have "\<exists>s. findAliases (Suc (Max (f ` aliases_of a y))) a y = Some s"
      by (simp add: findAliases_Suc_Some)
    then show ?case by blast
  qed
  then show ?thesis by blast
qed

text \<open>C26: The search for the aliases of a name returns exactly when no loop of alias definitions
  leads to the name, whatever the depth limit says: the limit is only warned about and the depth
  wraps round.  What it then returns are all the aliases that lead to the name in any number of
  steps, the name itself among them when it is an alias.\<close>
theorem getAllAliases_returns:
  "(\<exists>fuel. getAllAliases fuel (build_aliaser ops) name = Some s) \<longleftrightarrow>
   s = {x. isAlias (build_aliaser ops) x \<and> (x, name) \<in> (alias_rel (build_aliaser ops))\<^sup>*} \<and>
   (\<nexists>x. (x, x) \<in> (alias_rel (build_aliaser ops))\<^sup>+ \<and> (x, name) \<in> (alias_rel (build_aliaser ops))\<^sup>*)"
  (is "?l = (?v \<and> ?loop_free)")
proof (intro iffI conjI)
  note ok = aliaser_ok_build [of ops]
  assume ?l
  then obtain n where n: "findAliases n (build_aliaser ops) name = Some s"
    by (auto simp: getAllAliases_def)
  then show ?v by (rule findAliases_Some [OF ok])
  show ?loop_free using n findAliases_loop [OF ok] by (metis option.distinct(1))
next
  note ok = aliaser_ok_build [of ops]
  assume r: "?v \<and> ?loop_free"
  then obtain n s' where n: "findAliases n (build_aliaser ops) name = Some s'"
    using findAliases_total [OF ok, of name] by blast
  then have "s' = s" using findAliases_Some [OF ok n] r by simp
  then show ?l using n by (auto simp: getAllAliases_def)
qed

end
