(* ===== verification/Edit_Distance.thy ===== *)
theory Edit_Distance
  imports Prelude
begin

text \<open>Edit distance (common/edit_distance.hpp): the two-column dynamic program that computes
  the Levenshtein distance, and the search for the known name most similar to a mistyped one.
  The columns are lists updated by index, as in the code; the values never exceed the longer
  length, so that the unsigned numbers of the code are naturals as long as the strings are shorter
  than \<open>2^32\<close>.  The abstract specification is the least number of one-character edits.\<close>

section \<open>The dynamic program\<close>

text \<open>One turn of the inner loop: the entry \<open>col[j+1]\<close> from its three neighbours.\<close>

definition lev_cell :: "'a \<Rightarrow> 'a list \<Rightarrow> nat list \<Rightarrow> nat list \<Rightarrow> nat \<Rightarrow> nat list" where
  "lev_cell a s2 prevCol col j =
     col[j + 1 := min (min (1 + col ! j) (1 + prevCol ! (1 + j)))
                      (prevCol ! j + (if a = s2 ! j then 0 else 1))]"

text \<open>One turn of the outer loop on the pair of columns: fill \<open>col\<close>, then swap.\<close>

definition lev_column :: "'a list \<Rightarrow> 'a list \<Rightarrow> nat list \<times> nat list \<Rightarrow> nat \<Rightarrow> nat list \<times> nat list"
where
  "lev_column s1 s2 cols i =
     (let (col, prevCol) = cols;
          col = foldl (lev_cell (s1 ! i) s2 prevCol) (col[0 := i + 1]) [0..<length s2]
      in (prevCol, col))"

definition levenshteinDistance :: "'a list \<Rightarrow> 'a list \<Rightarrow> nat" where
  "levenshteinDistance s1 s2 =
     (let cols = (replicate (length s2 + 1) 0, [0..<length s2 + 1]);
          (col, prevCol) = foldl (lev_column s1 s2) cols [0..<length s1]
      in prevCol ! length s2)"

text \<open>The search keeps the best element so far and its distance, which starts at 99; the empty
  string is the result when nothing is nearer.\<close>

definition similar_step :: "string \<Rightarrow> string \<times> int \<Rightarrow> string \<Rightarrow> string \<times> int" where
  "similar_step s best element =
     (let distance = int (levenshteinDistance element s)
      in if distance < snd best then (element, distance) else best)"

definition findTheMostSimilarString :: "string \<Rightarrow> string list \<Rightarrow> string" where
  "findTheMostSimilarString s container = fst (foldl (similar_step s) ([], 99) container)"

section \<open>The specification\<close>

text \<open>One edit inserts, removes or replaces one character anywhere.\<close>

inductive edit1 :: "'a list \<Rightarrow> 'a list \<Rightarrow> bool" where
  ins: "edit1 (u @ v) (u @ a # v)"
| del: "edit1 (u @ a # v) (u @ v)"
| rep: "edit1 (u @ a # v) (u @ b # v)"

definition edit_distance :: "'a list \<Rightarrow> 'a list \<Rightarrow> nat" where
  "edit_distance s t = (LEAST n. (edit1 ^^ n) s t)"

fun lev :: "'a list \<Rightarrow> 'a list \<Rightarrow> nat" where
  "lev [] ys = length ys"
| "lev (x # xs) [] = Suc (length xs)"
| "lev (x # xs) (y # ys) =
     min (min (1 + lev (x # xs) ys) (1 + lev xs (y # ys))) (lev xs ys + (if x = y then 0 else 1))"

lemma lev_Nil2 [simp]: "lev xs [] = length xs"
  by (cases xs) auto

lemma lev_cons_right: "lev xs (y # ys) \<le> Suc (lev xs ys)"
  by (cases xs) auto

lemma lev_cons_left: "lev (x # xs) ys \<le> Suc (lev xs ys)"
  by (cases ys) auto

lemma lev_drop_left: "lev xs ys \<le> Suc (lev (x # xs) ys)"
proof (induction ys)
  case Nil
  then show ?case by simp
next
  case (Cons y ys)
  have "lev xs (y # ys) \<le> Suc (lev xs ys)" by (rule lev_cons_right)
  with Cons show ?case by auto
qed

lemma lev_replace_left: "lev (a # xs) ys \<le> Suc (lev (b # xs) ys)"
  by (induction ys) auto

lemma lev_cong_left:
  assumes "\<And>t. lev s t \<le> Suc (lev s' t)"
  shows "lev (x # s) t \<le> Suc (lev (x # s') t)"
proof (induction t)
  case Nil
  then show ?case using assms [of "[]"] by simp
next
  case (Cons y t)
  then show ?case using assms [of t] assms [of "y # t"] by auto
qed

lemma lev_edit1: "edit1 s s' \<Longrightarrow> lev s t \<le> Suc (lev s' t)"
proof (induction arbitrary: t rule: edit1.induct)
  case (ins u v a)
  show ?case by (induction u arbitrary: t) (simp_all add: lev_drop_left lev_cong_left del: lev.simps)
next
  case (del u a v)
  show ?case by (induction u arbitrary: t) (simp_all add: lev_cons_left lev_cong_left del: lev.simps)
next
  case (rep u a v b)
  show ?case by (induction u arbitrary: t) (simp_all add: lev_replace_left lev_cong_left del: lev.simps)
qed

lemma lev_refl [simp]: "lev s s = 0"
  by (induction s) simp_all

lemma lev_lower: "(edit1 ^^ n) s t \<Longrightarrow> lev s t \<le> n"
proof (induction n arbitrary: s)
  case 0
  then show ?case by simp
next
  case (Suc n)
  then obtain s' where "edit1 s s'" "(edit1 ^^ n) s' t"
    by (metis relpowp_Suc_D2)
  then show ?case using lev_edit1 [of s s' t] Suc.IH [of s'] by simp
qed

lemma edit1_Cons: "edit1 s t \<Longrightarrow> edit1 (x # s) (x # t)"
  by (induction rule: edit1.induct) (metis append_Cons edit1.intros)+

lemma edits_Cons: "(edit1 ^^ n) s t \<Longrightarrow> (edit1 ^^ n) (x # s) (x # t)"
proof (induction n arbitrary: s)
  case 0
  then show ?case by simp
next
  case (Suc n)
  then show ?case by (metis edit1_Cons relpowp_Suc_D2 relpowp_Suc_I2)
qed

lemma edit1_heads: "edit1 s (a # s)" "edit1 (a # s) s" "edit1 (a # s) (b # s)"
  using edit1.intros [of "[]"] by simp_all

lemma edits_insert: "(edit1 ^^ length ys) [] ys"
proof (induction ys)
  case Nil
  then show ?case by simp
next
  case (Cons y ys)
  then show ?case using edit1_heads(1) [of ys y] by auto
qed

lemma edits_remove: "(edit1 ^^ length xs) xs []"
proof (induction xs)
  case Nil
  then show ?case by simp
next
  case (Cons x xs)
  then have "(edit1 ^^ Suc (length xs)) (x # xs) []"
    by (intro relpowp_Suc_I2 [where P = edit1 and y = xs] edit1_heads(2))
  then show ?case by (simp only: length_Cons)
qed

lemma lev_upper: "(edit1 ^^ lev s t) s t"
proof (induction s t rule: lev.induct)
  case (1 ys)
  then show ?case by (simp add: edits_insert)
next
  case (2 x xs)
  then show ?case using edits_remove [of "x # xs"] by simp
next
  case (3 x xs y ys)
  have a: "(edit1 ^^ Suc (lev (x # xs) ys)) (x # xs) (y # ys)"
    using 3(1) by (metis edit1_heads(1) relpowp_Suc_I)
  have b: "(edit1 ^^ Suc (lev xs (y # ys))) (x # xs) (y # ys)"
    using 3(2) by (metis edit1_heads(2) relpowp_Suc_I2)
  have c: "(edit1 ^^ (lev xs ys + (if x = y then 0 else 1))) (x # xs) (y # ys)"
    using edits_Cons [OF 3(3), of y] by (auto intro: relpowp_Suc_I2 edit1_heads simp del: relpowp.simps)
  show ?case using a b c by (auto simp: min_def simp del: relpowp.simps)
qed

lemma lev_edit_distance: "lev s t = edit_distance s t"
  unfolding edit_distance_def
  by (rule sym, rule Least_equality) (auto intro: lev_upper lev_lower)

lemma edit1_rev: "edit1 s t \<Longrightarrow> edit1 (rev s) (rev t)"
  by (induction rule: edit1.induct) (simp_all add: edit1.intros)

lemma edits_rev: "(edit1 ^^ n) s t \<Longrightarrow> (edit1 ^^ n) (rev s) (rev t)"
proof (induction n arbitrary: s)
  case 0
  then show ?case by simp
next
  case (Suc n)
  then show ?case by (metis edit1_rev relpowp_Suc_D2 relpowp_Suc_I2)
qed

lemma edit_distance_rev: "edit_distance (rev s) (rev t) = edit_distance s t"
proof -
  have "(edit1 ^^ n) (rev s) (rev t) = (edit1 ^^ n) s t" for n
    using edits_rev [of n s t] edits_rev [of n "rev s" "rev t"] by auto
  then show ?thesis by (simp add: edit_distance_def)
qed

section \<open>The columns hold the distances of the prefixes\<close>

definition prefix_lev :: "'a list \<Rightarrow> 'a list \<Rightarrow> nat \<Rightarrow> nat \<Rightarrow> nat" where
  "prefix_lev s1 s2 i j = lev (rev (take i s1)) (rev (take j s2))"

lemma prefix_lev_base:
  "j \<le> length s2 \<Longrightarrow> prefix_lev s1 s2 0 j = j"
  "i \<le> length s1 \<Longrightarrow> prefix_lev s1 s2 i 0 = i"
  by (simp_all add: prefix_lev_def)

lemma prefix_lev_Suc:
  assumes "i < length s1" "j < length s2"
  shows "prefix_lev s1 s2 (Suc i) (Suc j) =
    min (min (1 + prefix_lev s1 s2 (Suc i) j) (1 + prefix_lev s1 s2 i (Suc j)))
        (prefix_lev s1 s2 i j + (if s1 ! i = s2 ! j then 0 else 1))"
  using assms by (simp add: prefix_lev_def take_Suc_conv_app_nth)

lemma inner_loop:
  assumes "i < length s1" and len: "length col = Suc (length s2)" "length prevCol = Suc (length s2)"
    and prev: "\<And>j. j \<le> length s2 \<Longrightarrow> prevCol ! j = prefix_lev s1 s2 i j" and k: "k \<le> length s2"
  defines "r \<equiv> \<lambda>k. foldl (lev_cell (s1 ! i) s2 prevCol) (col[0 := i + 1]) [0..<k]"
  shows "length (r k) = Suc (length s2) \<and> (\<forall>j \<le> k. r k ! j = prefix_lev s1 s2 (Suc i) j)"
  using k
proof (induction k)
  case 0
  then show ?case using assms(1) len by (simp add: r_def prefix_lev_base)
next
  case (Suc k)
  have r: "r (Suc k) = lev_cell (s1 ! i) s2 prevCol (r k) k"
    by (simp add: r_def)
  have IH: "length (r k) = Suc (length s2)" "\<And>j. j \<le> k \<Longrightarrow> r k ! j = prefix_lev s1 s2 (Suc i) j"
    using Suc by auto
  have "r (Suc k) ! j = prefix_lev s1 s2 (Suc i) j" if "j \<le> Suc k" for j
    using that IH Suc.prems prev [of k] prev [of "Suc k"] assms(1)
    by (cases "j = Suc k") (simp_all add: r lev_cell_def prefix_lev_Suc nth_list_update)
  then show ?case using IH by (simp add: r lev_cell_def)
qed

lemma outer_loop:
  fixes s1 s2 :: "'a list"
  assumes "i \<le> length s1"
  defines "r \<equiv> \<lambda>k. foldl (lev_column s1 s2) (replicate (length s2 + 1) 0, [0..<length s2 + 1]) [0..<k]"
  shows "length (fst (r i)) = Suc (length s2) \<and> length (snd (r i)) = Suc (length s2)
    \<and> (\<forall>j \<le> length s2. snd (r i) ! j = prefix_lev s1 s2 i j)"
  using assms(1)
proof (induction i)
  case 0
  then show ?case by (simp add: r_def prefix_lev_base del: upt_Suc)
next
  case (Suc i)
  have "r (Suc i) = lev_column s1 s2 (r i) i"
    by (simp add: r_def)
  then show ?case
    using Suc inner_loop [of i s1 "fst (r i)" s2 "snd (r i)" "length s2"]
    by (auto simp: lev_column_def split_beta Let_def)
qed

lemma levenshteinDistance_lev: "levenshteinDistance s1 s2 = edit_distance s1 s2"
proof -
  have "levenshteinDistance s1 s2 = prefix_lev s1 s2 (length s1) (length s2)"
    using outer_loop [of "length s1" s1 s2]
    by (simp add: levenshteinDistance_def split_beta Let_def del: upt_Suc)
  then show ?thesis
    by (simp add: prefix_lev_def lev_edit_distance edit_distance_rev)
qed

text \<open>C18: The two-column program of the code computes the edit distance: the value it returns is the
  least number of insertions, removals and replacements of one character that turn the one string
  into the other.\<close>
theorem levenshteinDistance_least:
  "levenshteinDistance s1 s2 = (LEAST n. (edit1 ^^ n) s1 s2)"
  by (simp add: levenshteinDistance_lev edit_distance_def)

section \<open>The most similar name\<close>

text \<open>What the search keeps: a bound on the distances seen, reached by the element it holds.\<close>

definition nearest :: "string \<Rightarrow> string list \<Rightarrow> string \<times> int \<Rightarrow> bool" where
  "nearest s seen best \<longleftrightarrow> snd best \<le> 99
     \<and> (\<forall>x \<in> set seen. snd best \<le> int (edit_distance x s))
     \<and> (if snd best = 99 then fst best = []
        else fst best \<in> set seen \<and> snd best = int (edit_distance (fst best) s))"

lemma nearest_fold: "nearest s xs (foldl (similar_step s) ([], 99) xs)"
proof (induction xs rule: rev_induct)
  case Nil
  then show ?case by (simp add: nearest_def)
next
  case (snoc x xs)
  then show ?case
    by (fastforce simp: nearest_def similar_step_def levenshteinDistance_lev Let_def)
qed

lemma findTheMostSimilarString_nearest:
  "(findTheMostSimilarString s xs = [] \<and> (\<forall>x \<in> set xs. 99 \<le> edit_distance x s)) \<or>
   (findTheMostSimilarString s xs \<in> set xs \<and> edit_distance (findTheMostSimilarString s xs) s < 99
    \<and> (\<forall>x \<in> set xs. edit_distance (findTheMostSimilarString s xs) s \<le> edit_distance x s))"
  using nearest_fold [of s xs] unfolding nearest_def findTheMostSimilarString_def
  by (auto split: if_splits)

end
