(* ===== verification/Factories.thy ===== *)
theory Factories
  imports Aliaser Edit_Distance "HOL-Library.Char_ord" "HOL-Library.List_Lexorder"
begin

text \<open>The processor factories (common/processor_factory.cpp, common/annotator_factory.cpp,
  common/language_dependent_annotator_factory.cpp), their keeper (framework/factories_keeper.cpp)
  and the aliases that framework/main_factories_keeper.cpp sets up.  A std::map is a map, iterated
  over its sorted domain.  What a concrete processor does (its options, its layer tags, its
  creation) is a field of the factory record.\<close>

section \<open>Factories\<close>

datatype LanguagesHandling = LANGUAGE_INDEPENDENT | JUST_ONE_LANGUAGE | LANGUAGE_DEPENDENT
  | LANGUAGE_GUESSER

text \<open>The options of a processor, as the option library leaves them: a map from option names to
  their text.\<close>

type_synonym options = "string \<rightharpoonup> string"

text \<open>A factory: \<open>f_annotator\<close>, \<open>f_reader\<close> and \<open>f_writer\<close> are the dynamic casts, \<open>f_parse\<close> parses
  arguments against the options the factory handles (\<open>None\<close> is the error of the option library),
  \<open>f_create\<close> makes the processor or throws.  The layer tags are stated twice, without options
  (\<open>f_required0\<close>, \<open>f_provided0\<close>) and for the options of a promise.\<close>

record 'p factory =
  f_name :: string
  f_aliases :: "string list"
  f_annotator :: bool
  f_reader :: bool
  f_writer :: bool
  f_parse :: "string list \<Rightarrow> options option"
  f_required0 :: "string list list"
  f_provided0 :: "string list"
  f_required :: "options \<Rightarrow> string list list"
  f_provided :: "options \<Rightarrow> string list"
  f_handling :: "options \<Rightarrow> LanguagesHandling"
  f_handled :: "options \<Rightarrow> string list"
  f_quality :: "options \<Rightarrow> int"
  f_time :: "options \<Rightarrow> int"
  f_continuation :: "options \<Rightarrow> string"
  f_requirements :: "options \<Rightarrow> bool"
  f_create :: "options \<Rightarrow> string + 'p"

text \<open>The values most processors inherit.\<close>

definition default_quality :: "options \<Rightarrow> int" where
  "default_quality opts = 0"

definition default_time :: "options \<Rightarrow> int" where
  "default_time opts = -1"

definition annotator_continuation :: "options \<Rightarrow> string" where
  "annotator_continuation opts = ''psi-writer''"

text \<open>Language-dependent annotators: the \<open>lang\<close> option decides, and its value \<open>guess\<close> stands for no
  language.\<close>

definition isJustNoLanguage :: "options \<Rightarrow> bool" where
  "isJustNoLanguage opts = (case opts ''lang'' of None \<Rightarrow> True | Some lang \<Rightarrow> lang = ''guess'')"

definition checkLangOption :: "options \<Rightarrow> LanguagesHandling" where
  "checkLangOption opts = (if isJustNoLanguage opts then LANGUAGE_DEPENDENT else JUST_ONE_LANGUAGE)"

definition language_dependent_handled :: "string list \<Rightarrow> options \<Rightarrow> string list" where
  "language_dependent_handled all_langs opts =
     (if isJustNoLanguage opts then all_langs else [the (opts ''lang'')])"

section \<open>The keeper of the factories\<close>

datatype pipe_error =
    Unknown_Processor string string
  | Options_Error
  | Pipe_Exception string
  | Psi_Exception string
  | Undefined_Behaviour

record 'p keeper =
  nameToFactoryMap :: "string \<rightharpoonup> 'p factory"
  k_aliaser :: aliaser

definition empty_keeper :: "'p keeper" where
  "empty_keeper = \<lparr>nameToFactoryMap = Map.empty, k_aliaser = empty_aliaser\<rparr>"

definition getBaseAliasForTag :: "string \<Rightarrow> string" where
  "getBaseAliasForTag tag = tag @ ''-generator''"

definition keeper_addAlias :: "string \<Rightarrow> string \<Rightarrow> 'p keeper \<Rightarrow> 'p keeper" where
  "keeper_addAlias alias destination k = k\<lparr>k_aliaser := addAlias alias destination (k_aliaser k)\<rparr>"

definition keeper_addVoidAlias :: "string \<Rightarrow> 'p keeper \<Rightarrow> 'p keeper" where
  "keeper_addVoidAlias alias k = k\<lparr>k_aliaser := addVoidAlias alias (k_aliaser k)\<rparr>"

definition addTagBasedAlias :: "string \<Rightarrow> string \<Rightarrow> 'p keeper \<Rightarrow> 'p keeper" where
  "addTagBasedAlias tag alias k =
     keeper_addVoidAlias (getBaseAliasForTag tag) (keeper_addAlias alias (getBaseAliasForTag tag) k)"

definition addTagBasedIzeAliases :: "string \<Rightarrow> string \<Rightarrow> 'p keeper \<Rightarrow> 'p keeper" where
  "addTagBasedIzeAliases tag aliasRoot k =
     addTagBasedAlias tag (aliasRoot @ ''izer'') (addTagBasedAlias tag (aliasRoot @ ''iser'')
       (addTagBasedAlias tag (aliasRoot @ ''ize'') (addTagBasedAlias tag (aliasRoot @ ''ise'') k)))"

definition isTagRequiredByAnnotator :: "string \<Rightarrow> 'p factory \<Rightarrow> bool" where
  "isTagRequiredByAnnotator tag f = (\<exists>sq \<in> set (f_required0 f). tag \<in> set sq)"

definition checkAnnotator_step :: "'p factory \<Rightarrow> aliaser \<Rightarrow> string \<Rightarrow> aliaser" where
  "checkAnnotator_step f a tag =
     (let baseAlias = getBaseAliasForTag tag
      in if isAlias a baseAlias \<and> \<not> isTagRequiredByAnnotator tag f
         then addAlias baseAlias (f_name f) a else a)"

definition checkAnnotator :: "'p factory \<Rightarrow> 'p keeper \<Rightarrow> 'p keeper" where
  "checkAnnotator f k =
     (if f_annotator f
      then k\<lparr>k_aliaser := foldl (checkAnnotator_step f) (k_aliaser k) (f_provided0 f)\<rparr> else k)"

definition takeProcessorFactory :: "'p keeper \<Rightarrow> 'p factory \<Rightarrow> 'p keeper" where
  "takeProcessorFactory k f =
     (let k = checkAnnotator f k;
          k = k\<lparr>k_aliaser := foldl (\<lambda>a alias. addAlias alias (f_name f) a) (k_aliaser k) (f_aliases f)\<rparr>
      in k\<lparr>nameToFactoryMap := (nameToFactoryMap k)(f_name f \<mapsto> f)\<rparr>)"

definition hasProcessorFactory :: "'p keeper \<Rightarrow> string \<Rightarrow> bool" where
  "hasProcessorFactory k name \<longleftrightarrow> nameToFactoryMap k name \<noteq> None"

definition getProcessorNames :: "'p keeper \<Rightarrow> string list" where
  "getProcessorNames k = sorted_list_of_set (dom (nameToFactoryMap k))"

definition getClosestKnownProcessorName :: "'p keeper \<Rightarrow> string \<Rightarrow> string" where
  "getClosestKnownProcessorName k unknownName =
     findTheMostSimilarString unknownName
       (getProcessorNames k @ sorted_list_of_set (getAliasNames (k_aliaser k)))"

definition getProcessorFactory :: "'p keeper \<Rightarrow> string \<Rightarrow> pipe_error + 'p factory" where
  "getProcessorFactory k name =
     (case nameToFactoryMap k name of Some f \<Rightarrow> Inr f
      | None \<Rightarrow> Inl (Unknown_Processor name (getClosestKnownProcessorName k name)))"

text \<open>Results of a list of fallible calls, stopping at the first error.\<close>

fun mapE :: "('a \<Rightarrow> 'e + 'b) \<Rightarrow> 'a list \<Rightarrow> 'e + 'b list" where
  "mapE f [] = Inr []"
| "mapE f (x # xs) = sbind (f x) (\<lambda>y. sbind (mapE f xs) (\<lambda>ys. Inr (y # ys)))"

definition getProcessorFactoriesForName :: "'p keeper \<Rightarrow> string \<Rightarrow> pipe_error + 'p factory list" where
  "getProcessorFactoriesForName k name =
     (case nameToFactoryMap k name of
        Some f \<Rightarrow> Inr [f]
      | None \<Rightarrow>
          if isAlias (k_aliaser k) name
          then mapE (getProcessorFactory k) (sorted_list_of_set (getAllDestinations (k_aliaser k) name))
          else Inl (Unknown_Processor name (getClosestKnownProcessorName k name)))"

text \<open>The text of the exception (the constructor of UnknownProcessorException).\<close>

definition unknown_processor_text :: "string \<Rightarrow> string \<Rightarrow> string" where
  "unknown_processor_text processorName alternativeName =
     ''unknown processor `'' @ processorName @ ''`, did you mean `'' @ alternativeName @ ''`?''"

section \<open>The main keeper\<close>

text \<open>The constructor of MainFactoriesKeeper: the aliases it starts from (the compile-time switches
  are arguments), then the factories in their order.\<close>

definition addAliases :: "(string \<times> string) list \<Rightarrow> 'p keeper \<Rightarrow> 'p keeper" where
  "addAliases pairs k = foldl (\<lambda>k (alias, destination). keeper_addAlias alias destination k) k pairs"

definition main_tag_aliases :: "'p keeper" where
  "main_tag_aliases =
     addTagBasedIzeAliases ''lemma'' ''lemmat''
      (addTagBasedAlias ''parse'' ''parser'' (addTagBasedAlias ''parse'' ''parse''
       (addTagBasedAlias ''segment'' ''segmenter'' (addTagBasedAlias ''segment'' ''segment''
        (addTagBasedIzeAliases ''token'' ''token'' empty_keeper)))))"

definition main_alias_pairs :: "bool \<Rightarrow> bool \<Rightarrow> bool \<Rightarrow> bool \<Rightarrow> bool \<Rightarrow> (string \<times> string) list" where
  "main_alias_pairs libmagic poppler djvulibre doc_reader graphviz =
     [(''spell-checker'', ''spell''), (''spell-check'', ''spell''), (''spellchecker'', ''spell''),
      (''spellcheck'', ''spell''), (''simplenorm'', ''simplenorm-normalizer''),
      (''simple-normalizer'', ''simplenorm-normalizer'')] @
     (if libmagic then [(''guess-input'', ''guessing-reader''), (''guess-format'', ''guessing-reader'')]
      else []) @
     [(''guess-lang'', ''lang-guesser''), (''guess-language'', ''lang-guesser''),
      (''read'', ''txt-reader''), (''read-txt'', ''txt-reader''), (''read-text'', ''txt-reader''),
      (''text-reader'', ''txt-reader'')] @
     (if poppler then [(''read-pdf'', ''pdf-reader'')] else []) @
     (if djvulibre then [(''read-djvu'', ''djvu-reader'')] else []) @
     (if doc_reader then [(''read-doc'', ''doc-reader'')] else []) @
     [(''read-nkjp'', ''nkjp-reader''), (''read-utt'', ''utt-reader''),
      (''lattice-reader'', ''psi-reader''), (''read-psi'', ''psi-reader''),
      (''read-lattice'', ''psi-reader''), (''write-psi'', ''psi-writer''),
      (''write-lattice'', ''psi-writer''), (''write'', ''simple-writer''),
      (''write-simple'', ''simple-writer''), (''write-morphology'', ''morphology-writer''),
      (''write-forms-and-lemmas'', ''morphology-writer''),
      (''write-lemmas-and-forms'', ''morphology-writer''), (''morpho-writer'', ''morphology-writer'')] @
     (if graphviz
      then [(''chart-writer'', ''gv-writer''), (''graph-writer'', ''gv-writer''),
            (''write-graph'', ''gv-writer''), (''write-chart'', ''gv-writer''),
            (''graph'', ''gv-writer''), (''draw'', ''gv-writer'')]
      else []) @
     [(''write-dot'', ''dot-writer''), (''write-simple-json'', ''json-simple-writer'')]"

definition main_aliases :: "(string \<times> string) list \<Rightarrow> 'p keeper" where
  "main_aliases pairs = addAliases pairs (keeper_addVoidAlias ''spell'' main_tag_aliases)"

definition main_keeper :: "(string \<times> string) list \<Rightarrow> 'p factory list \<Rightarrow> 'p keeper" where
  "main_keeper pairs fs = foldl takeProcessorFactory (main_aliases pairs) fs"

section \<open>What registration does to the aliases\<close>

lemma mapE_Inr: "(\<And>x. x \<in> set xs \<Longrightarrow> f x = Inr (g x)) \<Longrightarrow> mapE f xs = Inr (map g xs)"
  by (induction xs) auto

lemma mapE_InrD: "mapE f xs = Inr ys \<Longrightarrow> length ys = length xs \<and> (\<forall>i < length xs. f (xs ! i) = Inr (ys ! i))"
proof (induction xs arbitrary: ys)
  case (Cons x xs)
  then obtain y zs where "f x = Inr y" "mapE f xs = Inr zs" "ys = y # zs"
    by (auto simp: sbind_Inr)
  then show ?case using Cons.IH by (auto simp: nth_Cons split: nat.splits)
qed simp

lemma fold_checkAnnotator:
  "alias_rel (foldl (checkAnnotator_step f) a tags) =
     alias_rel a \<union> {(getBaseAliasForTag t, f_name f) | t.
       t \<in> set tags \<and> isAlias a (getBaseAliasForTag t) \<and> \<not> isTagRequiredByAnnotator t f}
   \<and> isAlias (foldl (checkAnnotator_step f) a tags) = isAlias a"
proof (induction tags rule: rev_induct)
  case (snoc t tags)
  then show ?case
    by (auto simp: checkAnnotator_step_def Let_def alias_rel_addAlias fun_eq_iff)
qed simp

lemma fold_addAlias:
  "alias_rel (foldl (\<lambda>a alias. addAlias alias d a) a as) = alias_rel a \<union> (set as \<times> {d})"
  "isAlias (foldl (\<lambda>a alias. addAlias alias d a) a as) n \<longleftrightarrow> n \<in> set as \<or> isAlias a n"
  by (induction as rule: rev_induct) (auto simp: alias_rel_addAlias)

text \<open>The annotators a tag-based alias stands for.\<close>

definition generates :: "string \<Rightarrow> 'p factory \<Rightarrow> bool" where
  "generates tag f \<longleftrightarrow> f_annotator f \<and> tag \<in> set (f_provided0 f) \<and> \<not> isTagRequiredByAnnotator tag f"

lemma getBaseAliasForTag_inject [simp]: "getBaseAliasForTag s = getBaseAliasForTag t \<longleftrightarrow> s = t"
  by (simp add: getBaseAliasForTag_def)

lemma takeProcessorFactory_aliaser:
  "alias_rel (k_aliaser (takeProcessorFactory k f)) =
     alias_rel (k_aliaser k) \<union> (set (f_aliases f) \<times> {f_name f}) \<union>
     {(getBaseAliasForTag t, f_name f) | t. generates t f \<and> isAlias (k_aliaser k) (getBaseAliasForTag t)}"
  "isAlias (k_aliaser (takeProcessorFactory k f)) n \<longleftrightarrow> n \<in> set (f_aliases f) \<or> isAlias (k_aliaser k) n"
  using fold_checkAnnotator [of f "k_aliaser k" "f_provided0 f"]
  by (auto simp: takeProcessorFactory_def checkAnnotator_def Let_def fold_addAlias generates_def)

lemma takeProcessorFactory_map [simp]:
  "nameToFactoryMap (takeProcessorFactory k f) = (nameToFactoryMap k)(f_name f \<mapsto> f)"
  by (simp add: takeProcessorFactory_def checkAnnotator_def Let_def)

lemma registered_aliases:
  assumes "isAlias (k_aliaser k0) (getBaseAliasForTag tag)"
    "\<And>f. f \<in> set fs \<Longrightarrow> getBaseAliasForTag tag \<notin> set (f_aliases f)"
  shows "alias_rel (k_aliaser (foldl takeProcessorFactory k0 fs)) `` {getBaseAliasForTag tag} =
     alias_rel (k_aliaser k0) `` {getBaseAliasForTag tag} \<union> f_name ` {f \<in> set fs. generates tag f}
   \<and> (\<forall>n. isAlias (k_aliaser (foldl takeProcessorFactory k0 fs)) n \<longleftrightarrow>
         isAlias (k_aliaser k0) n \<or> (\<exists>f \<in> set fs. n \<in> set (f_aliases f)))"
  using assms(2)
proof (induction fs rule: rev_induct)
  case (snoc f fs)
  then have IH: "alias_rel (k_aliaser (foldl takeProcessorFactory k0 fs)) `` {getBaseAliasForTag tag} =
     alias_rel (k_aliaser k0) `` {getBaseAliasForTag tag} \<union> f_name ` {f \<in> set fs. generates tag f}"
   "\<And>n. isAlias (k_aliaser (foldl takeProcessorFactory k0 fs)) n \<longleftrightarrow>
         isAlias (k_aliaser k0) n \<or> (\<exists>f \<in> set fs. n \<in> set (f_aliases f))"
    by auto
  have nf: "getBaseAliasForTag tag \<notin> set (f_aliases f)" using snoc.prems by simp
  have "alias_rel (k_aliaser (foldl takeProcessorFactory k0 (fs @ [f]))) `` {getBaseAliasForTag tag} =
    alias_rel (k_aliaser (foldl takeProcessorFactory k0 fs)) `` {getBaseAliasForTag tag}
    \<union> (if generates tag f then {f_name f} else {})"
    using nf assms(1) by (auto simp: takeProcessorFactory_aliaser IH(2))
  then show ?case
    by (simp add: IH takeProcessorFactory_aliaser) auto
qed simp

lemma unregistered_alias:
  assumes "\<And>f. f \<in> set fs \<Longrightarrow> alias \<notin> set (f_aliases f)"
    "\<And>t. alias \<noteq> getBaseAliasForTag t"
  shows "alias_rel (k_aliaser (foldl takeProcessorFactory k0 fs)) `` {alias} =
     alias_rel (k_aliaser k0) `` {alias}"
  using assms(1)
  by (induction fs rule: rev_induct) (auto simp: takeProcessorFactory_aliaser assms(2))

lemma registered_names:
  "nameToFactoryMap (foldl takeProcessorFactory k0 fs) n =
     (case find (\<lambda>f. f_name f = n) (rev fs) of Some f \<Rightarrow> Some f | None \<Rightarrow> nameToFactoryMap k0 n)"
  by (induction fs rule: rev_induct) auto

section \<open>Tag-based aliases\<close>

text \<open>The aliases of the main keeper that stand for every annotator of a layer.\<close>

definition tag_aliases :: "(string \<times> string) list" where
  "tag_aliases =
     [(''tokenise'', ''token''), (''tokenize'', ''token''), (''tokeniser'', ''token''),
      (''tokenizer'', ''token''), (''segment'', ''segment''), (''segmenter'', ''segment''),
      (''parse'', ''parse''), (''parser'', ''parse''), (''lemmatise'', ''lemma''),
      (''lemmatize'', ''lemma''), (''lemmatiser'', ''lemma''), (''lemmatizer'', ''lemma'')]"

lemma addAliases_aliaser:
  "alias_rel (k_aliaser (addAliases pairs k)) = alias_rel (k_aliaser k) \<union> set pairs"
  "isAlias (k_aliaser (addAliases pairs k)) n \<longleftrightarrow> n \<in> fst ` set pairs \<or> isAlias (k_aliaser k) n"
  by (induction pairs arbitrary: k) (auto simp: addAliases_def keeper_addAlias_def alias_rel_addAlias)

lemma addTagBasedAlias_aliaser:
  "alias_rel (k_aliaser (addTagBasedAlias tag n k)) =
     insert (n, getBaseAliasForTag tag) (alias_rel (k_aliaser k))"
  "isAlias (k_aliaser (addTagBasedAlias tag n k)) m \<longleftrightarrow>
     m = n \<or> m = getBaseAliasForTag tag \<or> isAlias (k_aliaser k) m"
  by (auto simp: addTagBasedAlias_def keeper_addAlias_def keeper_addVoidAlias_def alias_rel_addAlias)

lemma empty_keeper_aliaser:
  "alias_rel (k_aliaser empty_keeper) = {}" "\<not> isAlias (k_aliaser empty_keeper) m"
  by (simp_all add: empty_keeper_def empty_aliaser_def alias_rel_def isAlias_def)

lemma main_tag_aliases_fold:
  "main_tag_aliases = foldl (\<lambda>k (n, t). addTagBasedAlias t n k) empty_keeper tag_aliases"
  by (simp add: main_tag_aliases_def addTagBasedIzeAliases_def tag_aliases_def)

lemma fold_tag_aliases:
  "alias_rel (k_aliaser (foldl (\<lambda>k (n, t). addTagBasedAlias t n k) k0 xs)) =
     alias_rel (k_aliaser k0) \<union> {(n, getBaseAliasForTag t) | n t. (n, t) \<in> set xs}"
  "isAlias (k_aliaser (foldl (\<lambda>k (n, t). addTagBasedAlias t n k) k0 xs)) m \<longleftrightarrow>
     isAlias (k_aliaser k0) m \<or> (\<exists>(n, t) \<in> set xs. m = n \<or> m = getBaseAliasForTag t)"
  by (induction xs arbitrary: k0) (auto simp: addTagBasedAlias_aliaser)

lemma main_tag_aliases_aliaser:
  "alias_rel (k_aliaser main_tag_aliases) = {(n, getBaseAliasForTag t) | n t. (n, t) \<in> set tag_aliases}"
  "isAlias (k_aliaser main_tag_aliases) m \<longleftrightarrow>
     (\<exists>(n, t) \<in> set tag_aliases. m = n \<or> m = getBaseAliasForTag t)"
  by (simp_all add: main_tag_aliases_fold fold_tag_aliases empty_keeper_aliaser)

lemma main_aliases_aliaser:
  "alias_rel (k_aliaser (main_aliases pairs)) =
     {(n, getBaseAliasForTag t) | n t. (n, t) \<in> set tag_aliases} \<union> set pairs"
  "isAlias (k_aliaser (main_aliases pairs)) m \<longleftrightarrow>
     (\<exists>(n, t) \<in> set tag_aliases. m = n \<or> m = getBaseAliasForTag t) \<or> m \<in> fst ` set pairs \<or> m = ''spell''"
  unfolding main_aliases_def
  by (auto simp: addAliases_aliaser keeper_addVoidAlias_def main_tag_aliases_aliaser)

text \<open>No plain alias is one of the tag-based aliases or one of their bases.\<close>

lemma main_alias_pairs_apart:
  "list_all (\<lambda>(n, t). list_all (\<lambda>(x, y). x \<noteq> n \<and> x \<noteq> getBaseAliasForTag t)
     (main_alias_pairs a b c d e)) tag_aliases"
  by (simp add: main_alias_pairs_def tag_aliases_def getBaseAliasForTag_def)

lemma main_alias_pairs_tags:
  assumes "(n, t) \<in> set tag_aliases"
  shows "n \<notin> fst ` set (main_alias_pairs a b c d e)"
    "getBaseAliasForTag t \<notin> fst ` set (main_alias_pairs a b c d e)"
  using main_alias_pairs_apart [of a b c d e] assms by (fastforce simp: list_all_iff)+

lemma tag_aliases_base:
  assumes "(n, t) \<in> set tag_aliases"
  shows "n \<noteq> getBaseAliasForTag s"
proof
  assume n: "n = getBaseAliasForTag s"
  have "list_all (\<lambda>(n, t). drop (length n - 10) n \<noteq> ''-generator'') tag_aliases"
    by (simp add: tag_aliases_def)
  then have "drop (length n - 10) n \<noteq> ''-generator''"
    using assms by (auto simp: list_all_iff)
  then show False by (simp add: n getBaseAliasForTag_def)
qed

lemma tag_aliases_fun:
  assumes "(n, t) \<in> set tag_aliases" "(n, s) \<in> set tag_aliases"
  shows "s = t"
proof -
  have "distinct (map fst tag_aliases)" by (simp add: tag_aliases_def)
  then show ?thesis using assms by (meson eq_key_imp_eq_value)
qed

lemma fst_notin: "x \<notin> fst ` A \<Longrightarrow> (x, y) \<notin> A"
  by force

lemma main_aliases_Image:
  fixes a b c d e :: bool
  assumes "(n, t) \<in> set tag_aliases"
  defines "k \<equiv> main_aliases (main_alias_pairs a b c d e)"
  shows "alias_rel (k_aliaser k) `` {n} = {getBaseAliasForTag t}"
    "alias_rel (k_aliaser k) `` {getBaseAliasForTag t} = {}"
proof -
  have r: "(x, y) \<in> alias_rel (k_aliaser k) \<longleftrightarrow>
      (\<exists>s. (x, s) \<in> set tag_aliases \<and> y = getBaseAliasForTag s) \<or> (x, y) \<in> set (main_alias_pairs a b c d e)" for x y
    by (auto simp: k_def main_aliases_aliaser)
  have "(n, y) \<in> alias_rel (k_aliaser k) \<longleftrightarrow> y = getBaseAliasForTag t" for y
    unfolding r using fst_notin [OF main_alias_pairs_tags(1) [OF assms(1)]] assms(1)
    by (blast dest: tag_aliases_fun)
  then show "alias_rel (k_aliaser k) `` {n} = {getBaseAliasForTag t}" by blast
  have "(getBaseAliasForTag t, y) \<notin> alias_rel (k_aliaser k)" for y
    unfolding r using fst_notin [OF main_alias_pairs_tags(2) [OF assms(1)]] tag_aliases_base by blast
  then show "alias_rel (k_aliaser k) `` {getBaseAliasForTag t} = {}" by blast
qed

lemma destinations_Image: "isAlias a x \<Longrightarrow> the (aliasDestinations a x) = alias_rel a `` {x}"
  by (auto simp: isAlias_def alias_rel_def)

lemma insort_key_map: "map f (insort_key f x xs) = insort (f x) (map f xs)"
  by (induction xs) auto

lemma sort_key_map: "map f (sort_key f xs) = sort (map f xs)"
  by (induction xs) (simp_all add: insort_key_map)

lemma find_distinct:
  "distinct (map f xs) \<Longrightarrow> x \<in> set xs \<Longrightarrow> find (\<lambda>y. f y = f x) xs = Some x"
  by (induction xs) auto

lemma addAliases_map: "nameToFactoryMap (addAliases pairs k) = nameToFactoryMap k"
  by (induction pairs arbitrary: k) (auto simp: addAliases_def keeper_addAlias_def)

lemma main_aliases_map [simp]: "nameToFactoryMap (main_aliases pairs) = Map.empty"
  by (simp add: main_aliases_def addAliases_map main_tag_aliases_def addTagBasedIzeAliases_def
      addTagBasedAlias_def keeper_addAlias_def keeper_addVoidAlias_def empty_keeper_def)

text \<open>C27: In the main keeper, whatever is compiled in, each tag-based alias such as tokenize or
  lemmatizer names exactly the registered annotators that provide the layer and do not require it
  themselves, in the order of their names, as long as no factory takes an alias for its name or
  lists the tag-based names among its own aliases.\<close>
theorem tag_alias_resolves:
  assumes "(n, t) \<in> set tag_aliases" and "distinct (map f_name fs)"
    and "\<forall>f \<in> set fs. n \<notin> set (f_aliases f) \<and> getBaseAliasForTag t \<notin> set (f_aliases f)"
    and "\<forall>f \<in> set fs. \<not> isAlias (k_aliaser (main_keeper (main_alias_pairs a b c d e) fs)) (f_name f)"
  shows "getProcessorFactoriesForName (main_keeper (main_alias_pairs a b c d e) fs) n =
     Inr (sort_key f_name (filter (generates t) fs))"
proof -
  define k0 where "k0 = (main_aliases (main_alias_pairs a b c d e) :: 'a keeper)"
  define k where "k = foldl takeProcessorFactory k0 fs"
  have k: "main_keeper (main_alias_pairs a b c d e) fs = k"
    by (simp add: main_keeper_def k_def k0_def)
  have isb: "isAlias (k_aliaser k0) (getBaseAliasForTag t)" "isAlias (k_aliaser k0) n"
    unfolding k0_def main_aliases_aliaser using assms(1) by auto
  have r: "alias_rel (k_aliaser k) `` {getBaseAliasForTag t} =
      alias_rel (k_aliaser k0) `` {getBaseAliasForTag t} \<union> f_name ` {f \<in> set fs. generates t f}"
    and isa: "\<And>m. isAlias (k_aliaser k0) m \<Longrightarrow> isAlias (k_aliaser k) m"
    using registered_aliases [of k0 t fs] isb(1) assms(3) by (auto simp: k_def)
  have "alias_rel (k_aliaser k0) `` {getBaseAliasForTag t} = {}"
    unfolding k0_def by (rule main_aliases_Image [OF assms(1)])
  then have base: "the (aliasDestinations (k_aliaser k) (getBaseAliasForTag t)) =
      f_name ` set (filter (generates t) fs)"
    using r destinations_Image [OF isa [OF isb(1)]] by (simp add: set_eq_iff)
  have "alias_rel (k_aliaser k) `` {n} = {getBaseAliasForTag t}"
    using unregistered_alias [of fs n k0] assms(3) tag_aliases_base [OF assms(1)]
      main_aliases_Image(1) [OF assms(1)] by (simp add: k_def k0_def)
  then have top: "the (aliasDestinations (k_aliaser k) n) = {getBaseAliasForTag t}"
    using destinations_Image [OF isa [OF isb(2)]] by simp
  have free: "\<not> isAlias (k_aliaser k) (f_name f)" if "f \<in> set fs" for f
    using assms(4) that k by simp
  have "getAllDestinations (k_aliaser k) n = f_name ` set (filter (generates t) fs)"
    using free isa isb
    by (auto simp: getAllDestinations_def SEARCH_DEPTH_LIMIT_def eval_nat_numeral top base)
  then have d: "sorted_list_of_set (getAllDestinations (k_aliaser k) n) =
      map f_name (sort_key f_name (filter (generates t) fs))"
    using assms(2) sort_distinct [of "map f_name (filter (generates t) fs)"]
    by (simp add: sort_key_map distinct_map inj_on_def)
  have look: "nameToFactoryMap k (f_name f) = Some f" if "f \<in> set fs" for f
    using find_distinct [of f_name "rev fs" f] assms(2) that
    by (simp add: k_def registered_names rev_map [symmetric])
  have none: "nameToFactoryMap k n = None"
  proof -
    have "find (\<lambda>f. f_name f = n) (rev fs) = None"
      using free isa isb(2) by (auto simp: find_None_iff)
    then show ?thesis by (simp add: k_def registered_names k0_def main_aliases_map)
  qed
  have "mapE (getProcessorFactory k) (map f_name gs) = Inr gs" if "set gs \<subseteq> set fs" for gs
    using that look by (induction gs) (auto simp: getProcessorFactory_def)
  then have "mapE (getProcessorFactory k) (map f_name (sort_key f_name (filter (generates t) fs))) =
      Inr (sort_key f_name (filter (generates t) fs))"
    by (auto simp: subset_iff)
  then show ?thesis
    using none isa [OF isb(2)] by (simp add: getProcessorFactoriesForName_def k d)
qed

lemma main_keeper_isAlias:
  "isAlias (k_aliaser (main_keeper pairs (fs :: 'p factory list))) m \<longleftrightarrow>
     isAlias (k_aliaser (main_aliases pairs :: 'p keeper)) m \<or> (\<exists>f \<in> set fs. m \<in> set (f_aliases f))"
  unfolding main_keeper_def by (induction fs rule: rev_induct) (auto simp: takeProcessorFactory_aliaser)

text \<open>An annotator with nothing but a name and layer tags, for the examples.\<close>

definition plain_annotator :: "string \<Rightarrow> string list list \<Rightarrow> string list \<Rightarrow> 'p \<Rightarrow> 'p factory" where
  "plain_annotator name required provided processor =
     \<lparr>f_name = name, f_aliases = [], f_annotator = True, f_reader = False, f_writer = False,
      f_parse = (\<lambda>args. if args = [] then Some Map.empty else None), f_required0 = required,
      f_provided0 = provided, f_required = (\<lambda>_. required), f_provided = (\<lambda>_. provided),
      f_handling = (\<lambda>_. LANGUAGE_INDEPENDENT), f_handled = (\<lambda>_. []), f_quality = default_quality,
      f_time = default_time, f_continuation = annotator_continuation, f_requirements = (\<lambda>_. True),
      f_create = (\<lambda>_. Inr processor)\<rparr>"

lemma plain_annotator_simps [simp]:
  "f_name (plain_annotator n r p x) = n" "f_aliases (plain_annotator n r p x) = []"
  "f_annotator (plain_annotator n r p x)" "f_required0 (plain_annotator n r p x) = r"
  "f_provided0 (plain_annotator n r p x) = p" "f_required (plain_annotator n r p x) opts = r"
  "f_provided (plain_annotator n r p x) opts = p"
  "f_handling (plain_annotator n r p x) opts = LANGUAGE_INDEPENDENT"
  "f_handled (plain_annotator n r p x) opts = []"
  "f_parse (plain_annotator n r p x) [] = Some Map.empty"
  "f_create (plain_annotator n r p x) opts = Inr x"
  "f_quality (plain_annotator n r p x) opts = 0" "f_time (plain_annotator n r p x) opts = -1"
  "f_continuation (plain_annotator n r p x) opts = ''psi-writer''"
  by (simp_all add: plain_annotator_def default_quality_def default_time_def annotator_continuation_def)

lemma tag_alias_resolves_witness:
  "let fs = [plain_annotator ''tp'' [] [''token''] (), plain_annotator ''aspell'' [[''token'']] [''token''] (),
             plain_annotator ''detok'' [] [''token''] ()]
   in getProcessorFactoriesForName (main_keeper (main_alias_pairs False False False False False) fs) ''tokenize''
      = Inr [plain_annotator ''detok'' [] [''token''] (), plain_annotator ''tp'' [] [''token''] ()]"
proof -
  let ?fs = "[plain_annotator ''tp'' [] [''token''] (), plain_annotator ''aspell'' [[''token'']] [''token''] (),
             plain_annotator ''detok'' [] [''token''] ()]"
  have "getProcessorFactoriesForName (main_keeper (main_alias_pairs False False False False False) ?fs) ''tokenize''
      = Inr (sort_key f_name (filter (generates ''token'') ?fs))"
    by (rule tag_alias_resolves)
      (simp_all add: tag_aliases_def main_keeper_isAlias main_aliases_aliaser main_alias_pairs_def
        getBaseAliasForTag_def)
  then show ?thesis
    by (simp add: generates_def isTagRequiredByAnnotator_def less_char_def)
qed

section \<open>Unknown names\<close>

text \<open>A name that is neither a processor nor an alias raises the unknown-processor exception, and
  its suggestion is a known name at the least edit distance, or the empty name when no known name
  is nearer than 99 edits.\<close>
theorem unknown_processor_suggestion:
  assumes "\<not> hasProcessorFactory k n" and "\<not> isAlias (k_aliaser k) n"
    and "finite (dom (nameToFactoryMap k))" and "finite (getAliasNames (k_aliaser k))"
  defines "known \<equiv> dom (nameToFactoryMap k) \<union> getAliasNames (k_aliaser k)"
  shows "\<exists>s. getProcessorFactoriesForName k n = Inl (Unknown_Processor n s) \<and>
     (s = [] \<and> (\<forall>x \<in> known. 99 \<le> edit_distance x n) \<or>
      s \<in> known \<and> edit_distance s n < 99 \<and> (\<forall>x \<in> known. edit_distance s n \<le> edit_distance x n))"
proof -
  have "set (getProcessorNames k @ sorted_list_of_set (getAliasNames (k_aliaser k))) = known"
    using assms(3,4) by (simp add: known_def getProcessorNames_def)
  then show ?thesis
    using assms(1,2) findTheMostSimilarString_nearest
      [of n "getProcessorNames k @ sorted_list_of_set (getAliasNames (k_aliaser k))"]
    by (simp add: getProcessorFactoriesForName_def hasProcessorFactory_def getClosestKnownProcessorName_def)
qed

definition sample_keeper :: "unit keeper" where
  "sample_keeper = takeProcessorFactory empty_keeper (plain_annotator ''gobio'' [] [''parse''] ())"

lemma unknown_processor_suggestion_witness:
  "getProcessorFactoriesForName sample_keeper ''goboi'' = Inl (Unknown_Processor ''goboi'' ''gobio'')"
proof -
  have k: "nameToFactoryMap sample_keeper = [''gobio'' \<mapsto> plain_annotator ''gobio'' [] [''parse''] ()]"
    "aliasDestinations (k_aliaser sample_keeper) = Map.empty"
    by (simp_all add: sample_keeper_def takeProcessorFactory_def checkAnnotator_def checkAnnotator_step_def
        Let_def empty_keeper_def empty_aliaser_def isAlias_def)
  have "edit_distance ''gobio'' ''goboi'' \<le> 2"
    by (simp flip: lev_edit_distance)
  then show ?thesis
    using unknown_processor_suggestion [of sample_keeper "''goboi''"]
    by (auto simp: hasProcessorFactory_def isAlias_def getAliasNames_def k)
qed

end
