(* ===== verification/Auto_Completer.thy ===== *)
theory Auto_Completer
  imports Factories
begin

text \<open>Processor promises (common/processor_promise.hpp, annotator_promise.cpp,
  non_annotator_promise.cpp) and the completion of a pipeline
  (framework/auto_completer.cpp): every alternative of the pipeline is split by language and
  resolved, and processors that provide missing layer tags are inserted, until every remaining
  sequence is complete; then the best sequence whose processors can be created is chosen.
  The completion need not end, so it takes a fuel and \<open>None\<close> stands for a run that has not ended
  within it.  A failed assertion and a step through an invalid iterator are
  \<open>Undefined_Behaviour\<close>.\<close>

section \<open>Promises\<close>

text \<open>A promise is a factory with the options of the processor to create.  Its methods ask the
  factory when it makes annotators and give neutral answers otherwise.  The processor that a promise
  caches once it has been created is what \<open>createProcessor\<close> gives.\<close>

record 'p promise =
  p_factory :: "'p factory"
  p_options :: options

definition requiredLayerTags :: "'p promise \<Rightarrow> string list list" where
  "requiredLayerTags p =
     (if f_annotator (p_factory p) then f_required (p_factory p) (p_options p) else [])"

definition providedLayerTags :: "'p promise \<Rightarrow> string list" where
  "providedLayerTags p =
     (if f_annotator (p_factory p) then f_provided (p_factory p) (p_options p) else [])"

definition languagesHandling :: "'p promise \<Rightarrow> LanguagesHandling" where
  "languagesHandling p =
     (if f_annotator (p_factory p) then f_handling (p_factory p) (p_options p)
      else LANGUAGE_INDEPENDENT)"

definition languagesHandled :: "'p promise \<Rightarrow> string list" where
  "languagesHandled p =
     (if f_annotator (p_factory p) then f_handled (p_factory p) (p_options p) else [])"

definition isAnnotator :: "'p promise \<Rightarrow> bool" where
  "isAnnotator p = f_annotator (p_factory p)"

definition isReader :: "'p promise \<Rightarrow> bool" where
  "isReader p = f_reader (p_factory p)"

definition isWriter :: "'p promise \<Rightarrow> bool" where
  "isWriter p = f_writer (p_factory p)"

definition getQualityScore :: "'p promise \<Rightarrow> int" where
  "getQualityScore p = f_quality (p_factory p) (p_options p)"

definition getEstimatedTime :: "'p promise \<Rightarrow> int" where
  "getEstimatedTime p = f_time (p_factory p) (p_options p)"

definition getName :: "'p promise \<Rightarrow> string" where
  "getName p = f_name (p_factory p)"

definition getContinuation :: "'p promise \<Rightarrow> string" where
  "getContinuation p = f_continuation (p_factory p) (p_options p)"

definition checkRequirements :: "'p promise \<Rightarrow> bool" where
  "checkRequirements p = f_requirements (p_factory p) (p_options p)"

definition createProcessor :: "'p promise \<Rightarrow> string + 'p" where
  "createProcessor p = f_create (p_factory p) (p_options p)"

text \<open>Setting the language overwrites the \<open>lang\<close> entry of the options, which must be there.\<close>

definition cloneWithLanguageSet :: "'p promise \<Rightarrow> string \<Rightarrow> pipe_error + 'p promise" where
  "cloneWithLanguageSet p langCode =
     (if \<not> f_annotator (p_factory p) \<or> languagesHandling p \<noteq> LANGUAGE_DEPENDENT then Inr p
      else if p_options p ''lang'' = None then Inl Undefined_Behaviour
      else Inr (p\<lparr>p_options := (p_options p)(''lang'' \<mapsto> langCode)\<rparr>))"

section \<open>Languages of an alternative\<close>

type_synonym 'p alternatives = "'p promise list list"

fun multilingual_from :: "string option \<Rightarrow> 'p promise list \<Rightarrow> pipe_error + bool" where
  "multilingual_from theOneLanguage [] = Inr False"
| "multilingual_from theOneLanguage (p # ps) =
     (case languagesHandling p of
        LANGUAGE_DEPENDENT \<Rightarrow> Inr True
      | JUST_ONE_LANGUAGE \<Rightarrow>
          (case languagesHandled p of
             [lang] \<Rightarrow>
               (case theOneLanguage of
                  None \<Rightarrow> multilingual_from (Some lang) ps
                | Some one \<Rightarrow> if one \<noteq> lang then Inr True else multilingual_from theOneLanguage ps)
           | _ \<Rightarrow> Inl Undefined_Behaviour)
      | _ \<Rightarrow> multilingual_from theOneLanguage ps)"

definition isMultilingual :: "'p promise list \<Rightarrow> pipe_error + bool" where
  "isMultilingual alt = multilingual_from None alt"

definition canHandleLanguage :: "'p promise \<Rightarrow> string \<Rightarrow> pipe_error + 'p promise option" where
  "canHandleLanguage p langCode =
     (case languagesHandling p of
        LANGUAGE_INDEPENDENT \<Rightarrow> Inr (Some p)
      | LANGUAGE_GUESSER \<Rightarrow> Inr (Some p)
      | LANGUAGE_DEPENDENT \<Rightarrow>
          if langCode \<in> set (languagesHandled p)
          then sbind (cloneWithLanguageSet p langCode) (\<lambda>q. Inr (Some q)) else Inr None
      | JUST_ONE_LANGUAGE \<Rightarrow>
          if langCode \<in> set (languagesHandled p) then Inr (Some p) else Inr None)"

fun filtreByLanguage :: "'p promise list \<Rightarrow> string \<Rightarrow> pipe_error + 'p promise list" where
  "filtreByLanguage [] langCode = Inr []"
| "filtreByLanguage (p # ps) langCode =
     sbind (canHandleLanguage p langCode) (\<lambda>q. sbind (filtreByLanguage ps langCode) (\<lambda>qs.
       Inr (case q of None \<Rightarrow> qs | Some q \<Rightarrow> q # qs)))"

text \<open>The alternatives that replace a multilingual one, one for each language; \<open>None\<close> when some
  language cannot be handled.\<close>

fun langAlternatives :: "'p promise list \<Rightarrow> string list \<Rightarrow> pipe_error + 'p alternatives option" where
  "langAlternatives alt [] = Inr (Some [])"
| "langAlternatives alt (langCode # langCodes) =
     sbind (filtreByLanguage alt langCode) (\<lambda>langAlt. sbind (isMultilingual langAlt) (\<lambda>m.
       if m then Inl Undefined_Behaviour
       else if langAlt = [] then Inr None
       else sbind (langAlternatives alt langCodes) (\<lambda>alts. Inr (map_option (Cons langAlt) alts))))"

section \<open>Layer tags\<close>

definition isSubsetOf :: "string list \<Rightarrow> string list \<Rightarrow> bool" where
  "isSubsetOf tags within = list_all (\<lambda>tag. tag \<in> set within) tags"

fun checkRequiredTags :: "string list \<Rightarrow> 'p alternatives \<Rightarrow> pipe_error + bool" where
  "checkRequiredTags requiredList [] = Inr False"
| "checkRequiredTags requiredList (alt # alts) =
     (case alt of
        [p] \<Rightarrow> if isSubsetOf requiredList (providedLayerTags p) then Inr True
               else checkRequiredTags requiredList alts
      | _ \<Rightarrow> Inl Undefined_Behaviour)"

fun unfulfilledTags :: "string list list \<Rightarrow> 'p alternatives \<Rightarrow> pipe_error + string list option" where
  "unfulfilledTags [] preceding = Inr None"
| "unfulfilledTags (tags # required) preceding =
     sbind (checkRequiredTags tags preceding) (\<lambda>found.
       if found then unfulfilledTags required preceding else Inr (Some tags))"

definition isViciousCircle :: "'p factory \<Rightarrow> string list \<Rightarrow> bool" where
  "isViciousCircle f requiredTags = list_ex (\<lambda>its. isSubsetOf requiredTags its) (f_required0 f)"

definition getDefaultOptions :: "'p factory \<Rightarrow> pipe_error + options" where
  "getDefaultOptions f = (case f_parse f [] of None \<Rightarrow> Inl Options_Error | Some opts \<Rightarrow> Inr opts)"

definition getDefaultOptionsWithLang :: "'p factory \<Rightarrow> string \<Rightarrow> pipe_error + options" where
  "getDefaultOptionsWithLang f langCode =
     (case f_parse f [''--lang'', langCode] of None \<Rightarrow> Inl Options_Error | Some opts \<Rightarrow> Inr opts)"

definition getDefaultPromise :: "'p factory \<Rightarrow> string option \<Rightarrow> pipe_error + 'p promise option" where
  "getDefaultPromise f langCode =
     sbind (getDefaultOptions f) (\<lambda>defaults.
       case f_handling f defaults of
         LANGUAGE_INDEPENDENT \<Rightarrow> Inr (Some \<lparr>p_factory = f, p_options = defaults\<rparr>)
       | LANGUAGE_GUESSER \<Rightarrow> Inr (Some \<lparr>p_factory = f, p_options = defaults\<rparr>)
       | JUST_ONE_LANGUAGE \<Rightarrow>
           (case langCode of
              None \<Rightarrow> Inr (Some \<lparr>p_factory = f, p_options = defaults\<rparr>)
            | Some lang \<Rightarrow>
                (case f_handled f defaults of
                   [] \<Rightarrow> Inl Undefined_Behaviour
                 | first # _ \<Rightarrow> if first \<noteq> lang then Inr None
                     else Inr (Some \<lparr>p_factory = f, p_options = defaults\<rparr>)))
       | LANGUAGE_DEPENDENT \<Rightarrow>
           (case langCode of
              None \<Rightarrow> Inr None
            | Some lang \<Rightarrow>
                if lang \<in> set (f_handled f defaults)
                then sbind (getDefaultOptionsWithLang f lang) (\<lambda>opts.
                       Inr (Some \<lparr>p_factory = f, p_options = opts\<rparr>))
                else Inr None))"

text \<open>The factories are visited in the order of their names.\<close>

fun fulfillers_among ::
  "'p keeper \<Rightarrow> string list \<Rightarrow> string option \<Rightarrow> string list \<Rightarrow> pipe_error + 'p promise list" where
  "fulfillers_among k requiredTags langCode [] = Inr []"
| "fulfillers_among k requiredTags langCode (processorName # names) =
     sbind (getProcessorFactory k processorName) (\<lambda>f.
       if f_annotator f \<and> \<not> isViciousCircle f requiredTags \<and> isSubsetOf requiredTags (f_provided0 f)
       then sbind (getDefaultPromise f langCode) (\<lambda>p.
              sbind (fulfillers_among k requiredTags langCode names) (\<lambda>ps.
                Inr (case p of None \<Rightarrow> ps | Some p \<Rightarrow> p # ps)))
       else fulfillers_among k requiredTags langCode names)"

definition findFulfillers ::
  "'p keeper \<Rightarrow> string list \<Rightarrow> string option \<Rightarrow> pipe_error + 'p promise list" where
  "findFulfillers k requiredTags langCode =
     fulfillers_among k requiredTags langCode (getProcessorNames k)"

section \<open>One turn of the completion\<close>

text \<open>How the inner loop of \<open>complete_\<close> is left: at the end of the sequence, by a return, with a
  changed sequence and the position to go on from, or by trying the alternatives of one position,
  each in a recursive call.\<close>

datatype 'p turn =
    Finished
  | Abandoned
  | Restart "'p alternatives" nat
  | Branch "'p alternatives list"
  | Failed pipe_error

text \<open>The language a fulfiller has to handle.\<close>

definition promise_language :: "'p promise \<Rightarrow> pipe_error + string option" where
  "promise_language p =
     (if languagesHandling p = JUST_ONE_LANGUAGE
      then (case languagesHandled p of [lang] \<Rightarrow> Inr (Some lang) | _ \<Rightarrow> Inl Undefined_Behaviour)
      else Inr None)"

text \<open>The step on a position with one promise: \<open>None\<close> when it is fulfilled, otherwise the
  alternatives to insert before it.\<close>

definition missing_fulfillers ::
  "'p keeper \<Rightarrow> 'p alternatives \<Rightarrow> 'p promise \<Rightarrow> pipe_error + 'p promise list option" where
  "missing_fulfillers k preceding p =
     sbind (unfulfilledTags (requiredLayerTags p) preceding) (\<lambda>unfulfilled.
       case unfulfilled of
         None \<Rightarrow> Inr None
       | Some tags \<Rightarrow> sbind (promise_language p) (\<lambda>langCode.
           sbind (findFulfillers k tags langCode) (\<lambda>fulfillers. Inr (Some fulfillers))))"

text \<open>The loop over the positions: \<open>restart\<close> is the restart position, which is lost when the
  position it points to is erased with no language to put there.\<close>

fun scan :: "'p keeper \<Rightarrow> string list \<Rightarrow> nat \<Rightarrow> 'p alternatives \<Rightarrow> 'p alternatives \<Rightarrow> 'p turn" where
  "scan k langCodes restart pre [] = Finished"
| "scan k langCodes restart pre (alt # post) =
     (case isMultilingual alt of
        Inl e \<Rightarrow> Failed e
      | Inr True \<Rightarrow>
          (case langAlternatives alt langCodes of
             Inl e \<Rightarrow> Failed e
           | Inr None \<Rightarrow> Abandoned
           | Inr (Some []) \<Rightarrow>
               if restart = length pre then Failed Undefined_Behaviour else Restart (pre @ post) restart
           | Inr (Some (a # as)) \<Rightarrow> Restart (pre @ (a # as) @ post) (length pre))
      | Inr False \<Rightarrow>
          if length alt > 1 then Branch (map (\<lambda>p. pre @ [p] # post) alt)
          else (case alt of
             [] \<Rightarrow> Failed Undefined_Behaviour
           | p # _ \<Rightarrow>
               (case missing_fulfillers k pre p of
                  Inl e \<Rightarrow> Failed e
                | Inr None \<Rightarrow> scan k langCodes restart (pre @ [alt]) post
                | Inr (Some []) \<Rightarrow> Abandoned
                | Inr (Some (q # qs)) \<Rightarrow> Restart (pre @ (q # qs) # alt # post) (length pre))))"

fun toPromiseSequence :: "'p alternatives \<Rightarrow> pipe_error + 'p promise list" where
  "toPromiseSequence [] = Inr []"
| "toPromiseSequence (alt # alts) =
     (case alt of [p] \<Rightarrow> sbind (toPromiseSequence alts) (\<lambda>ps. Inr (p # ps))
      | _ \<Rightarrow> Inl Undefined_Behaviour)"

section \<open>The completion\<close>

text \<open>The sequences that the recursive calls push, in their order.\<close>

fun collect :: "('e + 'a list) option list \<Rightarrow> ('e + 'a list) option" where
  "collect [] = Some (Inr [])"
| "collect (r # rs) =
     (case r of
        None \<Rightarrow> None
      | Some (Inl e) \<Rightarrow> Some (Inl e)
      | Some (Inr xs) \<Rightarrow> map_option (\<lambda>t. sbind t (\<lambda>ys. Inr (xs @ ys))) (collect rs))"

fun complete_from ::
  "nat \<Rightarrow> 'p keeper \<Rightarrow> string list \<Rightarrow> nat \<Rightarrow> 'p alternatives \<Rightarrow> (pipe_error + 'p promise list list) option"
where
  "complete_from 0 k langCodes restart sq = None"
| "complete_from (Suc fuel) k langCodes restart sq =
     (case scan k langCodes restart (take restart sq) (drop restart sq) of
        Finished \<Rightarrow> Some (sbind (toPromiseSequence sq) (\<lambda>ps. Inr [ps]))
      | Abandoned \<Rightarrow> Some (Inr [])
      | Failed e \<Rightarrow> Some (Inl e)
      | Restart sq' restart' \<Rightarrow> complete_from fuel k langCodes restart' sq'
      | Branch sqs \<Rightarrow> collect (map (complete_from fuel k langCodes 0) sqs))"

section \<open>The choice of a sequence\<close>

definition calculateQualityScore :: "'p promise list \<Rightarrow> int" where
  "calculateQualityScore ps = foldl (\<lambda>s p. s + getQualityScore p) 0 ps"

definition calculateEstimatedTime :: "'p promise list \<Rightarrow> int" where
  "calculateEstimatedTime ps = foldl (\<lambda>s p. s + getEstimatedTime p) 0 ps"

text \<open>The best sequence so far with its place, score and time.\<close>

type_synonym 'p best = "(nat \<times> 'p promise list \<times> int \<times> int) option"

definition trySolution :: "nat \<times> 'p best \<Rightarrow> 'p promise list \<Rightarrow> nat \<times> 'p best" where
  "trySolution st ps =
     (let (i, best) = st; seqScore = calculateQualityScore ps; seqTime = calculateEstimatedTime ps
      in (i + 1,
          case best of
            None \<Rightarrow> Some (i, ps, seqScore, seqTime)
          | Some (_, _, bestScore, bestTime) \<Rightarrow>
              if seqScore > bestScore \<or> (seqScore = bestScore \<and> seqTime < bestTime)
              then Some (i, ps, seqScore, seqTime) else best))"

definition bestSolution :: "'p promise list list \<Rightarrow> 'p best" where
  "bestSolution sqs = snd (foldl trySolution (0, None) sqs)"

fun checkSolution :: "'p promise list \<Rightarrow> string option" where
  "checkSolution [] = None"
| "checkSolution (p # ps) =
     (case createProcessor p of Inl what \<Rightarrow> Some what | Inr _ \<Rightarrow> checkSolution ps)"

text \<open>The loop of \<open>complete\<close>: the best sequence is taken out and its processors are created; the
  first exception is kept.  It ends because every turn removes a sequence.\<close>

primrec chooseSolution_from ::
  "nat \<Rightarrow> string option \<Rightarrow> 'p promise list list \<Rightarrow> pipe_error + 'p promise list option" where
  "chooseSolution_from 0 firstException sqs =
     (case firstException of None \<Rightarrow> Inr None | Some what \<Rightarrow> Inl (Psi_Exception what))"
| "chooseSolution_from (Suc n) firstException sqs =
     (case bestSolution sqs of
        None \<Rightarrow> (case firstException of None \<Rightarrow> Inr None | Some what \<Rightarrow> Inl (Psi_Exception what))
      | Some (i, ps, _, _) \<Rightarrow>
          (case checkSolution ps of
             None \<Rightarrow> Inr (Some ps)
           | Some what \<Rightarrow>
               chooseSolution_from n (case firstException of None \<Rightarrow> Some what | Some _ \<Rightarrow> firstException)
                 (take i sqs @ drop (i + 1) sqs)))"

definition chooseSolution :: "'p promise list list \<Rightarrow> pipe_error + 'p promise list option" where
  "chooseSolution sqs = chooseSolution_from (length sqs) None sqs"

definition complete ::
  "nat \<Rightarrow> 'p keeper \<Rightarrow> string list \<Rightarrow> 'p alternatives \<Rightarrow> (pipe_error + 'p promise list option) option"
where
  "complete fuel k langCodes sq =
     map_option (\<lambda>r. sbind r chooseSolution) (complete_from fuel k langCodes 0 sq)"

end
