(* ===== verification/Completion.thy ===== *)
theory Completion
  imports Auto_Completer "HOL-Library.Multiset_Order" "HOL-Library.Product_Lexorder"
begin

text \<open>What the completion of a pipeline of framework/auto_completer.cpp guarantees: the sequences it finds
  are in order and keep every element that was asked for, the best of them is chosen, and it ends
  when the requirements of the promises that can occur are layered.\<close>

section \<open>Completed sequences are in order\<close>

text \<open>Every list of tags that a promise requires is provided by one promise before it.\<close>

definition fulfilled :: "'p promise list \<Rightarrow> bool" where
  "fulfilled ps \<longleftrightarrow> (\<forall>i < length ps. \<forall>tags \<in> set (requiredLayerTags (ps ! i)).
     \<exists>j < i. isSubsetOf tags (providedLayerTags (ps ! j)))"

abbreviation singles :: "'p promise list \<Rightarrow> 'p alternatives" where
  "singles ps \<equiv> map (\<lambda>p. [p]) ps"

lemma fulfilled_Nil [simp]: "fulfilled []"
  by (simp add: fulfilled_def)

lemma fulfilled_snoc:
  "fulfilled (ps @ [p]) \<longleftrightarrow> fulfilled ps \<and>
     (\<forall>tags \<in> set (requiredLayerTags p). \<exists>q \<in> set ps. isSubsetOf tags (providedLayerTags q))"
proof -
  have "(\<forall>tags \<in> set (requiredLayerTags ((ps @ [p]) ! i)). \<exists>j < i. isSubsetOf tags (providedLayerTags ((ps @ [p]) ! j)))
    \<longleftrightarrow> (\<forall>tags \<in> set (requiredLayerTags (ps ! i)). \<exists>j < i. isSubsetOf tags (providedLayerTags (ps ! j)))"
    if "i < length ps" for i
    using that by (simp add: nth_append cong: conj_cong)
  moreover have "(\<exists>j < length ps. isSubsetOf tags (providedLayerTags ((ps @ [p]) ! j)))
    \<longleftrightarrow> (\<exists>q \<in> set ps. isSubsetOf tags (providedLayerTags q))" for tags
    by (auto simp: nth_append Bex_def in_set_conv_nth cong: conj_cong)
  ultimately show ?thesis
    by (simp add: fulfilled_def less_Suc_eq all_conj_distrib imp_disjL)
qed

lemma fulfilled_append: "fulfilled (ps @ qs) \<Longrightarrow> fulfilled ps"
  by (induction qs rule: rev_induct) (simp_all add: fulfilled_snoc flip: append_assoc)

lemma fulfilled_take: "fulfilled ps \<Longrightarrow> fulfilled (take n ps)"
  by (metis append_take_drop_id fulfilled_append)

lemma checkRequiredTags_singles:
  "checkRequiredTags tags (singles ps) = Inr (\<exists>p \<in> set ps. isSubsetOf tags (providedLayerTags p))"
  by (induction ps) auto

lemma unfulfilledTags_None:
  "unfulfilledTags required (singles ps) = Inr None \<longleftrightarrow>
     (\<forall>tags \<in> set required. \<exists>p \<in> set ps. isSubsetOf tags (providedLayerTags p))"
  by (induction required) (auto simp: checkRequiredTags_singles)

lemma missing_fulfillers_None:
  "missing_fulfillers k (singles ps) p = Inr None \<Longrightarrow> fulfilled ps \<Longrightarrow> fulfilled (ps @ [p])"
  by (auto simp: missing_fulfillers_def sbind_Inr fulfilled_snoc unfulfilledTags_None[symmetric]
      split: option.splits)

lemma toPromiseSequence_singles [simp]: "toPromiseSequence (singles ps) = Inr ps"
  by (induction ps) auto

text \<open>What one turn keeps: the sequence is in order up to the restart position.\<close>

definition ordered_upto :: "nat \<Rightarrow> 'p alternatives \<Rightarrow> bool" where
  "ordered_upto n sq \<longleftrightarrow> n \<le> length sq \<and> (\<exists>ps. take n sq = singles ps \<and> fulfilled ps)"

lemma scan_ordered:
  assumes "fulfilled ps" "restart \<le> length ps"
  shows "case scan k langs restart (singles ps) rest of
      Finished \<Rightarrow> (\<exists>qs. rest = singles qs \<and> fulfilled (ps @ qs))
    | Restart sq' r' \<Rightarrow> ordered_upto r' sq'
    | _ \<Rightarrow> True"
  using assms
proof (induction rest arbitrary: ps)
  case Nil
  then show ?case by simp
next
  case (Cons alt post)
  have keep: "ordered_upto (length ps) (singles ps @ x)" for x
    using Cons.prems by (auto simp: ordered_upto_def)
  have short: "ordered_upto restart (singles ps @ x)" for x
    using Cons.prems by (auto simp: ordered_upto_def take_map intro: fulfilled_take)
  show ?case
  proof (cases "isMultilingual alt = Inr False \<and> (\<exists>p. alt = [p] \<and> missing_fulfillers k (singles ps) p = Inr None)")
    case True
    then obtain p where p: "isMultilingual alt = Inr False" "alt = [p]"
      "missing_fulfillers k (singles ps) p = Inr None" by blast
    have "fulfilled (ps @ [p])" using p(3) Cons.prems(1) by (rule missing_fulfillers_None)
    then have "case scan k langs restart (singles (ps @ [p])) post of
        Finished \<Rightarrow> (\<exists>qs. post = singles qs \<and> fulfilled ((ps @ [p]) @ qs))
      | Restart sq' r' \<Rightarrow> ordered_upto r' sq' | _ \<Rightarrow> True"
      using Cons.prems(2) by (intro Cons.IH) auto
    moreover have "scan k langs restart (singles ps) (alt # post) =
        scan k langs restart (singles (ps @ [p])) post"
      using p by simp
    moreover have "\<exists>qs. alt # post = singles qs \<and> fulfilled (ps @ qs)"
      if "post = singles qs" "fulfilled ((ps @ [p]) @ qs)" for qs
      using that p(2) by (intro exI [of _ "p # qs"]) simp
    ultimately show ?thesis by (auto split: turn.splits)
  next
    case False
    then show ?thesis
      using short [of post] by (auto simp: keep split: sum.splits option.splits list.splits bool.splits)
  qed
qed

lemma collect_Inr:
  "collect rs = Some (Inr xs) \<Longrightarrow> x \<in> set xs \<Longrightarrow> \<exists>ys. Some (Inr ys) \<in> set rs \<and> x \<in> set ys"
  by (induction rs arbitrary: xs) (fastforce split: option.splits sum.splits simp: sbind_Inr)+

lemma complete_from_ordered:
  "complete_from fuel k langs restart sq = Some (Inr sols) \<Longrightarrow> ordered_upto restart sq \<Longrightarrow>
   s \<in> set sols \<Longrightarrow> fulfilled s"
proof (induction fuel arbitrary: restart sq sols)
  case 0
  then show ?case by simp
next
  case (Suc fuel)
  obtain ps where ps: "take restart sq = singles ps" "fulfilled ps" and "restart \<le> length sq"
    using Suc.prems(2) by (auto simp: ordered_upto_def)
  then have len: "restart \<le> length ps"
    by (metis length_map length_take min.absorb2 order_refl)
  note turn = scan_ordered [OF ps(2) len, where k = k and langs = langs and rest = "drop restart sq"]
  show ?case
  proof (cases "scan k langs restart (take restart sq) (drop restart sq)")
    case Finished
    then obtain qs where qs: "drop restart sq = singles qs" "fulfilled (ps @ qs)"
      using turn ps(1) by auto
    then have "sq = singles (ps @ qs)" using ps(1) append_take_drop_id [of restart sq] by simp
    then show ?thesis
      using Suc.prems(1,3) Finished qs(2) toPromiseSequence_singles [of "ps @ qs"] by auto
  next
    case (Restart sq' r')
    then show ?thesis using Suc turn ps(1) by auto
  next
    case (Branch sqs)
    then have "collect (map (complete_from fuel k langs 0) sqs) = Some (Inr sols)"
      using Suc.prems(1) by simp
    from collect_Inr [OF this Suc.prems(3)]
    obtain ys sq' where ys: "complete_from fuel k langs 0 sq' = Some (Inr ys)" "s \<in> set ys"
      by (metis imageE list.set_map)
    have "ordered_upto 0 sq'" by (simp add: ordered_upto_def)
    then show ?thesis using Suc.IH [OF ys(1) _ ys(2)] by blast
  qed (use Suc.prems in auto)
qed

section \<open>Nothing of the pipeline is lost\<close>

text \<open>A sequence realises a pipeline when, other promises aside, it holds for every alternative in
  turn one of its promises or, where the alternative depends on the language, one promise for each
  of the languages.\<close>

inductive realises :: "string list \<Rightarrow> 'p alternatives \<Rightarrow> 'p promise list \<Rightarrow> bool" where
  finished: "realises langCodes [] []"
| extra: "realises langCodes alts ps \<Longrightarrow> realises langCodes alts (p # ps)"
| pick: "p \<in> set alt \<Longrightarrow> realises langCodes alts ps \<Longrightarrow> realises langCodes (alt # alts) (p # ps)"
| by_language: "isMultilingual alt = Inr True \<Longrightarrow> langAlternatives alt langCodes = Inr (Some langAlts) \<Longrightarrow>
    realises langCodes (langAlts @ alts) ps \<Longrightarrow> realises langCodes (alt # alts) ps"

lemma realises_singles: "realises langCodes (singles ps) ps"
  by (induction ps) (auto intro: realises.intros)

lemma realises_remove:
  "realises langCodes sq ps \<Longrightarrow> sq = pre @ mid @ post \<Longrightarrow> realises langCodes (pre @ post) ps"
proof (induction arbitrary: pre mid rule: realises.induct)
  case (finished langCodes)
  then show ?case by (simp add: realises.finished)
next
  case (extra langCodes alts ps p)
  then show ?case by (blast intro: realises.extra)
next
  case (pick p alt langCodes alts ps)
  consider x where "pre = alt # x" "alts = x @ mid @ post" | x where "pre = []" "mid = alt # x" "alts = x @ post"
    | "pre = []" "mid = []" "post = alt # alts"
    using pick.prems by (cases pre; cases mid) auto
  then show ?case
  proof cases
    case 1
    then show ?thesis using pick.IH [of x mid] pick.hyps(1) by (auto intro: realises.pick)
  next
    case 2
    then show ?thesis using pick.IH [of "[]" x] by (auto intro: realises.extra)
  next
    case 3
    then show ?thesis using pick.hyps by (auto intro: realises.pick)
  qed
next
  case (by_language alt langCodes langAlts alts ps)
  consider x where "pre = alt # x" "alts = x @ mid @ post" | x where "pre = []" "mid = alt # x" "alts = x @ post"
    | "pre = []" "mid = []" "post = alt # alts"
    using by_language.prems by (cases pre; cases mid) auto
  then show ?case
  proof cases
    case 1
    then show ?thesis using by_language.IH [of "langAlts @ x" mid] by_language.hyps(1,2)
      by (auto intro: realises.by_language)
  next
    case 2
    then show ?thesis using by_language.IH [of "[]" "langAlts @ x"] by auto
  next
    case 3
    then show ?thesis using by_language.hyps by (auto intro: realises.by_language)
  qed
qed

lemma realises_language:
  assumes "realises langCodes sq ps" "sq = pre @ langAlts @ post" "isMultilingual alt = Inr True"
    "langAlternatives alt langCodes = Inr (Some langAlts)"
  shows "realises langCodes (pre @ alt # post) ps"
  using assms(1-4)
proof (induction arbitrary: pre rule: realises.induct)
  case (finished langCodes)
  then show ?case
    using realises.by_language [of alt langCodes "[]" "[]" "[]"] realises.finished by auto
next
  case (extra langCodes alts ps p)
  then show ?case by (blast intro: realises.extra)
next
  case (pick p a langCodes alts ps)
  show ?case
  proof (cases pre)
    case Nil
    then show ?thesis
      using pick.prems realises.by_language [OF pick.prems(2,3)] realises.pick [OF pick.hyps] by simp
  next
    case (Cons x pre')
    then show ?thesis using pick by (auto intro: realises.pick)
  qed
next
  case (by_language a langCodes las alts ps)
  show ?case
  proof (cases pre)
    case Nil
    then show ?thesis
      using by_language realises.by_language [OF by_language.hyps] by (auto intro: realises.by_language)
  next
    case (Cons x pre')
    then have "realises langCodes ((las @ pre') @ alt # post) ps"
      using by_language.prems by (intro by_language.IH) auto
    then show ?thesis using Cons by_language.prems by_language.hyps by (auto intro: realises.by_language)
  qed
qed

lemma multilingual_single: "isMultilingual alt = Inr False \<Longrightarrow> p \<in> set alt \<Longrightarrow> isMultilingual [p] \<noteq> Inr True"
proof -
  have "multilingual_from one alt = Inr False \<Longrightarrow> p \<in> set alt \<Longrightarrow> languagesHandling p \<noteq> LANGUAGE_DEPENDENT" for one
    by (induction one alt rule: multilingual_from.induct)
      (auto split: LanguagesHandling.splits list.splits option.splits if_splits)
  then show "isMultilingual alt = Inr False \<Longrightarrow> p \<in> set alt \<Longrightarrow> isMultilingual [p] \<noteq> Inr True"
    by (auto simp: isMultilingual_def split: LanguagesHandling.splits list.splits)
qed

lemma realises_branch:
  assumes "realises langCodes sq ps" "sq = pre @ [p] # post" "p \<in> set alt" "isMultilingual [p] \<noteq> Inr True"
  shows "realises langCodes (pre @ alt # post) ps"
  using assms
proof (induction arbitrary: pre rule: realises.induct)
  case (finished langCodes)
  then show ?case by simp
next
  case (extra langCodes alts ps q)
  then show ?case by (blast intro: realises.extra)
next
  case (pick q a langCodes alts ps)
  then show ?case by (cases pre) (auto intro: realises.pick)
next
  case (by_language a langCodes las alts ps)
  show ?case
  proof (cases pre)
    case Nil
    then show ?thesis using by_language by auto
  next
    case (Cons x pre')
    then have "realises langCodes ((las @ pre') @ alt # post) ps"
      using by_language.prems by (intro by_language.IH) auto
    then show ?thesis using Cons by_language.prems by_language.hyps by (auto intro: realises.by_language)
  qed
qed

lemma scan_realises:
  "case scan k langs restart pre rest of
      Restart sq' r' \<Rightarrow> realises langs sq' ps \<longrightarrow> realises langs (pre @ rest) ps
    | Branch sqs \<Rightarrow> \<forall>sq' \<in> set sqs. realises langs sq' ps \<longrightarrow> realises langs (pre @ rest) ps
    | _ \<Rightarrow> True"
proof (induction rest arbitrary: pre)
  case Nil
  then show ?case by simp
next
  case (Cons alt post)
  have drop: "realises langs (pre @ x # alt # post) ps \<Longrightarrow> realises langs (pre @ alt # post) ps" for x
    by (erule realises_remove [where mid = "[x]"]) simp
  have lang: "isMultilingual alt = Inr True \<Longrightarrow> langAlternatives alt langs = Inr (Some las) \<Longrightarrow>
      realises langs (pre @ las @ post) ps \<Longrightarrow> realises langs (pre @ alt # post) ps" for las
    using realises_language by blast
  have pick: "isMultilingual alt = Inr False \<Longrightarrow> p \<in> set alt \<Longrightarrow> realises langs (pre @ [p] # post) ps \<Longrightarrow>
      realises langs (pre @ alt # post) ps" for p
    using realises_branch multilingual_single by blast
  show ?case
  proof (cases "isMultilingual alt")
    case (Inl e)
    then show ?thesis by simp
  next
    case (Inr m)
    show ?thesis
    proof (cases m)
      case True
      have "realises langs (pre @ post) ps \<longrightarrow> realises langs (pre @ alt # post) ps"
        if "langAlternatives alt langs = Inr (Some [])"
        using lang [OF _ that] Inr True by simp
      moreover have "realises langs (pre @ (a # as) @ post) ps \<longrightarrow> realises langs (pre @ alt # post) ps"
        if "langAlternatives alt langs = Inr (Some (a # as))" for a as
        using lang [OF _ that] Inr True by simp
      ultimately show ?thesis
        using Inr True by (simp split: sum.splits option.splits list.splits)
    next
      case False
      then have False: "isMultilingual alt = Inr False" using Inr by simp
      show ?thesis
      proof (cases "length alt > 1")
        case True
        then show ?thesis using False pick [OF False] by auto
      next
        case short: False
        show ?thesis
          using Cons.IH [of "pre @ [alt]", unfolded append_assoc append_Cons append_Nil] False short drop
          by (cases alt) (simp_all split: sum.splits option.splits list.splits)
      qed
    qed
  qed
qed

lemma complete_from_realises:
  "complete_from fuel k langs restart sq = Some (Inr sols) \<Longrightarrow> s \<in> set sols \<Longrightarrow> realises langs sq s"
proof (induction fuel arbitrary: restart sq sols)
  case 0
  then show ?case by simp
next
  case (Suc fuel)
  note turn = scan_realises [where k = k and langs = langs and restart = restart and pre = "take restart sq"
      and rest = "drop restart sq" and ps = s]
  show ?case
  proof (cases "scan k langs restart (take restart sq) (drop restart sq)")
    case Finished
    have "toPromiseSequence sq = Inr ps \<Longrightarrow> sq = singles ps" for ps
      by (induction sq arbitrary: ps) (auto simp: sbind_Inr split: list.splits)
    then show ?thesis
      using Suc.prems Finished by (auto simp: sbind_Inr intro: realises_singles)
  next
    case (Restart sq' r')
    then show ?thesis using Suc turn by auto
  next
    case (Branch sqs)
    then have "collect (map (complete_from fuel k langs 0) sqs) = Some (Inr sols)"
      using Suc.prems(1) by simp
    from collect_Inr [OF this Suc.prems(2)]
    obtain ys sq' where "complete_from fuel k langs 0 sq' = Some (Inr ys)" "s \<in> set ys" "sq' \<in> set sqs"
      by (metis imageE list.set_map)
    then show ?thesis using Suc.IH turn Branch by auto
  qed (use Suc.prems in auto)
qed

section \<open>The best sequence is chosen\<close>

definition preferred :: "'p promise list \<Rightarrow> 'p promise list \<Rightarrow> bool" where
  "preferred ps qs \<longleftrightarrow> calculateQualityScore ps > calculateQualityScore qs \<or>
     (calculateQualityScore ps = calculateQualityScore qs
      \<and> calculateEstimatedTime ps < calculateEstimatedTime qs)"

definition best_of :: "'p promise list list \<Rightarrow> 'p best \<Rightarrow> bool" where
  "best_of sqs best \<longleftrightarrow>
     (case best of
        None \<Rightarrow> sqs = []
      | Some (i, ps, score, time) \<Rightarrow> i < length sqs \<and> sqs ! i = ps
          \<and> score = calculateQualityScore ps \<and> time = calculateEstimatedTime ps
          \<and> (\<forall>qs \<in> set sqs. \<not> preferred qs ps))"

lemma trySolution_simps:
  "trySolution (i, None) ps = (i + 1, Some (i, ps, calculateQualityScore ps, calculateEstimatedTime ps))"
  "trySolution (i, Some (j, qs, calculateQualityScore qs, calculateEstimatedTime qs)) ps =
     (i + 1, if preferred ps qs
             then Some (i, ps, calculateQualityScore ps, calculateEstimatedTime ps)
             else Some (j, qs, calculateQualityScore qs, calculateEstimatedTime qs))"
  by (simp_all add: trySolution_def Let_def preferred_def)

lemma best_of_fold:
  "fst (foldl trySolution (0, None) sqs) = length sqs \<and> best_of sqs (snd (foldl trySolution (0, None) sqs))"
proof (induction sqs rule: rev_induct)
  case Nil
  then show ?case by (simp add: best_of_def)
next
  case (snoc ps sqs)
  obtain best where st: "foldl trySolution (0, None) sqs = (length sqs, best)" "best_of sqs best"
    using snoc by (metis prod.collapse)
  show ?case
  proof (cases best)
    case None
    then show ?thesis
      using st by (simp add: trySolution_simps best_of_def preferred_def)
  next
    case (Some b)
    then obtain i qs where b: "best = Some (i, qs, calculateQualityScore qs, calculateEstimatedTime qs)"
      "i < length sqs" "sqs ! i = qs" and q: "\<And>rs. rs \<in> set sqs \<Longrightarrow> \<not> preferred rs qs"
      using st(2) by (cases b) (auto simp: best_of_def)
    have "\<not> preferred rs ps" if "preferred ps qs" "rs \<in> set sqs" for rs
      using q [OF that(2)] that(1) by (auto simp: preferred_def)
    moreover have "\<not> preferred ps ps" by (simp add: preferred_def)
    ultimately show ?thesis
      using st(1) b q by (auto simp: trySolution_simps best_of_def nth_append)
  qed
qed

lemma bestSolution_best: "best_of sqs (bestSolution sqs)"
  by (simp add: bestSolution_def best_of_fold)

lemma set_remove_nth:
  "i < length xs \<Longrightarrow> set xs = insert (xs ! i) (set (take i xs @ drop (i + 1) xs))"
  by (metis Suc_eq_plus1 id_take_nth_drop list.simps(15) set_append Un_insert_right)

text \<open>The first exception that was kept, or the one of the best sequence when none was.\<close>

lemma chooseSolution_from_spec:
  "length sqs = n \<Longrightarrow>
   (case chooseSolution_from n firstException sqs of
      Inr (Some ps) \<Rightarrow> ps \<in> set sqs \<and> checkSolution ps = None
        \<and> (\<forall>qs \<in> set sqs. checkSolution qs = None \<longrightarrow> \<not> preferred qs ps)
    | Inr None \<Rightarrow> sqs = [] \<and> firstException = None
    | Inl e \<Rightarrow> (\<forall>qs \<in> set sqs. checkSolution qs \<noteq> None) \<and>
        (\<exists>what. e = Psi_Exception what \<and>
          (case firstException of Some w \<Rightarrow> what = w
           | None \<Rightarrow> \<exists>ps \<in> set sqs. checkSolution ps = Some what \<and> (\<forall>qs \<in> set sqs. \<not> preferred qs ps))))"
proof (induction n arbitrary: firstException sqs)
  case 0
  then show ?case by (simp split: option.splits)
next
  case (Suc n)
  obtain i ps score time where b: "bestSolution sqs = Some (i, ps, score, time)"
    and i: "i < length sqs" and ps: "sqs ! i = ps" and best: "\<And>qs. qs \<in> set sqs \<Longrightarrow> \<not> preferred qs ps"
    using bestSolution_best [of sqs] Suc.prems by (auto simp: best_of_def split: option.splits)
  define rest where "rest = take i sqs @ drop (i + 1) sqs"
  have s: "set sqs = insert ps (set rest)" and l: "length rest = n"
    using set_remove_nth [OF i] ps i Suc.prems by (auto simp: rest_def)
  show ?case
  proof (cases "checkSolution ps")
    case None
    then show ?thesis using b s best by simp
  next
    case (Some what)
    define fe where "fe = (case firstException of None \<Rightarrow> Some what | Some _ \<Rightarrow> firstException)"
    have e: "chooseSolution_from (Suc n) firstException sqs = chooseSolution_from n fe rest"
      using b Some by (simp add: fe_def rest_def)
    have IH: "case chooseSolution_from n fe rest of
      Inr (Some ps) \<Rightarrow> ps \<in> set rest \<and> checkSolution ps = None
        \<and> (\<forall>qs \<in> set rest. checkSolution qs = None \<longrightarrow> \<not> preferred qs ps)
    | Inr None \<Rightarrow> rest = [] \<and> fe = None
    | Inl e \<Rightarrow> (\<forall>qs \<in> set rest. checkSolution qs \<noteq> None) \<and>
        (\<exists>what. e = Psi_Exception what \<and>
          (case fe of Some w \<Rightarrow> what = w
           | None \<Rightarrow> \<exists>ps \<in> set rest. checkSolution ps = Some what \<and> (\<forall>qs \<in> set rest. \<not> preferred qs ps)))"
      by (rule Suc.IH [OF l])
    have "fe \<noteq> None" by (simp add: fe_def split: option.splits)
    moreover have "ps \<in> set sqs" using s by simp
    ultimately show ?thesis
      unfolding e using IH s Some best
      by (auto simp: fe_def split: sum.splits option.splits)
  qed
qed

section \<open>What completion promises\<close>

text \<open>C14: The sequence that completion returns is in order (every list of layer tags that one of its
  processors requires is provided by one earlier processor), it realises the pipeline that was
  asked for (an element for every alternative, or one for every language), all its processors can
  be created, and no other sequence found whose processors can all be created has a higher quality
  score, or the same score and a smaller estimated time.\<close>
theorem completed_pipeline:
  assumes "complete fuel k langCodes sq = Some (Inr (Some ps))"
  shows "\<exists>sols. complete_from fuel k langCodes 0 sq = Some (Inr sols) \<and> ps \<in> set sols
    \<and> fulfilled ps \<and> realises langCodes sq ps \<and> checkSolution ps = None
    \<and> (\<forall>qs \<in> set sols. checkSolution qs = None \<longrightarrow> \<not> preferred qs ps)"
proof -
  obtain sols where sols: "complete_from fuel k langCodes 0 sq = Some (Inr sols)"
    "chooseSolution sols = Inr (Some ps)"
    using assms by (auto simp: complete_def sbind_Inr)
  then have "ps \<in> set sols \<and> checkSolution ps = None
      \<and> (\<forall>qs \<in> set sols. checkSolution qs = None \<longrightarrow> \<not> preferred qs ps)"
    using chooseSolution_from_spec [of sols "length sols" None] by (simp add: chooseSolution_def)
  moreover have "fulfilled ps" "realises langCodes sq ps"
    using calculation sols(1) complete_from_ordered [of fuel k langCodes 0 sq sols ps]
      complete_from_realises by (auto simp: ordered_upto_def)
  ultimately show ?thesis using sols(1) by blast
qed

text \<open>When completion fails although it found complete sequences, none of them has processors that
  can all be created, and the exception raised is the one of a best-ranked sequence.\<close>
theorem completion_exception:
  assumes "complete_from fuel k langCodes 0 sq = Some (Inr sols)"
  shows "case complete fuel k langCodes sq of
      Some (Inr (Some ps)) \<Rightarrow> checkSolution ps = None
    | Some (Inr None) \<Rightarrow> sols = []
    | Some (Inl e) \<Rightarrow> (\<forall>qs \<in> set sols. checkSolution qs \<noteq> None) \<and>
        (\<exists>what. e = Psi_Exception what \<and>
          (\<exists>ps \<in> set sols. checkSolution ps = Some what \<and> (\<forall>qs \<in> set sols. \<not> preferred qs ps)))
    | None \<Rightarrow> False"
  using chooseSolution_from_spec [of sols "length sols" None] assms
  by (auto simp: complete_def chooseSolution_def split: sum.splits option.splits)

section \<open>Circular requirements\<close>

text \<open>Two annotators each of which provides what the other requires.  The guard against vicious
  circles only looks at one factory at a time.\<close>

definition circular_a :: "unit factory" where
  "circular_a = plain_annotator ''a-er'' [[''b'']] [''a''] ()"

definition circular_b :: "unit factory" where
  "circular_b = plain_annotator ''b-er'' [[''a'']] [''b''] ()"

definition circular_keeper :: "unit keeper" where
  "circular_keeper = takeProcessorFactory (takeProcessorFactory empty_keeper circular_a) circular_b"

lemma circular_map:
  "nameToFactoryMap circular_keeper = [''a-er'' \<mapsto> circular_a, ''b-er'' \<mapsto> circular_b]"
  by (simp add: circular_keeper_def empty_keeper_def circular_a_def circular_b_def)

lemma circular_names: "getProcessorNames circular_keeper = [''a-er'', ''b-er'']"
proof -
  have "dom (nameToFactoryMap circular_keeper) = set [''a-er'', ''b-er'']"
    by (auto simp: circular_map)
  then show ?thesis
    unfolding getProcessorNames_def by (simp only:) (simp add: less_char_def)
qed

abbreviation promised :: "'p factory \<Rightarrow> 'p promise" where
  "promised f \<equiv> \<lparr>p_factory = f, p_options = Map.empty\<rparr>"

lemma circular_fulfillers:
  "findFulfillers circular_keeper [''a''] None = Inr [promised circular_a]"
  "findFulfillers circular_keeper [''b''] None = Inr [promised circular_b]"
  unfolding findFulfillers_def circular_names
  by (simp_all add: getProcessorFactory_def circular_map isViciousCircle_def isSubsetOf_def
      circular_a_def circular_b_def getDefaultPromise_def getDefaultOptions_def)

lemma circular_scan:
  "scan circular_keeper langs 0 [] ([promised circular_a] # rest) =
     Restart ([promised circular_b] # [promised circular_a] # rest) 0"
  "scan circular_keeper langs 0 [] ([promised circular_b] # rest) =
     Restart ([promised circular_a] # [promised circular_b] # rest) 0"
proof -
  have "languagesHandling (promised circular_a) = LANGUAGE_INDEPENDENT"
    "languagesHandling (promised circular_b) = LANGUAGE_INDEPENDENT"
    "requiredLayerTags (promised circular_a) = [[''b'']]"
    "requiredLayerTags (promised circular_b) = [[''a'']]"
    by (simp_all add: languagesHandling_def requiredLayerTags_def circular_a_def circular_b_def)
  then show
    "scan circular_keeper langs 0 [] ([promised circular_a] # rest) =
       Restart ([promised circular_b] # [promised circular_a] # rest) 0"
    "scan circular_keeper langs 0 [] ([promised circular_b] # rest) =
       Restart ([promised circular_a] # [promised circular_b] # rest) 0"
    by (simp_all add: isMultilingual_def missing_fulfillers_def promise_language_def circular_fulfillers)
qed

text \<open>An example of what the guard against an annotator that requires what it is asked to provide
  does not see: two annotators that require each other's layers. A pipeline that starts with one of
  them is never completed, whatever the fuel and whatever follows.\<close>

lemma circular_example: "complete fuel circular_keeper langCodes ([promised circular_a] # rest) = None"
proof -
  have "complete_from fuel circular_keeper langCodes 0 ([promised circular_a] # rest) = None \<and>
    complete_from fuel circular_keeper langCodes 0 ([promised circular_b] # rest) = None"
    by (induction fuel arbitrary: rest) (simp_all add: circular_scan del: scan.simps)
  then show ?thesis by (simp add: complete_def)
qed

section \<open>Completion ends when the requirements are layered\<close>

text \<open>The promises that can occur while a pipeline is completed: those of the pipeline, the promise
  of a factory of the keeper with its default options (for a language, if one is asked for), and
  what an occurring promise becomes when its language is set.\<close>

inductive occurs :: "'p keeper \<Rightarrow> 'p alternatives \<Rightarrow> 'p promise \<Rightarrow> bool" for k :: "'p keeper" and sq :: "'p alternatives" where
  occurs_pipeline: "alt \<in> set sq \<Longrightarrow> p \<in> set alt \<Longrightarrow> occurs k sq p"
| occurs_default: "f \<in> ran (nameToFactoryMap k) \<Longrightarrow> getDefaultPromise f lang = Inr (Some p) \<Longrightarrow> occurs k sq p"
| occurs_language: "occurs k sq p \<Longrightarrow> canHandleLanguage p lang = Inr (Some q) \<Longrightarrow> occurs k sq q"

text \<open>The condition under which completion ends: the factories can be ranked so that a factory that
  can be inserted for a requirement of an occurring promise ranks below the factory of the promise,
  and a promise with default options provides what its factory does and depends on no further
  language.  The last condition holds for the factories that depend on the language as the code
  has them (lemma \<open>language_dependent_default\<close>): their default promise for a language has
  that language set.\<close>

definition layered :: "('p factory \<Rightarrow> nat) \<Rightarrow> 'p keeper \<Rightarrow> 'p alternatives \<Rightarrow> bool" where
  "layered rank k sq \<longleftrightarrow>
     (\<forall>p g. occurs k sq p \<longrightarrow> g \<in> ran (nameToFactoryMap k) \<longrightarrow>
        (\<forall>tags \<in> set (requiredLayerTags p).
           f_annotator g \<and> \<not> isViciousCircle g tags \<and> isSubsetOf tags (f_provided0 g) \<longrightarrow>
             rank g < rank (p_factory p))) \<and>
     (\<forall>f \<in> ran (nameToFactoryMap k). \<forall>lang p. f_annotator f \<longrightarrow> getDefaultPromise f lang = Inr (Some p) \<longrightarrow>
        set (f_provided0 f) \<subseteq> set (f_provided f (p_options p)) \<and>
        f_handling f (p_options p) \<noteq> LANGUAGE_DEPENDENT)"

definition occurring :: "'p keeper \<Rightarrow> 'p alternatives \<Rightarrow> 'p alternatives \<Rightarrow> bool" where
  "occurring k sq sq' \<longleftrightarrow> (\<forall>alt \<in> set sq'. \<forall>p \<in> set alt. occurs k sq p)"

lemma occurring_simps [simp]:
  "occurring k sq []" "occurring k sq (alt # sq') \<longleftrightarrow> (\<forall>p \<in> set alt. occurs k sq p) \<and> occurring k sq sq'"
  "occurring k sq (xs @ ys) \<longleftrightarrow> occurring k sq xs \<and> occurring k sq ys"
  by (auto simp: occurring_def)

lemma occurring_self: "occurring k sq sq"
  by (auto simp: occurring_def intro: occurs_pipeline)

lemma getDefaultPromise_factory:
  assumes "getDefaultPromise f lang = Inr (Some p)"
  shows "p_factory p = f"
proof -
  obtain defaults where "getDefaultOptions f = Inr defaults"
    using assms by (auto simp: getDefaultPromise_def sbind_Inr)
  then show ?thesis using assms
    by (cases "f_handling f defaults")
      (auto simp: getDefaultPromise_def sbind_Inr split: option.splits list.splits if_splits)
qed

text \<open>A factory that depends on the language (\<open>LanguageDependentAnnotatorFactory\<close>): without a
  language it handles those its data are for; none of these is called \<open>guess\<close>.\<close>

definition language_dependent :: "'p factory \<Rightarrow> string list \<Rightarrow> bool" where
  "language_dependent f langs \<longleftrightarrow>
     f_handling f = checkLangOption \<and> f_handled f = language_dependent_handled langs \<and> ''guess'' \<notin> set langs \<and>
     (\<forall>lang opts. f_parse f [''--lang'', lang] = Some opts \<longrightarrow> opts ''lang'' = Some lang) \<and>
     (\<forall>opts. f_parse f [] = Some opts \<longrightarrow> opts ''lang'' = Some ''guess'')"

lemma language_dependent_default:
  assumes "language_dependent f langs" "getDefaultPromise f lang = Inr (Some p)"
  shows "f_handling f (p_options p) \<noteq> LANGUAGE_DEPENDENT \<and> p_factory p = f \<and> (\<exists>l \<in> set langs. lang = Some l)"
proof -
  obtain defaults where d: "f_parse f [] = Some defaults"
    using assms(2) by (auto simp: getDefaultPromise_def getDefaultOptions_def sbind_Inr split: option.splits)
  have g: "isJustNoLanguage defaults" using assms(1) d by (simp add: language_dependent_def isJustNoLanguage_def)
  have "f_handling f defaults = LANGUAGE_DEPENDENT" "f_handled f defaults = langs"
    using assms(1) g by (auto simp: language_dependent_def checkLangOption_def language_dependent_handled_def)
  then obtain l opts where l: "lang = Some l" "l \<in> set langs" "f_parse f [''--lang'', l] = Some opts"
    and p: "p = \<lparr>p_factory = f, p_options = opts\<rparr>"
    using assms(2) d
    by (auto simp: getDefaultPromise_def getDefaultOptions_def getDefaultOptionsWithLang_def sbind_Inr
      split: option.splits if_splits)
  have o: "opts ''lang'' = Some l" "l \<noteq> ''guess''" using assms(1) l by (auto simp: language_dependent_def)
  then have "checkLangOption opts = JUST_ONE_LANGUAGE" by (simp add: checkLangOption_def isJustNoLanguage_def)
  moreover have "f_handling f = checkLangOption" using assms(1) by (simp add: language_dependent_def)
  ultimately show ?thesis unfolding p l(1) using l(2) by simp
qed

subsection \<open>The measure\<close>

text \<open>An alternative covers a requirement when whatever it is resolved to fulfils it.\<close>

definition covers :: "'p promise list \<Rightarrow> string list \<Rightarrow> bool" where
  "covers alt tags \<longleftrightarrow> alt \<noteq> [] \<and>
     (\<forall>p \<in> set alt. languagesHandling p \<noteq> LANGUAGE_DEPENDENT \<and> isSubsetOf tags (providedLayerTags p))"

definition uncovered :: "'p alternatives \<Rightarrow> 'p promise list \<Rightarrow> nat" where
  "uncovered pre alt =
     (case alt of [p] \<Rightarrow> length (filter (\<lambda>tags. \<not> (\<exists>a \<in> set pre. covers a tags)) (requiredLayerTags p))
      | _ \<Rightarrow> 0)"

definition rank_of :: "('p factory \<Rightarrow> nat) \<Rightarrow> 'p promise list \<Rightarrow> nat" where
  "rank_of rank alt = fold (\<lambda>p m. max (rank (p_factory p)) m) alt 0"

definition weight :: "('p factory \<Rightarrow> nat) \<Rightarrow> 'p alternatives \<Rightarrow> 'p promise list \<Rightarrow> nat \<times> nat \<times> nat \<times> nat" where
  "weight rank pre alt =
     (rank_of rank alt, (if isMultilingual alt = Inr True then 1 else 0), length alt, uncovered pre alt)"

fun weights ::
  "('p factory \<Rightarrow> nat) \<Rightarrow> 'p alternatives \<Rightarrow> 'p alternatives \<Rightarrow> (nat \<times> nat \<times> nat \<times> nat) multiset"
where
  "weights rank pre [] = {#}"
| "weights rank pre (alt # post) = {#weight rank pre alt#} + weights rank (pre @ [alt]) post"

lemma rank_of_le: "rank_of rank alt \<le> n \<longleftrightarrow> (\<forall>p \<in> set alt. rank (p_factory p) \<le> n)"
proof -
  have "fold (\<lambda>p m. max (rank (p_factory p)) m) alt m \<le> n \<longleftrightarrow> m \<le> n \<and> (\<forall>p \<in> set alt. rank (p_factory p) \<le> n)" for m
    by (induction alt arbitrary: m) auto
  then show ?thesis by (simp add: rank_of_def)
qed

lemma rank_of_mem: "p \<in> set alt \<Longrightarrow> rank (p_factory p) \<le> rank_of rank alt"
  using rank_of_le by blast

lemma rank_of_mono: "(\<And>p. p \<in> set as \<Longrightarrow> \<exists>q \<in> set bs. p_factory p = p_factory q) \<Longrightarrow> rank_of rank as \<le> rank_of rank bs"
  by (metis rank_of_le rank_of_mem)

definition covers_more :: "'p alternatives \<Rightarrow> 'p alternatives \<Rightarrow> bool" where
  "covers_more pre' pre \<longleftrightarrow> (\<forall>tags. (\<exists>a \<in> set pre. covers a tags) \<longrightarrow> (\<exists>a \<in> set pre'. covers a tags))"

lemma filter_length_mono: "(\<And>x. P x \<Longrightarrow> Q x) \<Longrightarrow> length (filter P xs) \<le> length (filter Q xs)"
  by (induction xs) auto

lemma filter_length_less:
  "(\<And>x. P x \<Longrightarrow> Q x) \<Longrightarrow> x \<in> set xs \<Longrightarrow> Q x \<Longrightarrow> \<not> P x \<Longrightarrow> length (filter P xs) < length (filter Q xs)"
proof (induction xs)
  case (Cons y ys)
  then show ?case using filter_length_mono [of P Q ys] by auto
qed simp

lemma weight_mono: "covers_more pre' pre \<Longrightarrow> weight rank pre' alt \<le> weight rank pre alt"
proof -
  assume "covers_more pre' pre"
  then have "length (filter (\<lambda>tags. \<not> (\<exists>a \<in> set pre'. covers a tags)) required)
      \<le> length (filter (\<lambda>tags. \<not> (\<exists>a \<in> set pre. covers a tags)) required)" for required
    by (intro filter_length_mono) (auto simp: covers_more_def)
  then show ?thesis by (auto simp: weight_def uncovered_def split: list.splits)
qed

lemma covers_more_snoc: "covers_more pre' pre \<Longrightarrow> covers_more (pre' @ [a]) (pre @ [a])"
  by (auto simp: covers_more_def)

lemma weights_mono: "covers_more pre' pre \<Longrightarrow> weights rank pre' post \<le> weights rank pre post"
proof (induction post arbitrary: pre pre')
  case (Cons alt post)
  have "{#weight rank pre' alt#} \<le> {#weight rank pre alt#}"
    using weight_mono [OF Cons.prems] by (simp add: le_less)
  then show ?case
    unfolding weights.simps using Cons.IH [OF covers_more_snoc [OF Cons.prems]] by (rule add_mono)
qed simp

lemma weights_append: "weights rank pre (xs @ ys) = weights rank pre xs + weights rank (pre @ xs) ys"
  by (induction xs arbitrary: pre) (simp_all add: ac_simps)

text \<open>Replacing one alternative by lighter ones makes the multiset of the weights smaller.\<close>

lemma weights_replace:
  assumes "\<And>w. w \<in># weights rank pre new \<Longrightarrow> w < weight rank pre alt" "covers_more (pre @ new) (pre @ [alt])"
  shows "weights rank [] (pre @ new @ post) < weights rank [] (pre @ alt # post)"
proof -
  have "weights rank pre new < {#weight rank pre alt#}"
    using assms(1) by (simp add: mset_lt_single_right_iff)
  then have "weights rank pre new + weights rank (pre @ new) post
      < {#weight rank pre alt#} + weights rank (pre @ [alt]) post"
    using weights_mono [OF assms(2)] by (rule add_less_le_mono)
  then show ?thesis by (simp add: weights_append)
qed

subsection \<open>Every turn makes the weights smaller\<close>

lemma multilingual_dependent:
  "isMultilingual alt = Inr False \<Longrightarrow> p \<in> set alt \<Longrightarrow> languagesHandling p \<noteq> LANGUAGE_DEPENDENT"
  using multilingual_single [of alt p] by (auto simp: isMultilingual_def)

lemma cloneWithLanguageSet_factory: "cloneWithLanguageSet p lang = Inr q \<Longrightarrow> p_factory q = p_factory p"
  by (auto simp: cloneWithLanguageSet_def split: if_splits)

lemma canHandleLanguage_factory: "canHandleLanguage p lang = Inr (Some q) \<Longrightarrow> p_factory q = p_factory p"
  by (auto simp: canHandleLanguage_def sbind_Inr cloneWithLanguageSet_factory
      split: LanguagesHandling.splits if_splits)

lemma canHandleLanguage_same:
  "canHandleLanguage p lang = Inr (Some q) \<Longrightarrow> languagesHandling p \<noteq> LANGUAGE_DEPENDENT \<Longrightarrow> q = p"
  by (auto simp: canHandleLanguage_def split: LanguagesHandling.splits if_splits)

lemma filtreByLanguage_set:
  "filtreByLanguage alt lang = Inr qs \<Longrightarrow> q \<in> set qs \<Longrightarrow>
     \<exists>p \<in> set alt. canHandleLanguage p lang = Inr (Some q)"
  by (induction alt arbitrary: qs) (auto simp: sbind_Inr split: option.splits)

lemma langAlternatives_set:
  "langAlternatives alt langs = Inr (Some las) \<Longrightarrow> la \<in> set las \<Longrightarrow>
     la \<noteq> [] \<and> isMultilingual la = Inr False \<and> (\<exists>lang. filtreByLanguage alt lang = Inr la)"
  by (induction langs arbitrary: las) (auto simp: sbind_Inr split: if_splits)

lemma langAlternatives_Nil: "langAlternatives alt langs = Inr (Some las) \<Longrightarrow> las = [] \<longleftrightarrow> langs = []"
  by (cases langs) (auto simp: sbind_Inr split: if_splits)

lemma weights_in: "w \<in># weights rank pre sq \<Longrightarrow> \<exists>pre' alt. alt \<in> set sq \<and> w = weight rank pre' alt"
  by (induction sq arbitrary: pre) fastforce+

lemma turn_language:
  assumes "isMultilingual alt = Inr True" "langAlternatives alt langs = Inr (Some las)" "las \<noteq> []"
  shows "weights rank [] (pre @ las @ post) < weights rank [] (pre @ alt # post)"
proof (rule weights_replace)
  fix w assume "w \<in># weights rank pre las"
  then obtain pre' la where la: "la \<in> set las" "w = weight rank pre' la" using weights_in by blast
  note l = langAlternatives_set [OF assms(2) la(1)]
  then have "rank_of rank la \<le> rank_of rank alt"
    by (intro rank_of_mono) (metis filtreByLanguage_set canHandleLanguage_factory)
  then show "w < weight rank pre alt" using l assms(1) la(2) by (simp add: weight_def)
next
  obtain la where la: "la \<in> set las" using assms(3) by (cases las) auto
  have "covers la tags" if "covers alt tags" for tags
  proof -
    obtain lang where "filtreByLanguage alt lang = Inr la" "la \<noteq> []"
      using langAlternatives_set [OF assms(2) la] by blast
    moreover have "q \<in> set alt" if "filtreByLanguage alt lang = Inr la" "q \<in> set la" for q
      using that \<open>covers alt tags\<close> filtreByLanguage_set canHandleLanguage_same
      by (metis covers_def)
    ultimately show ?thesis using that by (auto simp: covers_def)
  qed
  then show "covers_more (pre @ las) (pre @ [alt])" using la by (auto simp: covers_more_def)
qed

lemma turn_branch:
  assumes "isMultilingual alt = Inr False" "1 < length alt" "p \<in> set alt"
  shows "weights rank [] (pre @ [p] # post) < weights rank [] (pre @ alt # post)"
proof -
  have "weights rank [] (pre @ [[p]] @ post) < weights rank [] (pre @ alt # post)"
  proof (rule weights_replace)
    fix w assume "w \<in># weights rank pre [[p]]"
    moreover have "rank_of rank [p] \<le> rank_of rank alt" using assms(3) by (intro rank_of_mono) auto
    ultimately show "w < weight rank pre alt"
      using assms multilingual_single [OF assms(1,3)] by (simp add: weight_def)
  next
    show "covers_more (pre @ [[p]]) (pre @ [alt])"
      using assms(3) by (auto simp: covers_more_def covers_def)
  qed
  then show ?thesis by simp
qed

lemma turn_insert:
  assumes "isMultilingual [p] = Inr False"
    and fulfillers: "\<And>q. q \<in> set qs \<Longrightarrow> rank (p_factory q) < rank (p_factory p) \<and>
      languagesHandling q \<noteq> LANGUAGE_DEPENDENT \<and> isSubsetOf tags (providedLayerTags q)"
    and "qs \<noteq> []" "tags \<in> set (requiredLayerTags p)" "\<And>a. a \<in> set pre \<Longrightarrow> \<not> covers a tags"
  shows "weights rank [] (pre @ qs # [p] # post) < weights rank [] (pre @ [p] # post)"
proof -
  have c: "covers qs tags" using fulfillers assms(3) by (auto simp: covers_def)
  have "rank_of rank qs < rank_of rank [p]"
  proof -
    obtain q where "q \<in> set qs" using assms(3) by (cases qs) auto
    then have "rank (p_factory p) \<noteq> 0" using fulfillers [of q] by auto
    then have "rank_of rank qs \<le> rank (p_factory p) - 1"
      using fulfillers by (fastforce simp: rank_of_le)
    then show ?thesis using \<open>rank (p_factory p) \<noteq> 0\<close> by (simp add: rank_of_def)
  qed
  then have 1: "weight rank pre qs < weight rank pre [p]" by (simp add: weight_def)
  have "uncovered (pre @ [qs]) [p] < uncovered pre [p]"
    using assms(4,5) c unfolding uncovered_def
    by (simp, intro filter_length_less [where x = tags]) auto
  then have 2: "weight rank (pre @ [qs]) [p] < weight rank pre [p]" by (simp add: weight_def)
  have "weights rank [] (pre @ [qs, [p]] @ post) < weights rank [] (pre @ [p] # post)"
    by (rule weights_replace) (use 1 2 in \<open>auto simp: covers_more_def\<close>)
  then show ?thesis by simp
qed

lemma getProcessorFactory_ran: "getProcessorFactory k n = Inr f \<Longrightarrow> f \<in> ran (nameToFactoryMap k)"
  by (auto simp: getProcessorFactory_def split: option.splits intro: ranI)

lemma fulfillers_among_set:
  "fulfillers_among k tags lang names = Inr qs \<Longrightarrow> q \<in> set qs \<Longrightarrow>
     p_factory q \<in> ran (nameToFactoryMap k) \<and> f_annotator (p_factory q) \<and>
     \<not> isViciousCircle (p_factory q) tags \<and> isSubsetOf tags (f_provided0 (p_factory q)) \<and>
     getDefaultPromise (p_factory q) lang = Inr (Some q)"
proof (induction names arbitrary: qs)
  case (Cons n names)
  obtain f where f: "getProcessorFactory k n = Inr f" using Cons.prems(1) by (auto simp: sbind_Inr)
  show ?case
  proof (cases "f_annotator f \<and> \<not> isViciousCircle f tags \<and> isSubsetOf tags (f_provided0 f)")
    case True
    then obtain d ps where d: "getDefaultPromise f lang = Inr d" "fulfillers_among k tags lang names = Inr ps"
      "qs = (case d of None \<Rightarrow> ps | Some p \<Rightarrow> p # ps)"
      using Cons.prems(1) f by (auto simp: sbind_Inr)
    then consider "q \<in> set ps" | "d = Some q" using Cons.prems(2) by (auto split: option.splits)
    then show ?thesis
    proof cases
      case 2
      then show ?thesis
        using getDefaultPromise_factory [of f lang q] d(1) True getProcessorFactory_ran [OF f] by auto
    qed (use Cons.IH d(2) in blast)
  next
    case False
    then have "fulfillers_among k tags lang names = Inr qs" using Cons.prems(1) f by auto
    then show ?thesis using Cons.IH Cons.prems(2) by blast
  qed
qed simp

lemma unfulfilledTags_Some:
  "unfulfilledTags required pre = Inr (Some tags) \<Longrightarrow> tags \<in> set required \<and> checkRequiredTags tags pre = Inr False"
  by (induction required) (auto simp: sbind_Inr split: if_splits)

lemma checkRequiredTags_False:
  "checkRequiredTags tags pre = Inr False \<Longrightarrow> a \<in> set pre \<Longrightarrow> \<not> covers a tags"
  by (induction pre) (auto simp: covers_def split: list.splits if_splits)

lemma missing_fulfillers_insert:
  assumes "layered rank k sq" "occurs k sq p" "isMultilingual [p] = Inr False"
    "missing_fulfillers k pre p = Inr (Some (q # qs))"
  shows "weights rank [] (pre @ (q # qs) # [p] # post) < weights rank [] (pre @ [p] # post)
    \<and> occurring k sq [q # qs]"
proof -
  obtain tags lang where t: "unfulfilledTags (requiredLayerTags p) pre = Inr (Some tags)"
    and f: "fulfillers_among k tags lang (getProcessorNames k) = Inr (q # qs)"
    using assms(4) by (auto simp: missing_fulfillers_def findFulfillers_def sbind_Inr split: option.splits)
  note tags = unfulfilledTags_Some [OF t]
  note s = fulfillers_among_set [OF f]
  have "rank (p_factory x) < rank (p_factory p) \<and> languagesHandling x \<noteq> LANGUAGE_DEPENDENT \<and>
      isSubsetOf tags (providedLayerTags x)" if "x \<in> set (q # qs)" for x
  proof -
    have d: "set (f_provided0 (p_factory x)) \<subseteq> set (f_provided (p_factory x) (p_options x))"
      "f_handling (p_factory x) (p_options x) \<noteq> LANGUAGE_DEPENDENT"
      using s [OF that] assms(1) unfolding layered_def by blast+
    then have "isSubsetOf tags (providedLayerTags x)"
      using s [OF that] by (auto simp: isSubsetOf_def list_all_iff providedLayerTags_def)
    moreover have "rank (p_factory x) < rank (p_factory p)"
      using s [OF that] assms(1,2) tags unfolding layered_def by blast
    ultimately show ?thesis using s [OF that] d(2) by (auto simp: languagesHandling_def)
  qed
  then have "weights rank [] (pre @ (q # qs) # [p] # post) < weights rank [] (pre @ [p] # post)"
    using turn_insert [OF assms(3), of "q # qs" rank tags pre post] tags checkRequiredTags_False by blast
  moreover have "occurs k sq x" if "x \<in> set (q # qs)" for x using s [OF that] by (blast intro: occurs_default)
  ultimately show ?thesis by simp
qed

lemma occurring_langAlternatives:
  "langAlternatives alt langs = Inr (Some las) \<Longrightarrow> occurring k sq [alt] \<Longrightarrow> occurring k sq las"
  unfolding occurring_def using langAlternatives_set filtreByLanguage_set occurs_language
  by (metis list.set_intros(1))

lemma scan_weights:
  assumes "layered rank k sq" "langs \<noteq> []"
  shows "occurring k sq (pre @ rest) \<Longrightarrow>
   (case scan k langs restart pre rest of
      Restart sq' r' \<Rightarrow> weights rank [] sq' < weights rank [] (pre @ rest) \<and> occurring k sq sq'
    | Branch sqs \<Rightarrow> \<forall>sq' \<in> set sqs. weights rank [] sq' < weights rank [] (pre @ rest) \<and> occurring k sq sq'
    | _ \<Rightarrow> True)"
proof (induction rest arbitrary: pre)
  case Nil
  then show ?case by simp
next
  case (Cons alt post)
  show ?case
  proof (cases "isMultilingual alt")
    case (Inl e)
    then show ?thesis by simp
  next
    case (Inr m)
    show ?thesis
    proof (cases m)
      case True
      have "weights rank [] (pre @ (a # as) @ post) < weights rank [] (pre @ alt # post) \<and> occurring k sq (a # as)"
        if "langAlternatives alt langs = Inr (Some (a # as))" for a as
        using turn_language [OF _ that] occurring_langAlternatives [OF that] Inr True Cons.prems by simp
      moreover have "langAlternatives alt langs \<noteq> Inr (Some [])"
        using langAlternatives_Nil [of alt langs] assms(2) by blast
      ultimately show ?thesis
        using Inr True Cons.prems by (auto split: sum.splits option.splits list.splits)
    next
      case False
      then have False: "isMultilingual alt = Inr False" using Inr by simp
      show ?thesis
      proof (cases "length alt > 1")
        case True
        then show ?thesis using False turn_branch [OF False True] Cons.prems by auto
      next
        case short: False
        have "weights rank [] (pre @ (q # qs) # alt # post) < weights rank [] (pre @ alt # post) \<and> occurring k sq [q # qs]"
          if "alt = [p]" "missing_fulfillers k pre p = Inr (Some (q # qs))" for p q qs
          using missing_fulfillers_insert [OF assms(1) _ _ that(2)] False that(1) Cons.prems by simp
        then show ?thesis
          using Cons.IH [of "pre @ [alt]", unfolded append_assoc append_Cons append_Nil] False short Cons.prems
          by (cases alt) (auto split: sum.splits option.splits list.splits)
      qed
    qed
  qed
qed

subsection \<open>Enough fuel\<close>

lemma collect_mono:
  "list_all2 (\<lambda>a b. a \<noteq> None \<longrightarrow> b = a) rs rs' \<Longrightarrow> collect rs = Some r \<Longrightarrow> collect rs' = Some r"
proof (induction rs rs' arbitrary: r rule: list_all2_induct)
  case (Cons x xs y ys)
  then show ?case by (fastforce split: option.splits sum.splits)
qed simp

lemma complete_from_mono:
  "complete_from n k langs restart sq = Some r \<Longrightarrow> n \<le> m \<Longrightarrow> complete_from m k langs restart sq = Some r"
proof (induction n arbitrary: m restart sq r)
  case (Suc n)
  from Suc.prems(2) obtain m' where m: "m = Suc m'" "n \<le> m'" by (cases m) auto
  show ?case
  proof (cases "scan k langs restart (take restart sq) (drop restart sq)")
    case (Branch sqs)
    have "complete_from n k langs 0 sq' \<noteq> None \<longrightarrow>
        complete_from m' k langs 0 sq' = complete_from n k langs 0 sq'" for sq'
      using Suc.IH [OF _ m(2)] by auto
    then have "list_all2 (\<lambda>a b. a \<noteq> None \<longrightarrow> b = a) (map (complete_from n k langs 0) sqs)
        (map (complete_from m' k langs 0) sqs)"
      by (simp add: list_all2_map1 list_all2_map2 list_all2_same)
    then show ?thesis using Suc.prems(1) m(1) Branch collect_mono by simp
  next
    case (Restart sq' r')
    then have "complete_from n k langs r' sq' = Some r" using Suc.prems(1) by simp
    then have "complete_from m' k langs r' sq' = Some r" by (rule Suc.IH [OF _ m(2)])
    then show ?thesis using Restart m(1) by simp
  qed (use Suc.prems(1) m(1) in auto)
qed simp

lemma collect_total: "None \<notin> set rs \<Longrightarrow> \<exists>r. collect rs = Some r"
proof (induction rs)
  case (Cons x rs)
  then obtain y where "x = Some y" by (cases x) auto
  then show ?case using Cons by (cases y) auto
qed simp

lemma complete_from_total:
  assumes "layered rank k sq0" "langs \<noteq> []"
  shows "occurring k sq0 sq \<Longrightarrow> \<exists>n r. complete_from n k langs restart sq = Some r"
proof (induction "weights rank [] sq" arbitrary: sq restart rule: less_induct)
  case less
  note turn = scan_weights [OF assms, where pre = "take restart sq" and rest = "drop restart sq"
      and restart = restart, unfolded append_take_drop_id, OF less.prems]
  show ?case
  proof (cases "scan k langs restart (take restart sq) (drop restart sq)")
    case (Restart sq' r')
    then obtain n r where "complete_from n k langs r' sq' = Some r" using turn less.hyps [of sq' r'] by auto
    then have "complete_from (Suc n) k langs restart sq = Some r" using Restart by simp
    then show ?thesis by blast
  next
    case (Branch sqs)
    then have "\<forall>sq' \<in> set sqs. \<exists>n r. complete_from n k langs 0 sq' = Some r" using turn less.hyps by auto
    then obtain f where f: "\<And>sq'. sq' \<in> set sqs \<Longrightarrow> \<exists>r. complete_from (f sq') k langs 0 sq' = Some r"
      by metis
    have "complete_from (Max (f ` set sqs)) k langs 0 sq' \<noteq> None" if "sq' \<in> set sqs" for sq'
      using f [OF that] complete_from_mono Max_ge [OF finite_imageI [OF finite_set]] that
      by (metis imageI option.distinct(1))
    then obtain r where "collect (map (complete_from (Max (f ` set sqs)) k langs 0) sqs) = Some r"
      using collect_total [of "map (complete_from (Max (f ` set sqs)) k langs 0) sqs"] by (auto simp: eq_commute)
    then have "complete_from (Suc (Max (f ` set sqs))) k langs restart sq = Some r" using Branch by simp
    then show ?thesis by blast
  qed (auto intro: exI [of _ 1])
qed

text \<open>C16: Completion of a pipeline ends, in success, failure or an exception, for every list of
  languages that is not empty, when the requirements of the promises that can occur are layered.\<close>
theorem completion_ends:
  assumes "layered rank k sq" and "langCodes \<noteq> []"
  shows "\<exists>fuel r. complete fuel k langCodes sq = Some r"
  using complete_from_total [OF assms occurring_self, of 0] by (auto simp: complete_def)

section \<open>A pipeline completed\<close>

definition sample_tokenizer :: "unit factory" where
  "sample_tokenizer = plain_annotator ''tp'' [] [''token''] ()"

definition sample_lemmatizer :: "unit factory" where
  "sample_lemmatizer = plain_annotator ''lamer'' [[''token'']] [''lemma''] ()"

definition lemma_keeper :: "unit keeper" where
  "lemma_keeper = takeProcessorFactory (takeProcessorFactory empty_keeper sample_tokenizer) sample_lemmatizer"

lemma lemma_map: "nameToFactoryMap lemma_keeper = [''tp'' \<mapsto> sample_tokenizer, ''lamer'' \<mapsto> sample_lemmatizer]"
  by (simp add: lemma_keeper_def empty_keeper_def sample_tokenizer_def sample_lemmatizer_def)

lemma lemma_ran: "ran (nameToFactoryMap lemma_keeper) = {sample_tokenizer, sample_lemmatizer}"
  by (simp add: lemma_map insert_commute)

lemma lemma_names: "getProcessorNames lemma_keeper = [''lamer'', ''tp'']"
proof -
  have "dom (nameToFactoryMap lemma_keeper) = set [''lamer'', ''tp'']"
    by (auto simp: lemma_map)
  then show ?thesis
    unfolding getProcessorNames_def by (simp only:) (simp add: less_char_def)
qed

lemma sample_promises:
  "languagesHandling (promised sample_tokenizer) = LANGUAGE_INDEPENDENT"
  "languagesHandling (promised sample_lemmatizer) = LANGUAGE_INDEPENDENT"
  "requiredLayerTags (promised sample_tokenizer) = []"
  "requiredLayerTags (promised sample_lemmatizer) = [[''token'']]"
  "providedLayerTags (promised sample_tokenizer) = [''token'']"
  "createProcessor (promised sample_tokenizer) = Inr ()"
  "createProcessor (promised sample_lemmatizer) = Inr ()"
  by (simp_all add: languagesHandling_def requiredLayerTags_def providedLayerTags_def createProcessor_def
      sample_tokenizer_def sample_lemmatizer_def)

lemma sample_fulfillers: "findFulfillers lemma_keeper [''token''] None = Inr [promised sample_tokenizer]"
  unfolding findFulfillers_def lemma_names
  by (simp add: getProcessorFactory_def lemma_map isViciousCircle_def isSubsetOf_def
      sample_tokenizer_def sample_lemmatizer_def getDefaultPromise_def getDefaultOptions_def)

lemma sample_complete_from:
  "complete_from 2 lemma_keeper [''pl''] 0 [[promised sample_lemmatizer]] =
     Some (Inr [[promised sample_tokenizer, promised sample_lemmatizer]])"
  by (simp add: numeral_2_eq_2 isMultilingual_def missing_fulfillers_def promise_language_def
      sample_promises sample_fulfillers isSubsetOf_def)

lemma sample_complete:
  "complete 2 lemma_keeper [''pl''] [[promised sample_lemmatizer]] =
     Some (Inr (Some [promised sample_tokenizer, promised sample_lemmatizer]))"
  by (simp add: complete_def sample_complete_from chooseSolution_def bestSolution_def trySolution_simps
      sample_promises)

lemma completed_pipeline_witness:
  "complete 2 lemma_keeper [''pl''] [[promised sample_lemmatizer]] =
     Some (Inr (Some [promised sample_tokenizer, promised sample_lemmatizer])) \<and>
   fulfilled [promised sample_tokenizer, promised sample_lemmatizer] \<and>
   realises [''pl''] [[promised sample_lemmatizer]] [promised sample_tokenizer, promised sample_lemmatizer]"
  using completed_pipeline [OF sample_complete] sample_complete by blast

lemma completion_exception_witness:
  "case complete 2 lemma_keeper [''pl''] [[promised sample_lemmatizer]] of
      Some (Inr (Some ps)) \<Rightarrow> checkSolution ps = None | _ \<Rightarrow> False"
  using completion_exception [OF sample_complete_from] sample_complete by simp

text \<open>A keeper whose lemmatizer depends on the language, as the factories of the repository do.\<close>

definition lang_lemmatizer :: "unit factory" where
  "lang_lemmatizer = (plain_annotator ''lamer'' [[''token'']] [''lemma''] ())
     \<lparr>f_parse := (\<lambda>args. if args = [] then Some [''lang'' \<mapsto> ''guess'']
        else if length args = 2 \<and> args ! 0 = ''--lang'' then Some [''lang'' \<mapsto> args ! 1] else None),
      f_handling := checkLangOption, f_handled := language_dependent_handled [''en'', ''pl'']\<rparr>"

definition lang_keeper :: "unit keeper" where
  "lang_keeper = takeProcessorFactory (takeProcessorFactory empty_keeper sample_tokenizer) lang_lemmatizer"

lemma lang_dependent: "language_dependent lang_lemmatizer [''en'', ''pl'']"
  by (simp add: language_dependent_def lang_lemmatizer_def)

lemma lang_ran: "ran (nameToFactoryMap lang_keeper) = {sample_tokenizer, lang_lemmatizer}"
  by (simp add: lang_keeper_def empty_keeper_def sample_tokenizer_def lang_lemmatizer_def plain_annotator_def insert_commute)

definition lang_promise :: "unit promise" where
  "lang_promise = \<lparr>p_factory = lang_lemmatizer, p_options = [''lang'' \<mapsto> ''guess'']\<rparr>"

lemma lang_occurs: "occurs lang_keeper [[lang_promise]] p \<Longrightarrow> p_factory p \<in> {sample_tokenizer, lang_lemmatizer}"
proof (induction rule: occurs.induct)
  case (occurs_default f lang p)
  then show ?case using getDefaultPromise_factory lang_ran by blast
qed (auto simp: lang_promise_def dest: canHandleLanguage_factory)

lemma lang_layered: "layered (\<lambda>f. if f_name f = ''lamer'' then 1 else 0) lang_keeper [[lang_promise]]"
  unfolding layered_def
proof (intro conjI allI impI ballI)
  fix p g tags assume o: "occurs lang_keeper [[lang_promise]] p" and g: "g \<in> ran (nameToFactoryMap lang_keeper)"
    and t: "tags \<in> set (requiredLayerTags p)" "f_annotator g \<and> \<not> isViciousCircle g tags \<and> isSubsetOf tags (f_provided0 g)"
  from lang_occurs [OF o] t(1) have "p_factory p = lang_lemmatizer \<and> tags = [''token'']"
    by (auto simp: requiredLayerTags_def sample_tokenizer_def lang_lemmatizer_def plain_annotator_def split: if_splits)
  then show "(if f_name g = ''lamer'' then 1 else 0) < (if f_name (p_factory p) = ''lamer'' then 1 else (0 :: nat))"
    using g t(2) by (auto simp: lang_ran sample_tokenizer_def lang_lemmatizer_def plain_annotator_def isSubsetOf_def)
next
  fix f lang p assume f: "f \<in> ran (nameToFactoryMap lang_keeper)" and d: "getDefaultPromise f lang = Inr (Some p)"
  show "set (f_provided0 f) \<subseteq> set (f_provided f (p_options p))"
    using f by (auto simp: lang_ran sample_tokenizer_def lang_lemmatizer_def plain_annotator_def)
  show "f_handling f (p_options p) \<noteq> LANGUAGE_DEPENDENT"
    using f d language_dependent_default [OF lang_dependent]
    by (auto simp: lang_ran sample_tokenizer_def plain_annotator_def)
qed

lemma completion_ends_witness:
  "\<exists>fuel r. complete fuel lang_keeper [''pl''] [[lang_promise]] = Some r"
  by (rule completion_ends [OF lang_layered]) simp

end
