(* ===== verification/Pipe_Runner.thy ===== *)
theory Pipe_Runner
  imports Completion
begin

text \<open>The pipe runner (framework/pipe_runner.cpp): the arguments of the command line are split into
  the elements of a pipeline, each element becomes an alternative of promises, a reader, a writer
  and a language guesser are added where they are missing, the pipeline is completed
  and its processors are run on one lattice.  Splitting a string into arguments is left to the
  option library and is a parameter; so are the lattice and what the processors do to it.\<close>

section \<open>Pipeline specifications\<close>

record element_spec =
  processorName :: string
  processorArgs :: "string list"

definition PIPELINE_SEPARATOR :: string where
  "PIPELINE_SEPARATOR = ''!''"

definition add_arg :: "string \<Rightarrow> element_spec list \<Rightarrow> element_spec list" where
  "add_arg arg els =
     butlast els @ [(last els)\<lparr>processorArgs := processorArgs (last els) @ [arg]\<rparr>]"

definition set_name :: "string \<Rightarrow> element_spec list \<Rightarrow> element_spec list" where
  "set_name arg els = butlast els @ [(last els)\<lparr>processorName := arg\<rparr>]"

text \<open>The loop over the arguments: \<open>first\<close> holds at the starting index.\<close>

fun parse_elements :: "bool \<Rightarrow> bool \<Rightarrow> element_spec list \<Rightarrow> string list \<Rightarrow> element_spec list" where
  "parse_elements first nameExpected els [] = els"
| "parse_elements first nameExpected els (arg # args) =
     (let starts = first \<or> arg = PIPELINE_SEPARATOR;
          nameExpected = (starts \<or> nameExpected);
          els = (if starts then els @ [\<lparr>processorName = [], processorArgs = []\<rparr>] else els)
      in if arg = PIPELINE_SEPARATOR then parse_elements False nameExpected els args
         else if nameExpected then parse_elements False False (set_name arg els) args
         else parse_elements False nameExpected (add_arg arg els) args)"

definition no_pipeline_text :: string where
  "no_pipeline_text = ''no pipeline specified, try this: psi-pipe tokenize ! write-simple''"

definition parseIntoPipelineSpecification :: "string list \<Rightarrow> bool \<Rightarrow> pipe_error + element_spec list" where
  "parseIntoPipelineSpecification args isTheFirstArgProgramName =
     (let startingIndex = (if isTheFirstArgProgramName then 1 else 0)
      in if startingIndex \<ge> length args then Inl (Pipe_Exception no_pipeline_text)
         else Inr (parse_elements True True [] (drop startingIndex args)))"

section \<open>Promises of an element\<close>

text \<open>The options of an element.  When the arguments do not match and name a language, an annotator
  that handles just that language is tried without it.  With \<open>--lang\<close> as the last argument the code
  reads past the end of the list.\<close>

definition without_lang :: "string list \<Rightarrow> (string \<times> string list) option option" where
  "without_lang args =
     (let before = takeWhile (\<lambda>a. a \<noteq> ''--lang'') args; after = dropWhile (\<lambda>a. a \<noteq> ''--lang'') args
      in case after of
           [] \<Rightarrow> None
         | _ # [] \<Rightarrow> Some None
         | _ # langCode # rest \<Rightarrow> Some (Some (langCode, before @ rest)))"

definition tryOptions :: "'p factory \<Rightarrow> string list \<Rightarrow> pipe_error + options" where
  "tryOptions f args =
     (case f_parse f args of
        Some opts \<Rightarrow> Inr opts
      | None \<Rightarrow>
          if \<not> f_annotator f then Inl Options_Error
          else (case without_lang args of
             None \<Rightarrow> Inl Options_Error
           | Some None \<Rightarrow> Inl Undefined_Behaviour
           | Some (Some (langCode, rest)) \<Rightarrow>
               (case f_parse f rest of
                  None \<Rightarrow> Inl Options_Error
                | Some opts \<Rightarrow>
                    if f_handling f opts = JUST_ONE_LANGUAGE
                    then (case f_handled f opts of
                            [] \<Rightarrow> Inl Undefined_Behaviour
                          | lang # _ \<Rightarrow> if lang = langCode then Inr opts else Inl Options_Error)
                    else Inl Options_Error)))"

definition createPromise :: "'p factory \<Rightarrow> options \<Rightarrow> 'p promise" where
  "createPromise f opts = \<lparr>p_factory = f, p_options = opts\<rparr>"

text \<open>The factories whose options do not match are skipped, unless there is only one.\<close>

fun promises_of :: "bool \<Rightarrow> string list \<Rightarrow> 'p factory list \<Rightarrow> pipe_error + 'p promise list" where
  "promises_of single args [] = Inr []"
| "promises_of single args (f # fs) =
     (case tryOptions f args of
        Inr opts \<Rightarrow> sbind (promises_of single args fs) (\<lambda>ps. Inr (createPromise f opts # ps))
      | Inl e \<Rightarrow> if e = Options_Error \<and> \<not> single then promises_of single args fs else Inl e)"

definition pipelineElement2Promises :: "'p keeper \<Rightarrow> element_spec \<Rightarrow> pipe_error + 'p promise list" where
  "pipelineElement2Promises k el =
     sbind (getProcessorFactoriesForName k (processorName el)) (\<lambda>factories.
     sbind (promises_of (length factories = 1) (processorArgs el) factories) (\<lambda>promises.
       if promises = [] then Inl (Pipe_Exception ''none of the alias alternatives matched the options'')
       else Inr promises))"

definition pipelineElement2Node :: "'p keeper \<Rightarrow> element_spec \<Rightarrow> pipe_error + 'p promise" where
  "pipelineElement2Node k el =
     sbind (pipelineElement2Promises k el) (\<lambda>promises.
       case promises of
         [] \<Rightarrow> Inl (Pipe_Exception (''no processor found for `'' @ processorName el @ ''`''))
       | [p] \<Rightarrow> Inr p
       | _ \<Rightarrow> Inl (Pipe_Exception (''too many processors found for `'' @ processorName el
                @ ''`, processor resolution not implemented yet'')))"

definition specification2Alternatives :: "'p keeper \<Rightarrow> element_spec list \<Rightarrow> pipe_error + 'p alternatives" where
  "specification2Alternatives k els = mapE (pipelineElement2Promises k) els"

section \<open>What is added to a pipeline\<close>

text \<open>The parsing of a pipeline that the runner itself supplies as a string.\<close>

definition own_pipeline :: "(string \<Rightarrow> string list) \<Rightarrow> 'p keeper \<Rightarrow> string \<Rightarrow> pipe_error + 'p alternatives" where
  "own_pipeline splitPipeline k pipeline =
     sbind (parseIntoPipelineSpecification (splitPipeline pipeline) False) (specification2Alternatives k)"

definition prepend :: "(string \<Rightarrow> string list) \<Rightarrow> 'p keeper \<Rightarrow> string \<Rightarrow> 'p alternatives \<Rightarrow> pipe_error + 'p alternatives" where
  "prepend splitPipeline k pipeline sq =
     sbind (own_pipeline splitPipeline k pipeline) (\<lambda>new. Inr (new @ sq))"

definition append_pipeline :: "(string \<Rightarrow> string list) \<Rightarrow> 'p keeper \<Rightarrow> string \<Rightarrow> 'p alternatives \<Rightarrow> pipe_error + 'p alternatives" where
  "append_pipeline splitPipeline k pipeline sq =
     sbind (own_pipeline splitPipeline k pipeline) (\<lambda>new. Inr (sq @ new))"

definition insertAfterReader :: "(string \<Rightarrow> string list) \<Rightarrow> 'p keeper \<Rightarrow> string \<Rightarrow> 'p alternatives \<Rightarrow> pipe_error + 'p alternatives" where
  "insertAfterReader splitPipeline k pipeline sq =
     sbind (own_pipeline splitPipeline k pipeline) (\<lambda>new. Inr (take 1 sq @ new @ drop 1 sq))"

definition checkReader :: "(string \<Rightarrow> string list) \<Rightarrow> 'p keeper \<Rightarrow> 'p alternatives \<Rightarrow> pipe_error + 'p alternatives" where
  "checkReader splitPipeline k sq =
     (if list_ex isReader (hd sq) then Inr sq
      else prepend splitPipeline k ''txt-reader --line-by-line'' sq)"

definition checkWriter :: "(string \<Rightarrow> string list) \<Rightarrow> 'p keeper \<Rightarrow> 'p alternatives \<Rightarrow> pipe_error + 'p alternatives" where
  "checkWriter splitPipeline k sq =
     (let continuation = foldl (\<lambda>c p. getContinuation p) [] (last sq)
      in if continuation \<noteq> [] then append_pipeline splitPipeline k continuation sq else Inr sq)"

text \<open>The languages the pipeline names: those of promises with just one language, or else all.\<close>

fun just_one_langs :: "'p promise list \<Rightarrow> pipe_error + string list" where
  "just_one_langs [] = Inr []"
| "just_one_langs (p # ps) =
     (if languagesHandling p = JUST_ONE_LANGUAGE
      then (case languagesHandled p of
              [] \<Rightarrow> Inl Undefined_Behaviour
            | lang # _ \<Rightarrow> sbind (just_one_langs ps) (\<lambda>langs. Inr (lang # langs)))
      else just_one_langs ps)"

definition getLangCodes :: "'p alternatives \<Rightarrow> pipe_error + string list" where
  "getLangCodes sq =
     sbind (just_one_langs (concat sq)) (\<lambda>justOneLangCodes.
       let langCodes = concat (map languagesHandled (concat sq));
           langCodes = (if justOneLangCodes \<noteq> [] then justOneLangCodes else langCodes)
       in Inr (remdups_adj (sort langCodes)))"

definition isLangGuesserAlreadyThere :: "'p alternatives \<Rightarrow> bool" where
  "isLangGuesserAlreadyThere sq = list_ex (list_ex (\<lambda>p. languagesHandling p = LANGUAGE_GUESSER)) sq"

definition forceLanguage :: "(string \<Rightarrow> string list) \<Rightarrow> 'p keeper \<Rightarrow> string \<Rightarrow> 'p alternatives \<Rightarrow> pipe_error + 'p alternatives" where
  "forceLanguage splitPipeline k langCode sq =
     insertAfterReader splitPipeline k (''lang-guesser --force --only-langs '' @ langCode) sq"

definition addLangGuesser :: "(string \<Rightarrow> string list) \<Rightarrow> 'p keeper \<Rightarrow> 'p alternatives \<Rightarrow> pipe_error + 'p alternatives" where
  "addLangGuesser splitPipeline k sq = insertAfterReader splitPipeline k ''lang-guesser'' sq"

definition checkLangGuesser :: "(string \<Rightarrow> string list) \<Rightarrow> 'p keeper \<Rightarrow> string list \<Rightarrow> 'p alternatives \<Rightarrow> pipe_error + 'p alternatives" where
  "checkLangGuesser splitPipeline k langCodes sq =
     (if \<not> isLangGuesserAlreadyThere sq
      then if length langCodes = 1 then forceLanguage splitPipeline k (hd langCodes) sq
           else if length langCodes > 1 then addLangGuesser splitPipeline k sq
           else Inr sq
      else Inr sq)"

text \<open>From the arguments to the final pipeline, after the aliases and the options of the runner
  itself have been taken out of them.\<close>

definition unresolved_text :: string where
  "unresolved_text = ''pipe-line cannot be resolved - try to specify the language of one of the processors with `--lang` option.''"

definition prepare_pipeline ::
  "(string \<Rightarrow> string list) \<Rightarrow> 'p keeper \<Rightarrow> string list \<Rightarrow> bool \<Rightarrow> pipe_error + string list \<times> 'p alternatives"
where
  "prepare_pipeline splitPipeline k args isTheFirstArgProgramName =
     sbind (parseIntoPipelineSpecification args isTheFirstArgProgramName) (\<lambda>els.
     sbind (specification2Alternatives k els) (\<lambda>sq.
     sbind (checkReader splitPipeline k sq) (\<lambda>sq.
     sbind (checkWriter splitPipeline k sq) (\<lambda>sq.
     sbind (getLangCodes sq) (\<lambda>langCodes.
     sbind (checkLangGuesser splitPipeline k langCodes sq) (\<lambda>sq. Inr (langCodes, sq)))))))"

definition parseIntoFinalPipeline ::
  "nat \<Rightarrow> (string \<Rightarrow> string list) \<Rightarrow> 'p keeper \<Rightarrow> string list \<Rightarrow> bool \<Rightarrow> (pipe_error + 'p promise list) option"
where
  "parseIntoFinalPipeline fuel splitPipeline k args isTheFirstArgProgramName =
     (case prepare_pipeline splitPipeline k args isTheFirstArgProgramName of
        Inl e \<Rightarrow> Some (Inl e)
      | Inr (langCodes, sq) \<Rightarrow>
          map_option (\<lambda>r. sbind r (\<lambda>found.
            case found of None \<Rightarrow> Inl (Pipe_Exception unresolved_text) | Some ps \<Rightarrow> Inr ps))
            (complete fuel k langCodes sq))"

section \<open>Running a pipeline\<close>

text \<open>A processor, as the casts of the runner tell them apart, on a lattice and an output.\<close>

datatype ('i, 'l, 'o) processor =
    Reader "'i \<Rightarrow> (pipe_error, 'l, unit) prog"
  | Annotator "(pipe_error, 'l, unit) prog"
  | Writer "'l \<Rightarrow> (pipe_error, 'o, unit) prog"

definition run_on_lattice :: "(pipe_error, 'l, unit) prog \<Rightarrow> (pipe_error, 'l \<times> 'o, unit) prog" where
  "run_on_lattice m = (\<lambda>(lattice, out). case m lattice of (r, lattice') \<Rightarrow> (r, (lattice', out)))"

definition run_on_output :: "('l \<Rightarrow> (pipe_error, 'o, unit) prog) \<Rightarrow> (pipe_error, 'l \<times> 'o, unit) prog" where
  "run_on_output m = (\<lambda>(lattice, out). case m lattice out of (r, out') \<Rightarrow> (r, (lattice, out')))"

text \<open>The position of a node is its index; a node whose requirements are not met is only reported.\<close>

definition runPipelineNode ::
  "('i \<Rightarrow> 'i) \<Rightarrow> 'i \<Rightarrow> nat \<Rightarrow> nat \<Rightarrow> ('i, 'l, 'o) processor promise \<Rightarrow> (pipe_error, 'l \<times> 'o, unit) prog"
where
  "runPipelineNode convert input n i p =
     (if \<not> checkRequirements p then ret ()
      else (case createProcessor p of
         Inl what \<Rightarrow> throw (Psi_Exception what)
       | Inr processor \<Rightarrow>
           if i = 0
           then (case processor of
                   Reader readIntoLattice \<Rightarrow> run_on_lattice (readIntoLattice (convert input))
                 | _ \<Rightarrow> throw (Pipe_Exception ''first element of the pipeline should be a reader''))
           else if i = n - 1
           then (case processor of
                   Writer writeLattice \<Rightarrow> run_on_output writeLattice
                 | _ \<Rightarrow> throw (Pipe_Exception ''last element of the pipeline should be a writer''))
           else (case processor of
                   Annotator annotate \<Rightarrow> run_on_lattice annotate
                 | _ \<Rightarrow> throw (Pipe_Exception ''unexpected reader or writer in the middle of the pipeline''))))"

fun run_nodes ::
  "('i \<Rightarrow> 'i) \<Rightarrow> 'i \<Rightarrow> nat \<Rightarrow> nat \<Rightarrow> ('i, 'l, 'o) processor promise list \<Rightarrow> (pipe_error, 'l \<times> 'o, unit) prog"
where
  "run_nodes convert input n i [] = ret ()"
| "run_nodes convert input n i (p # ps) =
     thenE (runPipelineNode convert input n i p) (run_nodes convert input n (i + 1) ps)"

text \<open>One run, on a new lattice; the return code is always 0.\<close>

definition run_once ::
  "('i \<Rightarrow> 'i) \<Rightarrow> 'l \<Rightarrow> ('i, 'l, 'o) processor promise list \<Rightarrow> 'i \<Rightarrow> (pipe_error, 'o, int) prog"
where
  "run_once convert newLattice ps input =
     (\<lambda>out. case run_nodes convert input (length ps) 0 ps (newLattice, out) of
        (Inl e, (_, out')) \<Rightarrow> (Inl e, out')
      | (Inr _, (_, out')) \<Rightarrow> (Inr 0, out'))"

text \<open>The lines that \<open>std::getline\<close> delivers.\<close>

function getlines :: "string \<Rightarrow> string list" where
  "getlines s =
     (if s = [] then []
      else takeWhile (\<lambda>c. c \<noteq> CHR 0x0A) s # getlines (drop 1 (dropWhile (\<lambda>c. c \<noteq> CHR 0x0A) s)))"
  by pat_completeness auto
termination
proof (relation "measure length", simp)
  fix s :: string
  assume "s \<noteq> []"
  then have "length (drop 1 (dropWhile (\<lambda>c. c \<noteq> CHR 0x0A) s)) < length s"
    using length_dropWhile_le [of "\<lambda>c. c \<noteq> CHR 0x0A" s] by (cases s) auto
  then show "(drop 1 (dropWhile (\<lambda>c. c \<noteq> CHR 0x0A) s), s) \<in> measure length" by simp
qed

declare getlines.simps [simp del]

fun run_lines ::
  "(string \<Rightarrow> string) \<Rightarrow> 'l \<Rightarrow> (string, 'l, 'o) processor promise list \<Rightarrow> string list \<Rightarrow> (pipe_error, 'o, int) prog"
where
  "run_lines convert newLattice ps [] = ret 0"
| "run_lines convert newLattice ps (inputString # rest) =
     bindE (run_once convert newLattice ps inputString) (\<lambda>returnCode.
       if returnCode = 0 then run_lines convert newLattice ps rest else ret returnCode)"

record ('l, 'o) runner =
  justInformation :: bool
  lineByLine :: bool
  finalPipeline :: "(string, 'l, 'o) processor promise list"

definition run_pipeline ::
  "(string \<Rightarrow> string) \<Rightarrow> 'l \<Rightarrow> ('l, 'o) runner \<Rightarrow> string \<Rightarrow> (pipe_error, 'o, int) prog"
where
  "run_pipeline convert newLattice runner input =
     (if justInformation runner then ret 0
      else if lineByLine runner then run_lines convert newLattice (finalPipeline runner) (getlines input)
      else run_once convert newLattice (finalPipeline runner) input)"

definition runLine ::
  "(string \<Rightarrow> string) \<Rightarrow> 'l \<Rightarrow> ('l, 'o) runner \<Rightarrow> string \<Rightarrow> (pipe_error, 'o, int) prog"
where
  "runLine convert newLattice runner inputString =
     (if justInformation runner then ret 0
      else run_once convert newLattice (finalPipeline runner) inputString)"

section \<open>Parsing and printing a pipeline\<close>

fun unparse :: "element_spec list \<Rightarrow> string list" where
  "unparse [] = []"
| "unparse [el] = processorName el # processorArgs el"
| "unparse (el # els) = processorName el # processorArgs el @ PIPELINE_SEPARATOR # unparse els"

definition plain_element :: "element_spec \<Rightarrow> bool" where
  "plain_element el \<longleftrightarrow> processorName el \<noteq> PIPELINE_SEPARATOR \<and> PIPELINE_SEPARATOR \<notin> set (processorArgs el)"

lemma parse_args:
  "PIPELINE_SEPARATOR \<notin> set as \<Longrightarrow>
   parse_elements False False (els @ [el]) (as @ rest) =
     parse_elements False False (els @ [el\<lparr>processorArgs := processorArgs el @ as\<rparr>]) rest"
  by (induction as arbitrary: el) (auto simp: Let_def add_arg_def)

lemma parse_element:
  "plain_element el \<Longrightarrow>
   parse_elements True nameExpected els (processorName el # processorArgs el @ rest) =
     parse_elements False False (els @ [el]) rest"
  "plain_element el \<Longrightarrow>
   parse_elements False nameExpected els (PIPELINE_SEPARATOR # processorName el # processorArgs el @ rest) =
     parse_elements False False (els @ [el]) rest"
  by (cases el, simp add: Let_def set_name_def plain_element_def parse_args)+

lemma parse_unparse:
  "els \<noteq> [] \<Longrightarrow> list_all plain_element els \<Longrightarrow> parse_elements True True acc (unparse els) = acc @ els \<and>
   parse_elements False False acc (PIPELINE_SEPARATOR # unparse els) = acc @ els"
proof (induction els arbitrary: acc rule: unparse.induct)
  case (2 el)
  then show ?case using parse_element [of el _ acc "[]"] by simp
next
  case (3 el el' els)
  have "parse_elements True True acc (unparse (el # el' # els)) =
      parse_elements False False (acc @ [el]) (PIPELINE_SEPARATOR # unparse (el' # els))"
    using 3(3) parse_element(1) [of el True acc "PIPELINE_SEPARATOR # unparse (el' # els)"] by simp
  moreover have "parse_elements False False acc (PIPELINE_SEPARATOR # unparse (el # el' # els)) =
      parse_elements False False (acc @ [el]) (PIPELINE_SEPARATOR # unparse (el' # els))"
    using 3(3) parse_element(2) [of el False acc "PIPELINE_SEPARATOR # unparse (el' # els)"] by simp
  ultimately show ?case using 3(1) [of "acc @ [el]"] 3(3) by simp
qed simp

text \<open>C28: A pipeline written as arguments with a separator between its elements is read back as it was,
  element by element with names and arguments, after the name of the program as well as without it.\<close>
theorem pipeline_roundtrip:
  assumes "els \<noteq> []" and "list_all plain_element els"
  shows "parseIntoPipelineSpecification (unparse els) False = Inr els
    \<and> parseIntoPipelineSpecification (program # unparse els) True = Inr els"
proof -
  have "unparse els \<noteq> []" using assms(1) by (cases els rule: unparse.cases) auto
  then show ?thesis
    using parse_unparse [OF assms, of "[]"]
    by (auto simp: parseIntoPipelineSpecification_def Let_def Suc_le_eq)
qed

lemma pipeline_roundtrip_witness:
  "let els = [\<lparr>processorName = ''tokenize'', processorArgs = [''--lang'', ''pl'']\<rparr>,
              \<lparr>processorName = ''write'', processorArgs = []\<rparr>]
   in unparse els = [''tokenize'', ''--lang'', ''pl'', ''!'', ''write'']
    \<and> parseIntoPipelineSpecification (unparse els) False = Inr els"
  using pipeline_roundtrip [of "[\<lparr>processorName = ''tokenize'', processorArgs = [''--lang'', ''pl'']\<rparr>,
              \<lparr>processorName = ''write'', processorArgs = []\<rparr>]"]
  by (simp add: plain_element_def PIPELINE_SEPARATOR_def)

section \<open>The shape of a pipeline\<close>

text \<open>A reader, annotators, a writer: the shape the runner asks for, for a pipeline of alternatives
  and for a completed one.\<close>

definition reader_promise :: "'p keeper \<Rightarrow> 'p promise \<Rightarrow> bool" where
  "reader_promise k p \<longleftrightarrow> p_factory p \<in> ran (nameToFactoryMap k) \<and> \<not> isAnnotator p \<and> isReader p"

definition annotator_promise :: "'p keeper \<Rightarrow> 'p promise \<Rightarrow> bool" where
  "annotator_promise k p \<longleftrightarrow> p_factory p \<in> ran (nameToFactoryMap k) \<and> isAnnotator p"

definition writer_promise :: "'p keeper \<Rightarrow> 'p promise \<Rightarrow> bool" where
  "writer_promise k p \<longleftrightarrow> p_factory p \<in> ran (nameToFactoryMap k) \<and> \<not> isAnnotator p \<and> isWriter p"

definition well_shaped :: "'p keeper \<Rightarrow> 'p alternatives \<Rightarrow> bool" where
  "well_shaped k sq \<longleftrightarrow> length sq \<ge> 2 \<and> (\<forall>p \<in> set (hd sq). reader_promise k p) \<and>
     (\<forall>p \<in> set (last sq). writer_promise k p) \<and>
     (\<forall>alt \<in> set (tl (butlast sq)). \<forall>p \<in> set alt. annotator_promise k p)"

lemma well_shaped_middle:
  assumes "pre \<noteq> []" "post \<noteq> []"
  shows "well_shaped k (pre @ mid @ post) \<longleftrightarrow>
    well_shaped k (pre @ post) \<and> (\<forall>alt \<in> set mid. \<forall>p \<in> set alt. annotator_promise k p)"
proof -
  have "length pre + length post \<ge> 2" using assms by (cases pre; cases post) auto
  then show ?thesis
    using assms by (auto simp: well_shaped_def butlast_append)
qed

lemma plain_promise:
  assumes "\<And>p. p \<in> set alt \<Longrightarrow> \<not> isAnnotator p"
  shows "isMultilingual alt = Inr False"
proof -
  have "multilingual_from one alt = Inr False" for one
    using assms by (induction alt arbitrary: one) (auto simp: isAnnotator_def languagesHandling_def)
  then show ?thesis by (simp add: isMultilingual_def)
qed

lemma plain_promise_complete: "\<not> isAnnotator p \<Longrightarrow> missing_fulfillers k pre p = Inr None"
  by (simp add: missing_fulfillers_def requiredLayerTags_def isAnnotator_def)

lemma fulfillers_are_annotators:
  "fulfillers_among k tags lang names = Inr qs \<Longrightarrow> q \<in> set qs \<Longrightarrow> annotator_promise k q"
proof (induction names arbitrary: qs)
  case (Cons n names)
  obtain f where f: "getProcessorFactory k n = Inr f" using Cons.prems(1) by (auto simp: sbind_Inr)
  have d: "p_factory q = f" if q: "getDefaultPromise f lang = Inr (Some q)"
  proof -
    obtain defaults where "getDefaultOptions f = Inr defaults"
      using q by (auto simp: getDefaultPromise_def sbind_Inr)
    then show ?thesis
      using q by (cases "f_handling f defaults")
        (auto simp: getDefaultPromise_def sbind_Inr split: option.splits list.splits if_splits)
  qed
  show ?case
  proof (cases "f_annotator f \<and> \<not> isViciousCircle f tags \<and> isSubsetOf tags (f_provided0 f)")
    case True
    then obtain d' ps where p: "getDefaultPromise f lang = Inr d'" "fulfillers_among k tags lang names = Inr ps"
      "qs = (case d' of None \<Rightarrow> ps | Some p \<Rightarrow> p # ps)"
      using Cons.prems(1) f by (auto simp: sbind_Inr)
    then consider "q \<in> set ps" | "d' = Some q" using Cons.prems(2) by (auto split: option.splits)
    then show ?thesis
    proof cases
      case 2
      then show ?thesis
        using d p(1) True getProcessorFactory_ran [OF f] by (simp add: annotator_promise_def isAnnotator_def)
    qed (use Cons.IH p(2) in blast)
  next
    case False
    then have "fulfillers_among k tags lang names = Inr qs" using Cons.prems(1) f by auto
    then show ?thesis using Cons.IH Cons.prems(2) by blast
  qed
qed simp

lemma missing_are_annotators:
  "missing_fulfillers k pre p = Inr (Some qs) \<Longrightarrow> q \<in> set qs \<Longrightarrow> annotator_promise k q"
  unfolding missing_fulfillers_def findFulfillers_def
  by (auto simp: sbind_Inr intro: fulfillers_are_annotators split: option.splits)

lemma language_annotators:
  "langAlternatives alt langs = Inr (Some las) \<Longrightarrow> la \<in> set las \<Longrightarrow> q \<in> set la \<Longrightarrow>
   (\<And>p. p \<in> set alt \<Longrightarrow> annotator_promise k p) \<Longrightarrow> annotator_promise k q"
  using langAlternatives_set filtreByLanguage_set canHandleLanguage_factory
  by (metis annotator_promise_def isAnnotator_def)

lemma scan_shape:
  "well_shaped k (pre @ rest) \<Longrightarrow>
   (case scan k langs restart pre rest of
      Restart sq' r' \<Rightarrow> well_shaped k sq'
    | Branch sqs \<Rightarrow> \<forall>sq' \<in> set sqs. well_shaped k sq'
    | _ \<Rightarrow> True)"
proof (induction rest arbitrary: pre)
  case Nil
  then show ?case by simp
next
  case (Cons alt post)
  note IH = Cons.IH [of "pre @ [alt]", unfolded append_assoc append_Cons append_Nil, OF Cons.prems]
  show ?case
  proof (cases "pre = [] \<or> post = []")
    case True
    have plain: "\<not> isAnnotator p" if "p \<in> set alt" for p
      using True Cons.prems that
      by (auto simp: well_shaped_def reader_promise_def writer_promise_def)
    have branch: "well_shaped k (pre @ [p] # post)" if "p \<in> set alt" for p
      using True Cons.prems that by (cases post; cases pre) (auto simp: well_shaped_def)
    have multi: "isMultilingual alt = Inr False" using plain by (rule plain_promise)
    have miss: "missing_fulfillers k pre p = Inr None" if "p \<in> set alt" for p
      using plain [OF that] by (rule plain_promise_complete)
    show ?thesis
    proof (cases "length alt > 1")
      case True
      then show ?thesis using multi branch by auto
    next
      case False
      then show ?thesis using multi miss IH by (cases alt) auto
    qed
  next
    case False
    then have mid: "well_shaped k (pre @ mid @ post) \<longleftrightarrow>
        well_shaped k (pre @ post) \<and> (\<forall>alt \<in> set mid. \<forall>p \<in> set alt. annotator_promise k p)" for mid
      by (simp add: well_shaped_middle)
    have ok: "well_shaped k (pre @ post)" "\<And>p. p \<in> set alt \<Longrightarrow> annotator_promise k p"
      using mid [of "[alt]"] Cons.prems by auto
    have "well_shaped k (pre @ las @ post)" if "langAlternatives alt langs = Inr (Some las)" for las
      unfolding mid using ok language_annotators [OF that] by blast
    moreover have "well_shaped k (pre @ [p] # post)" if "p \<in> set alt" for p
      using mid [of "[[p]]"] ok that by simp
    moreover have "well_shaped k (pre @ qs # alt # post)"
      if "missing_fulfillers k pre p = Inr (Some qs)" for p qs
      using mid [of "[qs, alt]"] ok missing_are_annotators [OF that] by simp
    ultimately show ?thesis
      using IH ok(1) by (auto split: sum.splits option.splits list.splits bool.splits)
  qed
qed

lemma complete_from_shape:
  "complete_from fuel k langs restart sq = Some (Inr sols) \<Longrightarrow> s \<in> set sols \<Longrightarrow> well_shaped k sq \<Longrightarrow>
   well_shaped k (singles s)"
proof (induction fuel arbitrary: restart sq sols)
  case 0
  then show ?case by simp
next
  case (Suc fuel)
  note turn = scan_shape [where k = k and langs = langs and restart = restart and pre = "take restart sq"
      and rest = "drop restart sq", unfolded append_take_drop_id, OF Suc.prems(3)]
  show ?case
  proof (cases "scan k langs restart (take restart sq) (drop restart sq)")
    case Finished
    have "toPromiseSequence sq = Inr ps \<Longrightarrow> sq = singles ps" for ps
      by (induction sq arbitrary: ps) (auto simp: sbind_Inr split: list.splits)
    then show ?thesis
      using Suc.prems Finished by (auto simp: sbind_Inr)
  next
    case (Restart sq' r')
    then show ?thesis using Suc turn by auto
  next
    case (Branch sqs)
    then have "collect (map (complete_from fuel k langs 0) sqs) = Some (Inr sols)"
      using Suc.prems(1) by simp
    from collect_Inr [OF this Suc.prems(2)]
    obtain ys sq' where "complete_from fuel k langs 0 sq' = Some (Inr ys)" "s \<in> set ys" "sq' \<in> set sqs"
      by (metis imageE list.set_map)
    then show ?thesis using Suc.IH turn Branch by auto
  qed (use Suc.prems in auto)
qed

lemma well_shaped_singles:
  assumes "well_shaped k (singles ps)"
  shows "\<exists>r as w. ps = r # as @ [w] \<and> reader_promise k r \<and> writer_promise k w \<and> (\<forall>a \<in> set as. annotator_promise k a)"
proof -
  have "2 \<le> length ps" using assms by (simp add: well_shaped_def)
  then obtain r qs where ps: "ps = r # qs" "qs \<noteq> []"
    by (cases ps; cases "tl ps") auto
  then obtain as w where "qs = as @ [w]" by (cases qs rule: rev_cases) auto
  then show ?thesis
    using assms ps by (auto simp: well_shaped_def butlast_append)
qed

section \<open>A run composes the processors\<close>

text \<open>Factories make the kind of processor that the casts of the runner expect of them.\<close>

definition makes_its_kind :: "('i, 'l, 'o) processor factory \<Rightarrow> bool" where
  "makes_its_kind f \<longleftrightarrow>
     (\<forall>opts x. f_create f opts = Inr x \<longrightarrow>
        (if f_annotator f then \<exists>a. x = Annotator a
         else (f_reader f \<longrightarrow> (\<exists>r. x = Reader r)) \<and> (f_writer f \<longrightarrow> (\<exists>w. x = Writer w))))"

definition composed_run ::
  "('i \<Rightarrow> (pipe_error, 'l, unit) prog) \<Rightarrow> (pipe_error, 'l, unit) prog list \<Rightarrow>
   ('l \<Rightarrow> (pipe_error, 'o, unit) prog) \<Rightarrow> 'i \<Rightarrow> (pipe_error, 'l \<times> 'o, unit) prog"
where
  "composed_run readIntoLattice annotates writeLattice input =
     thenE (run_on_lattice (readIntoLattice input))
       (foldr (\<lambda>annotate rest. thenE (run_on_lattice annotate) rest) annotates (run_on_output writeLattice))"

lemma thenE_ret: "thenE m (ret ()) = (m :: (pipe_error, 's, unit) prog)"
  by (auto simp: thenE_def bindE_def ret_def fun_eq_iff split: prod.splits sum.splits)

lemma run_middle:
  assumes "list_all2 (\<lambda>p a. createProcessor p = Inr (Annotator a)) ps annotates"
    "\<forall>p \<in> set ps. checkRequirements p" "i > 0" "i + length ps + 1 = n"
    "createProcessor w = Inr (Writer writeLattice)" "checkRequirements w"
  shows "run_nodes convert input n i (ps @ [w]) =
     foldr (\<lambda>annotate rest. thenE (run_on_lattice annotate) rest) annotates (run_on_output writeLattice)"
  using assms
proof (induction ps annotates arbitrary: i rule: list_all2_induct)
  case Nil
  then have "i = n - 1" by simp
  then show ?case using Nil by (simp add: runPipelineNode_def thenE_ret)
next
  case (Cons p ps a annotates)
  then have "i \<noteq> n - 1" by simp
  then show ?case using Cons by (simp add: runPipelineNode_def)
qed

lemma checkSolution_None: "checkSolution ps = None \<Longrightarrow> p \<in> set ps \<Longrightarrow> \<exists>x. createProcessor p = Inr x"
  by (induction ps) (auto split: sum.splits)

lemma makes_its_kind_cases:
  assumes "makes_its_kind (p_factory p)" "createProcessor p = Inr x"
  shows "isAnnotator p \<Longrightarrow> \<exists>a. x = Annotator a"
    "\<not> isAnnotator p \<Longrightarrow> isReader p \<Longrightarrow> \<exists>r. x = Reader r"
    "\<not> isAnnotator p \<Longrightarrow> isWriter p \<Longrightarrow> \<exists>w. x = Writer w"
  using assms
  by (metis (no_types) makes_its_kind_def createProcessor_def isAnnotator_def isReader_def isWriter_def)+

text \<open>C15: A pipeline that starts with a reader, ends with a writer and has annotators in between keeps
  this shape when it is completed, and when the requirements of its processors are met a run is the
  composition of what they do: the reader fills the lattice, the annotators work on it in the order
  of the pipeline and the writer writes it; none of the errors about misplaced processors can
  occur.\<close>
theorem completed_pipeline_runs:
  assumes "complete fuel k langCodes sq = Some (Inr (Some ps))" and "well_shaped k sq"
    and "\<forall>f \<in> ran (nameToFactoryMap k). makes_its_kind f" and "\<forall>p \<in> set ps. checkRequirements p"
  shows "\<exists>r as w readIntoLattice annotates writeLattice. ps = r # as @ [w]
    \<and> createProcessor r = Inr (Reader readIntoLattice)
    \<and> list_all2 (\<lambda>a annotate. createProcessor a = Inr (Annotator annotate)) as annotates
    \<and> createProcessor w = Inr (Writer writeLattice)
    \<and> run_nodes convert input (length ps) 0 ps =
        composed_run readIntoLattice annotates writeLattice (convert input)"
proof -
  obtain sols where sols: "complete_from fuel k langCodes 0 sq = Some (Inr sols)"
    "chooseSolution sols = Inr (Some ps)"
    using assms(1) by (auto simp: complete_def sbind_Inr)
  then have s: "ps \<in> set sols" "checkSolution ps = None"
    using chooseSolution_from_spec [of sols "length sols" None] by (auto simp: chooseSolution_def)
  obtain r as w where ps: "ps = r # as @ [w]" "reader_promise k r" "writer_promise k w"
    "\<forall>a \<in> set as. annotator_promise k a"
    using well_shaped_singles [OF complete_from_shape [OF sols(1) s(1) assms(2)]] by blast
  have created: "\<exists>x. createProcessor p = Inr x" if "p \<in> set ps" for p
    using checkSolution_None [OF s(2) that] .
  obtain rd where rd: "createProcessor r = Inr (Reader rd)"
    using created [of r] assms(3) ps(1,2) makes_its_kind_cases(2) [of r] by (auto simp: reader_promise_def)
  obtain wr where wr: "createProcessor w = Inr (Writer wr)"
    using created [of w] assms(3) ps(1,3) makes_its_kind_cases(3) [of w] by (auto simp: writer_promise_def)
  have "\<exists>a. createProcessor p = Inr (Annotator a)" if "p \<in> set as" for p
    using created [of p] assms(3) ps(1,4) that makes_its_kind_cases(1) [of p]
    by (auto simp: annotator_promise_def)
  then obtain f where "\<And>p. p \<in> set as \<Longrightarrow> createProcessor p = Inr (Annotator (f p))" by metis
  then have an: "list_all2 (\<lambda>a annotate. createProcessor a = Inr (Annotator annotate)) as (map f as)"
    by (simp add: list_all2_map2 list_all2_same)
  have "run_nodes convert input (length ps) 1 (as @ [w]) =
      foldr (\<lambda>annotate rest. thenE (run_on_lattice annotate) rest) (map f as) (run_on_output wr)"
    using an assms(4) wr ps(1) by (intro run_middle) auto
  then have "run_nodes convert input (length ps) 0 ps = composed_run rd (map f as) wr (convert input)"
    using rd assms(4) ps(1) by (simp add: runPipelineNode_def composed_run_def)
  then show ?thesis using ps(1) rd an wr by blast
qed

text \<open>A pipeline of three processors on a lattice that is a text.\<close>

type_synonym text_processor = "(string, string, string) processor"

definition sample_reader :: "text_processor factory" where
  "sample_reader = (plain_annotator ''txt-reader'' [] [] (Reader (\<lambda>input. modify (\<lambda>_. input))))
     \<lparr>f_annotator := False, f_reader := True\<rparr>"

definition sample_marker :: "text_processor factory" where
  "sample_marker = plain_annotator ''tp'' [] [''token''] (Annotator (modify (\<lambda>l. l @ ''.'')))"

definition sample_writer :: "text_processor factory" where
  "sample_writer = (plain_annotator ''simple-writer'' [] [] (Writer (\<lambda>l. modify (\<lambda>out. out @ l))))
     \<lparr>f_annotator := False, f_writer := True\<rparr>"

definition sample_run_keeper :: "text_processor keeper" where
  "sample_run_keeper = foldl takeProcessorFactory empty_keeper [sample_reader, sample_marker, sample_writer]"

lemma sample_run_ran:
  "ran (nameToFactoryMap sample_run_keeper) = {sample_reader, sample_marker, sample_writer}"
proof -
  have "nameToFactoryMap sample_run_keeper =
      [''txt-reader'' \<mapsto> sample_reader, ''tp'' \<mapsto> sample_marker, ''simple-writer'' \<mapsto> sample_writer]"
    by (simp add: sample_run_keeper_def empty_keeper_def sample_reader_def sample_marker_def sample_writer_def)
  then show ?thesis by (simp add: insert_commute)
qed

lemma sample_run_promises:
  "languagesHandling (promised sample_reader) = LANGUAGE_INDEPENDENT"
  "languagesHandling (promised sample_marker) = LANGUAGE_INDEPENDENT"
  "languagesHandling (promised sample_writer) = LANGUAGE_INDEPENDENT"
  "requiredLayerTags (promised sample_reader) = []" "requiredLayerTags (promised sample_marker) = []"
  "requiredLayerTags (promised sample_writer) = []"
  "checkRequirements (promised sample_reader)" "checkRequirements (promised sample_marker)"
  "checkRequirements (promised sample_writer)"
  "createProcessor (promised sample_reader) = Inr (Reader (\<lambda>input. modify (\<lambda>_. input)))"
  "createProcessor (promised sample_marker) = Inr (Annotator (modify (\<lambda>l. l @ ''.'')))"
  "createProcessor (promised sample_writer) = Inr (Writer (\<lambda>l. modify (\<lambda>out. out @ l)))"
  by (simp_all add: languagesHandling_def requiredLayerTags_def checkRequirements_def createProcessor_def
      sample_reader_def sample_marker_def sample_writer_def plain_annotator_def)

lemma length_three: "length [x, y, z] = 3"
  by simp

lemma completed_pipeline_runs_witness:
  "\<exists>r as w readIntoLattice annotates writeLattice.
     [promised sample_reader, promised sample_marker, promised sample_writer] = r # as @ [w] \<and>
     run_nodes (\<lambda>input. input) ''ab'' 3 0 [promised sample_reader, promised sample_marker, promised sample_writer] =
       composed_run readIntoLattice annotates writeLattice ''ab''"
proof -
  let ?ps = "[promised sample_reader, promised sample_marker, promised sample_writer]"
  have c: "complete 1 sample_run_keeper [] (singles ?ps) = Some (Inr (Some ?ps))"
    by (simp add: complete_def isMultilingual_def missing_fulfillers_def sample_run_promises
        chooseSolution_def bestSolution_def trySolution_simps)
  have w: "well_shaped sample_run_keeper (singles ?ps)"
    by (simp add: well_shaped_def reader_promise_def annotator_promise_def writer_promise_def
        sample_run_ran isAnnotator_def isReader_def isWriter_def
        sample_reader_def sample_marker_def sample_writer_def plain_annotator_def)
  have m: "\<forall>f \<in> ran (nameToFactoryMap sample_run_keeper). makes_its_kind f"
    by (simp add: sample_run_ran makes_its_kind_def
        sample_reader_def sample_marker_def sample_writer_def plain_annotator_def)
  have r: "\<forall>p \<in> set ?ps. checkRequirements p" by (simp add: sample_run_promises)
  show ?thesis
    using completed_pipeline_runs [OF c w m r, of "\<lambda>input. input" "''ab''", unfolded length_three] by blast
qed

section \<open>Arguments that end with the language option\<close>

text \<open>When the arguments of an annotator do not parse and their last one is --lang, the attempt to try
  the annotator without the language reads the element behind the end of the argument list.\<close>
theorem lang_without_value_undefined:
  assumes "f_annotator f" and "f_parse f (args @ [''--lang'']) = None" and "''--lang'' \<notin> set args"
  shows "tryOptions f (args @ [''--lang'']) = Inl Undefined_Behaviour"
proof -
  have "without_lang (args @ [''--lang'']) = Some None"
  proof -
    have "dropWhile (\<lambda>a. a \<noteq> ''--lang'') (args @ [''--lang'']) = [''--lang'']"
      using assms(3) by (induction args) auto
    then show ?thesis by (simp add: without_lang_def)
  qed
  then show ?thesis using assms(1,2) by (simp add: tryOptions_def)
qed

lemma lang_without_value_undefined_witness:
  "tryOptions (plain_annotator ''tp'' [] [''token''] ()) [''--rules'', ''--lang''] = Inl Undefined_Behaviour"
  using lang_without_value_undefined [of "plain_annotator ''tp'' [] [''token''] ()" "[''--rules'']"]
  by (simp add: plain_annotator_def)

section \<open>Nodes whose requirements are not met\<close>

text \<open>An annotator in the middle of a pipeline whose requirements are not met is left out of the
  run without an error: the run is the one of the pipeline without it, with the positions of
  the others unchanged.\<close>
theorem unmet_requirements_skip:
  assumes "\<not> checkRequirements p"
  shows "run_nodes convert input n i (p # ps) = run_nodes convert input n (i + 1) ps"
  using assms by (simp add: runPipelineNode_def thenE_def bindE_def ret_def)

end
