(* ===== verification/Huffman_Cost.thy ===== *)
theory Huffman_Cost imports Prelude Complex_Main "HOL-Library.Multiset" begin

text \<open>Prefix codes in the abstract: binary trees over weighted leaves, the step that joins two
  lightest trees, and the proof that the tree it ends with costs no more than any assignment of
  code lengths that satisfies the inequality of Kraft and McMillan.  Theory Canonical-Huffman shows
  that the in-place program of the lemmatizer takes these steps.\<close>

section \<open>Trees\<close>

text \<open>Every node carries a number (its place in the array of the program).\<close>

datatype htree = Leaf nat | Node nat htree htree

fun place :: "htree \<Rightarrow> nat" where
  "place (Leaf i) = i"
| "place (Node i a b) = i"

fun places :: "htree \<Rightarrow> nat list" where
  "places (Leaf i) = [i]"
| "places (Node i a b) = i # places a @ places b"

fun leaves :: "htree \<Rightarrow> nat list" where
  "leaves (Leaf i) = [i]"
| "leaves (Node i a b) = leaves a @ leaves b"

text \<open>The depths of all nodes below one of depth \<open>k\<close>.\<close>

fun depths :: "nat \<Rightarrow> htree \<Rightarrow> (nat \<times> nat) list" where
  "depths k (Leaf i) = [(i, k)]"
| "depths k (Node i a b) = (i, k) # depths (Suc k) a @ depths (Suc k) b"

fun leaf_depths :: "nat \<Rightarrow> htree \<Rightarrow> (nat \<times> nat) list" where
  "leaf_depths k (Leaf i) = [(i, k)]"
| "leaf_depths k (Node i a b) = leaf_depths (Suc k) a @ leaf_depths (Suc k) b"

fun weight_of :: "(nat \<Rightarrow> nat) \<Rightarrow> htree \<Rightarrow> nat" where
  "weight_of w (Leaf i) = w i"
| "weight_of w (Node i a b) = weight_of w a + weight_of w b"

fun cost :: "(nat \<Rightarrow> nat) \<Rightarrow> htree \<Rightarrow> nat" where
  "cost w (Leaf i) = 0"
| "cost w (Node i a b) = cost w a + cost w b + weight_of w a + weight_of w b"

lemma map_fst_depths [simp]: "map fst (depths k t) = places t"
  by (induction k t rule: depths.induct) auto

lemma map_fst_leaf_depths [simp]: "map fst (leaf_depths k t) = leaves t"
  by (induction k t rule: leaf_depths.induct) auto

lemma leaf_depths_depths: "set (leaf_depths k t) \<subseteq> set (depths k t)"
  by (induction k t rule: depths.induct) auto

lemma place_in_places [simp]: "place t \<in> set (places t)"
  by (cases t) auto

lemma leaves_places: "set (leaves t) \<subseteq> set (places t)"
  by (induction t) auto

lemma kraft_tree: "(\<Sum>(i, d) \<leftarrow> leaf_depths k t. (1 / 2 :: real) ^ d) = (1 / 2) ^ k"
  by (induction k t rule: leaf_depths.induct) auto

lemma cost_tree: "(\<Sum>(i, d) \<leftarrow> leaf_depths k t. w i * d) = cost w t + k * weight_of w t"
  by (induction k t rule: leaf_depths.induct) (auto simp: algebra_simps)

section \<open>Joining two lightest trees\<close>

inductive join_step :: "(nat \<Rightarrow> nat) \<Rightarrow> htree multiset \<Rightarrow> htree multiset \<Rightarrow> bool" where
  "weight_of w a \<le> weight_of w b \<Longrightarrow> (\<And>c. c \<in># F \<Longrightarrow> weight_of w b \<le> weight_of w c) \<Longrightarrow>
   join_step w (F + {#a, b#}) (F + {#Node i a b#})"

section \<open>Lengths against weights\<close>

text \<open>A length for every weight, as a multiset of pairs.\<close>

type_synonym lengths = "(nat \<times> nat) multiset"

definition kraft :: "lengths \<Rightarrow> bool" where
  "kraft P \<longleftrightarrow> (\<Sum>p \<in># P. (1 / 2 :: real) ^ snd p) \<le> 1"

definition total_cost :: "lengths \<Rightarrow> nat" where
  "total_cost P = (\<Sum>p \<in># P. fst p * snd p)"

lemma total_cost_union [simp]: "total_cost (P + Q) = total_cost P + total_cost Q" "total_cost (add_mset p P) = fst p * snd p + total_cost P"
  by (simp_all add: total_cost_def)

lemma kraft_mono: "kraft (P + Q) \<Longrightarrow> kraft P"
proof -
  have "0 \<le> (\<Sum>p \<in># Q. (1 / 2 :: real) ^ snd p)" by (induction Q) auto
  then show "kraft (P + Q) \<Longrightarrow> kraft P" by (simp add: kraft_def)
qed

lemma kraft_positive:
  assumes "kraft P" "size P \<ge> 2" "p \<in># P"
  shows "snd p > 0"
proof (rule ccontr)
  assume "\<not> snd p > 0"
  obtain Q where P: "P = add_mset p Q" using assms(3) by (metis insert_DiffM)
  then have "Q \<noteq> {#}" using assms(2) by auto
  then obtain q R where "Q = add_mset q R" by (metis multiset_cases)
  then have "kraft {#p, q#}" using assms(1) P kraft_mono [of "{#p, q#}" R] by simp
  then have "1 + (1 / 2 :: real) ^ snd q \<le> 1" using \<open>\<not> snd p > 0\<close> by (simp add: kraft_def)
  moreover have "0 < (1 / 2 :: real) ^ snd q" by simp
  ultimately show False by linarith
qed

text \<open>When one item alone has the greatest length, it can be shortened: the other summands are even
  multiples of the smallest one.\<close>

lemma kraft_units:
  assumes "\<And>p. p \<in># P \<Longrightarrow> snd p \<le> N"
  shows "(\<Sum>p \<in># P. (1 / 2 :: real) ^ snd p) * 2 ^ N = real (\<Sum>p \<in># P. 2 ^ (N - snd p))"
  using assms
proof (induction P)
  case (add p P)
  have "(1 / 2 :: real) ^ snd p * 2 ^ N = 2 ^ (N - snd p)"
    using add.prems [of p] by (simp add: power_diff power_one_over field_simps)
  then show ?case using add by (simp add: distrib_right)
qed simp

lemma kraft_units_iff:
  assumes "\<And>p. p \<in># P \<Longrightarrow> snd p \<le> N"
  shows "kraft P \<longleftrightarrow> (\<Sum>p \<in># P. 2 ^ (N - snd p)) \<le> (2 ^ N :: nat)"
proof -
  have "kraft P \<longleftrightarrow> (\<Sum>p \<in># P. (1 / 2 :: real) ^ snd p) * 2 ^ N \<le> 2 ^ N"
    by (simp add: kraft_def)
  also have "\<dots> \<longleftrightarrow> real (\<Sum>p \<in># P. 2 ^ (N - snd p)) \<le> real (2 ^ N)"
    using kraft_units [OF assms] by simp
  finally show ?thesis by (simp only: of_nat_le_iff)
qed

lemma kraft_shorten:
  assumes "kraft (add_mset (x, Suc L) Q)" "\<And>p. p \<in># Q \<Longrightarrow> snd p \<le> L"
  shows "kraft (add_mset (x, L) Q)"
proof -
  let ?s = "\<Sum>p \<in># Q. 2 ^ (Suc L - snd p) :: nat"
  have le: "snd p \<le> Suc L" if "p \<in># add_mset (x, Suc L) Q" for p
    using that assms(2) by fastforce
  have "?s + 1 \<le> 2 ^ Suc L"
    using kraft_units_iff [of "add_mset (x, Suc L) Q" "Suc L"] le assms(1) by simp
  moreover have "even ?s"
    using assms(2)
  proof (induction Q)
    case (add p Q)
    then have "snd p \<le> L" by simp
    then show ?case using add by (simp add: Suc_diff_le)
  qed simp
  moreover have "even (2 ^ Suc L :: nat)" by simp
  ultimately have "?s + 2 \<le> 2 ^ Suc L" by presburger
  then show ?thesis
    using kraft_units_iff [of "add_mset (x, L) Q" "Suc L"] assms(2) by (fastforce simp: Suc_diff_le)
qed

text \<open>So some assignment that is no worse has two items of the greatest length.\<close>

lemma two_longest:
  assumes "kraft P" "size P \<ge> 2"
  shows "\<exists>Q x y L. image_mset fst (Q + {#(x, L), (y, L)#}) = image_mset fst P \<and> kraft (Q + {#(x, L), (y, L)#})
    \<and> total_cost (Q + {#(x, L), (y, L)#}) \<le> total_cost P \<and> (\<forall>p \<in># Q. snd p \<le> L)"
  using assms
proof (induction "\<Sum>p \<in># P. snd p" arbitrary: P rule: less_induct)
  case less
  define L where "L = Max (snd ` set_mset P)"
  have ne: "P \<noteq> {#}" using less.prems(2) by auto
  have le: "snd p \<le> L" if "p \<in># P" for p using that by (simp add: L_def)
  have "L \<in> snd ` set_mset P" using ne by (simp add: L_def)
  then obtain x where x: "(x, L) \<in># P" by auto
  define Q where "Q = P - {#(x, L)#}"
  have P: "P = add_mset (x, L) Q" using x by (simp add: Q_def)
  show ?case
  proof (cases "\<exists>y. (y, L) \<in># Q")
    case True
    then obtain y where "(y, L) \<in># Q" by blast
    then have "P = (Q - {#(y, L)#}) + {#(x, L), (y, L)#}" using P by simp
    then have "\<exists>R. P = R + {#(x, L), (y, L)#} \<and> (\<forall>p \<in># R. snd p \<le> L)"
      using le by (intro exI [of _ "Q - {#(y, L)#}"]) (metis union_iff)
    then show ?thesis using less.prems(1) by blast
  next
    case False
    have "L > 0" using kraft_positive [OF less.prems x] by simp
    then obtain M where M: "L = Suc M" by (cases L) auto
    have small: "snd p \<le> M" if "p \<in># Q" for p
      using le [of p] that False P M by (cases p) (fastforce simp: le_Suc_eq)
    have "kraft (add_mset (x, M) Q)" using kraft_shorten [of x M Q] less.prems(1) P M small by simp
    moreover have "(\<Sum>p \<in># add_mset (x, M) Q. snd p) < (\<Sum>p \<in># P. snd p)" using P M by simp
    moreover have "size (add_mset (x, M) Q) \<ge> 2" using less.prems(2) P by simp
    moreover have "total_cost (add_mset (x, M) Q) \<le> total_cost P" using P M by simp
    moreover have "image_mset fst (add_mset (x, M) Q) = image_mset fst P" using P by simp
    ultimately obtain R y z K where R: "image_mset fst (R + {#(y, K), (z, K)#}) = image_mset fst P"
      "kraft (R + {#(y, K), (z, K)#})" "total_cost (R + {#(y, K), (z, K)#}) \<le> total_cost (add_mset (x, M) Q)"
      "\<forall>p \<in># R. snd p \<le> K"
      using less.hyps [of "add_mset (x, M) Q"] by auto
    then have "total_cost (R + {#(y, K), (z, K)#}) \<le> total_cost P"
      using \<open>total_cost (add_mset (x, M) Q) \<le> total_cost P\<close> by (rule_tac order_trans)
    then show ?thesis using R by blast
  qed
qed

text \<open>Exchanging lengths gives the greatest length to a least weight.\<close>

lemma exchange:
  assumes "(x, L) \<in># P" "\<And>p. p \<in># P \<Longrightarrow> snd p \<le> L" "w \<in># image_mset fst P" "\<And>p. p \<in># P \<Longrightarrow> w \<le> fst p"
  shows "\<exists>Q. image_mset fst (add_mset (w, L) Q) = image_mset fst P
    \<and> image_mset snd (add_mset (w, L) Q) = image_mset snd P \<and> total_cost (add_mset (w, L) Q) \<le> total_cost P"
proof -
  obtain l where l: "(w, l) \<in># P" using assms(3) by auto
  show ?thesis
  proof (cases "(w, l) = (x, L)")
    case True
    then show ?thesis using assms(1) by (intro exI [of _ "P - {#(x, L)#}"]) simp
  next
    case False
    obtain S where S: "P = add_mset (x, L) S" using assms(1) by (metis multi_member_split)
    then have "(w, l) \<in># S" using l False by auto
    then obtain R where "S = add_mset (w, l) R" by (metis multi_member_split)
    then have P: "P = R + {#(x, L), (w, l)#}" using S by simp
    have "w \<le> x" "l \<le> L" using assms(4) [of "(x, L)"] assms(2) [of "(w, l)"] P by simp_all
    then have "x * l + w * L \<le> x * L + w * l"
    proof -
      obtain a b where "x = w + a" "L = l + b" using \<open>w \<le> x\<close> \<open>l \<le> L\<close> by (auto simp: le_iff_add)
      then show ?thesis by (simp add: algebra_simps)
    qed
    then show ?thesis using P by (intro exI [of _ "R + {#(x, l)#}"]) simp
  qed
qed

lemma kraft_lengths: "image_mset snd P = image_mset snd Q \<Longrightarrow> kraft P = kraft Q"
  unfolding kraft_def
  by (metis (no_types, lifting) image_mset.compositionality comp_def image_mset_cong)

text \<open>The two lightest items can be given the same greatest length, and then joined.\<close>

lemma join_lengths:
  assumes "kraft P" "image_mset fst P = W + {#v, w#}" "v \<le> w" "\<And>u. u \<in># W \<Longrightarrow> w \<le> u"
  shows "\<exists>P'. kraft P' \<and> image_mset fst P' = W + {#v + w#} \<and> total_cost P' + v + w \<le> total_cost P"
proof -
  have "size P \<ge> 2" using arg_cong [OF assms(2), of size] by simp
  from two_longest [OF assms(1) this] obtain Q x y L where
    Q: "image_mset fst (Q + {#(x, L), (y, L)#}) = W + {#v, w#}" "kraft (Q + {#(x, L), (y, L)#})"
      "total_cost (Q + {#(x, L), (y, L)#}) \<le> total_cost P" "\<forall>p \<in># Q. snd p \<le> L"
    using assms(2) by auto
  let ?P = "Q + {#(x, L), (y, L)#}"
  have v: "v \<le> fst p" if "p \<in># ?P" for p
  proof -
    have "fst p \<in># W + {#v, w#}" using that Q(1) by (metis imageI set_image_mset)
    then show ?thesis using assms(3,4) by (auto intro: order_trans)
  qed
  have "v \<in># image_mset fst ?P" using Q(1) by simp
  moreover have "(x, L) \<in># ?P" by simp
  moreover have "snd p \<le> L" if "p \<in># ?P" for p using that Q(4) by auto
  ultimately obtain R where
    R: "image_mset fst (add_mset (v, L) R) = image_mset fst ?P"
      "image_mset snd (add_mset (v, L) R) = image_mset snd ?P" "total_cost (add_mset (v, L) R) \<le> total_cost ?P"
    using exchange [of x L ?P v] v by blast
  have Rw: "image_mset fst R = W + {#w#}" using R(1) Q(1) by simp
  have Rl: "image_mset snd R = add_mset L (image_mset snd Q)" using R(2) by simp
  have "L \<in># image_mset snd R" using Rl by simp
  then obtain z where z: "(z, L) \<in># R" by auto
  have "snd p \<le> L" if "p \<in># R" for p
  proof -
    have "snd p \<in># image_mset snd R" using that by simp
    then show ?thesis using Q(4) unfolding Rl by auto
  qed
  moreover have "w \<le> fst p" if "p \<in># R" for p
  proof -
    have "fst p \<in># image_mset fst R" using that by simp
    then show ?thesis using assms(4) unfolding Rw by auto
  qed
  moreover have "w \<in># image_mset fst R" using Rw by simp
  ultimately obtain S where
    S: "image_mset fst (add_mset (w, L) S) = image_mset fst R"
      "image_mset snd (add_mset (w, L) S) = image_mset snd R" "total_cost (add_mset (w, L) S) \<le> total_cost R"
    using exchange [OF z] by blast
  have k: "kraft (S + {#(v, L), (w, L)#})"
  proof -
    have "image_mset snd (S + {#(v, L), (w, L)#}) = image_mset snd ?P"
      using S(2) R(2) by simp
    then show ?thesis using kraft_lengths Q(2) by blast
  qed
  have "L > 0" using kraft_positive [OF k, of "(v, L)"] by simp
  then obtain M where M: "L = Suc M" by (cases L) auto
  have "kraft (add_mset (v + w, M) S)" using k M by (simp add: kraft_def)
  moreover have "image_mset fst (add_mset (v + w, M) S) = W + {#v + w#}" using S(1) Rw by simp
  moreover have "total_cost (add_mset (v + w, M) S) + v + w \<le> total_cost P"
    using S(3) R(3) Q(3) M by (simp add: algebra_simps)
  ultimately show ?thesis by blast
qed

lemma join_optimal:
  assumes "(join_step w)\<^sup>*\<^sup>* F {#t#}" "kraft P" "image_mset fst P = image_mset (weight_of w) F"
  shows "cost w t \<le> total_cost P + (\<Sum>s \<in># F. cost w s)"
  using assms
proof (induction arbitrary: P rule: converse_rtranclp_induct)
  case base
  then show ?case by simp
next
  case (step F F')
  from step.hyps(1) show ?case
  proof cases
    case (1 a b G i)
    have "image_mset fst P = image_mset (weight_of w) G + {#weight_of w a, weight_of w b#}"
      using step.prems(2) 1(1) by simp
    from join_lengths [OF step.prems(1) this] 1(3,4) obtain P' where
      P': "kraft P'" "image_mset fst P' = image_mset (weight_of w) G + {#weight_of w a + weight_of w b#}"
        "total_cost P' + weight_of w a + weight_of w b \<le> total_cost P"
      by auto
    then have "cost w t \<le> total_cost P' + (\<Sum>s \<in># F'. cost w s)"
      using 1(2) by (intro step.IH) auto
    then show ?thesis using P'(3) 1(1,2) by simp
  qed
qed

end
