(* ===== verification/Canonical_Huffman.thy ===== *)
theory Canonical_Huffman imports Huffman_Cost begin

text \<open>The code lengths of the canonical Huffman coder of the lemmatizer
  (tools/lemmatizers/lamerlemma/canonical_huffman.hpp): they are computed in place on one array,
  with the heap functions of the standard library.  The array is shown to hold a forest, every turn
  of the loop to join two lightest trees of it, and the lengths to be optimal.  Weights are
  naturals: their sum is taken to fit in 64 bits.\<close>

section \<open>Heaps\<close>

text \<open>The heap functions rearrange a range so that a least element comes first; the standard leaves
  the order of the others open.  The model moves the first least element to the front.\<close>

definition least_first :: "('a \<Rightarrow> nat) \<Rightarrow> 'a list \<Rightarrow> 'a list" where
  "least_first key xs =
     (case xs of [] \<Rightarrow> [] | _ \<Rightarrow> let m = arg_min_list key xs in m # remove1 m xs)"

definition std_make_heap :: "('a \<Rightarrow> nat) \<Rightarrow> 'a list \<Rightarrow> 'a list" where
  "std_make_heap key xs = least_first key xs"

definition std_pop_heap :: "('a \<Rightarrow> nat) \<Rightarrow> 'a list \<Rightarrow> 'a list" where
  "std_pop_heap key xs = (case xs of [] \<Rightarrow> [] | x # rest \<Rightarrow> least_first key rest @ [x])"

definition std_push_heap :: "('a \<Rightarrow> nat) \<Rightarrow> 'a list \<Rightarrow> 'a list" where
  "std_push_heap key xs = least_first key xs"

section \<open>Code lengths\<close>

type_synonym heap_fun = "(nat \<Rightarrow> nat) \<Rightarrow> nat list \<Rightarrow> nat list"

text \<open>A heap function on the first \<open>h\<close> entries of the array, which are indices into it, compared by
  what they point to.\<close>

definition on_prefix :: "heap_fun \<Rightarrow> nat \<Rightarrow> nat list \<Rightarrow> nat list" where
  "on_prefix f h A = f (\<lambda>i. A ! i) (take h A) @ drop h A"

text \<open>One turn of the loop, with \<open>h\<close> the size of the heap before it.\<close>

definition huffman_turn :: "heap_fun \<Rightarrow> heap_fun \<Rightarrow> nat \<Rightarrow> nat list \<Rightarrow> nat list" where
  "huffman_turn pop push h A =
     (let m1 = A ! 0;
          A = on_prefix pop h A;
          h = h - 1;
          m2 = A ! 0;
          A = on_prefix pop h A;
          A = A[h := A ! m1 + A ! m2];
          A = A[h - 1 := h];
          A = A[m2 := h];
          A = A[m1 := h]
      in on_prefix push h A)"

fun huffman_loop :: "heap_fun \<Rightarrow> heap_fun \<Rightarrow> nat \<Rightarrow> nat list \<Rightarrow> nat list" where
  "huffman_loop pop push 0 A = A"
| "huffman_loop pop push (Suc 0) A = A"
| "huffman_loop pop push (Suc (Suc h)) A =
     huffman_loop pop push (Suc h) (huffman_turn pop push (Suc (Suc h)) A)"

definition depth_turn :: "nat list \<Rightarrow> nat \<Rightarrow> nat list" where
  "depth_turn A i = A[i := A ! (A ! i) + 1]"

text \<open>\<open>None\<close> is the write outside the array that the code does when there is no symbol.\<close>

definition CalcLengths :: "heap_fun \<Rightarrow> heap_fun \<Rightarrow> heap_fun \<Rightarrow> nat list \<Rightarrow> nat list option" where
  "CalcLengths heapify pop push weights =
     (let n = length weights
      in if n = 0 then None
         else if n = 1 then Some [1]
         else let A = [n..<2 * n] @ weights;
                  A = on_prefix heapify n A;
                  A = huffman_loop pop push n A;
                  A = A[1 := 0];
                  A = foldl depth_turn A [2..<2 * n]
              in Some (drop n A))"

section \<open>What a heap promises\<close>

locale min_heap =
  fixes is_heap :: "(nat \<Rightarrow> nat) \<Rightarrow> nat list \<Rightarrow> bool"
    and heapify pop push :: "(nat \<Rightarrow> nat) \<Rightarrow> nat list \<Rightarrow> nat list"
  assumes heap_least: "is_heap key xs \<Longrightarrow> x \<in> set xs \<Longrightarrow> key (hd xs) \<le> key x"
    and heap_cong: "is_heap key xs \<Longrightarrow> (\<And>x. x \<in> set xs \<Longrightarrow> key x = key' x) \<Longrightarrow> is_heap key' xs"
    and make_heap: "is_heap key (heapify key xs)" "mset (heapify key xs) = mset xs"
    and pop_heap: "is_heap key (x # xs) \<Longrightarrow> \<exists>ys. pop key (x # xs) = ys @ [x] \<and> mset ys = mset xs \<and> is_heap key ys"
    and push_heap: "is_heap key xs \<Longrightarrow> is_heap key (push key (xs @ [x]))" "mset (push key (xs @ [x])) = add_mset x (mset xs)"

definition least_in_front :: "(nat \<Rightarrow> nat) \<Rightarrow> nat list \<Rightarrow> bool" where
  "least_in_front key xs \<longleftrightarrow> (\<forall>x \<in> set xs. key (hd xs) \<le> key x)"

lemma arg_min_list_in_set: "xs \<noteq> [] \<Longrightarrow> arg_min_list key xs \<in> set xs"
  by (induction key xs rule: arg_min_list.induct) (auto simp: Let_def)

lemma arg_min_list_least: "x \<in> set xs \<Longrightarrow> key (arg_min_list key xs) \<le> (key x :: nat)"
  by (induction key xs rule: arg_min_list.induct) (auto simp: Let_def)

lemma least_first: "mset (least_first key xs) = mset xs" "least_in_front key (least_first key xs)"
proof -
  show "mset (least_first key xs) = mset xs"
    using arg_min_list_in_set [of xs key] by (cases xs) (auto simp: least_first_def Let_def)
  then have "set (least_first key xs) = set xs" by (metis set_mset_mset)
  moreover have "xs \<noteq> [] \<Longrightarrow> hd (least_first key xs) = arg_min_list key xs"
    by (cases xs) (auto simp: least_first_def Let_def)
  ultimately show "least_in_front key (least_first key xs)"
    using arg_min_list_least [of _ xs key] by (cases "xs = []") (auto simp: least_in_front_def)
qed

interpretation std: min_heap least_in_front std_make_heap std_pop_heap std_push_heap
proof
  fix key :: "nat \<Rightarrow> nat" and x xs
  show "\<exists>ys. std_pop_heap key (x # xs) = ys @ [x] \<and> mset ys = mset xs \<and> least_in_front key ys"
    using least_first [of key xs] by (intro exI [of _ "least_first key xs"]) (simp add: std_pop_heap_def)
next
  fix key key' :: "nat \<Rightarrow> nat" and xs
  assume "least_in_front key xs" and k: "\<And>x. x \<in> set xs \<Longrightarrow> key x = key' x"
  then show "least_in_front key' xs"
    by (cases xs) (auto simp: least_in_front_def)
qed (auto simp: least_in_front_def std_make_heap_def std_push_heap_def least_first
    dest: least_first(2) [unfolded least_in_front_def, rule_format])

section \<open>The array holds a forest\<close>

text \<open>A tree is laid out in the array when every node below the root points to its parent.\<close>

fun laid_out :: "nat list \<Rightarrow> htree \<Rightarrow> bool" where
  "laid_out A (Leaf i) = True"
| "laid_out A (Node i a b) \<longleftrightarrow> A ! place a = i \<and> A ! place b = i \<and> i < place a \<and> i < place b \<and>
     laid_out A a \<and> laid_out A b"

lemma laid_out_cong:
  "laid_out A t \<Longrightarrow> (\<And>i. i \<in> set (places t) \<Longrightarrow> i \<noteq> place t \<Longrightarrow> B ! i = A ! i) \<Longrightarrow> distinct (places t) \<Longrightarrow> laid_out B t"
proof (induction t)
  case (Node i a b)
  have pa: "place a \<in> set (places a)" "place b \<in> set (places b)" by simp_all
  have "laid_out B a" using Node.IH(1) Node.prems by (auto simp: disjoint_iff)
  moreover have "laid_out B b" using Node.IH(2) Node.prems by (auto simp: disjoint_iff)
  moreover have "B ! place a = A ! place a" "B ! place b = A ! place b"
    using Node.prems pa by auto
  ultimately show ?case using Node.prems(1) by simp
qed simp

definition forest_places :: "htree list \<Rightarrow> nat list" where
  "forest_places ts = concat (map places ts)"

text \<open>The state of the loop with a heap of size \<open>h\<close>: the heap holds the roots of a forest whose nodes
  are the places from \<open>h\<close> on and whose leaves are the last \<open>n\<close>; a root's place holds its weight.\<close>

definition array_forest :: "(nat \<Rightarrow> nat) \<Rightarrow> nat \<Rightarrow> nat \<Rightarrow> nat list \<Rightarrow> htree list \<Rightarrow> bool" where
  "array_forest w n h A ts \<longleftrightarrow> length A = 2 * n \<and> h \<le> n \<and> length ts = h \<and>
     map place ts = take h A \<and> distinct (forest_places ts) \<and> set (forest_places ts) = {h..<2 * n} \<and>
     (\<Union>t \<in> set ts. set (leaves t)) = {n..<2 * n} \<and>
     (\<forall>t \<in> set ts. laid_out A t \<and> A ! place t = weight_of w t)"

lemma mset_map_permute:
  "mset (map f xs) = mset ys \<Longrightarrow> \<exists>zs. map f zs = ys \<and> mset zs = mset xs"
proof (induction ys arbitrary: xs)
  case (Cons y ys)
  then have "y \<in> set (map f xs)" by (metis list.set_intros(1) set_mset_mset)
  then obtain x where x: "x \<in> set xs" "f x = y" by auto
  have "mset (map f (remove1 x xs)) = mset ys"
    using Cons.prems x by (simp add: image_mset_Diff)
  then obtain zs where "map f zs = ys" "mset zs = mset (remove1 x xs)" using Cons.IH by blast
  then show ?case using x by (intro exI [of _ "x # zs"]) simp
qed simp

lemma forest_places_mset: "mset (forest_places ts) = (\<Sum>t \<in># mset ts. mset (places t))"
  by (induction ts) (auto simp: forest_places_def)

lemma forest_places_perm:
  assumes "mset ss = mset ts"
  shows "mset (forest_places ss) = mset (forest_places ts)" "set (forest_places ss) = set (forest_places ts)"
    "distinct (forest_places ss) = distinct (forest_places ts)"
proof -
  show m: "mset (forest_places ss) = mset (forest_places ts)" using assms by (simp add: forest_places_mset)
  show "set (forest_places ss) = set (forest_places ts)" using m by (metis set_mset_mset)
  show "distinct (forest_places ss) = distinct (forest_places ts)" using m by (rule mset_eq_imp_distinct_iff)
qed

lemma array_forest_root:
  "array_forest w n h A ts \<Longrightarrow> t \<in> set ts \<Longrightarrow> i \<in> set (places t) \<Longrightarrow> h \<le> i \<and> i < 2 * n"
  unfolding array_forest_def forest_places_def by auto

lemma distinct_roots: "distinct (forest_places ts) \<Longrightarrow> distinct (map place ts)"
proof (induction ts)
  case (Cons t ts)
  have "place t \<notin> place ` set ts"
  proof
    assume "place t \<in> place ` set ts"
    then obtain u where "u \<in> set ts" "place t \<in> set (places u)" by (metis imageE place_in_places)
    then have "place t \<in> set (forest_places ts)" by (auto simp: forest_places_def)
    moreover have "set (places t) \<inter> set (forest_places ts) = {}"
      using Cons.prems by (simp add: forest_places_def)
    ultimately show False using place_in_places by blast
  qed
  then show ?case using Cons by (simp add: forest_places_def)
qed (simp add: forest_places_def)

text \<open>The array that a turn leaves, in terms of the heap before and after it.\<close>

context min_heap
begin

lemma turn_array:
  assumes A: "length A = 2 * n" "h \<le> n" "2 \<le> h" and roots: "\<And>x. x \<in> set (take h A) \<Longrightarrow> h \<le> x \<and> x < 2 * n"
    and dist: "distinct (take h A)" and heap: "is_heap (\<lambda>i. A ! i) (take h A)"
  shows "\<exists>m1 m2 zs ws. mset (take h A) = mset zs + {#m1, m2#} \<and> A ! m1 \<le> A ! m2 \<and> (\<forall>z \<in> set zs. A ! m2 \<le> A ! z)
    \<and> length (huffman_turn pop push h A) = 2 * n \<and> take (h - 1) (huffman_turn pop push h A) = ws
    \<and> mset ws = add_mset (h - 1) (mset zs)
    \<and> is_heap (\<lambda>i. huffman_turn pop push h A ! i) ws
    \<and> (\<forall>i. h - 1 \<le> i \<and> i < 2 * n \<longrightarrow> huffman_turn pop push h A ! i =
         (if i = m1 \<or> i = m2 then h - 1 else if i = h - 1 then A ! m1 + A ! m2 else A ! i))"
proof -
  obtain k where k: "h = Suc (Suc k)" using A(3) by (metis Suc_le_D numeral_2_eq_2 Suc_le_mono)
  define D where "D = drop h A"
  obtain m1 rs where rs: "take h A = m1 # rs" "length rs = Suc k"
    using A k by (cases "take h A") (auto dest: arg_cong [where f = length])
  obtain ys where ys: "pop (\<lambda>i. A ! i) (m1 # rs) = ys @ [m1]" "mset ys = mset rs" "is_heap (\<lambda>i. A ! i) ys"
    using pop_heap heap rs(1) by metis
  have ly: "length ys = Suc k" using ys(2) rs(2) by (metis size_mset)
  then obtain m2 ys' where m2: "ys = m2 # ys'" "length ys' = k" by (cases ys) auto
  define A1 where "A1 = ys @ m1 # D"
  have A1: "on_prefix pop h A = A1" using ys(1) rs(1) by (simp add: on_prefix_def A1_def D_def)
  have A1_nth: "A1 ! x = A ! x" if "h \<le> x" for x
  proof -
    obtain d where "x = h + d" using \<open>h \<le> x\<close> by (metis le_iff_add)
    then show ?thesis using ly k A by (simp add: A1_def D_def nth_append)
  qed
  have sets: "set (take h A) = insert m1 (insert m2 (set ys'))"
    using rs(1) ys(2) m2(1) by (metis list.simps(15) set_mset_mset)
  have big: "h \<le> x \<and> x < 2 * n" if "x \<in> set ys \<or> x = m1" for x
    using that roots sets m2(1) by auto
  have "is_heap (\<lambda>i. A1 ! i) (m2 # ys')"
    using heap_cong [OF ys(3), of "\<lambda>i. A1 ! i"] A1_nth big m2(1) by auto
  then obtain zs where zs: "pop (\<lambda>i. A1 ! i) (m2 # ys') = zs @ [m2]" "mset zs = mset ys'" "is_heap (\<lambda>i. A1 ! i) zs"
    using pop_heap by metis
  have lz: "length zs = k" using zs(2) m2(2) by (metis size_mset)
  define A2 where "A2 = zs @ m2 # m1 # D"
  have A2: "on_prefix pop (h - 1) A1 = A2"
    using zs(1) ly k m2(1) by (simp add: on_prefix_def A1_def A2_def)
  have A2_nth: "A2 ! x = A ! x" if "h \<le> x" for x
  proof -
    obtain d where "x = h + d" using \<open>h \<le> x\<close> by (metis le_iff_add)
    then show ?thesis using lz k A by (simp add: A2_def D_def nth_append)
  qed
  have lA2: "length A2 = 2 * n" using lz k A by (simp add: A2_def D_def)
  define A6 where "A6 = A2[h - 1 := A ! m1 + A ! m2, h - 1 - 1 := h - 1, m2 := h - 1, m1 := h - 1]"
  have lA6: "length A6 = 2 * n" by (simp add: A6_def lA2)
  have m: "h \<le> m1" "m1 < 2 * n" "h \<le> m2" "m2 < 2 * n" using big m2(1) by auto
  have A6_nth: "A6 ! i = (if i = m1 \<or> i = m2 then h - 1 else if i = h - 1 then A ! m1 + A ! m2 else A ! i)"
    if "h - 1 \<le> i" "i < 2 * n" for i
  proof -
    have "i \<noteq> h - 1 - 1" using that k by simp
    moreover have "i \<noteq> h - 1 \<Longrightarrow> A2 ! i = A ! i" using A2_nth that k by simp
    ultimately show ?thesis using that m lA2 k by (simp add: A6_def nth_list_update)
  qed
  have tA6: "take (h - 1) A6 = zs @ [h - 1]"
  proof -
    have "take (h - 1) A6 = take (h - 1) (A2[h - 1 - 1 := h - 1])"
      using m k list_update_swap [of "h - 1" "h - 1 - 1" A2] by (simp add: A6_def take_update_cancel)
    also have "\<dots> = zs @ [h - 1]" using lz k by (simp add: A2_def list_update_append)
    finally show ?thesis .
  qed
  have nz: "m1 \<notin> set zs" "m2 \<notin> set zs" "m1 \<noteq> m2"
  proof -
    have "mset (take h A) = add_mset m1 (add_mset m2 (mset zs))" using rs(1) ys(2) m2(1) zs(2) by simp
    then have "distinct (m1 # m2 # zs)" using dist by (metis mset.simps(2) mset_eq_imp_distinct_iff)
    then show "m1 \<notin> set zs" "m2 \<notin> set zs" "m1 \<noteq> m2" by auto
  qed
  have zbig: "h \<le> z \<and> z < 2 * n" if "z \<in> set zs" for z
    using that big zs(2) m2(1) by (metis list.set_intros(2) set_mset_mset)
  have "is_heap (\<lambda>i. A6 ! i) zs"
  proof (rule heap_cong [OF zs(3)])
    fix x assume x: "x \<in> set zs"
    then have "x \<noteq> m1" "x \<noteq> m2" "h \<le> x" "x < 2 * n" using nz zbig by auto
    then show "A1 ! x = A6 ! x" using A1_nth A6_nth [of x] k by simp
  qed
  note ph = push_heap(1) [OF this, of "h - 1"] push_heap(2) [of "\<lambda>i. A6 ! i" zs "h - 1"]
  define ws where "ws = push (\<lambda>i. A6 ! i) (zs @ [h - 1])"
  have lw: "length ws = h - 1" using arg_cong [OF ph(2), of size] lz k by (simp add: ws_def)
  have turn: "huffman_turn pop push h A = ws @ drop (h - 1) A6"
  proof -
    have "A1 ! 0 = m2" "A ! 0 = m1"
      using m2(1) rs(1) A by (simp add: A1_def) (metis nth_Cons_0 nth_take rs(1) zero_less_Suc k)
    moreover have "A2 ! m1 = A ! m1" "A2 ! m2 = A ! m2" using A2_nth m by simp_all
    ultimately have "huffman_turn pop push h A = on_prefix push (h - 1) A6"
      unfolding huffman_turn_def Let_def A6_def by (simp add: A1 A2 [unfolded One_nat_def])
    then show ?thesis by (simp add: on_prefix_def tA6 [unfolded One_nat_def] ws_def)
  qed
  have nth: "huffman_turn pop push h A ! i = A6 ! i" if "h - 1 \<le> i" "i < 2 * n" for i
    using that lw lA6 by (simp add: turn nth_append)
  have "is_heap (\<lambda>i. huffman_turn pop push h A ! i) ws"
  proof (rule heap_cong)
    show "is_heap (\<lambda>i. A6 ! i) ws" using ph(1) by (simp add: ws_def)
    fix x assume "x \<in> set ws"
    then have "x \<in># add_mset (h - 1) (mset zs)" using ph(2) by (metis ws_def set_mset_mset)
    then have "h - 1 \<le> x \<and> x < 2 * n" using zbig k A by fastforce
    then show "A6 ! x = huffman_turn pop push h A ! x" using nth by simp
  qed
  moreover have "A ! m1 \<le> A ! m2" using heap_least [OF heap, of m2] rs(1) sets by auto
  moreover have "A ! m2 \<le> A ! z" if "z \<in> set zs" for z
  proof -
    have "z \<in> set ys" using that zs(2) m2(1) by (metis list.set_intros(2) set_mset_mset)
    then show ?thesis using heap_least [OF ys(3)] m2(1) by simp
  qed
  moreover have "mset (take h A) = mset zs + {#m1, m2#}" using rs(1) ys(2) m2(1) zs(2) by simp
  moreover have "length (huffman_turn pop push h A) = 2 * n" unfolding turn using lw lA6 A(2) by simp
  moreover have "take (h - 1) (huffman_turn pop push h A) = ws" unfolding turn using lw by simp
  moreover have "mset ws = add_mset (h - 1) (mset zs)" using ph(2) by (simp add: ws_def)
  ultimately show ?thesis using nth A6_nth
    by (intro exI [of _ m1] exI [of _ m2] exI [of _ zs] exI [of _ ws]) (metis (no_types, lifting))
qed

lemma turn_forest:
  assumes F: "array_forest w n h A ts" and h: "2 \<le> h" and heap: "is_heap (\<lambda>i. A ! i) (take h A)"
  shows "\<exists>ts'. array_forest w n (h - 1) (huffman_turn pop push h A) ts' \<and> join_step w (mset ts) (mset ts') \<and>
     is_heap (\<lambda>i. huffman_turn pop push h A ! i) (take (h - 1) (huffman_turn pop push h A))"
proof -
  define A' where "A' = huffman_turn pop push h A"
  have len: "length A = 2 * n" "h \<le> n" "length ts = h" and pts: "map place ts = take h A"
    and dis: "distinct (forest_places ts)" and rng: "set (forest_places ts) = {h..<2 * n}"
    and lvs: "(\<Union>t \<in> set ts. set (leaves t)) = {n..<2 * n}"
    and lay: "\<And>t. t \<in> set ts \<Longrightarrow> laid_out A t" and wt: "\<And>t. t \<in> set ts \<Longrightarrow> A ! place t = weight_of w t"
    using F by (simp_all add: array_forest_def)
  have big: "h \<le> i \<and> i < 2 * n" if "t \<in> set ts" "i \<in> set (places t)" for t i
    using array_forest_root [OF F that] .
  have "h \<le> x \<and> x < 2 * n" if "x \<in> set (take h A)" for x
    using that big unfolding pts [symmetric] by auto
  moreover have "distinct (take h A)"
    unfolding pts [symmetric] using dis by (rule distinct_roots)
  ultimately obtain m1 m2 zs ws where
    perm: "mset (take h A) = mset zs + {#m1, m2#}" and le: "A ! m1 \<le> A ! m2" "\<And>z. z \<in> set zs \<Longrightarrow> A ! m2 \<le> A ! z"
    and A': "length A' = 2 * n" "take (h - 1) A' = ws" "mset ws = add_mset (h - 1) (mset zs)" "is_heap (\<lambda>i. A' ! i) ws"
    and nth: "\<And>i. h - 1 \<le> i \<Longrightarrow> i < 2 * n \<Longrightarrow>
      A' ! i = (if i = m1 \<or> i = m2 then h - 1 else if i = h - 1 then A ! m1 + A ! m2 else A ! i)"
    using turn_array [OF len(1,2) h _ _ heap] unfolding A'_def by metis
  have "mset (map place ts) = mset (m1 # m2 # zs)" using perm by (simp add: pts)
  from mset_map_permute [OF this] obtain a b cs where
    abc: "place a = m1" "place b = m2" "map place cs = zs" "mset (a # b # cs) = mset ts"
    by (auto simp: map_eq_Cons_conv)
  have set_ts: "set ts = insert a (insert b (set cs))"
    using abc(4) by (metis list.simps(15) set_mset_mset)
  define new where "new = Node (h - 1) a b"
  have "mset (map place (new # cs)) = mset ws" using abc(3) A'(3) by (simp add: new_def)
  from mset_map_permute [OF this] obtain ts' where
    ts': "map place ts' = ws" "mset ts' = mset (new # cs)" by blast
  have set_ts': "set ts' = insert new (set cs)"
    using ts'(2) by (metis list.simps(15) set_mset_mset)
  note old = forest_places_perm [OF abc(4)]
  note upd = forest_places_perm [OF ts'(2)]
  have d: "distinct (places a)" "distinct (places b)" "distinct (forest_places cs)"
    "set (places a) \<inter> set (places b) = {}" "set (places a) \<inter> set (forest_places cs) = {}"
    "set (places b) \<inter> set (forest_places cs) = {}"
    using dis unfolding old(3) [symmetric] by (auto simp: forest_places_def)
  have U: "{h..<2 * n} = set (places a) \<union> set (places b) \<union> set (forest_places cs)"
    using rng unfolding old(2) [symmetric] by (auto simp: forest_places_def)
  have h1: "h - 1 \<notin> {h..<2 * n}" using h by (cases h) auto
  have fp: "forest_places (new # cs) = (h - 1) # (places a @ places b) @ forest_places cs"
    by (simp add: forest_places_def new_def)
  have D: "distinct (forest_places ts')"
    unfolding upd(3) fp using d h1 unfolding U by auto
  have R: "set (forest_places ts') = {h - 1..<2 * n}"
  proof -
    have "{h - 1..<2 * n} = insert (h - 1) {h..<2 * n}" using h len by auto
    then show ?thesis unfolding upd(2) fp U by auto
  qed
  have L: "(\<Union>t \<in> set ts'. set (leaves t)) = {n..<2 * n}"
    using lvs unfolding set_ts set_ts' by (auto simp: new_def)
  have ms: "m1 \<in> set (places a)" "m2 \<in> set (places b)" "h \<le> m1" "m1 < 2 * n" "h \<le> m2" "m2 < 2 * n"
    using big [of a m1] big [of b m2] set_ts abc(1,2) place_in_places by (metis insertI1 insertI2)+
  have keep: "A' ! i = A ! i" if "h \<le> i" "i < 2 * n" "i \<noteq> m1" "i \<noteq> m2" for i
    using nth [of i] that h by (cases h) auto
  have "laid_out A' a"
  proof (rule laid_out_cong [OF lay _ d(1)])
    fix i assume i: "i \<in> set (places a)" "i \<noteq> place a"
    then show "A' ! i = A ! i" using keep big [of a i] set_ts d(4) ms abc(1) by blast
  qed (simp add: set_ts)
  moreover have "laid_out A' b"
  proof (rule laid_out_cong [OF lay _ d(2)])
    fix i assume i: "i \<in> set (places b)" "i \<noteq> place b"
    then show "A' ! i = A ! i" using keep big [of b i] set_ts d(4) ms abc(2) by blast
  qed (simp add: set_ts)
  ultimately have new: "laid_out A' new \<and> A' ! place new = weight_of w new"
    using nth [of m1] nth [of m2] nth [of "h - 1"] ms h wt [of a] wt [of b] abc(1,2) set_ts
    by (auto simp: new_def)
  have "laid_out A' t \<and> A' ! place t = weight_of w t" if t: "t \<in> set cs" for t
  proof -
    have sub: "set (places t) \<subseteq> set (forest_places cs)" using t by (auto simp: forest_places_def)
    have k: "A' ! i = A ! i" if "i \<in> set (places t)" for i
    proof -
      have "i \<noteq> m1" "i \<noteq> m2" using sub that d(5,6) ms by auto
      then show ?thesis using keep big [of t i] that t set_ts by auto
    qed
    have "distinct (places t)" using t d(3) by (auto simp: forest_places_def distinct_concat_iff)
    then have "laid_out A' t" using laid_out_cong [OF lay] k t set_ts by auto
    then show ?thesis using k [of "place t"] wt [of t] t set_ts by simp
  qed
  then have T: "\<forall>t \<in> set ts'. laid_out A' t \<and> A' ! place t = weight_of w t"
    using new unfolding set_ts' by blast
  have "length ts' = h - 1"
    using arg_cong [OF ts'(1), of length] arg_cong [OF A'(2), of length] A'(1) len by simp
  then have "array_forest w n (h - 1) A' ts'"
    unfolding array_forest_def using A'(1,2) len ts'(1) D R L T by simp
  moreover have "join_step w (mset ts) (mset ts')"
  proof -
    have "join_step w (mset cs + {#a, b#}) (mset cs + {#Node (h - 1) a b#})"
    proof
      show "weight_of w a \<le> weight_of w b" using le(1) wt [of a] wt [of b] abc(1,2) set_ts by simp
      fix c assume "c \<in># mset cs"
      then show "weight_of w b \<le> weight_of w c"
        using le(2) [of "place c"] wt [of b] wt [of c] abc(2,3) set_ts by auto
    qed
    then show ?thesis using abc(4) ts'(2) by (simp add: new_def)
  qed
  ultimately show ?thesis using A'(2,4) unfolding A'_def by metis
qed

lemma loop_forest:
  assumes "array_forest w n h A ts" "is_heap (\<lambda>i. A ! i) (take h A)" "1 \<le> h"
  shows "\<exists>t. array_forest w n 1 (huffman_loop pop push h A) [t] \<and> (join_step w)\<^sup>*\<^sup>* (mset ts) {#t#}"
  using assms(3,1,2)
proof (induction h arbitrary: A ts rule: dec_induct)
  case base
  then obtain t where "ts = [t]" by (auto simp: array_forest_def length_Suc_conv)
  then show ?case using base by auto
next
  case (step h)
  obtain k where k: "h = Suc k" using step.hyps by (cases h) auto
  from turn_forest [OF step.prems(1) _ step.prems(2)] obtain ts' where
    ts': "array_forest w n h (huffman_turn pop push (Suc h) A) ts'" "join_step w (mset ts) (mset ts')"
      "is_heap (\<lambda>i. huffman_turn pop push (Suc h) A ! i) (take h (huffman_turn pop push (Suc h) A))"
    using k by auto
  from step.IH [OF ts'(1,3)] obtain t where
    "array_forest w n 1 (huffman_loop pop push h (huffman_turn pop push (Suc h) A)) [t]"
    "(join_step w)\<^sup>*\<^sup>* (mset ts') {#t#}" by blast
  then show ?case using ts'(2) k by (auto intro: converse_rtranclp_into_rtranclp)
qed

end

text \<open>A node is the root or points to its parent, which is to the left and one level up.\<close>

lemma laid_out_parent:
  "laid_out A t \<Longrightarrow> (k, d) \<in> set (depths e t) \<Longrightarrow>
   (k, d) = (place t, e) \<or> (\<exists>d'. d = Suc d' \<and> A ! k < k \<and> (A ! k, d') \<in> set (depths e t))"
proof (induction t arbitrary: e)
  case (Node i a b)
  consider "(k, d) = (i, e)" | "(k, d) \<in> set (depths (Suc e) a)" | "(k, d) \<in> set (depths (Suc e) b)"
    using Node.prems(2) by auto
  then show ?case
  proof cases
    case 2
    then show ?thesis using Node.IH(1) [OF _ 2] Node.prems(1) by auto
  next
    case 3
    then show ?thesis using Node.IH(2) [OF _ 3] Node.prems(1) by auto
  qed simp
qed simp

lemma laid_out_root: "laid_out A t \<Longrightarrow> i \<in> set (places t) \<Longrightarrow> place t \<le> i"
  by (induction t) (auto intro: order_trans less_imp_le)

lemma depths_places: "(i, d) \<in> set (depths k t) \<Longrightarrow> i \<in> set (places t)"
  by (metis fst_conv image_eqI list.set_map map_fst_depths)

text \<open>The last pass replaces the parents by the depths, from the left to the right.\<close>

lemma depth_pass:
  assumes "laid_out A t" "place t = 1" "length A = N" "2 \<le> m" "m \<le> N"
  shows "length (foldl depth_turn (A[1 := 0]) [2..<m]) = N \<and>
    (\<forall>(i, d) \<in> set (depths 0 t). i < m \<longrightarrow> foldl depth_turn (A[1 := 0]) [2..<m] ! i = d) \<and>
    (\<forall>i \<ge> m. foldl depth_turn (A[1 := 0]) [2..<m] ! i = A ! i)"
  using assms(4,5)
proof (induction m rule: dec_induct)
  case base
  have first: "i = 1 \<and> d = 0" if "(i, d) \<in> set (depths 0 t)" "i < 2" for i d
  proof -
    have least: "1 \<le> j" if "(j, e) \<in> set (depths 0 t)" for j e
      using laid_out_root [OF assms(1), of j] depths_places [OF that] assms(2) by simp
    then have "i = 1" using that by (metis One_nat_def Suc_1 le_antisym less_Suc_eq_le)
    then show ?thesis using laid_out_parent [OF assms(1) that(1)] assms(2) least by fastforce
  qed
  then show ?case using assms(3) base by (auto dest!: first)
next
  case (step m)
  define B where "B = foldl depth_turn (A[1 := 0]) [2..<m]"
  have IH: "length B = N" "\<And>i d. (i, d) \<in> set (depths 0 t) \<Longrightarrow> i < m \<Longrightarrow> B ! i = d"
    "\<And>i. m \<le> i \<Longrightarrow> B ! i = A ! i"
    using step unfolding B_def by auto
  have B': "foldl depth_turn (A[1 := 0]) [2..<Suc m] = B[m := B ! (B ! m) + 1]"
    using step.hyps by (simp add: B_def depth_turn_def)
  have "B ! (B ! m) + 1 = d" if md: "(m, d) \<in> set (depths 0 t)" for d
  proof -
    obtain d' where "d = Suc d'" "A ! m < m" "(A ! m, d') \<in> set (depths 0 t)"
      using laid_out_parent [OF assms(1) md] assms(2) step.hyps by auto
    then show ?thesis using IH(2) [of "A ! m" d'] IH(3) [of m] by simp
  qed
  then show ?case
    unfolding B' using IH step.prems by (auto simp: nth_list_update less_Suc_eq)
qed

section \<open>The lengths are those of a tree of least cost\<close>

lemma leaves_distinct: "distinct (places t) \<Longrightarrow> distinct (leaves t)"
proof (induction t)
  case (Node i a b)
  then show ?case using leaves_places [of a] leaves_places [of b] by auto
qed simp

context min_heap
begin

lemma start_forest:
  assumes "weights \<noteq> []"
  defines "n \<equiv> length weights"
  defines "A \<equiv> on_prefix heapify n ([n..<2 * n] @ weights)"
  shows "\<exists>ts. array_forest (\<lambda>i. weights ! (i - n)) n n A ts \<and> mset ts = mset (map Leaf [n..<2 * n]) \<and>
    is_heap (\<lambda>i. A ! i) (take n A)"
proof -
  define A0 where "A0 = [n..<2 * n] @ weights"
  define hs where "hs = heapify (\<lambda>i. A0 ! i) [n..<2 * n]"
  have hs: "mset hs = mset [n..<2 * n]" "is_heap (\<lambda>i. A0 ! i) hs"
    using make_heap by (simp_all add: hs_def)
  then have shs: "set hs = {n..<2 * n}" and lhs: "length hs = n"
    by (metis set_mset_mset set_upt, metis size_mset length_upt add_diff_cancel_left' mult_2)
  have A: "A = hs @ weights"
    by (simp add: A_def on_prefix_def hs_def A0_def n_def)
  have nth: "A ! i = A0 ! i \<and> A ! i = weights ! (i - n)" if "i \<in> set hs" for i
    using that shs lhs by (simp add: A A0_def nth_append n_def)
  define ts where "ts = map Leaf hs"
  have "array_forest (\<lambda>i. weights ! (i - n)) n n A ts"
    unfolding array_forest_def
  proof (intro conjI)
    have "forest_places ts = hs" by (simp add: ts_def forest_places_def comp_def concat_map_singleton)
    then show "distinct (forest_places ts)" "set (forest_places ts) = {n..<2 * n}"
      using hs(1) shs by (auto simp: mset_eq_imp_distinct_iff [OF hs(1)])
    show "\<forall>t \<in> set ts. laid_out A t \<and> A ! place t = weight_of (\<lambda>i. weights ! (i - n)) t"
      using nth [THEN conjunct2] by (auto simp: ts_def)
  qed (use lhs shs in \<open>auto simp: ts_def A n_def comp_def\<close>)
  moreover have "mset ts = mset (map Leaf [n..<2 * n])" using hs(1) by (simp add: ts_def)
  moreover have "is_heap (\<lambda>i. A ! i) (take n A)"
    using heap_cong [OF hs(2)] nth lhs by (simp add: A)
  ultimately show ?thesis by blast
qed

lemma lengths_tree:
  assumes "CalcLengths heapify pop push weights = Some ls" "2 \<le> length weights"
  defines "n \<equiv> length weights"
  shows "\<exists>t. (join_step (\<lambda>i. weights ! (i - n)))\<^sup>*\<^sup>* (mset (map Leaf [n..<2 * n])) {#t#} \<and>
    mset (leaf_depths 0 t) = mset (zip [n..<2 * n] ls) \<and> length ls = n"
proof -
  let ?w = "\<lambda>i. weights ! (i - n)"
  define A where "A = on_prefix heapify n ([n..<2 * n] @ weights)"
  have n: "2 \<le> n" "weights \<noteq> []" using assms(2) by (auto simp: n_def)
  from start_forest [OF n(2)] obtain ts where
    ts: "array_forest ?w n n A ts" "mset ts = mset (map Leaf [n..<2 * n])" "is_heap (\<lambda>i. A ! i) (take n A)"
    unfolding A_def n_def by blast
  define B where "B = huffman_loop pop push n A"
  from loop_forest [OF ts(1,3)] n obtain t where
    t: "array_forest ?w n 1 B [t]" "(join_step ?w)\<^sup>*\<^sup>* (mset ts) {#t#}"
    unfolding B_def by auto
  have B: "length B = 2 * n" "distinct (places t)" "set (places t) = {1..<2 * n}"
    "set (leaves t) = {n..<2 * n}" "laid_out B t"
    using t(1) by (simp_all add: array_forest_def forest_places_def)
  have "1 \<in> set (places t)" unfolding B(3) using n by simp
  then have root: "place t = 1"
    using laid_out_root [OF B(5)] B(3) place_in_places [of t] by (metis atLeastLessThan_iff le_antisym)
  define C where "C = foldl depth_turn (B[1 := 0]) [2..<2 * n]"
  have C: "length C = 2 * n" "\<And>i d. (i, d) \<in> set (depths 0 t) \<Longrightarrow> i < 2 * n \<Longrightarrow> C ! i = d"
    using depth_pass [OF B(5) root B(1), of "2 * n"] n unfolding C_def by auto
  have ls: "ls = drop n C"
    using assms(1) n unfolding C_def B_def A_def CalcLengths_def Let_def n_def [symmetric] by auto
  have "set (leaf_depths 0 t) = set (zip [n..<2 * n] ls)"
  proof -
    have fst: "fst ` set (leaf_depths 0 t) = {n..<2 * n}"
      using B(4) by (metis list.set_map map_fst_leaf_depths)
    have val: "d = ls ! (i - n)" "n \<le> i" "i < 2 * n" if "(i, d) \<in> set (leaf_depths 0 t)" for i d
    proof -
      have "i \<in> {n..<2 * n}" using that fst by force
      then show "n \<le> i" "i < 2 * n" by simp_all
      then show "d = ls ! (i - n)"
        using C(2) [of i d] that leaf_depths_depths [of 0 t] C(1) by (auto simp: ls)
    qed
    have "zip [n..<2 * n] ls = map (\<lambda>i. (i, ls ! (i - n))) [n..<2 * n]"
      by (rule nth_equalityI) (simp_all add: ls C(1))
    then have "set (zip [n..<2 * n] ls) = (\<lambda>i. (i, ls ! (i - n))) ` {n..<2 * n}" by simp
    also have "\<dots> = set (leaf_depths 0 t)"
    proof (intro set_eqI iffI)
      fix p assume "p \<in> (\<lambda>i. (i, ls ! (i - n))) ` {n..<2 * n}"
      then obtain i where i: "i \<in> {n..<2 * n}" "p = (i, ls ! (i - n))" by blast
      then obtain d where "(i, d) \<in> set (leaf_depths 0 t)" unfolding fst [symmetric] by auto
      then show "p \<in> set (leaf_depths 0 t)" using val(1) i(2) by metis
    next
      fix p assume p: "p \<in> set (leaf_depths 0 t)"
      obtain i d where "p = (i, d)" by (cases p)
      then show "p \<in> (\<lambda>i. (i, ls ! (i - n))) ` {n..<2 * n}" using val [of i d] p by auto
    qed
    finally show ?thesis by simp
  qed
  moreover have "distinct (leaf_depths 0 t)"
    by (metis B(2) distinct_map leaves_distinct map_fst_leaf_depths)
  moreover have "distinct (zip [n..<2 * n] ls)" by (simp add: distinct_zipI1)
  ultimately have "mset (leaf_depths 0 t) = mset (zip [n..<2 * n] ls)"
    by (simp add: set_eq_iff_mset_eq_distinct)
  moreover have "length ls = n" using C(1) by (simp add: ls)
  ultimately show ?thesis using t(2) ts(2) by metis
qed

end

lemma mset_sum_list: "mset xs = mset ys \<Longrightarrow> (\<Sum>x \<leftarrow> xs. f x) = (\<Sum>x \<leftarrow> ys. f x :: 'a :: comm_monoid_add)"
  by (metis mset_map sum_mset_sum_list)

lemma zip_shift: "zip [n..<2 * n] (ls :: 'b list) = map (\<lambda>(i, l). (n + i, l)) (zip [0..<n] ls)"
proof -
  have "[n..<2 * n] = map (\<lambda>i. n + i) [0..<n]" by (simp add: map_add_upt add.commute mult_2)
  then show ?thesis by (simp add: zip_map1)
qed

theorem huffman_kraft:
  assumes "min_heap is_heap heapify pop push" "CalcLengths heapify pop push weights = Some ls"
    "2 \<le> length weights"
  shows "length ls = length weights \<and> (\<Sum>l \<leftarrow> ls. (1 / 2 :: real) ^ l) = 1"
proof -
  let ?n = "length weights"
  from min_heap.lengths_tree [OF assms] obtain t where
    t: "mset (leaf_depths 0 t) = mset (zip [?n..<2 * ?n] ls)" "length ls = ?n" by blast
  have "1 = (\<Sum>(i, d) \<leftarrow> leaf_depths 0 t. (1 / 2 :: real) ^ d)" using kraft_tree [of 0 t] by simp
  also have "\<dots> = (\<Sum>(i, d) \<leftarrow> zip [?n..<2 * ?n] ls. (1 / 2) ^ d)" by (rule mset_sum_list [OF t(1)])
  also have "\<dots> = (\<Sum>d \<leftarrow> map snd (zip [?n..<2 * ?n] ls). (1 / 2) ^ d)"
    by (simp add: case_prod_beta' comp_def)
  also have "map snd (zip [?n..<2 * ?n] ls) = ls" using t(2) by simp
  finally show ?thesis using t(2) by simp
qed

theorem huffman_optimal:
  assumes "min_heap is_heap heapify pop push" "CalcLengths heapify pop push weights = Some ls"
    "length ls' = length weights" "\<forall>l \<in> set ls'. 0 < l" "(\<Sum>l \<leftarrow> ls'. (1 / 2 :: real) ^ l) \<le> 1"
  shows "(\<Sum>(w, l) \<leftarrow> zip weights ls. w * l) \<le> (\<Sum>(w, l) \<leftarrow> zip weights ls'. w * l)"
proof (cases "2 \<le> length weights")
  case True
  let ?n = "length weights" and ?w = "\<lambda>i. weights ! (i - length weights)"
  from min_heap.lengths_tree [OF assms(1,2) True] obtain t where
    t: "(join_step ?w)\<^sup>*\<^sup>* (mset (map Leaf [?n..<2 * ?n])) {#t#}"
      "mset (leaf_depths 0 t) = mset (zip [?n..<2 * ?n] ls)" "length ls = ?n" by blast
  have sum: "(\<Sum>(i, d) \<leftarrow> zip [?n..<2 * ?n] xs. ?w i * d) = (\<Sum>(w, l) \<leftarrow> zip weights xs. w * l)"
    if "length xs = ?n" for xs
  proof -
    have "map (\<lambda>(i, d). ?w i * d) (zip [?n..<2 * ?n] xs) = map (\<lambda>(w, l). w * l) (zip weights xs)"
      using that by (intro nth_equalityI) simp_all
    then show ?thesis by simp
  qed
  define P where "P = mset (zip weights ls')"
  have "kraft P"
  proof -
    have "(\<Sum>p \<in># P. (1 / 2 :: real) ^ snd p) = (\<Sum>l \<leftarrow> map snd (zip weights ls'). (1 / 2) ^ l)"
      by (simp add: P_def sum_mset_sum_list comp_def flip: mset_map)
    then show ?thesis using assms(3,5) by (simp add: kraft_def)
  qed
  moreover have "image_mset fst P = image_mset (weight_of ?w) (mset (map Leaf [?n..<2 * ?n]))"
  proof -
    have "map ?w [?n..<2 * ?n] = weights" by (intro nth_equalityI) simp_all
    then show ?thesis using assms(3) by (simp add: P_def comp_def flip: mset_map)
  qed
  ultimately have "cost ?w t \<le> total_cost P + (\<Sum>s \<in># mset (map Leaf [?n..<2 * ?n]). cost ?w s)"
    by (rule join_optimal [OF t(1)])
  moreover have "(\<Sum>s \<in># mset (map Leaf xs). cost ?w s) = 0" for xs by (induction xs) auto
  ultimately have "cost ?w t \<le> total_cost P" by (simp only: add_0_right)
  moreover have "cost ?w t = (\<Sum>(w, l) \<leftarrow> zip weights ls. w * l)"
    using cost_tree [of ?w 0 t] mset_sum_list [OF t(2), of "\<lambda>(i, d). ?w i * d"] sum [OF t(3)] by simp
  moreover have "total_cost P = (\<Sum>(w, l) \<leftarrow> zip weights ls'. w * l)"
    by (simp add: total_cost_def P_def sum_mset_sum_list case_prod_beta' flip: mset_map)
  ultimately show ?thesis by simp
next
  case False
  moreover have "weights \<noteq> []" using assms(2) by (auto simp: CalcLengths_def)
  ultimately have "length weights = 1" by (cases weights; cases "tl weights") auto
  then obtain w l where "weights = [w]" "ls' = [l]" using assms(3) by (auto simp: length_Suc_conv)
  moreover from this have "ls = [1]" using assms(2) by (simp add: CalcLengths_def)
  ultimately show ?thesis using assms(4) by (cases l) auto
qed

end
