(* ===== verification/Bit_Wrapper.thy ===== *)
theory Bit_Wrapper imports Prelude "HOL-Library.Word" begin

unbundle bit_operations_syntax

text \<open>The bit stream of the lemmatizer's dictionary (class BitWrapper of
  tools/lemmatizers/lamerlemma/canonical_huffman.hpp) over a string of characters, least
  significant bit first.  Shifting a character is the arithmetic shift of its signed type.\<close>

section \<open>State and operations\<close>

record bit_wrapper =
  m_data :: "8 word list"
  m_iterator :: nat
  m_currentValue :: "8 word"
  m_bitPos :: nat

definition newBitWrapper :: "8 word list \<Rightarrow> bit_wrapper" where
  "newBitWrapper data = \<lparr>m_data = data, m_iterator = 0, m_currentValue = 0, m_bitPos = 0\<rparr>"

definition bw_Read :: "bit_wrapper \<Rightarrow> bool \<times> bit_wrapper" where
  "bw_Read bw =
     (let bw = (if m_bitPos bw mod 8 = 0
                then (if m_iterator bw \<noteq> length (m_data bw)
                      then bw\<lparr>m_currentValue := m_data bw ! m_iterator bw,
                              m_iterator := m_iterator bw + 1\<rparr>
                      else bw)
                else bw\<lparr>m_currentValue := signed_drop_bit 1 (m_currentValue bw)\<rparr>);
          bw = bw\<lparr>m_bitPos := m_bitPos bw + 1\<rparr>
      in (m_currentValue bw AND 1 \<noteq> 0, bw))"

definition bw_Put :: "bool \<Rightarrow> bit_wrapper \<Rightarrow> bit_wrapper" where
  "bw_Put b bw =
     (let bw = (if m_bitPos bw mod 8 = 0 then bw\<lparr>m_data := m_data bw @ [0]\<rparr> else bw);
          bw = (if b
                then bw\<lparr>m_data := (m_data bw)[length (m_data bw) - 1 :=
                       (m_data bw ! (length (m_data bw) - 1)) OR push_bit (m_bitPos bw mod 8) 1]\<rparr>
                else bw)
      in bw\<lparr>m_bitPos := m_bitPos bw + 1\<rparr>)"

definition bw_Tell :: "bit_wrapper \<Rightarrow> nat" where
  "bw_Tell bw = m_bitPos bw"

definition bw_TellFromEnd :: "bit_wrapper \<Rightarrow> nat" where
  "bw_TellFromEnd bw =
     (if length (m_data bw) * 8 < m_bitPos bw then 0 else length (m_data bw) * 8 - m_bitPos bw)"

text \<open>Seeking uses the position before the bit, so that position 0 has no byte to go to, and a
  position past the end dereferences the end of the data.\<close>

definition bw_Seek :: "nat \<Rightarrow> bit_wrapper \<Rightarrow> bit_wrapper option" where
  "bw_Seek bitPos bw =
     (if bitPos = 0 \<or> (bitPos - 1) div 8 \<ge> length (m_data bw) then None
      else Some (bw\<lparr>m_bitPos := bitPos, m_iterator := (bitPos - 1) div 8 + 1,
                    m_currentValue := signed_drop_bit ((bitPos - 1) mod 8) (m_data bw ! ((bitPos - 1) div 8))\<rparr>))"

definition bw_SeekFromEnd :: "nat \<Rightarrow> bit_wrapper \<Rightarrow> bit_wrapper option" where
  "bw_SeekFromEnd bitPosFromEnd bw = bw_Seek (length (m_data bw) * 8 - bitPosFromEnd) bw"

definition bw_Reset :: "bit_wrapper \<Rightarrow> bit_wrapper" where
  "bw_Reset bw = bw\<lparr>m_iterator := 0, m_currentValue := 0, m_bitPos := 0\<rparr>"

definition bw_GetContainer :: "bit_wrapper \<Rightarrow> 8 word list" where
  "bw_GetContainer bw = m_data bw"

section \<open>Bits of the data\<close>

definition data_bit :: "8 word list \<Rightarrow> nat \<Rightarrow> bool" where
  "data_bit data k = bit (data ! (k div 8)) (k mod 8)"

text \<open>A wrapper that has written the bits \<open>bs\<close>.\<close>

definition written :: "bool list \<Rightarrow> bit_wrapper \<Rightarrow> bool" where
  "written bs bw \<longleftrightarrow> m_bitPos bw = length bs \<and> length (m_data bw) = (length bs + 7) div 8 \<and>
     (\<forall>k < 8 * length (m_data bw). data_bit (m_data bw) k \<longleftrightarrow> k < length bs \<and> bs ! k)"

lemma written_new: "written [] (newBitWrapper [])"
  by (simp add: written_def newBitWrapper_def)

lemma written_put:
  assumes "written bs bw"
  shows "written (bs @ [b]) (bw_Put b bw)"
proof -
  define n where "n = length bs"
  define d where "d = (if n mod 8 = 0 then m_data bw @ [0] else m_data bw)"
  define d' where "d' = (if b then d[length d - 1 := (d ! (length d - 1)) OR push_bit (n mod 8) 1] else d)"
  have bw: "m_bitPos bw = n" "length (m_data bw) = (n + 7) div 8"
    and bits: "\<And>k. k < 8 * length (m_data bw) \<Longrightarrow> data_bit (m_data bw) k \<longleftrightarrow> k < n \<and> bs ! k"
    using assms by (auto simp: written_def n_def)
  have put: "m_bitPos (bw_Put b bw) = n + 1" "m_data (bw_Put b bw) = d'"
    by (simp_all add: bw_Put_def Let_def bw d_def d'_def)
  have len: "length d = n div 8 + 1" "length d' = n div 8 + 1"
  proof -
    show "length d = n div 8 + 1"
    proof (cases "n mod 8 = 0")
      case True
      then have "(n + 7) div 8 = n div 8" by presburger
      then show ?thesis using True bw by (simp add: d_def)
    next
      case False
      then have "(n + 7) div 8 = n div 8 + 1" by presburger
      then show ?thesis using False bw by (simp add: d_def)
    qed
    then show "length d' = n div 8 + 1" by (simp add: d'_def)
  qed
  have dbits: "data_bit d k \<longleftrightarrow> k < n \<and> bs ! k" if "k < 8 * length d" for k
  proof (cases "k < 8 * length (m_data bw)")
    case True
    then have "data_bit d k = data_bit (m_data bw) k"
      by (auto simp: d_def data_bit_def nth_append less_mult_imp_div_less mult.commute)
    then show ?thesis using bits [OF True] by simp
  next
    case False
    then have z: "n mod 8 = 0" using that by (auto simp: d_def split: if_splits)
    then have "n \<le> k" using False bw(2) by presburger
    moreover have "k div 8 = length (m_data bw)"
      using False that z by (simp add: d_def div_nat_eqI)
    ultimately show ?thesis using z by (simp add: d_def data_bit_def nth_append)
  qed
  have "data_bit d' k \<longleftrightarrow> k < n + 1 \<and> (bs @ [b]) ! k" if k: "k < 8 * length d'" for k
  proof (cases "k div 8 = n div 8")
    case True
    have "bit (push_bit (n mod 8) 1 :: 8 word) (k mod 8) \<longleftrightarrow> k mod 8 = n mod 8"
      unfolding bit_push_bit_iff bit_1_iff by auto
    moreover have "k mod 8 = n mod 8 \<longleftrightarrow> k = n"
      using True by (metis div_mult_mod_eq)
    ultimately have "data_bit d' k \<longleftrightarrow> data_bit d k \<or> b \<and> k = n"
      using True len by (auto simp: d'_def data_bit_def bit_or_iff)
    then show ?thesis using dbits [of k] k len by (auto simp: nth_append n_def)
  next
    case False
    then have "data_bit d' k = data_bit d k"
      using len by (auto simp: d'_def data_bit_def)
    moreover have "k \<noteq> n" using False by auto
    ultimately show ?thesis using dbits [of k] k len by (auto simp: nth_append n_def)
  qed
  moreover have "(n + 1 + 7) div 8 = n div 8 + 1" by presburger
  ultimately show ?thesis
    unfolding written_def put using len by (simp add: n_def)
qed

text \<open>A wrapper about to read the bit \<open>p\<close> of \<open>data\<close>.\<close>

definition reading :: "8 word list \<Rightarrow> nat \<Rightarrow> bit_wrapper \<Rightarrow> bool" where
  "reading data p bw \<longleftrightarrow> m_data bw = data \<and> m_bitPos bw = p \<and> p \<le> 8 * length data \<and>
     m_iterator bw = (p + 7) div 8 \<and>
     (p mod 8 \<noteq> 0 \<longrightarrow> m_currentValue bw = signed_drop_bit ((p - 1) mod 8) (data ! (p div 8)))"

lemma reading_new: "reading data 0 (newBitWrapper data)"
  by (simp add: reading_def newBitWrapper_def)

lemma reading_reset: "reading data p bw \<Longrightarrow> reading data 0 (bw_Reset bw)"
  by (simp add: reading_def bw_Reset_def)

lemma and_one_bit: "(w AND 1 \<noteq> (0 :: 8 word)) = bit w 0"
  by (simp add: and_one_eq bit_0 odd_iff_mod_2_eq_one)

lemma signed_drop_bit_0_bit: "k < 8 \<Longrightarrow> bit (signed_drop_bit k (w :: 8 word)) 0 = bit w k"
  by (simp add: bit_signed_drop_bit_iff)

lemma reading_read:
  assumes "reading data p bw" "p < 8 * length data"
  shows "fst (bw_Read bw) = data_bit data p \<and> reading data (p + 1) (snd (bw_Read bw))"
proof -
  define q r where "q = p div 8" and "r = p mod 8"
  have p: "p = 8 * q + r" "r < 8" by (simp_all add: q_def r_def)
  have q: "q < length data" using assms(2) p by simp
  have bw: "m_data bw = data" "m_bitPos bw = 8 * q + r" "m_iterator bw = q + (r + 7) div 8"
    using assms(1) p by (auto simp: reading_def)
  show ?thesis
  proof (cases "r = 0")
    case True
    moreover have "Suc (8 * q) div 8 = q" by presburger
    ultimately show ?thesis
      using bw q p(1) and_one_bit by (simp add: bw_Read_def Let_def reading_def data_bit_def)
  next
    case False
    then obtain s where s: "r = Suc s" "s < 7" using p(2) by (cases r) auto
    have cur: "m_currentValue bw = signed_drop_bit s (data ! q)"
    proof -
      have "p - 1 = 8 * q + s" using p(1) s(1) by simp
      then have "(p - 1) mod 8 = s" using s(2) by simp
      moreover have "p mod 8 = Suc s" using s(1) unfolding r_def .
      ultimately show ?thesis using assms(1) unfolding reading_def q_def by simp
    qed
    have "signed_drop_bit 1 (signed_drop_bit s (data ! q)) = signed_drop_bit r (data ! q)"
      using s(1) by (simp add: signed_drop_bit_signed_drop_bit)
    then have read: "bw_Read bw = (bit (data ! q) r, bw\<lparr>m_currentValue := signed_drop_bit r (data ! q),
        m_bitPos := p + 1\<rparr>)"
      using bw cur s p signed_drop_bit_0_bit [of r "data ! q"]
      by (simp add: bw_Read_def Let_def and_one_bit)
    have "(r + 7) div 8 = 1" using s by simp
    then have "m_iterator bw = (p + 1 + 7) div 8" using bw(3) p(1) s by simp
    moreover have "(p + 1) div 8 = q" if "(p + 1) mod 8 \<noteq> 0"
    proof -
      have e: "p + 1 = 8 * q + (s + 2)" using p(1) s(1) by simp
      have "s \<noteq> 6" using that unfolding e by (intro notI) simp
      then have "s + 2 < 8" using s(2) by simp
      then show ?thesis unfolding e by simp
    qed
    moreover have "p mod 8 = r" by (simp add: r_def)
    ultimately show ?thesis
      using read bw(1) assms(2) p by (simp add: reading_def data_bit_def)
  qed
qed

lemma reading_seek:
  assumes "0 < p" "p \<le> 8 * length (m_data bw)"
  shows "\<exists>bw'. bw_Seek p bw = Some bw' \<and> reading (m_data bw) p bw'"
proof -
  have "(p - 1) div 8 < length (m_data bw)" using assms by auto
  moreover obtain s where s: "p = Suc s" using assms(1) by (cases p) auto
  moreover have "p mod 8 \<noteq> 0 \<Longrightarrow> s div 8 = p div 8" using s by (simp add: div_Suc)
  ultimately show ?thesis
    using assms by (auto simp: bw_Seek_def reading_def)
qed

text \<open>Reading from any position sees the bits that were put, and zeros up to the byte boundary.\<close>

lemma written_bit:
  "written bs bw \<Longrightarrow> k < length bs \<Longrightarrow> data_bit (m_data bw) k = bs ! k"
  by (simp add: written_def)

end
