(* ===== verification/Huffman_Codes.thy ===== *)
theory Huffman_Codes imports Canonical_Huffman Bit_Wrapper "HOL-Library.Code_Target_Numeral" begin

text \<open>The codes of the canonical Huffman coder of the lemmatizer
  (tools/lemmatizers/lamerlemma/canonical_huffman.hpp): from the lengths of the symbols to first
  codes and indices, the table for encoding, and writing and reading symbols through a bit stream.
  Codes are 64-bit numbers.\<close>

section \<open>Codes from lengths\<close>

record 'a coder =
  m_symbols :: "'a list"
  m_firstCodes :: "nat list"
  m_lengthIndex :: "nat list"
  m_encodeMap :: "'a \<rightharpoonup> nat \<times> nat"

definition count_length :: "nat list \<Rightarrow> nat \<Rightarrow> nat list" where
  "count_length numLength l =
     (let numLength = (if length numLength \<le> l
                       then numLength @ replicate (l + 1 - length numLength) 0 else numLength)
      in numLength[l := numLength ! l + 1])"

definition length_indices :: "nat list \<Rightarrow> nat list" where
  "length_indices numLength =
     foldl (\<lambda>idx l. idx[l := idx ! (l - 1) + numLength ! (l - 1)])
       (replicate (length numLength) 0) [1..<length numLength]"

definition first_codes :: "nat list \<Rightarrow> nat list" where
  "first_codes numLength =
     (let maxLength = length numLength - 1
      in foldl (\<lambda>codes l. codes[l := (codes ! (l + 1) + numLength ! (l + 1)) mod 2 ^ 64 div 2])
           (replicate (maxLength + 1) 0) (rev [1..<maxLength]))"

definition place_symbol ::
  "nat list \<Rightarrow> nat list \<Rightarrow> 'a list \<times> nat list \<Rightarrow> 'a \<times> nat \<Rightarrow> 'a list \<times> nat list" where
  "place_symbol idx firstCodes st entry =
     (let (t_symbols, nextCode) = st; (data, l) = entry;
          pos = idx ! l + (nextCode ! l - firstCodes ! l)
      in (t_symbols[pos := data], nextCode[l := nextCode ! l + 1]))"

text \<open>\<open>blank\<close> is the default symbol that the new vector is filled with.\<close>

definition CalcCodes :: "'a \<Rightarrow> 'a list \<Rightarrow> nat list \<Rightarrow> 'a coder" where
  "CalcCodes blank symbols lengths =
     (let numLength = foldl count_length [] lengths;
          idx = length_indices numLength;
          codes = first_codes numLength;
          (t_symbols, nextCode) =
            foldl (place_symbol idx codes) (replicate (length lengths) blank, codes) (zip symbols lengths)
      in \<lparr>m_symbols = t_symbols, m_firstCodes = codes, m_lengthIndex = idx, m_encodeMap = Map.empty\<rparr>)"

definition code_map_entries :: "'a coder \<Rightarrow> nat \<Rightarrow> ('a \<times> nat \<times> nat) list" where
  "code_map_entries c l =
     (let idx = m_lengthIndex c;
          num = (if l + 1 < length idx then idx ! (l + 1) else length (m_symbols c)) - idx ! l
      in map (\<lambda>i. (m_symbols c ! (idx ! l + i), l, i)) [0..<num])"

definition CreateCodeMap :: "'a coder \<Rightarrow> 'a coder" where
  "CreateCodeMap c =
     c\<lparr>m_encodeMap := foldl (\<lambda>m (data, code). m(data \<mapsto> code)) (m_encodeMap c)
         (concat (map (code_map_entries c) [1..<length (m_lengthIndex c)]))\<rparr>"

definition CanonicalHuffman ::
  "heap_fun \<Rightarrow> heap_fun \<Rightarrow> heap_fun \<Rightarrow> 'a \<Rightarrow> ('a \<times> nat) list \<Rightarrow> bool \<Rightarrow> 'a coder option" where
  "CanonicalHuffman heapify pop push blank entries forEncoding =
     (case CalcLengths heapify pop push (map snd entries) of
        None \<Rightarrow> None
      | Some lengths \<Rightarrow>
          let c = CalcCodes blank (map fst entries) lengths
          in Some (if forEncoding then CreateCodeMap c else c))"

section \<open>Encoding and decoding\<close>

text \<open>Looking up a symbol that is not in the table enters it with the empty code.\<close>

definition encode_entry :: "'a coder \<Rightarrow> 'a \<Rightarrow> (nat \<times> nat) \<times> 'a coder" where
  "encode_entry c data =
     (case m_encodeMap c data of
        Some code \<Rightarrow> (code, c)
      | None \<Rightarrow> ((0, 0), c\<lparr>m_encodeMap := (m_encodeMap c)(data \<mapsto> (0, 0))\<rparr>))"

definition ch_Put :: "'a coder \<Rightarrow> 'a \<Rightarrow> bit_wrapper \<Rightarrow> 'a coder \<times> bit_wrapper" where
  "ch_Put c data bw =
     (let ((l, i), c) = encode_entry c data;
          intCode = (m_firstCodes c ! l + i) mod 2 ^ 64
      in (c, foldl (\<lambda>bw j. bw_Put (intCode div 2 ^ j mod 2 = 1) bw) bw (rev [0..<l])))"

text \<open>The loop of \<open>Read\<close>; \<open>None\<close> is an access past the end of the first codes.\<close>

function read_code :: "nat list \<Rightarrow> nat \<Rightarrow> nat \<Rightarrow> bit_wrapper \<Rightarrow> (nat \<times> nat \<times> bit_wrapper) option" where
  "read_code firstCodes intCode len bw =
     (if length firstCodes \<le> len then None
      else if intCode < firstCodes ! len then
        let (b, bw) = bw_Read bw
        in read_code firstCodes ((2 * intCode + of_bool b) mod 2 ^ 64) (len + 1) bw
      else Some (intCode, len, bw))"
  by pat_completeness auto
termination by (relation "measure (\<lambda>(F, c, len, bw). length F - len)") auto

declare read_code.simps [simp del]

text \<open>The outer option is \<open>None\<close> for an access outside a vector, the inner one is the result at the
  end of the data.\<close>

definition ch_Read :: "'a coder \<Rightarrow> bit_wrapper \<Rightarrow> ('a option \<times> bit_wrapper) option" where
  "ch_Read c bw =
     (if bw_TellFromEnd bw \<noteq> 0 then
        let (b, bw) = bw_Read bw
        in case read_code (m_firstCodes c) (of_bool b) 1 bw of
             None \<Rightarrow> None
           | Some (intCode, len, bw) \<Rightarrow>
               let k = m_lengthIndex c ! len + (intCode - m_firstCodes c ! len)
               in if k < length (m_symbols c) then Some (Some (m_symbols c ! k), bw) else None
      else Some (None, bw))"

text \<open>A text is written and read symbol by symbol.\<close>

fun put_all :: "'a coder \<Rightarrow> 'a list \<Rightarrow> bit_wrapper \<Rightarrow> 'a coder \<times> bit_wrapper" where
  "put_all c [] bw = (c, bw)"
| "put_all c (x # xs) bw = (let (c, bw) = ch_Put c x bw in put_all c xs bw)"

fun read_all :: "'a coder \<Rightarrow> nat \<Rightarrow> bit_wrapper \<Rightarrow> 'a list option" where
  "read_all c 0 bw = Some []"
| "read_all c (Suc n) bw =
     (case ch_Read c bw of
        Some (Some x, bw) \<Rightarrow> Option.bind (read_all c n bw) (\<lambda>xs. Some (x # xs))
      | _ \<Rightarrow> None)"

section \<open>Numbers of codes\<close>

definition with_length :: "nat \<Rightarrow> nat list \<Rightarrow> nat" where
  "with_length l ls = length (filter ((=) l) ls)"

lemma with_length_simps [simp]: "with_length l [] = 0"
  "with_length l (ls @ [k]) = with_length l ls + (if l = k then 1 else 0)"
  "with_length l (k # ls) = (if l = k then Suc (with_length l ls) else with_length l ls)"
  by (simp_all add: with_length_def)

definition max_length :: "nat list \<Rightarrow> nat" where
  "max_length ls = fold max ls 0"

lemma max_length_snoc [simp]: "max_length [] = 0" "max_length [k] = k" "max_length (ls @ [l]) = max l (max_length ls)"
  by (simp_all add: max_length_def)

lemma max_length_ge: "l \<in> set ls \<Longrightarrow> l \<le> max_length ls"
  by (induction ls rule: rev_induct) auto

lemma max_length_in: "ls \<noteq> [] \<Longrightarrow> max_length ls \<in> set ls"
proof (induction ls rule: rev_induct)
  case (snoc l ls)
  then show ?case by (cases "ls = []") (auto simp: max_def)
qed simp

lemma count_lengths:
  "ls \<noteq> [] \<Longrightarrow> length (foldl count_length [] ls) = Suc (max_length ls) \<and>
     (\<forall>l \<le> max_length ls. foldl count_length [] ls ! l = with_length l ls)"
proof (induction ls rule: rev_induct)
  case (snoc k ls)
  have "with_length l ls = 0" if "max_length ls < l" for l
    using that max_length_ge [of l ls] by (auto simp: with_length_def filter_empty_conv)
  then show ?case
  proof (cases "ls = []")
    case True
    then show ?thesis
      by (auto simp: count_length_def Let_def nth_list_update simp del: replicate_Suc)
  next
    case False
    then show ?thesis
      using snoc.IH \<open>\<And>l. max_length ls < l \<Longrightarrow> with_length l ls = 0\<close>
      by (auto simp: count_length_def Let_def nth_append nth_list_update max_def)
  qed
qed simp

lemma length_indices:
  assumes "1 \<le> m" "m \<le> length num"
  shows "length (foldl (\<lambda>idx l. idx[l := idx ! (l - 1) + num ! (l - 1)]) (replicate (length num) 0) [1..<m]) = length num
    \<and> (\<forall>l < m. foldl (\<lambda>idx l. idx[l := idx ! (l - 1) + num ! (l - 1)]) (replicate (length num) 0) [1..<m] ! l =
        (\<Sum>k < l. num ! k :: nat))"
  using assms
proof (induction m rule: dec_induct)
  case (step m)
  then show ?case
    by (cases m) (auto simp: nth_list_update less_Suc_eq)
qed (cases num, auto)

section \<open>First codes\<close>

text \<open>The numbers of symbols per length leave exactly one tree, so that the halving is exact and the
  codes of every length fit.\<close>

definition canonical :: "nat list \<Rightarrow> nat list \<Rightarrow> bool" where
  "canonical num F \<longleftrightarrow> length F = length num \<and> 2 \<le> length num \<and> F ! (length num - 1) = 0 \<and>
     (\<forall>l. 1 \<le> l \<and> l < length num - 1 \<longrightarrow> 2 * (F ! l) = F ! (l + 1) + num ! (l + 1)) \<and>
     (\<forall>l. 1 \<le> l \<and> l < length num \<longrightarrow> F ! l + num ! l \<le> 2 ^ l)"

lemma suffix_even:
  assumes "(\<Sum>m \<le> M. num m * 2 ^ (M - m)) = (2 :: nat) ^ M" "k < M"
    "x * 2 ^ (M - Suc k) = (\<Sum>m = Suc k..M. num m * 2 ^ (M - m))"
  shows "even x" "x \<le> 2 ^ Suc k"
proof -
  have split: "{..M} = {..k} \<union> {Suc k..M}" using assms(2) by auto
  have sum: "(\<Sum>m \<le> k. num m * 2 ^ (M - m)) + x * 2 ^ (M - Suc k) = 2 ^ M"
    using assms(1) unfolding split assms(3) by (subst (asm) sum.union_disjoint) auto
  have p: "(2 :: nat) ^ (M - k) = 2 * 2 ^ (M - Suc k)"
    using assms(2) by (metis Suc_diff_Suc power_Suc)
  have "2 ^ (M - k) dvd (\<Sum>m \<le> k. num m * 2 ^ (M - m))"
    by (intro dvd_sum dvd_mult le_imp_power_dvd) auto
  moreover have "(2 :: nat) ^ (M - k) dvd 2 ^ M" by (intro le_imp_power_dvd) auto
  ultimately have "2 ^ (M - k) dvd x * 2 ^ (M - Suc k)"
    unfolding sum [symmetric] by (simp add: dvd_add_right_iff)
  then show "even x" unfolding p by simp
  have "(2 :: nat) ^ M = 2 ^ Suc k * 2 ^ (M - Suc k)"
    using assms(2) by (metis Suc_leI le_add_diff_inverse power_add)
  then have "x * 2 ^ (M - Suc k) \<le> 2 ^ Suc k * 2 ^ (M - Suc k)"
    using sum by linarith
  then show "x \<le> 2 ^ Suc k" by simp
qed

lemma first_codes_canonical:
  assumes "2 \<le> length num" "length num \<le> 64" "num ! 0 = 0"
    "(\<Sum>m \<le> length num - 1. num ! m * 2 ^ (length num - 1 - m)) = 2 ^ (length num - 1)"
  shows "canonical num (first_codes num) \<and> first_codes num ! 1 + num ! 1 = 2"
proof -
  define M where "M = length num - 1"
  have M: "length num = Suc M" "1 \<le> M" "M \<le> 63" using assms(1,2) by (auto simp: M_def)
  define step where "step = (\<lambda>F l. F[l := (F ! (l + 1) + num ! (l + 1)) mod 2 ^ 64 div 2 :: nat])"
  define R where "R k = foldl step (replicate (M + 1) 0) (rev [k..<M])" for k
  let ?S = "\<lambda>l. \<Sum>m = l..M. num ! m * 2 ^ (M - m)"
  have total: "(\<Sum>m \<le> M. num ! m * 2 ^ (M - m)) = 2 ^ M" using assms(4) unfolding M_def .
  have main: "length (R k) = Suc M \<and> R k ! M = 0 \<and>
      (\<forall>l. k \<le> l \<and> l < M \<longrightarrow> 2 * (R k ! l) = R k ! (l + 1) + num ! (l + 1)) \<and>
      (\<forall>l. k \<le> l \<and> l \<le> M \<longrightarrow> (R k ! l + num ! l) * 2 ^ (M - l) = ?S l)"
    if "1 \<le> k" "k \<le> M" for k
    using that(2,1)
  proof (induction k rule: inc_induct)
    case base
    have "replicate (M + 1) (0 :: nat) ! M = 0" by (simp del: replicate_Suc add: nth_replicate)
    moreover have "l = M" if "M \<le> l \<and> l \<le> M" for l using that by simp
    ultimately show ?case by (auto simp: R_def simp del: replicate_Suc)
  next
    case (step k)
    have r: "R k = (R (Suc k))[k := (R (Suc k) ! Suc k + num ! Suc k) mod 2 ^ 64 div 2]"
      using step.hyps by (simp add: R_def step_def upt_rec [of k])
    let ?x = "R (Suc k) ! Suc k + num ! Suc k"
    have IH: "length (R (Suc k)) = Suc M" "R (Suc k) ! M = 0"
      "\<And>l. Suc k \<le> l \<Longrightarrow> l < M \<Longrightarrow> 2 * (R (Suc k) ! l) = R (Suc k) ! (l + 1) + num ! (l + 1)"
      "\<And>l. Suc k \<le> l \<Longrightarrow> l \<le> M \<Longrightarrow> (R (Suc k) ! l + num ! l) * 2 ^ (M - l) = ?S l"
      using step.IH by auto
    have x: "even ?x" "?x \<le> 2 ^ Suc k"
      using suffix_even [OF total step.hyps(2) IH(4)] step.hyps by auto
    have "(2 :: nat) ^ Suc k \<le> 2 ^ 63" using step.hyps M by (intro power_increasing) auto
    then have "?x < 2 ^ 64" using x(2) by simp
    then have half: "R k = (R (Suc k))[k := ?x div 2]" unfolding r by simp
    have k: "2 * (R k ! k) = ?x" using x(1) IH(1) step.hyps by (simp add: half)
    have same: "R k ! l = R (Suc k) ! l" if "Suc k \<le> l" for l using that by (simp add: half)
    have "(R k ! k + num ! k) * 2 ^ (M - k) = ?S k"
    proof -
      have p: "(2 :: nat) ^ (M - k) = 2 * 2 ^ (M - Suc k)"
        using step.hyps by (metis Suc_diff_Suc power_Suc)
      have "R k ! k * 2 ^ (M - k) = ?x * 2 ^ (M - Suc k)" unfolding p k [symmetric] by simp
      then have "R k ! k * 2 ^ (M - k) = ?S (Suc k)" using IH(4) [of "Suc k"] step.hyps by simp
      then show ?thesis using step.hyps by (simp add: distrib_right sum.atLeast_Suc_atMost)
    qed
    then have "(R k ! l + num ! l) * 2 ^ (M - l) = ?S l" if "k \<le> l" "l \<le> M" for l
      using IH(4) [of l] same [of l] that by (cases "l = k") auto
    moreover have "2 * (R k ! l) = R k ! (l + 1) + num ! (l + 1)" if "k \<le> l" "l < M" for l
      using IH(3) [of l] same [of l] same [of "l + 1"] k that by (cases "l = k") auto
    moreover have "length (R k) = Suc M" "R k ! M = 0"
      using IH(1,2) same [of M] step.hyps by (auto simp: half)
    ultimately show ?case by blast
  qed
  have R1: "first_codes num = R 1" by (simp add: first_codes_def R_def step_def M_def Let_def)
  have "R 1 ! l + num ! l \<le> 2 ^ l" if "1 \<le> l" "l \<le> M" for l
  proof -
    have "l = Suc (l - 1)" using that(1) by simp
    then obtain k where "l = Suc k" by blast
    then show ?thesis
      using suffix_even(2) [OF total, of k "R 1 ! l + num ! l"] main [of 1] that M(2) by auto
  qed
  then have "canonical num (R 1)"
    unfolding canonical_def using main [of 1] M by auto
  moreover have "R 1 ! 1 + num ! 1 = 2"
  proof -
    have "(R 1 ! 1 + num ! 1) * 2 ^ (M - 1) = (\<Sum>m \<le> M. num ! m * 2 ^ (M - m))"
      using main [of 1] M assms(3) by (simp add: atMost_atLeast0 sum.atLeast_Suc_atMost [of 0 M])
    also have "\<dots> = 2 * 2 ^ (M - 1)" using total M(2) by (cases M) auto
    finally show ?thesis by simp
  qed
  ultimately show ?thesis unfolding R1 by blast
qed

text \<open>From the equality of Kraft, or for a single symbol.\<close>

lemma lengths_canonical:
  assumes "ls = [1] \<or> (\<Sum>l \<leftarrow> ls. (1 / 2 :: real) ^ l) = 1 \<and> (\<forall>l \<in> set ls. 0 < l)" "max_length ls \<le> 63"
  shows "canonical (foldl count_length [] ls) (first_codes (foldl count_length [] ls)) \<and>
    (ls \<noteq> [1] \<longrightarrow> first_codes (foldl count_length [] ls) ! 1 + foldl count_length [] ls ! 1 = 2)"
proof (cases "ls = [1]")
  case True
  then show ?thesis
    by (auto simp: canonical_def first_codes_def count_length_def numeral_2_eq_2 less_Suc_eq)
next
  case False
  then have kraft: "(\<Sum>l \<leftarrow> ls. (1 / 2 :: real) ^ l) = 1" and pos: "\<forall>l \<in> set ls. 0 < l" using assms(1) by auto
  then have ne: "ls \<noteq> []" by auto
  define num where "num = foldl count_length [] ls"
  define M where "M = max_length ls"
  have num: "length num = Suc M" "\<And>l. l \<le> M \<Longrightarrow> num ! l = with_length l ls"
    using count_lengths [OF ne] by (simp_all add: num_def M_def)
  have "0 < M" using max_length_in [OF ne] pos by (simp add: M_def)
  moreover have "num ! 0 = 0" using num(2) [of 0] pos by (auto simp: with_length_def filter_empty_conv)
  moreover have "(\<Sum>m \<le> M. with_length m ls * 2 ^ (M - m)) = 2 ^ M"
  proof -
    have le: "\<forall>l \<in> set ls. l \<le> M" using max_length_ge by (auto simp: M_def)
    have "(\<Sum>m \<le> M. with_length m xs * 2 ^ (M - m)) = (\<Sum>l \<leftarrow> xs. 2 ^ (M - l))"
      if "\<forall>l \<in> set xs. l \<le> M" for xs
      using that
    proof (induction xs)
      case (Cons x xs)
      have "(\<Sum>m \<le> M. with_length m (x # xs) * 2 ^ (M - m)) =
          (\<Sum>m \<le> M. with_length m xs * 2 ^ (M - m) + (if m = x then 2 ^ (M - m) else 0))"
        by (intro sum.cong) auto
      also have "\<dots> = (\<Sum>m \<le> M. with_length m xs * 2 ^ (M - m)) + 2 ^ (M - x)"
        using Cons.prems by (simp add: sum.distrib sum.delta)
      finally show ?case using Cons by simp
    qed simp
    moreover have "real (\<Sum>l \<leftarrow> xs. 2 ^ (M - l)) = (\<Sum>l \<leftarrow> xs. 2 ^ (M - l))" for xs by (induction xs) auto
    ultimately have "real (\<Sum>m \<le> M. with_length m ls * 2 ^ (M - m)) = (\<Sum>l \<leftarrow> ls. 2 ^ (M - l))"
      using le by metis
    also have "\<dots> = (\<Sum>l \<leftarrow> ls. 2 ^ M * (1 / 2) ^ l)"
      using le by (intro arg_cong [of _ _ sum_list] map_cong) (auto simp: power_diff power_one_over field_simps)
    also have "\<dots> = 2 ^ M" using kraft by (simp add: sum_list_const_mult)
    finally show ?thesis by (metis of_nat_eq_iff of_nat_numeral of_nat_power)
  qed
  ultimately show ?thesis
    using first_codes_canonical [of num] num assms(2) unfolding num_def [symmetric]
    by (simp add: M_def)
qed

section \<open>The symbols sorted by length\<close>

definition bucket :: "nat \<Rightarrow> ('a \<times> nat) list \<Rightarrow> 'a list" where
  "bucket l es = map fst (filter ((=) l \<circ> snd) es)"

definition bucket_start :: "('a \<times> nat) list \<Rightarrow> nat \<Rightarrow> nat" where
  "bucket_start es l = (\<Sum>k < l. length (bucket k es))"

lemma bucket_simps [simp]: "bucket l [] = []"
  "bucket l (es @ [(x, k)]) = bucket l es @ (if l = k then [x] else [])"
  "bucket l ((x, k) # es) = (if l = k then x # bucket l es else bucket l es)"
  "bucket l (es @ es') = bucket l es @ bucket l es'"
  by (simp_all add: bucket_def)

lemma bucket_with_length: "length xs = length ls \<Longrightarrow> length (bucket l (zip xs ls)) = with_length l ls"
  by (induction xs ls rule: list_induct2) auto

lemma in_bucket: "x \<in> set (bucket l es) \<longleftrightarrow> (x, l) \<in> set es"
  by (force simp: bucket_def)

lemma bucket_start_less:
  assumes "l < l'" "j < length (bucket l es)"
  shows "bucket_start es l + j < bucket_start es l'"
proof -
  have "bucket_start es l + j < bucket_start es (Suc l)" using assms(2) by (simp add: bucket_start_def)
  also have "bucket_start es (Suc l) \<le> bucket_start es l'"
    unfolding bucket_start_def using assms(1) by (intro sum_mono2) auto
  finally show ?thesis .
qed

lemma bucket_start_total:
  "(\<And>x l. (x, l) \<in> set es \<Longrightarrow> l < n) \<Longrightarrow> bucket_start es n = length es"
proof (induction es)
  case (Cons e es)
  obtain x k where e: "e = (x, k)" by (cases e)
  have "bucket_start (e # es) n = (\<Sum>l < n. length (bucket l es) + (if l = k then 1 else 0))"
    unfolding bucket_start_def e by (intro sum.cong) auto
  also have "\<dots> = bucket_start es n + 1"
    using Cons.prems [of x k] by (simp add: e sum.distrib bucket_start_def)
  finally show ?case using Cons.IH [OF Cons.prems [OF list.set_intros(2)]] by simp
qed (simp add: bucket_start_def)

lemma place_symbols:
  assumes "es = P @ Q" "\<And>x l. (x, l) \<in> set es \<Longrightarrow> l < n" "\<And>l. l < n \<Longrightarrow> idx ! l = bucket_start es l"
    "length F = n" "length t0 = length es" "foldl (place_symbol idx F) (t0, F) P = (t, nxt)"
  shows "length t = length es \<and> length nxt = n \<and> (\<forall>l < n. nxt ! l = F ! l + length (bucket l P)) \<and>
    (\<forall>l < n. \<forall>j < length (bucket l P). t ! (bucket_start es l + j) = bucket l P ! j)"
  using assms(1,6)
proof (induction P arbitrary: Q t nxt rule: rev_induct)
  case (snoc e P)
  obtain x l where e: "e = (x, l)" by (cases e)
  obtain t' nxt' where st: "foldl (place_symbol idx F) (t0, F) P = (t', nxt')" by fastforce
  have "es = P @ (e # Q)" using snoc.prems(1) by simp
  from snoc.IH [OF this st] have IH: "length t' = length es" "length nxt' = n"
    "\<And>l. l < n \<Longrightarrow> nxt' ! l = F ! l + length (bucket l P)"
    "\<And>l j. l < n \<Longrightarrow> j < length (bucket l P) \<Longrightarrow> t' ! (bucket_start es l + j) = bucket l P ! j"
    by auto
  have l: "l < n" using assms(2) snoc.prems(1) e by auto
  have sub: "length (bucket k P) \<le> length (bucket k es)" for k using snoc.prems(1) by simp
  have inside: "length (bucket l P) < length (bucket l es)" using snoc.prems(1) e by simp
  let ?pos = "bucket_start es l + length (bucket l P)"
  have new: "t = t'[?pos := x]" "nxt = nxt'[l := nxt' ! l + 1]"
    using snoc.prems(2) st IH(3) [OF l] assms(3) [OF l]
    by (simp_all add: e place_symbol_def [of idx F "(t', nxt')"])
  have "bucket_start es n = length es" by (rule bucket_start_total) (rule assms(2))
  then have "?pos < length es" using bucket_start_less [OF l inside] by simp
  moreover have "bucket_start es k + j \<noteq> ?pos" if "k \<noteq> l" "j < length (bucket k P)" for k j
  proof (cases "k < l")
    case True
    then show ?thesis using bucket_start_less [OF True, of j es] sub [of k] that by simp
  next
    case False
    then show ?thesis using bucket_start_less [of l k "length (bucket l P)" es] inside that by simp
  qed
  moreover define pos where "pos = ?pos"
  moreover have "bucket_start es l + j \<noteq> pos" if "j < length (bucket l P)" for j
    using that by (simp add: pos_def)
  ultimately have pos: "pos < length es" "bucket_start es l + length (bucket l P) = pos"
      "\<And>k j. j < length (bucket k P) \<Longrightarrow> bucket_start es k + j \<noteq> pos"
    by (simp_all, metis)
  have "(t'[pos := x]) ! (bucket_start es k + j) = bucket k (P @ [(x, l)]) ! j"
    if "k < n" "j < length (bucket k (P @ [(x, l)]))" for k j
  proof (cases "j < length (bucket k P)")
    case True
    then show ?thesis using pos(3) [OF True] IH(4) [OF that(1) True] by (simp add: nth_append)
  next
    case False
    then have "k = l" "j = length (bucket l P)" using that(2) by (auto split: if_splits)
    then show ?thesis using pos IH(1) by simp
  qed
  then show ?case
    using IH l pos(2) unfolding new e by auto
qed (use assms(4,5) in simp)


text \<open>What the constructor guarantees: canonical first codes, the symbols in buckets by length.\<close>

definition coder_ok :: "('a \<times> nat) list \<Rightarrow> 'a coder \<Rightarrow> bool" where
  "coder_ok es c \<longleftrightarrow> (\<forall>(x, l) \<in> set es. 0 < l \<and> l < length (m_firstCodes c)) \<and>
     canonical (map (\<lambda>l. length (bucket l es)) [0..<length (m_firstCodes c)]) (m_firstCodes c) \<and>
     length (m_lengthIndex c) = length (m_firstCodes c) \<and>
     (\<forall>l < length (m_firstCodes c). m_lengthIndex c ! l = bucket_start es l) \<and>
     length (m_symbols c) = length es \<and>
     (length es \<noteq> 1 \<longrightarrow> m_firstCodes c ! 1 + length (bucket 1 es) = 2) \<and>
     (\<forall>l < length (m_firstCodes c). \<forall>i < length (bucket l es). m_symbols c ! (bucket_start es l + i) = bucket l es ! i)"

lemma length_CalcCodes:
  assumes "ls \<noteq> []"
  shows "length (m_firstCodes (CalcCodes blank xs ls)) = Suc (max_length ls)"
proof -
  have l: "length (foldl (\<lambda>codes l. codes[l := h codes l]) F js) = length F" for h js and F :: "nat list"
    by (induction js rule: rev_induct) auto
  show ?thesis
    using count_lengths [OF assms] by (simp add: CalcCodes_def first_codes_def Let_def l split: prod.split)
qed

lemma CalcCodes_ok:
  assumes "ls = [1] \<or> (\<Sum>l \<leftarrow> ls. (1 / 2 :: real) ^ l) = 1 \<and> (\<forall>l \<in> set ls. 0 < l)" "max_length ls \<le> 63"
    "length xs = length ls"
  shows "coder_ok (zip xs ls) (CalcCodes blank xs ls)" "length (m_firstCodes (CalcCodes blank xs ls)) = Suc (max_length ls)"
    "m_encodeMap (CalcCodes blank xs ls) = Map.empty"
proof -
  define num where "num = foldl count_length [] ls"
  define es where "es = zip xs ls"
  have ne: "ls \<noteq> []" using assms(1) by auto
  have num: "length num = Suc (max_length ls)" "\<And>l. l \<le> max_length ls \<Longrightarrow> num ! l = length (bucket l es)"
    using count_lengths [OF ne] assms(3) by (simp_all add: num_def es_def bucket_with_length)
  have can: "canonical num (first_codes num)" "ls \<noteq> [1] \<longrightarrow> first_codes num ! 1 + num ! 1 = 2"
    using lengths_canonical [OF assms(1,2)] unfolding num_def by blast+
  have idx: "length (length_indices num) = length num"
    "\<And>l. l < length num \<Longrightarrow> length_indices num ! l = bucket_start es l"
    using length_indices [of "length num" num] num by (auto simp: length_indices_def bucket_start_def)
  obtain t nxt where st: "foldl (place_symbol (length_indices num) (first_codes num)) (replicate (length ls) blank, first_codes num) es = (t, nxt)"
    by fastforce
  have small: "0 < l \<and> l < length num" if "(x, l) \<in> set es" for x l
  proof -
    have "l \<in> set ls" using that by (auto simp: es_def dest: set_zip_rightD)
    then show ?thesis using max_length_ge [of l ls] assms(1) num(1) by auto
  qed
  have len: "length es = length ls" using assms(3) by (simp add: es_def)
  from place_symbols [of es es "[]" "length num" "length_indices num" "first_codes num" "replicate (length ls) blank" t nxt]
  have t: "length t = length es"
    "\<And>l j. l < length num \<Longrightarrow> j < length (bucket l es) \<Longrightarrow> t ! (bucket_start es l + j) = bucket l es ! j"
    using small idx(2) can(1) st len by (auto simp: canonical_def)
  have c: "CalcCodes blank xs ls = \<lparr>m_symbols = t, m_firstCodes = first_codes num, m_lengthIndex = length_indices num, m_encodeMap = Map.empty\<rparr>"
    using st unfolding CalcCodes_def num_def [symmetric] es_def [symmetric] by (simp add: Let_def)
  have lF: "length (first_codes num) = length num" using can(1) by (simp add: canonical_def)
  have two: "first_codes num ! 1 + length (bucket 1 es) = 2" if "length es \<noteq> 1"
    using that can len num by (auto simp: canonical_def)
  have "map (\<lambda>l. length (bucket l es)) [0..<length num] = num"
    by (rule nth_equalityI) (use num in \<open>auto simp del: upt_Suc\<close>)
  then show "coder_ok (zip xs ls) (CalcCodes blank xs ls)"
    unfolding es_def [symmetric] c coder_ok_def
    using small can(1) t idx lF two by auto
  show "length (m_firstCodes (CalcCodes blank xs ls)) = Suc (max_length ls)" by (simp add: c lF num)
  show "m_encodeMap (CalcCodes blank xs ls) = Map.empty" by (simp add: c)
qed

lemma bucket_start_Suc: "bucket_start es (Suc l) = bucket_start es l + length (bucket l es)"
  by (simp add: bucket_start_def)

lemma code_map_entries:
  assumes "coder_ok es c" "0 < l" "l < length (m_firstCodes c)"
  shows "code_map_entries c l = map (\<lambda>i. (bucket l es ! i, l, i)) [0..<length (bucket l es)]"
proof -
  define n where "n = length (m_firstCodes c)"
  have "bucket_start es n = length es"
    using assms(1) by (intro bucket_start_total) (auto simp: coder_ok_def n_def)
  then have "(if l + 1 < n then bucket_start es (l + 1) else length es) = bucket_start es (Suc l)"
    using assms(3) by (cases "l + 1 = n") (auto simp: n_def)
  then have "(if l + 1 < length (m_lengthIndex c) then m_lengthIndex c ! (l + 1) else length (m_symbols c)) = bucket_start es (Suc l)"
    using assms(1) unfolding n_def coder_ok_def by auto
  then show ?thesis
    using assms unfolding code_map_entries_def coder_ok_def Let_def by (simp add: bucket_start_Suc)
qed

lemma foldl_updates:
  "(foldl (\<lambda>m (k, v). m(k \<mapsto> v)) m kvs) x = Some y \<Longrightarrow> (x, y) \<in> set kvs \<or> m x = Some y"
  "x \<in> fst ` set kvs \<Longrightarrow> foldl (\<lambda>m (k, v). m(k \<mapsto> v)) m kvs x \<noteq> None"
  by (induction kvs rule: rev_induct; force split: if_splits)+

text \<open>Every symbol has a code, and every code of the table belongs to its bucket.\<close>

lemma CreateCodeMap_ok:
  assumes "coder_ok es c" "m_encodeMap c = Map.empty"
  shows "m_encodeMap (CreateCodeMap c) x = Some (l, i) \<Longrightarrow>
      0 < l \<and> l < length (m_firstCodes c) \<and> i < length (bucket l es) \<and> bucket l es ! i = x"
    "x \<in> fst ` set es \<Longrightarrow> m_encodeMap (CreateCodeMap c) x \<noteq> None"
proof -
  define n where "n = length (m_firstCodes c)"
  define kvs where "kvs = concat (map (code_map_entries c) [1..<n])"
  have m: "m_encodeMap (CreateCodeMap c) = foldl (\<lambda>m (k, v). m(k \<mapsto> v)) Map.empty kvs"
    using assms by (simp add: CreateCodeMap_def kvs_def n_def coder_ok_def)
  have kvs: "kvs = concat (map (\<lambda>l. map (\<lambda>i. (bucket l es ! i, l, i)) [0..<length (bucket l es)]) [1..<n])"
    unfolding kvs_def using code_map_entries [OF assms(1)] n_def
    by (intro arg_cong [of _ _ concat] map_cong) auto
  show "0 < l \<and> l < length (m_firstCodes c) \<and> i < length (bucket l es) \<and> bucket l es ! i = x"
    if "m_encodeMap (CreateCodeMap c) x = Some (l, i)"
  proof -
    have "(x, l, i) \<in> set kvs" using foldl_updates(1) that unfolding m by fastforce
    then show ?thesis by (auto simp: kvs n_def)
  qed
  show "m_encodeMap (CreateCodeMap c) x \<noteq> None" if x: "x \<in> fst ` set es"
  proof -
    obtain l where l: "(x, l) \<in> set es" using x by force
    then have "x \<in> set (bucket l es)" by (simp add: in_bucket)
    then obtain i where "i < length (bucket l es)" "bucket l es ! i = x" by (auto simp: in_set_conv_nth)
    moreover have "1 \<le> l" "l < n" using l assms(1) by (auto simp: coder_ok_def n_def)
    ultimately have "(x, l, i) \<in> set kvs" unfolding kvs by force
    then show ?thesis unfolding m using foldl_updates(2) by force
  qed
qed

section \<open>What is written is read\<close>

definition code_bits :: "nat \<Rightarrow> nat \<Rightarrow> bool list" where
  "code_bits l v = map (\<lambda>j. v div 2 ^ j mod 2 = 1) (rev [0..<l])"

lemma length_code_bits [simp]: "length (code_bits l v) = l"
  by (simp add: code_bits_def)

lemma code_bits_nth: "m < l \<Longrightarrow> code_bits l v ! m \<longleftrightarrow> v div 2 ^ (l - Suc m) mod 2 = 1"
  by (simp add: code_bits_def rev_nth)

text \<open>The first bits of a code are below the first code of their length.\<close>

lemma prefix_less:
  "canonical num F \<Longrightarrow> 1 \<le> m \<Longrightarrow> m < l \<Longrightarrow> l < length num \<Longrightarrow> v < F ! l + num ! l \<Longrightarrow> v div 2 ^ (l - m) < F ! m"
proof (induction l arbitrary: v)
  case (Suc k)
  have "2 * (F ! k) = F ! Suc k + num ! Suc k"
    using Suc.prems by (auto simp: canonical_def)
  then have half: "v div 2 < F ! k" using Suc.prems(5) by simp
  show ?case
  proof (cases "m = k")
    case False
    then have "v div 2 div 2 ^ (k - m) < F ! m"
      using Suc.prems half by (intro Suc.IH) auto
    moreover have "(2 :: nat) ^ (Suc k - m) = 2 * 2 ^ (k - m)"
      using Suc.prems(3) False by (simp add: Suc_diff_le)
    ultimately show ?thesis by (simp add: div_mult2_eq)
  qed (use half in simp)
qed simp

lemma double_half: "2 * (w div 2) + of_bool (w mod 2 = 1) = (w :: nat)"
  by (simp add: of_bool_def) presburger

lemma read_code_bits:
  assumes "canonical num F" "0 < l" "l < length num" "length num \<le> 64" "F ! l \<le> v" "v < F ! l + num ! l"
    "p + l \<le> 8 * length data" "\<And>k. k < l \<Longrightarrow> data_bit data (p + k) = code_bits l v ! k" "m \<le> l"
  shows "1 \<le> m \<Longrightarrow> reading data (p + m) bw \<Longrightarrow>
    \<exists>bw'. read_code F (v div 2 ^ (l - m)) m bw = Some (v, l, bw') \<and> reading data (p + l) bw'"
  using assms(9)
proof (induction m arbitrary: bw rule: inc_induct)
  case base
  then show ?case using assms(1,3,5) by (simp add: read_code.simps [of F v l] canonical_def)
next
  case (step m)
  have len: "length F = length num" using assms(1) by (simp add: canonical_def)
  have less: "v div 2 ^ (l - m) < F ! m"
    using prefix_less [OF assms(1) _ step.hyps(2) assms(3,6)] step.prems(1) by simp
  obtain b bw1 where rd: "bw_Read bw = (b, bw1)" by fastforce
  have "p + m < 8 * length data" using assms(7) step.hyps by simp
  then have b: "b = data_bit data (p + m)" "reading data (p + Suc m) bw1"
    using reading_read [OF step.prems(2)] rd by auto
  have bit: "b \<longleftrightarrow> v div 2 ^ (l - Suc m) mod 2 = 1"
    using b(1) assms(8) step.hyps(2) code_bits_nth by simp
  have p: "(2 :: nat) ^ (l - m) = 2 ^ (l - Suc m) * 2"
    using step.hyps(2) by (metis Suc_diff_Suc mult.commute power_Suc)
  have "2 * (v div 2 ^ (l - m)) + of_bool b = v div 2 ^ (l - Suc m)"
    unfolding p div_mult2_eq bit by (rule double_half)
  moreover have "v div 2 ^ (l - Suc m) < 2 ^ 64"
  proof -
    have "F ! l + num ! l \<le> 2 ^ l" using assms(1-3) by (simp add: canonical_def)
    then have "v < 2 ^ l" using assms(6) by linarith
    also have "(2 :: nat) ^ l \<le> 2 ^ 64" using assms(3,4) by (intro power_increasing) auto
    finally show ?thesis using div_le_dividend le_less_trans by blast
  qed
  moreover obtain bw' where "read_code F (v div 2 ^ (l - Suc m)) (Suc m) bw1 = Some (v, l, bw')" "reading data (p + l) bw'"
    using step.IH [OF _ b(2)] by auto
  ultimately show ?case
    using less rd len step.hyps(2) assms(3) by (simp add: read_code.simps [of F _ m])
qed

lemma written_puts: "written bs bw \<Longrightarrow> written (bs @ map f js) (foldl (\<lambda>bw j. bw_Put (f j) bw) bw js)"
  by (induction js rule: rev_induct) (auto dest: written_put simp flip: append_assoc)

text \<open>The bits of a text.\<close>

definition symbol_bits :: "'a coder \<Rightarrow> 'a \<Rightarrow> bool list" where
  "symbol_bits c x = (case m_encodeMap c x of Some (l, i) \<Rightarrow> code_bits l (m_firstCodes c ! l + i) | None \<Rightarrow> [])"

definition coder_table :: "('a \<times> nat) list \<Rightarrow> 'a coder \<Rightarrow> bool" where
  "coder_table es c \<longleftrightarrow> coder_ok es c \<and> length (m_firstCodes c) \<le> 64 \<and>
     (\<forall>x l i. m_encodeMap c x = Some (l, i) \<longrightarrow>
        0 < l \<and> l < length (m_firstCodes c) \<and> i < length (bucket l es) \<and> bucket l es ! i = x)"

lemma table_code:
  assumes "coder_table es c" "m_encodeMap c x = Some (l, i)"
  shows "m_firstCodes c ! l + i < m_firstCodes c ! l + map (\<lambda>l. length (bucket l es)) [0..<length (m_firstCodes c)] ! l"
    "0 < l" "l < length (m_firstCodes c)" "m_firstCodes c ! l + i < 2 ^ 64"
    "m_firstCodes c ! l + i < 2 ^ l"
proof -
  show l: "0 < l" "l < length (m_firstCodes c)" using assms by (auto simp: coder_table_def)
  have "i < length (bucket l es)" using assms by (auto simp: coder_table_def)
  then show less: "m_firstCodes c ! l + i < m_firstCodes c ! l + map (\<lambda>l. length (bucket l es)) [0..<length (m_firstCodes c)] ! l"
    using l by simp
  have le: "m_firstCodes c ! l + map (\<lambda>l. length (bucket l es)) [0..<length (m_firstCodes c)] ! l \<le> 2 ^ l"
    using assms(1) l by (auto simp: coder_table_def coder_ok_def canonical_def)
  then show "m_firstCodes c ! l + i < 2 ^ l" using less by linarith
  note le
  also have "(2 :: nat) ^ l \<le> 2 ^ 64"
    using assms(1) l by (intro power_increasing) (auto simp: coder_table_def)
  finally show "m_firstCodes c ! l + i < 2 ^ 64" using less by linarith
qed

lemma ch_Put_written:
  assumes "coder_table es c" "m_encodeMap c x \<noteq> None" "written bs bw"
  shows "\<exists>bw'. ch_Put c x bw = (c, bw') \<and> written (bs @ symbol_bits c x) bw'"
proof -
  obtain l i where li: "m_encodeMap c x = Some (l, i)" using assms(2) by auto
  have small: "(m_firstCodes c ! l + i) mod 2 ^ 64 = m_firstCodes c ! l + i"
    using table_code(4) [OF assms(1) li] by simp
  show ?thesis
    using written_puts [OF assms(3)]
    unfolding ch_Put_def encode_entry_def li symbol_bits_def code_bits_def Let_def option.case prod.case small
    by blast
qed

lemma put_all_written:
  "coder_table es c \<Longrightarrow> (\<And>x. x \<in> set xs \<Longrightarrow> m_encodeMap c x \<noteq> None) \<Longrightarrow> written bs bw \<Longrightarrow>
   \<exists>bw'. put_all c xs bw = (c, bw') \<and> written (bs @ concat (map (symbol_bits c) xs)) bw'"
proof (induction xs arbitrary: bs bw)
  case (Cons x xs)
  obtain bw1 where "ch_Put c x bw = (c, bw1)" "written (bs @ symbol_bits c x) bw1"
    using ch_Put_written [OF Cons.prems(1) Cons.prems(2) [of x] Cons.prems(3)] by auto
  then show ?case using Cons.IH [OF Cons.prems(1) Cons.prems(2), of "bs @ symbol_bits c x" bw1] by simp
qed simp

lemma ch_Read_symbol:
  assumes "coder_table es c" "m_encodeMap c x \<noteq> None" "reading data p bw"
    "p + length (symbol_bits c x) \<le> 8 * length data"
    "\<And>k. k < length (symbol_bits c x) \<Longrightarrow> data_bit data (p + k) = symbol_bits c x ! k"
  shows "\<exists>bw'. ch_Read c bw = Some (Some x, bw') \<and> reading data (p + length (symbol_bits c x)) bw'"
proof -
  obtain l i where li: "m_encodeMap c x = Some (l, i)" using assms(2) by auto
  let ?F = "m_firstCodes c" and ?n = "length (m_firstCodes c)"
  let ?num = "map (\<lambda>l. length (bucket l es)) [0..<?n]" and ?v = "m_firstCodes c ! l + i"
  have ok: "coder_ok es c" "?n \<le> 64" "i < length (bucket l es)" "bucket l es ! i = x"
    using assms(1) li by (auto simp: coder_table_def)
  have can: "canonical ?num ?F" using ok(1) by (simp add: coder_ok_def)
  have l: "0 < l" "l < ?n" using table_code [OF assms(1) li] by auto
  have bits: "symbol_bits c x = code_bits l ?v" by (simp add: symbol_bits_def li)
  obtain b bw1 where rd: "bw_Read bw = (b, bw1)" by fastforce
  have "p < 8 * length data" using assms(4) l by (simp add: bits)
  then have b: "b = data_bit data p" "reading data (p + 1) bw1" and rest: "bw_TellFromEnd bw \<noteq> 0"
    using reading_read [OF assms(3)] rd assms(3) by (auto simp: bw_TellFromEnd_def reading_def)
  have "b \<longleftrightarrow> ?v div 2 ^ (l - 1) mod 2 = 1"
    using b(1) assms(5) [of 0] code_bits_nth [of 0 l ?v] l by (simp add: bits)
  moreover have "?v div 2 ^ (l - 1) < 2"
  proof -
    have "?v < 2 ^ l" by (rule table_code(5) [OF assms(1) li])
    also have "(2 :: nat) ^ l = 2 * 2 ^ (l - 1)" using l by (cases l) auto
    finally show ?thesis by (simp add: less_mult_imp_div_less)
  qed
  ultimately have b1: "of_bool b = ?v div 2 ^ (l - 1)" by (auto simp: of_bool_def less_2_cases_iff)
  obtain bw' where bw': "read_code ?F (?v div 2 ^ (l - 1)) 1 bw1 = Some (?v, l, bw')" "reading data (p + l) bw'"
    using read_code_bits [OF can l(1) _ _ _ table_code(1) [OF assms(1) li], of p data 1 bw1]
      assms(4,5) l ok(2) b(2) by (auto simp: bits)
  have "m_symbols c ! (m_lengthIndex c ! l + i) = x" "m_lengthIndex c ! l + i < length (m_symbols c)"
  proof -
    have "bucket_start es ?n = length es" using ok(1) by (intro bucket_start_total) (auto simp: coder_ok_def)
    then show "m_symbols c ! (m_lengthIndex c ! l + i) = x" "m_lengthIndex c ! l + i < length (m_symbols c)"
      using ok l bucket_start_less [OF l(2) ok(3)] by (auto simp: coder_ok_def)
  qed
  then show ?thesis
    using rd rest bw' by (simp add: ch_Read_def Let_def b1 bits)
qed

lemma read_all_text:
  "coder_table es c \<Longrightarrow> (\<And>x. x \<in> set xs \<Longrightarrow> m_encodeMap c x \<noteq> None) \<Longrightarrow> reading data p bw \<Longrightarrow>
   p + length (concat (map (symbol_bits c) xs)) \<le> 8 * length data \<Longrightarrow>
   (\<And>k. k < length (concat (map (symbol_bits c) xs)) \<Longrightarrow>
      data_bit data (p + k) = concat (map (symbol_bits c) xs) ! k) \<Longrightarrow>
   read_all c (length xs) bw = Some xs"
proof (induction xs arbitrary: p bw)
  case (Cons x xs)
  let ?B = "concat (map (symbol_bits c) xs)"
  obtain bw1 where bw1: "ch_Read c bw = Some (Some x, bw1)" "reading data (p + length (symbol_bits c x)) bw1"
    using ch_Read_symbol [OF Cons.prems(1) Cons.prems(2) [of x] Cons.prems(3)] Cons.prems(4,5)
    by (fastforce simp: nth_append)
  have "read_all c (length xs) bw1 = Some xs"
  proof (rule Cons.IH [OF Cons.prems(1) _ bw1(2)])
    fix k assume "k < length ?B"
    then show "data_bit data (p + length (symbol_bits c x) + k) = ?B ! k"
      using Cons.prems(5) [of "length (symbol_bits c x) + k"] by (simp add: nth_append add.assoc)
  qed (use Cons.prems(2,4) in auto)
  then show ?case using bw1(1) by simp
qed simp

lemma CanonicalHuffman_ok:
  assumes "min_heap is_heap heapify pop push" "CanonicalHuffman heapify pop push blank entries forEncoding = Some c"
    "length (m_firstCodes c) \<le> 64"
  shows "\<exists>ls. CalcLengths heapify pop push (map snd entries) = Some ls \<and> length ls = length entries \<and>
    coder_ok (zip (map fst entries) ls) c \<and> coder_table (zip (map fst entries) ls) c \<and>
    (forEncoding \<longrightarrow> (\<forall>x \<in> fst ` set entries. m_encodeMap c x \<noteq> None))"
proof -
  obtain ls where ls: "CalcLengths heapify pop push (map snd entries) = Some ls"
    using assms(2) by (auto simp: CanonicalHuffman_def split: option.splits)
  have ne: "entries \<noteq> []" using ls by (auto simp: CalcLengths_def)
  have kr: "(ls = [1] \<or> (\<Sum>l \<leftarrow> ls. (1 / 2 :: real) ^ l) = 1 \<and> (\<forall>l \<in> set ls. 0 < l)) \<and> length ls = length entries"
  proof (cases "2 \<le> length entries")
    case True
    then have k: "length ls = length entries" "(\<Sum>l \<leftarrow> ls. (1 / 2 :: real) ^ l) = 1"
      using huffman_kraft [OF assms(1) ls] by auto
    have "kraft (mset (map (Pair 0) ls))"
      using k(2) by (simp add: kraft_def sum_mset_sum_list comp_def flip: mset_map)
    then have "0 < l" if "l \<in> set ls" for l
      using kraft_positive [of "mset (map (Pair 0) ls)" "(0, l)"] that k(1) True by simp
    then show ?thesis using k by simp
  next
    case False
    then have "length entries = 1" using ne by (cases entries; cases "tl entries") auto
    then show ?thesis using ls by (auto simp: CalcLengths_def)
  qed
  define cc where "cc = CalcCodes blank (map fst entries) ls"
  have c: "c = (if forEncoding then CreateCodeMap cc else cc)"
    using assms(2) ls by (auto simp: CanonicalHuffman_def cc_def Let_def)
  have same: "m_firstCodes c = m_firstCodes cc" "coder_ok es c = coder_ok es cc" for es
    by (simp_all add: c CreateCodeMap_def coder_ok_def)
  have "ls \<noteq> []" using kr ne by auto
  then have max: "max_length ls \<le> 63"
    using assms(3) length_CalcCodes [of ls blank "map fst entries"] unfolding same cc_def by auto
  have es: "fst ` set (zip (map fst entries) ls) = fst ` set entries"
    using kr by (metis length_map list.set_map map_fst_zip)
  note cc = CalcCodes_ok [OF _ max, of "map fst entries" blank, folded cc_def]
  have ok: "coder_ok (zip (map fst entries) ls) cc" "m_encodeMap cc = Map.empty" using cc kr by auto
  then have "coder_table (zip (map fst entries) ls) c"
    using assms(3) CreateCodeMap_ok(1) [OF ok] unfolding coder_table_def same
    by (auto simp: c)
  moreover have "forEncoding \<longrightarrow> (\<forall>x \<in> fst ` set entries. m_encodeMap c x \<noteq> None)"
    using CreateCodeMap_ok(2) [OF ok] by (auto simp: c es)
  ultimately show ?thesis using ls kr ok(1) same(2) by blast
qed

text \<open>C11: A text over the symbols of the coder that is written to an empty bit stream is read back from its
  bytes, whatever heap functions with the promised behaviour built the code.\<close>

theorem huffman_roundtrip:
  assumes "min_heap is_heap heapify pop push" "CanonicalHuffman heapify pop push blank entries True = Some c"
    "length (m_firstCodes c) \<le> 64" "set xs \<subseteq> fst ` set entries"
  shows "read_all c (length xs) (newBitWrapper (m_data (snd (put_all c xs (newBitWrapper []))))) = Some xs"
proof -
  from CanonicalHuffman_ok [OF assms(1-3)] obtain es where
    es: "coder_table es c" "\<forall>x \<in> fst ` set entries. m_encodeMap c x \<noteq> None" by blast
  then have tab: "\<And>x. x \<in> set xs \<Longrightarrow> m_encodeMap c x \<noteq> None" using assms(4) by blast
  let ?B = "concat (map (symbol_bits c) xs)"
  from put_all_written [OF es(1) tab written_new] obtain bw where
    bw: "put_all c xs (newBitWrapper []) = (c, bw)" "written ?B bw" by auto
  have "length ?B \<le> 8 * length (m_data bw)" using bw(2) by (simp add: written_def)
  then have "read_all c (length xs) (newBitWrapper (m_data bw)) = Some xs"
    using read_all_text [OF es(1) tab reading_new] written_bit [OF bw(2)] by simp
  then show ?thesis by (simp add: bw(1))
qed

text \<open>C10: When the weights are the numbers of occurrences in a text, no assignment of code lengths that a
  uniquely decodable code can have (the inequality of Kraft and McMillan) makes the text shorter in
  bits than the coder does.\<close>

theorem huffman_size:
  assumes "min_heap is_heap heapify pop push" "CanonicalHuffman heapify pop push blank entries True = Some c"
    "length (m_firstCodes c) \<le> 64" "entries = map (\<lambda>x. (x, count_list xs x)) (remdups xs)"
    "length ls = length entries" "\<forall>l \<in> set ls. 0 < l" "(\<Sum>l \<leftarrow> ls. (1 / 2 :: real) ^ l) \<le> 1"
  shows "bw_Tell (snd (put_all c xs (newBitWrapper []))) \<le> (\<Sum>(x, l) \<leftarrow> zip (remdups xs) ls. count_list xs x * l)"
proof -
  from CanonicalHuffman_ok [OF assms(1-3)] obtain ks where
    ks: "CalcLengths heapify pop push (map snd entries) = Some ks" "length ks = length entries"
      "coder_table (zip (map fst entries) ks) c" "\<forall>x \<in> fst ` set entries. m_encodeMap c x \<noteq> None"
    by blast
  have fst: "map fst entries = remdups xs" and snd: "map snd entries = map (count_list xs) (remdups xs)"
    by (simp_all add: assms(4) comp_def)
  define es where "es = zip (remdups xs) ks"
  have lk: "length ks = length (remdups xs)" "length ls = length (remdups xs)"
    using ks(2) assms(5) by (simp_all add: assms(4))
  have fes: "map fst es = remdups xs" using lk by (simp add: es_def)
  have tab: "\<And>x. x \<in> set xs \<Longrightarrow> m_encodeMap c x \<noteq> None"
    using ks(4) by (simp add: assms(4) image_image)
  have len: "length (symbol_bits c x) = the (map_of es x)" if x: "x \<in> set xs" for x
  proof -
    obtain l i where li: "m_encodeMap c x = Some (l, i)" using tab [OF x] by auto
    then have "i < length (bucket l es) \<and> bucket l es ! i = x"
      using ks(3) unfolding fst es_def [symmetric] coder_table_def by simp
    then have "x \<in> set (bucket l es)" using nth_mem by blast
    then have "(x, l) \<in> set es" by (simp add: in_bucket)
    moreover have "distinct (map fst es)" unfolding fes by simp
    ultimately have "map_of es x = Some l" by simp
    then show ?thesis by (simp add: symbol_bits_def li)
  qed
  obtain bw where bw: "put_all c xs (newBitWrapper []) = (c, bw)" "written (concat (map (symbol_bits c) xs)) bw"
    using put_all_written [OF ks(3) tab written_new] by auto
  have "bw_Tell bw = (\<Sum>x \<leftarrow> xs. length (symbol_bits c x))"
    using bw(2) by (simp add: bw_Tell_def written_def length_concat comp_def)
  also have "\<dots> = (\<Sum>x \<leftarrow> xs. the (map_of es x))" using len by (intro arg_cong [of _ _ sum_list] map_cong) auto
  also have "\<dots> = (\<Sum>x \<in> set xs. count_list xs x * the (map_of es x))"
    by (rule sum_list_map_eq_sum_count)
  also have "\<dots> = (\<Sum>x \<leftarrow> remdups xs. count_list xs x * the (map_of es x))"
    by (simp add: sum_list_distinct_conv_sum_set)
  also have "\<dots> = (\<Sum>(x, l) \<leftarrow> es. count_list xs x * l)"
  proof -
    have "map (\<lambda>x. count_list xs x * the (map_of es x)) (map fst es) = map (\<lambda>(x, l). count_list xs x * l) es"
      unfolding map_map comp_def using fes by (intro map_cong) auto
    then show ?thesis by (simp add: fes)
  qed
  also have "\<dots> = (\<Sum>(w, l) \<leftarrow> zip (map snd entries) ks. w * l)"
    by (simp add: es_def snd zip_map1 comp_def case_prod_beta')
  also have "\<dots> \<le> (\<Sum>(w, l) \<leftarrow> zip (map snd entries) ls. w * l)"
    using huffman_optimal [OF assms(1) ks(1)] assms(5-7) by simp
  also have "\<dots> = (\<Sum>(x, l) \<leftarrow> zip (remdups xs) ls. count_list xs x * l)"
    by (simp add: snd zip_map1 comp_def case_prod_beta')
  finally show ?thesis by (simp add: bw(1))
qed

section \<open>Any data can be read\<close>

lemma read_code_total:
  "coder_ok es c \<Longrightarrow> 1 \<le> len \<Longrightarrow> len < length (m_firstCodes c) \<Longrightarrow> length (m_firstCodes c) \<le> 64 \<Longrightarrow>
   v < m_firstCodes c ! len + length (bucket len es) \<Longrightarrow>
   \<exists>v' l bw'. read_code (m_firstCodes c) v len bw = Some (v', l, bw') \<and> l < length (m_firstCodes c) \<and>
     m_firstCodes c ! l \<le> v' \<and> v' < m_firstCodes c ! l + length (bucket l es)"
proof (induction "m_firstCodes c" v len bw rule: read_code.induct)
  case (1 v len bw)
  let ?F = "m_firstCodes c"
  show ?case
  proof (cases "v < ?F ! len")
    case True
    obtain b bw1 where rd: "(b, bw1) = bw_Read bw" by (cases "bw_Read bw") simp
    let ?num = "map (\<lambda>l. length (bucket l es)) [0..<length ?F]"
    have can: "canonical ?num ?F" using 1(2) by (simp add: coder_ok_def)
    have "len \<noteq> length ?F - 1" using True can by (auto simp: canonical_def)
    then have next_len: "len + 1 < length ?F" using 1(4) by simp
    then have "2 * (?F ! len) = ?F ! (len + 1) + length (bucket (len + 1) es)"
      using can 1(3) by (simp add: canonical_def)
    then have small: "2 * v + of_bool b < ?F ! (len + 1) + length (bucket (len + 1) es)"
      using True by (cases b) auto
    also have "\<dots> \<le> 2 ^ (len + 1)"
      using can next_len unfolding canonical_def by fastforce
    also have "(2 :: nat) ^ (len + 1) \<le> 2 ^ 64" using next_len 1(5) by (intro power_increasing) auto
    finally have wrap: "(2 * v + of_bool b) mod 2 ^ 64 = 2 * v + of_bool b" by (rule mod_less)
    have "\<exists>v' l bw'. read_code ?F ((2 * v + of_bool b) mod 2 ^ 64) (len + 1) bw1 = Some (v', l, bw') \<and> l < length ?F \<and>
        ?F ! l \<le> v' \<and> v' < ?F ! l + length (bucket l es)"
      by (rule 1(1) [OF _ True refl rd]) (use 1(2,4,5) next_len small wrap in auto)
    then show ?thesis
      using 1(4) True by (simp add: read_code.simps [of ?F v] flip: rd)
  next
    case False
    then show ?thesis using 1(4,6) by (simp add: read_code.simps [of ?F v])
  qed
qed

text \<open>C39: With at least two symbols, reading from any bytes at any position stays inside the tables.\<close>

theorem huffman_read_total:
  assumes "min_heap is_heap heapify pop push" "CanonicalHuffman heapify pop push blank entries forEncoding = Some c"
    "length (m_firstCodes c) \<le> 64" "2 \<le> length entries"
  shows "ch_Read c bw \<noteq> None"
proof (cases "bw_TellFromEnd bw = 0")
  case False
  from CanonicalHuffman_ok [OF assms(1-3)] obtain ls where
    ls: "length ls = length entries" "coder_ok (zip (map fst entries) ls) c" by blast
  define es where "es = zip (map fst entries) ls"
  have ok: "coder_ok es c" "length es \<noteq> 1" using ls assms(4) by (simp_all add: es_def)
  obtain b bw1 where rd: "bw_Read bw = (b, bw1)" by fastforce
  have F: "1 < length (m_firstCodes c)" using ok(1) by (auto simp: coder_ok_def canonical_def)
  have "of_bool b < m_firstCodes c ! 1 + length (bucket 1 es)" using ok by (simp add: coder_ok_def)
  from read_code_total [OF ok(1) _ F assms(3) this, of bw1] obtain v l bw' where
    v: "read_code (m_firstCodes c) (of_bool b) 1 bw1 = Some (v, l, bw')" "l < length (m_firstCodes c)"
      "m_firstCodes c ! l \<le> v" "v < m_firstCodes c ! l + length (bucket l es)" by auto
  have "bucket_start es (length (m_firstCodes c)) = length es"
    using ok(1) by (intro bucket_start_total) (auto simp: coder_ok_def)
  moreover have "bucket_start es l + (v - m_firstCodes c ! l) < bucket_start es (length (m_firstCodes c))"
    using v by (intro bucket_start_less) auto
  ultimately have "m_lengthIndex c ! l + (v - m_firstCodes c ! l) < length (m_symbols c)"
    using ok(1) v(2) by (simp add: coder_ok_def)
  then show ?thesis using False rd v(1) by (simp add: ch_Read_def Let_def)
qed (simp add: ch_Read_def)


section \<open>A text\<close>

definition sample_text :: "nat list" where
  "sample_text = [1, 2, 3, 1, 4, 1, 5, 1, 2, 3, 1]"

definition sample_counts :: "(nat \<times> nat) list" where
  "sample_counts = map (\<lambda>x. (x, count_list sample_text x)) (remdups sample_text)"

definition sample_coder :: "nat coder" where
  "sample_coder = the (CanonicalHuffman std_make_heap std_pop_heap std_push_heap 0 sample_counts True)"

lemma sample_coder:
  "CanonicalHuffman std_make_heap std_pop_heap std_push_heap 0 sample_counts True = Some sample_coder"
  "length (m_firstCodes sample_coder) \<le> 64"
proof -
  have "CanonicalHuffman std_make_heap std_pop_heap std_push_heap 0 sample_counts True \<noteq> None" by code_simp
  then show "CanonicalHuffman std_make_heap std_pop_heap std_push_heap 0 sample_counts True = Some sample_coder"
    by (auto simp: sample_coder_def)
  show "length (m_firstCodes sample_coder) \<le> 64" by code_simp
qed

theorem huffman_roundtrip_witness:
  "read_all sample_coder 11 (newBitWrapper (m_data (snd (put_all sample_coder sample_text (newBitWrapper []))))) = Some sample_text"
proof -
  have "set sample_text \<subseteq> fst ` set sample_counts" by (simp add: sample_text_def sample_counts_def)
  moreover have "length sample_text = 11" by (simp add: sample_text_def)
  ultimately show ?thesis using huffman_roundtrip [OF std.min_heap_axioms sample_coder] by metis
qed

theorem huffman_size_witness:
  "bw_Tell (snd (put_all sample_coder sample_text (newBitWrapper []))) \<le> (\<Sum>(x, l) \<leftarrow> zip (remdups sample_text) [4, 2, 4, 3, 1]. count_list sample_text x * l)"
proof (rule huffman_size [OF std.min_heap_axioms sample_coder sample_counts_def])
  show "length [4, 2, 4, 3, 1 :: nat] = length sample_counts"
    by (simp add: sample_counts_def sample_text_def)
qed (simp_all add: power_divide)

theorem huffman_read_total_witness:
  "ch_Read sample_coder (newBitWrapper [0xff, 0x80, 0x17]) \<noteq> None"
  by (rule huffman_read_total [OF std.min_heap_axioms sample_coder]) (simp add: sample_counts_def sample_text_def)

text \<open>With one symbol the bit 1 leads to a position outside the symbols.\<close>

lemma single_symbol_undefined:
  "map_option (\<lambda>c. ch_Read c (newBitWrapper [1]) = None)
     (CanonicalHuffman std_make_heap std_pop_heap std_push_heap 0 [(7 :: nat, 3)] True) = Some True"
  by code_simp

end
