(* ===== verification/Ndfsa.thy ===== *)
theory Ndfsa
  imports Prelude "HOL-Library.Char_ord" "HOL-Library.Product_Lexorder" "HOL-Library.List_Lexorder"
    "HOL-Library.While_Combinator"
begin

text \<open>Finite automata of the lexica (tools/datastructures/psi_query): arcs, non-deterministic automata
  (fsa_ndfsa.hpp) and their deterministic use (fsa_dfsa.hpp).  Symbols are unsigned characters, so
  that words are strings; two of the symbols stand for the empty word and for any symbol.  States are
  numbers; an access to a state that does not exist is undefined in the code and not used here.\<close>

section \<open>Arcs and automata\<close>

type_synonym symbol = char

definition EPS :: symbol where "EPS = CHR 0xFF"
definition ANY :: symbol where "ANY = CHR 0xFE"

text \<open>Pairs are ordered as by \<open>ArcSorter\<close>: by symbol, then by destination.\<close>

type_synonym 'q arc = "symbol \<times> 'q"

record ndfsa =
  nd_states :: "nat arc list list"
  nd_startStates :: "nat set"
  nd_endStates :: "nat set"

definition newNDFSA :: ndfsa where
  "newNDFSA = \<lparr>nd_states = [], nd_startStates = {}, nd_endStates = {}\<rparr>"

definition nd_size :: "ndfsa \<Rightarrow> nat" where
  "nd_size A = length (nd_states A)"

definition nd_addState :: "bool \<Rightarrow> ndfsa \<Rightarrow> nat \<times> ndfsa" where
  "nd_addState isStartState A =
     (let A = A\<lparr>nd_states := nd_states A @ [[]]\<rparr>;
          A = (if isStartState then A\<lparr>nd_startStates := insert (nd_size A - 1) (nd_startStates A)\<rparr> else A)
      in (nd_size A - 1, A))"

definition nd_deleteLastState :: "ndfsa \<Rightarrow> ndfsa" where
  "nd_deleteLastState A =
     (let state = nd_size A - 1
      in \<lparr>nd_states = butlast (nd_states A), nd_startStates = nd_startStates A - {state},
          nd_endStates = nd_endStates A - {state}\<rparr>)"

definition nd_isStartState :: "nat \<Rightarrow> ndfsa \<Rightarrow> bool" where
  "nd_isStartState p A \<longleftrightarrow> p \<in> nd_startStates A"

definition nd_setStartState :: "nat \<Rightarrow> ndfsa \<Rightarrow> ndfsa" where
  "nd_setStartState p A = A\<lparr>nd_startStates := insert p (nd_startStates A)\<rparr>"

definition nd_unsetStartState :: "nat \<Rightarrow> ndfsa \<Rightarrow> ndfsa" where
  "nd_unsetStartState p A = A\<lparr>nd_startStates := nd_startStates A - {p}\<rparr>"

definition nd_isEndState :: "nat \<Rightarrow> ndfsa \<Rightarrow> bool" where
  "nd_isEndState p A \<longleftrightarrow> p \<in> nd_endStates A"

definition nd_setEndState :: "nat \<Rightarrow> ndfsa \<Rightarrow> ndfsa" where
  "nd_setEndState p A = A\<lparr>nd_endStates := insert p (nd_endStates A)\<rparr>"

definition nd_unsetEndState :: "nat \<Rightarrow> ndfsa \<Rightarrow> ndfsa" where
  "nd_unsetEndState p A = A\<lparr>nd_endStates := nd_endStates A - {p}\<rparr>"

definition nd_addArc :: "nat \<Rightarrow> nat arc \<Rightarrow> ndfsa \<Rightarrow> ndfsa" where
  "nd_addArc p arc A = A\<lparr>nd_states := (nd_states A)[p := sort (nd_states A ! p @ [arc])]\<rparr>"

definition nd_getArcs :: "nat \<Rightarrow> ndfsa \<Rightarrow> nat arc list" where
  "nd_getArcs p A = nd_states A ! p"

text \<open>From the first arc that is not below the symbol with destination 0 on, or nothing.\<close>

definition lower_bound :: "'b :: linorder \<Rightarrow> 'b list \<Rightarrow> 'b list" where
  "lower_bound x xs = dropWhile (\<lambda>y. y < x) xs"

definition nd_find :: "nat \<Rightarrow> symbol \<Rightarrow> ndfsa \<Rightarrow> nat arc list" where
  "nd_find p a A =
     (let r = lower_bound (a, 0) (nd_getArcs p A)
      in case r of [] \<Rightarrow> [] | arc # _ \<Rightarrow> if fst arc = a then r else [])"

definition nd_deltaPrime :: "nat \<Rightarrow> symbol \<Rightarrow> ndfsa \<Rightarrow> nat set" where
  "nd_deltaPrime p a A =
     (if nd_size A < p then {} else set (map snd (takeWhile (\<lambda>arc. fst arc = a) (nd_find p a A))))"

definition nd_delta :: "nat set \<Rightarrow> symbol \<Rightarrow> ndfsa \<Rightarrow> nat set" where
  "nd_delta P a A = (\<Union>p \<in> P. nd_deltaPrime p a A)"

fun nd_in_from :: "nat set \<Rightarrow> string \<Rightarrow> ndfsa \<Rightarrow> bool" where
  "nd_in_from current [] A \<longleftrightarrow> (\<exists>p \<in> current. nd_isEndState p A)"
| "nd_in_from current (a # w) A =
     (let states = nd_delta current a A in if states \<noteq> {} then nd_in_from states w A else False)"

definition nd_in :: "string \<Rightarrow> ndfsa \<Rightarrow> bool" where
  "nd_in w A = nd_in_from (nd_startStates A) w A"

definition nd_ofSymbol :: "symbol \<Rightarrow> ndfsa" where
  "nd_ofSymbol s =
     (let (q0, A) = nd_addState True newNDFSA; (q1, A) = nd_addState False A
      in nd_setEndState q1 (nd_addArc q0 (s, q1) A))"

fun add_word :: "string \<Rightarrow> nat \<Rightarrow> ndfsa \<Rightarrow> nat \<times> ndfsa" where
  "add_word [] q A = (q, A)"
| "add_word (a # w) p A =
     (let (q, A) = nd_addState False A in add_word w q (nd_addArc p (a, q) A))"

definition nd_ofString :: "string \<Rightarrow> ndfsa" where
  "nd_ofString input =
     (let (q0, A) = nd_addState True newNDFSA; (q, A) = add_word input q0 A in nd_setEndState q A)"

text \<open>All states that arcs with the empty word lead to; the last state of the queue comes first.
  The code is used for every automaton class, so it is a function of the arcs.\<close>

definition eps_step :: "(nat \<Rightarrow> nat arc list) \<Rightarrow> nat set \<times> nat list \<Rightarrow> nat set \<times> nat list" where
  "eps_step arcs = (\<lambda>(closure, queue). case queue of [] \<Rightarrow> (closure, []) | s # queue \<Rightarrow>
     foldl (\<lambda>(closure, queue) (a, d).
       if a = EPS \<and> d \<notin> closure then (insert d closure, d # queue) else (closure, queue))
     (closure, queue) (arcs s))"

definition eps_loop :: "(nat \<Rightarrow> nat arc list) \<Rightarrow> nat \<Rightarrow> (nat set \<times> nat list) option" where
  "eps_loop arcs p = while_option (\<lambda>(closure, queue). queue \<noteq> []) (eps_step arcs) ({p}, [p])"

definition nd_epsClosure :: "nat \<Rightarrow> ndfsa \<Rightarrow> nat set" where
  "nd_epsClosure p A = fst (the (eps_loop (\<lambda>p. nd_getArcs p A) p))"

text \<open>The deterministic automaton follows the first arc with the symbol.\<close>

definition d_delta :: "nat \<Rightarrow> symbol \<Rightarrow> ndfsa \<Rightarrow> nat option" where
  "d_delta p a A =
     (if nd_size A < p then None else case nd_find p a A of [] \<Rightarrow> None | arc # _ \<Rightarrow> Some (snd arc))"

fun d_in_from :: "nat \<Rightarrow> string \<Rightarrow> ndfsa \<Rightarrow> bool" where
  "d_in_from p [] A = nd_isEndState p A"
| "d_in_from p (a # w) A = (case d_delta p a A of Some q \<Rightarrow> d_in_from q w A | None \<Rightarrow> False)"

definition d_in :: "string \<Rightarrow> ndfsa \<Rightarrow> bool" where
  "d_in w A = d_in_from 0 w A"

section \<open>Runs\<close>

text \<open>\<open>run D p w q\<close>: the word \<open>w\<close> of labels leads from \<open>p\<close> to \<open>q\<close>.\<close>

fun run :: "('q \<Rightarrow> ('a \<times> 'q) set) \<Rightarrow> 'q \<Rightarrow> 'a list \<Rightarrow> 'q \<Rightarrow> bool" where
  "run D p [] q \<longleftrightarrow> p = q"
| "run D p (a # w) q \<longleftrightarrow> (\<exists>r. (a, r) \<in> D p \<and> run D r w q)"

definition labels :: "('q \<Rightarrow> ('a \<times> 'q) set) \<Rightarrow> 'q set \<Rightarrow> 'q set \<Rightarrow> 'a list set" where
  "labels D S F = {w. \<exists>s \<in> S. \<exists>f \<in> F. run D s w f}"

text \<open>The language: symbols for the empty word are left out.\<close>

definition visible :: "string \<Rightarrow> string" where
  "visible w = filter (\<lambda>a. a \<noteq> EPS) w"

definition language_of :: "('q \<Rightarrow> 'q arc set) \<Rightarrow> 'q set \<Rightarrow> 'q set \<Rightarrow> string set" where
  "language_of D S F = visible ` labels D S F"

definition nd_arcs :: "ndfsa \<Rightarrow> nat \<Rightarrow> nat arc set" where
  "nd_arcs A p = (if p < nd_size A then set (nd_states A ! p) else {})"

definition nd_labels :: "ndfsa \<Rightarrow> string set" where
  "nd_labels A = labels (nd_arcs A) (nd_startStates A) (nd_endStates A)"

definition nd_language :: "ndfsa \<Rightarrow> string set" where
  "nd_language A = visible ` nd_labels A"

text \<open>Automata the operations make: arcs are sorted, and all states exist.\<close>

definition nd_wf :: "ndfsa \<Rightarrow> bool" where
  "nd_wf A \<longleftrightarrow> (\<forall>arcs \<in> set (nd_states A). sorted arcs \<and> (\<forall>(a, q) \<in> set arcs. q < nd_size A)) \<and>
     (\<forall>p \<in> nd_startStates A. p < nd_size A) \<and> (\<forall>p \<in> nd_endStates A. p < nd_size A)"

definition eps_free :: "ndfsa \<Rightarrow> bool" where
  "eps_free A \<longleftrightarrow> (\<forall>p q. (EPS, q) \<notin> nd_arcs A p)"

lemma run_append [simp]: "run D p (v @ w) q \<longleftrightarrow> (\<exists>r. run D p v r \<and> run D r w q)"
  by (induction v arbitrary: p) auto

lemma run_mono: "run D p w q \<Longrightarrow> (\<And>p. D p \<subseteq> D' p) \<Longrightarrow> run D' p w q"
  by (induction w arbitrary: p) auto

lemma nd_arcs_dest: "nd_wf A \<Longrightarrow> (a, q) \<in> nd_arcs A p \<Longrightarrow> p < nd_size A \<and> q < nd_size A"
  by (fastforce simp: nd_wf_def nd_arcs_def nd_size_def split: if_splits)

lemma run_inside: "nd_wf A \<Longrightarrow> p < nd_size A \<Longrightarrow> run (nd_arcs A) p w q \<Longrightarrow> q < nd_size A"
  by (induction w arbitrary: p) (auto dest: nd_arcs_dest)

lemma nd_wf_new [simp]: "nd_wf newNDFSA"
  by (simp add: nd_wf_def newNDFSA_def)

lemma nd_size_simps [simp]: "nd_size newNDFSA = 0" "nd_size (nd_addArc p arc A) = nd_size A"
  "nd_size (nd_setEndState p A) = nd_size A" "nd_size (nd_unsetEndState p A) = nd_size A"
  "nd_size (nd_setStartState p A) = nd_size A" "nd_size (nd_unsetStartState p A) = nd_size A"
  "nd_size (snd (nd_addState s A)) = Suc (nd_size A)" "fst (nd_addState s A) = nd_size A"
  by (simp_all add: nd_size_def newNDFSA_def nd_addArc_def nd_setEndState_def nd_unsetEndState_def
      nd_setStartState_def nd_unsetStartState_def nd_addState_def Let_def)

lemma nd_arcs_simps [simp]: "nd_arcs newNDFSA = (\<lambda>p. {})"
  "nd_arcs (nd_setEndState p A) = nd_arcs A" "nd_arcs (nd_unsetEndState p A) = nd_arcs A"
  "nd_arcs (nd_setStartState p A) = nd_arcs A" "nd_arcs (nd_unsetStartState p A) = nd_arcs A"
  "nd_arcs (snd (nd_addState s A)) = nd_arcs A"
  "p < nd_size A \<Longrightarrow> nd_arcs (nd_addArc p arc A) = (nd_arcs A)(p := insert arc (nd_arcs A p))"
  by (auto simp: fun_eq_iff nd_arcs_def nd_size_def newNDFSA_def nd_addArc_def nd_setEndState_def nd_unsetEndState_def
      nd_setStartState_def nd_unsetStartState_def nd_addState_def Let_def nth_append nth_list_update)

lemma nd_start_simps [simp]: "nd_startStates newNDFSA = {}"
  "nd_startStates (nd_setEndState p A) = nd_startStates A" "nd_startStates (nd_unsetEndState p A) = nd_startStates A"
  "nd_startStates (nd_setStartState p A) = insert p (nd_startStates A)"
  "nd_startStates (nd_unsetStartState p A) = nd_startStates A - {p}"
  "nd_startStates (snd (nd_addState s A)) = (if s then insert (nd_size A) (nd_startStates A) else nd_startStates A)"
  "nd_startStates (nd_addArc p arc A) = nd_startStates A"
  by (simp_all add: nd_size_def newNDFSA_def nd_addArc_def nd_setEndState_def nd_unsetEndState_def
      nd_setStartState_def nd_unsetStartState_def nd_addState_def Let_def)

lemma nd_end_simps [simp]: "nd_endStates newNDFSA = {}"
  "nd_endStates (nd_setEndState p A) = insert p (nd_endStates A)" "nd_endStates (nd_unsetEndState p A) = nd_endStates A - {p}"
  "nd_endStates (nd_setStartState p A) = nd_endStates A" "nd_endStates (nd_unsetStartState p A) = nd_endStates A"
  "nd_endStates (snd (nd_addState s A)) = nd_endStates A" "nd_endStates (nd_addArc p arc A) = nd_endStates A"
  by (simp_all add: nd_size_def newNDFSA_def nd_addArc_def nd_setEndState_def nd_unsetEndState_def
      nd_setStartState_def nd_unsetStartState_def nd_addState_def Let_def)

lemma nd_wf_simps [simp]:
  "nd_wf A \<Longrightarrow> nd_wf (snd (nd_addState s A))"
  "nd_wf A \<Longrightarrow> p < nd_size A \<Longrightarrow> snd arc < nd_size A \<Longrightarrow> nd_wf (nd_addArc p arc A)"
  "nd_wf A \<Longrightarrow> p < nd_size A \<Longrightarrow> nd_wf (nd_setEndState p A)" "nd_wf A \<Longrightarrow> nd_wf (nd_unsetEndState p A)"
  "nd_wf A \<Longrightarrow> p < nd_size A \<Longrightarrow> nd_wf (nd_setStartState p A)" "nd_wf A \<Longrightarrow> nd_wf (nd_unsetStartState p A)"
proof -
  assume A: "nd_wf A"
  show "nd_wf (snd (nd_addState s A))"
    using A by (fastforce simp: nd_wf_def nd_addState_def Let_def nd_size_def)
  show "nd_wf (nd_addArc p arc A)" if "p < nd_size A" "snd arc < nd_size A"
  proof -
    have "nd_states A ! p \<in> set (nd_states A)" using that by (simp add: nd_size_def)
    then have "\<forall>(a, q) \<in> set (nd_states A ! p). q < nd_size A" using A by (simp add: nd_wf_def)
    then show ?thesis
      using A that unfolding nd_wf_def
      by (auto simp: nd_addArc_def nd_size_def dest!: set_update_subset_insert [THEN subsetD])
  qed
  show "nd_wf (nd_setEndState p A)" "nd_wf (nd_setStartState p A)" if "p < nd_size A"
    using A that by (auto simp: nd_wf_def nd_setEndState_def nd_setStartState_def nd_size_def)
  show "nd_wf (nd_unsetEndState p A)" "nd_wf (nd_unsetStartState p A)"
    using A by (auto simp: nd_wf_def nd_unsetEndState_def nd_unsetStartState_def nd_size_def)
qed

lemma nd_set_getArcs: "p < nd_size A \<Longrightarrow> set (nd_getArcs p A) = nd_arcs A p"
  by (simp add: nd_getArcs_def nd_arcs_def)

section \<open>Membership\<close>

lemma lower_bound_symbol:
  assumes "sorted arcs"
  shows "set (takeWhile (\<lambda>arc. fst arc = a) (lower_bound (a, 0 :: nat) arcs)) = {arc \<in> set arcs. fst arc = a}"
  using assms
proof (induction arcs)
  case (Cons arc arcs)
  show ?case
  proof (cases "arc < (a, 0)")
    case True
    then have "fst arc \<noteq> a" by (cases arc) auto
    then show ?thesis using Cons True by (auto simp: lower_bound_def)
  next
    case False
    have keep: "{x \<in> set xs. fst x = a} = set (takeWhile (\<lambda>x. fst x = a) xs)"
      if "sorted xs" "\<forall>x \<in> set xs. \<not> x < (a, 0 :: nat)" for xs
      using that
    proof (induction xs)
      case (Cons x xs)
      show ?case
      proof (cases "fst x = a")
        case False
        then have "a < fst x" using Cons.prems by (cases x) auto
        moreover have "\<forall>y \<in> set xs. fst x \<le> fst y" using Cons.prems(1) by (auto simp: less_eq_prod_def)
        ultimately have "\<forall>y \<in> set xs. fst y \<noteq> a" by fastforce
        then show ?thesis using False by auto
      qed (use Cons in auto)
    qed simp
    have "\<forall>x \<in> set (arc # arcs). \<not> x < (a, 0)" using Cons.prems False by (auto dest: le_less_trans)
    from keep [OF Cons.prems this] show ?thesis using False by (simp add: lower_bound_def)
  qed
qed (simp add: lower_bound_def)

lemma deltaPrime_arcs:
  assumes "nd_wf A" "p < nd_size A"
  shows "nd_deltaPrime p a A = {q. (a, q) \<in> nd_arcs A p}"
proof -
  have s: "sorted (nd_states A ! p)" using assms by (auto simp: nd_wf_def nd_size_def)
  let ?r = "lower_bound (a, 0) (nd_getArcs p A)"
  have "takeWhile (\<lambda>arc. fst arc = a) (nd_find p a A) = takeWhile (\<lambda>arc. fst arc = a) ?r"
    by (cases ?r) (auto simp: nd_find_def)
  then have "set (takeWhile (\<lambda>arc. fst arc = a) (nd_find p a A)) = {arc \<in> nd_arcs A p. fst arc = a}"
    using lower_bound_symbol [OF s, of a] assms(2) by (simp add: nd_getArcs_def nd_arcs_def)
  then show ?thesis using assms(2) by (auto simp: nd_deltaPrime_def image_iff)
qed

lemma nd_in_from:
  assumes "nd_wf A" "P \<noteq> {}" "\<forall>p \<in> P. p < nd_size A"
  shows "nd_in_from P w A \<longleftrightarrow> w \<in> labels (nd_arcs A) P (nd_endStates A)"
  using assms(2,3)
proof (induction w arbitrary: P)
  case (Cons a w)
  let ?Q = "nd_delta P a A"
  have Q: "?Q = {q. \<exists>p \<in> P. (a, q) \<in> nd_arcs A p}"
    using Cons.prems deltaPrime_arcs [OF assms(1)] by (auto simp: nd_delta_def)
  have "\<forall>q \<in> ?Q. q < nd_size A" using nd_arcs_dest [OF assms(1)] by (auto simp: Q)
  then show ?case
    using Cons.IH [of ?Q] by (cases "?Q = {}") (auto simp: Q labels_def)
qed (auto simp: labels_def nd_isEndState_def)

theorem nd_in_labels: "nd_wf A \<Longrightarrow> nd_in w A \<longleftrightarrow> nd_startStates A \<noteq> {} \<and> w \<in> nd_labels A"
proof (cases "nd_startStates A = {}")
  case True
  then show ?thesis
    by (cases w) (simp_all add: nd_in_def nd_delta_def)
next
  case False
  assume "nd_wf A"
  then show ?thesis
    using nd_in_from [of A "nd_startStates A" w] False by (simp add: nd_in_def nd_labels_def nd_wf_def)
qed

section \<open>The closure\<close>

definition eps_rel :: "(nat \<Rightarrow> nat arc list) \<Rightarrow> (nat \<times> nat) set" where
  "eps_rel arcs = {(p, q). (EPS, q) \<in> set (arcs p)}"

lemma eps_step_fold:
  "foldl (\<lambda>(C, Q) (a, d). if a = EPS \<and> d \<notin> C then (insert d C, d # Q) else (C, Q)) (C, Q) arcs = (C', Q') \<Longrightarrow>
   C' = C \<union> {d. (EPS, d) \<in> set arcs} \<and> set Q' = set Q \<union> (C' - C) \<and> (C' = C \<longrightarrow> Q' = Q)"
proof (induction arcs arbitrary: C' Q' rule: rev_induct)
  case (snoc arc arcs)
  obtain a d where arc: "arc = (a, d)" by (cases arc)
  obtain C1 Q1 where 1: "foldl (\<lambda>(C, Q) (a, d). if a = EPS \<and> d \<notin> C then (insert d C, d # Q) else (C, Q)) (C, Q) arcs = (C1, Q1)"
    by fastforce
  note IH = snoc.IH [OF 1]
  show ?case
  proof (cases "a = EPS \<and> d \<notin> C1")
    case True
    then have "C' = insert d C1" "Q' = d # Q1" using snoc.prems 1 by (simp_all add: arc)
    moreover have "d \<notin> C" using True IH by blast
    ultimately show ?thesis using True IH by (simp add: arc) blast
  next
    case False
    then have "C' = C1" "Q' = Q1" using snoc.prems 1 by (auto simp: arc split: if_splits)
    then show ?thesis using False IH by (auto simp: arc)
  qed
qed auto

text \<open>What holds whenever the loop is at its test.\<close>

definition eps_inv :: "(nat \<Rightarrow> nat arc list) \<Rightarrow> nat \<Rightarrow> nat set \<times> nat list \<Rightarrow> bool" where
  "eps_inv arcs p = (\<lambda>(C, Q). p \<in> C \<and> C \<subseteq> (eps_rel arcs)\<^sup>* `` {p} \<and> set Q \<subseteq> C \<and> eps_rel arcs `` (C - set Q) \<subseteq> C)"

lemma eps_inv_step:
  assumes "eps_inv arcs p st" "snd st \<noteq> []"
  shows "eps_inv arcs p (eps_step arcs st)"
    "fst st \<subset> fst (eps_step arcs st) \<or> fst (eps_step arcs st) = fst st \<and> length (snd (eps_step arcs st)) < length (snd st)"
proof -
  obtain C s Q where st: "st = (C, s # Q)" using assms(2) by (metis list.exhaust prod.collapse)
  obtain C' Q' where e: "foldl (\<lambda>(C, Q) (a, d). if a = EPS \<and> d \<notin> C then (insert d C, d # Q) else (C, Q)) (C, Q) (arcs s) = (C', Q')"
    by fastforce
  note f = eps_step_fold [OF e]
  have step: "eps_step arcs st = (C', Q')" using e by (simp add: st eps_step_def)
  have reach: "(p, d) \<in> (eps_rel arcs)\<^sup>*" if "(EPS, d) \<in> set (arcs s)" for d
  proof -
    have "(p, s) \<in> (eps_rel arcs)\<^sup>*" using assms(1) by (auto simp: eps_inv_def st)
    moreover have "(s, d) \<in> eps_rel arcs" using that by (simp add: eps_rel_def)
    ultimately show ?thesis by (rule rtrancl_into_rtrancl)
  qed
  have "eps_rel arcs `` {s} = {d. (EPS, d) \<in> set (arcs s)}" by (auto simp: eps_rel_def)
  moreover have "C' - set Q' \<subseteq> insert s (C - insert s (set Q))" using f by auto
  then have "eps_rel arcs `` (C' - set Q') \<subseteq> eps_rel arcs `` {s} \<union> eps_rel arcs `` (C - insert s (set Q))"
    by blast
  ultimately have "eps_rel arcs `` (C' - set Q') \<subseteq> C'"
    using assms(1) f unfolding st eps_inv_def by simp blast
  moreover have "set Q' \<subseteq> C'" "p \<in> C'" "C' \<subseteq> (eps_rel arcs)\<^sup>* `` {p}"
    using assms(1) f reach unfolding st eps_inv_def by auto
  ultimately have "eps_inv arcs p (C', Q')" unfolding eps_inv_def by simp
  then show "eps_inv arcs p (eps_step arcs st)" by (simp only: step)
  show "fst st \<subset> fst (eps_step arcs st) \<or> fst (eps_step arcs st) = fst st \<and> length (snd (eps_step arcs st)) < length (snd st)"
    unfolding step using f by (auto simp: st)
qed

text \<open>The loop ends when finitely many states can be reached, and then has found all of them.\<close>

lemma eps_loop:
  assumes "finite ((eps_rel arcs)\<^sup>* `` {p})"
  shows "eps_loop arcs p = Some ((eps_rel arcs)\<^sup>* `` {p}, [])"
proof -
  let ?R = "(eps_rel arcs)\<^sup>* `` {p}"
  let ?b = "\<lambda>(C :: nat set, Q :: nat list). Q \<noteq> []"
  have init: "eps_inv arcs p ({p}, [p])" by (simp add: eps_inv_def)
  have "wf ((\<lambda>(C, Q :: nat list). card (?R - C)) <*mlex*> (\<lambda>(C, Q). length Q) <*mlex*> {})" (is "wf ?m")
    by (blast intro: wf_mlex)
  then have "\<exists>st. while_option ?b (eps_step arcs) ({p}, [p]) = Some st"
  proof (rule wf_rel_while_option_Some)
    fix st :: "nat set \<times> nat list" assume st: "eps_inv arcs p st \<and> ?b st"
    note inv = eps_inv_step [of arcs p st]
    have sub: "fst (eps_step arcs st) \<subseteq> ?R" using inv(1) st by (auto simp: eps_inv_def split: prod.splits)
    consider "fst st \<subset> fst (eps_step arcs st)"
      | "fst (eps_step arcs st) = fst st" "length (snd (eps_step arcs st)) < length (snd st)"
      using inv(2) st by (auto split: prod.splits)
    then show "(eps_step arcs st, st) \<in> ?m"
    proof cases
      case 1
      then have "card (?R - fst (eps_step arcs st)) < card (?R - fst st)"
        using assms sub by (intro psubset_card_mono) auto
      then show ?thesis by (simp add: mlex_prod_def case_prod_beta')
    qed (simp add: mlex_prod_def case_prod_beta')
  next
    show "eps_inv arcs p (eps_step arcs st)" if "eps_inv arcs p st \<and> ?b st" for st
      using that by (intro eps_inv_step(1)) (auto split: prod.splits)
  qed (rule init)
  then obtain C Q where w: "while_option ?b (eps_step arcs) ({p}, [p]) = Some (C, Q)" by auto
  have "eps_inv arcs p (C, Q)"
    by (rule while_option_rule [where P = "eps_inv arcs p", OF _ w init])
      (auto intro: eps_inv_step(1) split: prod.splits)
  moreover have "Q = []" using while_option_stop [OF w] by simp
  ultimately have "C = ?R"
    using Image_closed_trancl [of "eps_rel arcs" C] by (fastforce simp: eps_inv_def)
  then show ?thesis using w \<open>Q = []\<close> by (simp add: eps_loop_def)
qed

definition nd_eps :: "ndfsa \<Rightarrow> (nat \<times> nat) set" where
  "nd_eps A = {(p, q). (EPS, q) \<in> nd_arcs A p}"

lemma nd_epsClosure:
  assumes "nd_wf A" "p < nd_size A"
  shows "nd_epsClosure p A = (nd_eps A)\<^sup>* `` {p}"
proof -
  let ?E = "eps_rel (\<lambda>p. nd_getArcs p A)"
  have "q < nd_size A \<and> (p, q) \<in> (nd_eps A)\<^sup>*" if "(p, q) \<in> ?E\<^sup>*" for q
    using that
  proof induction
    case (step q r)
    then have "(q, r) \<in> nd_eps A" by (simp add: eps_rel_def nd_eps_def nd_arcs_def nd_getArcs_def)
    then show ?case using step nd_arcs_dest [OF assms(1)] by (auto simp: nd_eps_def intro: rtrancl_into_rtrancl)
  qed (use assms in simp)
  moreover have "(p, q) \<in> ?E\<^sup>*" if "(p, q) \<in> (nd_eps A)\<^sup>*" for q
    using that
  proof induction
    case (step q r)
    then have "(q, r) \<in> ?E"
      by (auto simp: eps_rel_def nd_eps_def nd_arcs_def nd_getArcs_def split: if_splits)
    then show ?case using step by (auto intro: rtrancl_into_rtrancl)
  qed simp
  ultimately have same: "?E\<^sup>* `` {p} = (nd_eps A)\<^sup>* `` {p}" and "?E\<^sup>* `` {p} \<subseteq> {..<nd_size A}" by auto
  then have "finite (?E\<^sup>* `` {p})" by (auto intro: finite_subset)
  then show ?thesis using eps_loop same by (simp add: nd_epsClosure_def)
qed

end
