(* ===== verification/Fsa_Traverse.thy ===== *)
theory Fsa_Traverse imports Ndfsa begin

text \<open>Operations on automata (fsa_algorithms.hpp): a wrapper describes an automaton that is made on
  the fly, and \<open>traverse\<close> copies its reachable part into an automaton.\<close>

section \<open>Wrappers\<close>

text \<open>What the templates use of the class of an automaton.\<close>

record fsa_class =
  getStartStates :: "nat set"
  isEndState :: "nat \<Rightarrow> bool"
  getArcs :: "nat \<Rightarrow> nat arc list"
  epsClosure :: "nat \<Rightarrow> nat set"

definition nd_class :: "ndfsa \<Rightarrow> fsa_class" where
  "nd_class A = \<lparr>getStartStates = nd_startStates A, isEndState = (\<lambda>p. nd_isEndState p A),
     getArcs = (\<lambda>p. nd_getArcs p A), epsClosure = (\<lambda>p. nd_epsClosure p A)\<rparr>"

text \<open>Sets of states and of arcs are given as lists in the order in which the code goes through them.\<close>

record 'q wrapper =
  startFn :: "'q list"
  finalFn :: "'q \<Rightarrow> bool"
  arcFn :: "'q \<Rightarrow> 'q arc list"

definition set_order :: "'b :: linorder set \<Rightarrow> 'b list" where
  "set_order = sorted_list_of_set"

definition reversed_arcs :: "ndfsa \<Rightarrow> nat \<Rightarrow> nat arc list" where
  "reversed_arcs A q = concat (map (\<lambda>p. map (\<lambda>(a, d). (a, p)) (filter (\<lambda>(a, d). d = q) (nd_getArcs p A))) [0..<nd_size A])"

definition Reverser :: "ndfsa \<Rightarrow> nat wrapper" where
  "Reverser A = \<lparr>startFn = set_order (nd_endStates A), finalFn = (\<lambda>p. nd_isStartState p A),
     arcFn = (\<lambda>q. set_order (set (reversed_arcs A q)))\<rparr>"

definition Copier :: "fsa_class \<Rightarrow> nat wrapper" where
  "Copier A = \<lparr>startFn = set_order (getStartStates A), finalFn = isEndState A,
     arcFn = (\<lambda>p. set_order (set (getArcs A p)))\<rparr>"

text \<open>The start states of the second automaton are taken from the first one.\<close>

definition joint_arcs :: "bool \<Rightarrow> nat arc \<Rightarrow> nat arc \<Rightarrow> (nat \<times> nat) arc list" where
  "joint_arcs allowAny = (\<lambda>(a1, d1) (a2, d2).
     (if a1 = a2 then [(a1, d1, d2)] else []) @
     (if allowAny then if a1 = ANY then [(a2, d1, d2)] else if a2 = ANY then [(a1, d1, d2)] else [] else []))"

definition Intersector :: "fsa_class \<Rightarrow> fsa_class \<Rightarrow> bool \<Rightarrow> (nat \<times> nat) wrapper" where
  "Intersector A B allowAny = \<lparr>startFn = set_order (getStartStates A \<times> getStartStates A),
     finalFn = (\<lambda>(p, q). isEndState A p \<and> isEndState B q),
     arcFn = (\<lambda>(p, q). set_order (\<Union>p1 \<in> epsClosure A p. \<Union>p2 \<in> epsClosure B q.
       \<Union>x \<in> set (getArcs A p1). \<Union>y \<in> set (getArcs B p2). set (joint_arcs allowAny x y)))\<rparr>"

definition EpsRemover :: "ndfsa \<Rightarrow> nat wrapper" where
  "EpsRemover A = \<lparr>startFn = set_order (nd_startStates A),
     finalFn = (\<lambda>p. \<exists>q \<in> nd_epsClosure p A. nd_isEndState q A),
     arcFn = (\<lambda>p. set_order (\<Union>q \<in> nd_epsClosure p A. {x \<in> set (nd_getArcs q A). fst x \<noteq> EPS}))\<rparr>"

text \<open>A set of states is given as its elements in order.\<close>

definition Determinizer :: "ndfsa \<Rightarrow> nat list wrapper" where
  "Determinizer A = \<lparr>startFn = [set_order (nd_startStates A)],
     finalFn = (\<lambda>P. \<exists>q \<in> set P. nd_isEndState q A),
     arcFn = (\<lambda>P. let arcs = \<Union>q \<in> set P. set (nd_getArcs q A)
       in map (\<lambda>a. (a, set_order {d. (a, d) \<in> arcs})) (set_order (fst ` arcs)))\<rparr>"

section \<open>Traversal\<close>

type_synonym 'q traversal = "ndfsa \<times> ('q \<rightharpoonup> nat) \<times> 'q list"

definition traverse_start :: "'q wrapper \<Rightarrow> ndfsa \<Rightarrow> 'q traversal" where
  "traverse_start W A = foldl (\<lambda>(A, mapper, queue) s.
     let (n, A) = nd_addState True A in (A, mapper(s \<mapsto> n), s # queue)) (A, Map.empty, []) (startFn W)"

definition traverse_arc :: "'q \<Rightarrow> 'q traversal \<Rightarrow> 'q arc \<Rightarrow> 'q traversal" where
  "traverse_arc s = (\<lambda>(A, mapper, queue) (a, d).
     let (A, mapper, queue) =
           (if mapper d = None
            then let (n, A) = nd_addState False A in (A, mapper(d \<mapsto> n), d # queue)
            else (A, mapper, queue))
     in (nd_addArc (the (mapper s)) (a, the (mapper d)) A, mapper, queue))"

definition traverse_step :: "'q wrapper \<Rightarrow> 'q traversal \<Rightarrow> 'q traversal" where
  "traverse_step W = (\<lambda>(A, mapper, queue). case queue of
       [] \<Rightarrow> (A, mapper, [])
     | s # queue \<Rightarrow>
         let (A, mapper) =
               (if mapper s = None then let (n, A) = nd_addState False A in (A, mapper(s \<mapsto> n)) else (A, mapper));
             A = (if finalFn W s then nd_setEndState (the (mapper s)) A else A)
         in foldl (traverse_arc s) (A, mapper, queue) (arcFn W s))"

definition traverse :: "'q wrapper \<Rightarrow> ndfsa \<Rightarrow> ndfsa option" where
  "traverse W A =
     map_option fst (while_option (\<lambda>(A, mapper, queue). queue \<noteq> []) (traverse_step W) (traverse_start W A))"

section \<open>Operations\<close>

definition fsa_reverse :: "ndfsa \<Rightarrow> ndfsa option" where
  "fsa_reverse A = traverse (Reverser A) newNDFSA"

definition reachable :: "ndfsa \<Rightarrow> ndfsa option" where
  "reachable A = traverse (Copier (nd_class A)) newNDFSA"

definition prune :: "ndfsa \<Rightarrow> ndfsa option" where
  "prune A = Option.bind (fsa_reverse A) (\<lambda>A. Option.bind (reachable A) fsa_reverse)"

definition epsRemove :: "ndfsa \<Rightarrow> ndfsa option" where
  "epsRemove A = traverse (EpsRemover A) newNDFSA"

definition determinize :: "ndfsa \<Rightarrow> ndfsa option" where
  "determinize A = traverse (Determinizer A) newNDFSA"

definition minimize :: "ndfsa \<Rightarrow> ndfsa option" where
  "minimize A =
     Option.bind (epsRemove A) (\<lambda>A. Option.bind (fsa_reverse A) (\<lambda>A. Option.bind (determinize A)
       (\<lambda>A. Option.bind (fsa_reverse A) determinize)))"

definition unify :: "ndfsa \<Rightarrow> fsa_class \<Rightarrow> ndfsa option" where
  "unify dst src = traverse (Copier src) dst"

definition intersect :: "ndfsa \<Rightarrow> fsa_class \<Rightarrow> bool \<Rightarrow> ndfsa option" where
  "intersect dst src allowAny = traverse (Intersector (nd_class dst) src allowAny) newNDFSA"

definition join_end :: "nat set \<Rightarrow> nat list \<Rightarrow> ndfsa \<Rightarrow> nat \<Rightarrow> ndfsa" where
  "join_end first_start second_start dst p =
     nd_unsetEndState p (foldl (\<lambda>dst q. if q \<notin> first_start then nd_unsetStartState q (nd_addArc p (EPS, q) dst) else dst)
       dst second_start)"

definition fsa_concatenate :: "ndfsa \<Rightarrow> fsa_class \<Rightarrow> ndfsa option" where
  "fsa_concatenate dst src =
     map_option (\<lambda>dst'. foldl (join_end (nd_startStates dst) (set_order (nd_startStates dst'))) dst'
                         (set_order (nd_endStates dst)))
       (traverse (Copier src) dst)"

definition kleene_option :: "ndfsa \<Rightarrow> ndfsa" where
  "kleene_option A =
     (let start = set_order (nd_startStates A); end_states = set_order (nd_endStates A);
          (ns, A) = nd_addState False A; A = nd_setStartState ns A;
          (ne, A) = nd_addState False A; A = nd_setEndState ne A;
          A = foldl (\<lambda>A p. nd_addArc ns (EPS, p) (nd_unsetStartState p A)) A start
      in foldl (\<lambda>A p. nd_addArc p (EPS, ne) (nd_unsetEndState p A)) A end_states)"

definition kleene_plus :: "ndfsa \<Rightarrow> ndfsa" where
  "kleene_plus A =
     foldl (\<lambda>A p. foldl (\<lambda>A q. nd_addArc p (EPS, q) A) A (set_order (nd_startStates A))) A
       (set_order (nd_endStates A))"

definition kleene_star :: "ndfsa \<Rightarrow> ndfsa" where
  "kleene_star A = kleene_plus (kleene_option A)"

text \<open>The words of an automaton up to a length, in the order of a depth-first search.  The symbols of
  all arcs are part of the words.\<close>

function language_rec :: "fsa_class \<Rightarrow> nat \<Rightarrow> nat \<Rightarrow> string \<Rightarrow> string list" where
  "language_rec A maxDepth state word =
     (if length word > maxDepth then []
      else (if isEndState A state then [word] else []) @
        concat (map (\<lambda>(a, d). language_rec A maxDepth d (word @ [a])) (getArcs A state)))"
  by pat_completeness auto
termination by (relation "measure (\<lambda>(A, n, s, w). Suc n - length w)") auto

declare language_rec.simps [simp del]

definition language :: "fsa_class \<Rightarrow> nat \<Rightarrow> string list" where
  "language A maxDepth = concat (map (\<lambda>s. language_rec A maxDepth s []) (set_order (getStartStates A)))"

lemma set_set_order [simp]: "finite X \<Longrightarrow> set (set_order X) = X" "distinct (set_order X)"
  by (simp_all add: set_order_def)

section \<open>What the traversal builds\<close>

definition successors :: "'q wrapper \<Rightarrow> ('q \<times> 'q) set" where
  "successors W = {(p, q). \<exists>a. (a, q) \<in> set (arcFn W p)}"

definition reached :: "'q wrapper \<Rightarrow> 'q set" where
  "reached W = (successors W)\<^sup>* `` set (startFn W)"

text \<open>\<open>A\<close> extends \<open>A0\<close> by copies of the states \<open>Q\<close>, of which \<open>D\<close> have their arcs.\<close>

definition copy_of :: "'q wrapper \<Rightarrow> ndfsa \<Rightarrow> ('q \<rightharpoonup> nat) \<Rightarrow> 'q set \<Rightarrow> ndfsa \<Rightarrow> bool" where
  "copy_of W A0 m D A \<longleftrightarrow> nd_wf A \<and> nd_size A0 \<le> nd_size A \<and> inj_on m (dom m) \<and> ran m = {nd_size A0..<nd_size A} \<and>
     D \<subseteq> dom m \<and> successors W `` D \<subseteq> dom m \<and> set (startFn W) \<subseteq> dom m \<and> dom m \<subseteq> reached W \<and>
     (\<forall>p < nd_size A0. nd_arcs A p = nd_arcs A0 p) \<and>
     (\<forall>s n. m s = Some n \<longrightarrow> nd_arcs A n = (if s \<in> D then (\<lambda>(a, d). (a, the (m d))) ` set (arcFn W s) else {})) \<and>
     nd_endStates A = nd_endStates A0 \<union> (the \<circ> m) ` {s \<in> D. finalFn W s} \<and>
     nd_startStates A = nd_startStates A0 \<union> (the \<circ> m) ` set (startFn W)"

text \<open>A new state for \<open>d\<close>.\<close>

definition fresh_ok :: "nat \<Rightarrow> ('q \<rightharpoonup> nat) \<Rightarrow> ndfsa \<Rightarrow> bool" where
  "fresh_ok n0 m A \<longleftrightarrow> nd_wf A \<and> n0 \<le> nd_size A \<and> inj_on m (dom m) \<and> ran m = {n0..<nd_size A}"

lemma fresh_ok_add:
  assumes "fresh_ok n0 m A" "m d = None"
  shows "fresh_ok n0 (m(d \<mapsto> nd_size A)) (snd (nd_addState b A))"
proof -
  have "nd_size A \<notin> ran m" using assms(1) by (simp add: fresh_ok_def)
  then have "inj_on (m(d \<mapsto> nd_size A)) (dom (m(d \<mapsto> nd_size A)))"
    using assms by (auto simp: fresh_ok_def inj_on_def ran_def)
  then show ?thesis
    using assms by (auto simp: fresh_ok_def ran_map_upd)
qed

lemma traverse_arcs:
  assumes "fresh_ok n0 m A" "m s = Some n" "n < nd_size A"
    "foldl (traverse_arc s) (A, m, Q) xs = (A', m', Q')"
  shows "fresh_ok n0 m' A' \<and> nd_size A \<le> nd_size A' \<and> m \<subseteq>\<^sub>m m' \<and> dom m' = dom m \<union> snd ` set xs \<and>
    set Q' = set Q \<union> (dom m' - dom m) \<and> (distinct Q \<longrightarrow> set Q \<subseteq> dom m \<longrightarrow> distinct Q') \<and>
    (dom m' = dom m \<longrightarrow> Q' = Q) \<and>
    nd_arcs A' = (nd_arcs A)(n := nd_arcs A n \<union> (\<lambda>(a, d). (a, the (m' d))) ` set xs) \<and>
    nd_endStates A' = nd_endStates A \<and> nd_startStates A' = nd_startStates A"
  using assms(4)
proof (induction xs arbitrary: A' m' Q' rule: rev_induct)
  case Nil
  then show ?case using assms by (auto simp: map_le_def)
next
  case (snoc x xs)
  obtain a d where x: "x = (a, d)" by (cases x)
  obtain A1 m1 Q1 where 1: "foldl (traverse_arc s) (A, m, Q) xs = (A1, m1, Q1)" by (cases "foldl (traverse_arc s) (A, m, Q) xs")
  have IH: "fresh_ok n0 m1 A1" "nd_size A \<le> nd_size A1" "m \<subseteq>\<^sub>m m1" "dom m1 = dom m \<union> snd ` set xs"
    "set Q1 = set Q \<union> (dom m1 - dom m)" "distinct Q \<Longrightarrow> set Q \<subseteq> dom m \<Longrightarrow> distinct Q1" "dom m1 = dom m \<Longrightarrow> Q1 = Q"
    "nd_arcs A1 = (nd_arcs A)(n := nd_arcs A n \<union> (\<lambda>(a, d). (a, the (m1 d))) ` set xs)"
    "nd_endStates A1 = nd_endStates A" "nd_startStates A1 = nd_startStates A"
    using snoc.IH [OF 1] by blast+
  have ms: "m1 s = Some n" using IH(3) assms(2) by (auto simp: map_le_def dom_def)
  have n: "n < nd_size A1" using IH assms(3) by simp
  have img: "(\<lambda>(a, e). (a, the ((m1(d \<mapsto> k)) e))) ` set xs = (\<lambda>(a, e). (a, the (m1 e))) ` set xs"
    if "m1 d = None" for k
  proof (rule image_cong [OF refl])
    fix y assume "y \<in> set xs"
    then have "snd y \<noteq> d" using IH that by (metis UnI2 domIff image_eqI)
    then show "(case y of (a, e) \<Rightarrow> (a, the ((m1(d \<mapsto> k)) e))) = (case y of (a, e) \<Rightarrow> (a, the (m1 e)))"
      by (cases y) simp
  qed
  show ?case
  proof (cases "m1 d")
    case None
    let ?B = "snd (nd_addState False A1)"
    have new: "A' = nd_addArc n (a, nd_size A1) ?B" "m' = m1(d \<mapsto> nd_size A1)" "Q' = d # Q1"
      using snoc.prems 1 None ms by (auto simp: x traverse_arc_def Let_def case_prod_beta' split: if_splits)
    have B: "fresh_ok n0 m' ?B" using fresh_ok_add [of n0 m1 A1 d False] IH(1) None by (simp add: new)
    have d: "d \<notin> dom m1" "d \<notin> dom m" using IH(3) None by (auto simp: map_le_def dom_def)
    have dom: "dom m' = insert d (dom m1)" by (simp add: new(2))
    show ?thesis
    proof (intro conjI impI)
      show "fresh_ok n0 m' A'" using B n by (simp add: fresh_ok_def new(1))
      show "m \<subseteq>\<^sub>m m'" using IH(3) d(2) by (auto simp: map_le_def new(2))
      show "dom m' = dom m \<union> snd ` set (xs @ [x])" using IH(4) dom by (simp add: x)
      show "set Q' = set Q \<union> (dom m' - dom m)" using IH(5) dom d(2) by (auto simp: new(3))
      show "distinct Q'" if "distinct Q" "set Q \<subseteq> dom m"
        using IH(6) [OF that] IH(5) d that by (auto simp: new(3))
      show "Q' = Q" if "dom m' = dom m" using that dom d(2) by blast
      show "nd_arcs A' = (nd_arcs A)(n := nd_arcs A n \<union> (\<lambda>(a, d). (a, the (m' d))) ` set (xs @ [x]))"
        using IH(8) n img [OF None, of "nd_size A1"] unfolding new(1,2) by (simp add: x fun_eq_iff)
    qed (use IH(2,9,10) n in \<open>simp_all add: new(1)\<close>)
  next
    case (Some k)
    then have k: "k < nd_size A1" using IH(1) by (auto simp: fresh_ok_def ran_def)
    have new: "A' = nd_addArc n (a, k) A1" "m' = m1" "Q' = Q1"
      using snoc.prems 1 Some ms by (auto simp: x traverse_arc_def Let_def)
    have d: "d \<in> dom m1" using Some by blast
    show ?thesis
    proof (intro conjI impI)
      show "fresh_ok n0 m' A'" using IH(1) n k by (simp add: fresh_ok_def new(1,2))
      show "dom m' = dom m \<union> snd ` set (xs @ [x])" using IH(4) d by (auto simp: x new(2))
      show "nd_arcs A' = (nd_arcs A)(n := nd_arcs A n \<union> (\<lambda>(a, d). (a, the (m' d))) ` set (xs @ [x]))"
        using IH(8) n Some unfolding new(1,2) by (simp add: x fun_eq_iff)
      show "set Q' = set Q \<union> (dom m' - dom m)" using IH(5) by (simp add: new(2,3))
    qed (use IH n in \<open>simp_all add: new\<close>)
  qed
qed

lemma map_le_the: "m \<subseteq>\<^sub>m m' \<Longrightarrow> d \<in> dom m \<Longrightarrow> the (m' d) = the (m d)"
  by (metis map_le_def)

lemma copy_of_step:
  assumes C: "copy_of W A0 m (dom m - set (s # Q)) A" and Q: "distinct (s # Q)" "set (s # Q) \<subseteq> dom m"
    and step: "traverse_step W (A, m, s # Q) = (A', m', Q')"
  shows "copy_of W A0 m' (dom m' - set Q') A' \<and> distinct Q' \<and> set Q' \<subseteq> dom m' \<and>
    (dom m \<subset> dom m' \<or> dom m' = dom m \<and> length Q' < length (s # Q))"
proof -
  let ?n0 = "nd_size A0" and ?D = "dom m - set (s # Q)" and ?D' = "dom m' - set Q'"
  have c: "nd_wf A" "?n0 \<le> nd_size A" "inj_on m (dom m)" "ran m = {?n0..<nd_size A}" "successors W `` ?D \<subseteq> dom m"
    "set (startFn W) \<subseteq> dom m" "dom m \<subseteq> reached W" "\<And>p. p < ?n0 \<Longrightarrow> nd_arcs A p = nd_arcs A0 p"
    "\<And>s n. m s = Some n \<Longrightarrow> nd_arcs A n = (if s \<in> ?D then (\<lambda>(a, d). (a, the (m d))) ` set (arcFn W s) else {})"
    "nd_endStates A = nd_endStates A0 \<union> (the \<circ> m) ` {s \<in> ?D. finalFn W s}"
    "nd_startStates A = nd_startStates A0 \<union> (the \<circ> m) ` set (startFn W)"
    using C unfolding copy_of_def by (elim conjE; (assumption | rule allE, assumption | simp))+
  obtain n where n: "m s = Some n" using Q(2) by auto
  then have nA: "n < nd_size A" "?n0 \<le> n" using c(4) by (auto simp: ran_def)
  define AE where "AE = (if finalFn W s then nd_setEndState n A else A)"
  have AE: "fresh_ok ?n0 m AE" "n < nd_size AE" "nd_size AE = nd_size A" "nd_arcs AE = nd_arcs A"
    "nd_startStates AE = nd_startStates A" "nd_endStates AE = nd_endStates A \<union> (if finalFn W s then {n} else {})"
    using c(1-4) nA by (auto simp: AE_def fresh_ok_def)
  have "foldl (traverse_arc s) (AE, m, Q) (arcFn W s) = (A', m', Q')"
    using step by (simp add: traverse_step_def AE_def Let_def n split: if_splits)
  from traverse_arcs [OF AE(1) n AE(2) this] have t: "fresh_ok ?n0 m' A'" "nd_size A \<le> nd_size A'" "m \<subseteq>\<^sub>m m'"
    "dom m' = dom m \<union> snd ` set (arcFn W s)" "set Q' = set Q \<union> (dom m' - dom m)" "distinct Q'"
    "dom m' = dom m \<Longrightarrow> Q' = Q"
    "nd_arcs A' = (nd_arcs A)(n := nd_arcs A n \<union> (\<lambda>(a, d). (a, the (m' d))) ` set (arcFn W s))"
    "nd_endStates A' = nd_endStates AE" "nd_startStates A' = nd_startStates A"
    using Q AE(3-5) by auto
  have m': "the (m' d) = the (m d)" if "d \<in> dom m" for d using map_le_the [OF t(3) that] .
  have sub: "dom m \<subseteq> dom m'" using t(4) by blast
  have D': "?D' = insert s ?D" using t(5) sub Q by auto
  have succ: "successors W `` {s} = snd ` set (arcFn W s)" by (force simp: successors_def)
  have s: "s \<in> dom m" "s \<in> reached W" using n c(7) by auto
  then have "snd ` set (arcFn W s) \<subseteq> reached W"
    unfolding succ [symmetric] reached_def by (auto intro: rtrancl_into_rtrancl)
  then have "dom m' \<subseteq> reached W" using c(7) t(4) by auto
  moreover have "successors W `` ?D' \<subseteq> dom m'"
  proof -
    have "successors W `` ?D' = successors W `` {s} \<union> successors W `` ?D" unfolding D' by blast
    also have "\<dots> \<subseteq> dom m'" unfolding succ t(4) using c(5) by blast
    finally show ?thesis .
  qed
  moreover have "nd_arcs A' p = nd_arcs A0 p" if "p < ?n0" for p using that nA c(8) t(8) by simp
  moreover have "nd_arcs A' k = (if q \<in> ?D' then (\<lambda>(a, d). (a, the (m' d))) ` set (arcFn W q) else {})"
    if q: "m' q = Some k" for q k
  proof -
    consider "q = s" | "q \<in> dom m" "q \<noteq> s" | "q \<notin> dom m" by blast
    then show ?thesis
    proof cases
      case 1
      then have "k = n" using n q m' [of s] by (auto simp: dom_def)
      then show ?thesis using 1 t(8) c(9) [OF n] D' by simp
    next
      case 2
      then obtain l where l: "m q = Some l" by auto
      then have k: "k = l" using m' [of q] q by (auto simp: dom_def)
      have "l \<noteq> n" using inj_onD [OF c(3), of q s] l n 2 s(1) by auto
      then have "nd_arcs A' k = nd_arcs A l" using t(8) k by simp
      moreover have "q \<in> ?D' \<longleftrightarrow> q \<in> ?D" using 2(2) D' by auto
      moreover have "(\<lambda>(a, d). (a, the (m d))) ` set (arcFn W q) = (\<lambda>(a, d). (a, the (m' d))) ` set (arcFn W q)" if "q \<in> ?D"
      proof (rule image_cong [OF refl])
        fix x assume "x \<in> set (arcFn W q)"
        then have "(fst x, snd x) \<in> set (arcFn W q)" by simp
        then have "(q, snd x) \<in> successors W" unfolding successors_def by blast
        then have "snd x \<in> dom m" using that c(5) by blast
        then show "(case x of (a, d) \<Rightarrow> (a, the (m d))) = (case x of (a, d) \<Rightarrow> (a, the (m' d)))"
          using m' by (cases x) auto
      qed
      ultimately show ?thesis using c(9) [OF l] by auto
    next
      case 3
      have "k \<notin> ran m"
      proof
        assume "k \<in> ran m"
        then obtain r where r: "m r = Some k" by (auto simp: ran_def)
        then have "m' r = Some k" using t(3) by (metis domI map_le_def)
        then have "r = q" using t(1) q by (auto simp: fresh_ok_def inj_on_def dom_def)
        then show False using r 3 by auto
      qed
      moreover have "?n0 \<le> k" using t(1) q by (auto simp: fresh_ok_def ran_def)
      ultimately have "nd_arcs A k = {}" unfolding c(4) by (simp add: nd_arcs_def)
      moreover have "k \<noteq> n" using \<open>k \<notin> ran m\<close> n by (auto simp: ran_def)
      moreover have "q \<notin> ?D'" using 3 D' s(1) by auto
      ultimately show ?thesis using t(8) by auto
    qed
  qed
  moreover have "nd_endStates A' = nd_endStates A0 \<union> (the \<circ> m') ` {s \<in> ?D'. finalFn W s}"
  proof -
    have "(the \<circ> m') ` {s \<in> ?D'. finalFn W s} = (the \<circ> m) ` {s \<in> ?D'. finalFn W s}"
      using m' s(1) unfolding D' by (intro image_cong) auto
    moreover have "(the \<circ> m) ` {q \<in> ?D'. finalFn W q} =
        (the \<circ> m) ` {q \<in> ?D. finalFn W q} \<union> (if finalFn W s then {n} else {})"
    proof (cases "finalFn W s")
      case True
      then have "{q \<in> ?D'. finalFn W q} = insert s {q \<in> ?D. finalFn W q}" unfolding D' by blast
      then show ?thesis using True n by simp
    next
      case False
      then have "{q \<in> ?D'. finalFn W q} = {q \<in> ?D. finalFn W q}" unfolding D' by blast
      then show ?thesis using False by simp
    qed
    ultimately show ?thesis unfolding t(9) AE(6) c(10) by (simp only: Un_assoc)
  qed
  moreover have "nd_startStates A' = nd_startStates A0 \<union> (the \<circ> m') ` set (startFn W)"
  proof -
    have "(the \<circ> m') ` set (startFn W) = (the \<circ> m) ` set (startFn W)"
      by (intro image_cong [OF refl]) (metis comp_apply m' c(6) subsetD)
    then show ?thesis unfolding t(10) c(11) by simp
  qed
  moreover have "?D' \<subseteq> dom m'" "set (startFn W) \<subseteq> dom m'" using c(6) sub by auto
  ultimately have "copy_of W A0 m' ?D' A'"
    using t(1) unfolding copy_of_def fresh_ok_def by blast
  moreover have "set Q \<subseteq> dom m" using Q(2) by simp
  then have "set Q' \<subseteq> dom m'" unfolding t(5) using sub by blast
  moreover have "dom m \<subset> dom m' \<or> dom m' = dom m \<and> length Q' < length (s # Q)"
    using t(7) sub by (cases "dom m' = dom m") (simp, blast)
  ultimately show ?thesis using t(6) by blast
qed

lemma traverse_start:
  assumes "nd_wf A0" "distinct ss"
  shows "foldl (\<lambda>(A, m, Q) s. let (n, A) = nd_addState True A in (A, m(s \<mapsto> n), s # Q)) (A0, Map.empty, []) ss = (A, m, Q) \<Longrightarrow>
    fresh_ok (nd_size A0) m A \<and> dom m = set ss \<and> set Q = set ss \<and> distinct Q \<and> nd_arcs A = nd_arcs A0 \<and>
    nd_endStates A = nd_endStates A0 \<and> nd_startStates A = nd_startStates A0 \<union> (the \<circ> m) ` set ss"
  using assms(2)
proof (induction ss arbitrary: A m Q rule: rev_induct)
  case Nil
  then show ?case using assms(1) by (auto simp: fresh_ok_def)
next
  case (snoc s ss)
  obtain A1 m1 Q1 where 1: "foldl (\<lambda>(A, m, Q) s. let (n, A) = nd_addState True A in (A, m(s \<mapsto> n), s # Q)) (A0, Map.empty, []) ss = (A1, m1, Q1)"
    by (rule prod_cases3)
  have IH: "fresh_ok (nd_size A0) m1 A1" "dom m1 = set ss" "set Q1 = set ss" "distinct Q1" "nd_arcs A1 = nd_arcs A0"
    "nd_endStates A1 = nd_endStates A0" "nd_startStates A1 = nd_startStates A0 \<union> (the \<circ> m1) ` set ss"
  proof -
    have "distinct ss" using snoc.prems(2) by simp
    from snoc.IH [OF 1 this] show "fresh_ok (nd_size A0) m1 A1" "dom m1 = set ss" "set Q1 = set ss" "distinct Q1"
      "nd_arcs A1 = nd_arcs A0" "nd_endStates A1 = nd_endStates A0"
      "nd_startStates A1 = nd_startStates A0 \<union> (the \<circ> m1) ` set ss"
      by blast+
  qed
  have s: "s \<notin> set ss" "m1 s = None" using snoc.prems(2) IH(2) by auto
  have new: "A = snd (nd_addState True A1)" "m = m1(s \<mapsto> nd_size A1)" "Q = s # Q1"
    using snoc.prems(1) unfolding foldl_append 1 by (simp_all add: case_prod_beta' Let_def)
  have "(the \<circ> m1) ` set ss = (the \<circ> m) ` set ss"
    using s by (intro image_cong) (auto simp: new(2))
  moreover have "fresh_ok (nd_size A0) m A" "dom m = insert s (dom m1)" "the (m s) = nd_size A1"
    using fresh_ok_add [OF IH(1) s(2), of True] by (simp_all add: new)
  moreover have "nd_arcs A = nd_arcs A0" "nd_endStates A = nd_endStates A0"
    "nd_startStates A = insert (nd_size A1) (nd_startStates A0 \<union> (the \<circ> m1) ` set ss)"
    using IH(5-7) by (simp_all add: new(1))
  ultimately show ?case using IH(2-4) s(1) by (simp add: new(3))
qed

theorem traverse_copies:
  assumes "nd_wf A0" "distinct (startFn W)" "finite (reached W)"
  shows "\<exists>A m. traverse W A0 = Some A \<and> dom m = reached W \<and> copy_of W A0 m (reached W) A"
proof -
  let ?b = "\<lambda>(A :: ndfsa, m :: 'a \<rightharpoonup> nat, Q :: 'a list). Q \<noteq> []"
  let ?P = "\<lambda>(A, m, Q). copy_of W A0 m (dom m - set Q) A \<and> distinct Q \<and> set Q \<subseteq> dom m"
  obtain A m Q where st: "traverse_start W A0 = (A, m, Q)" by (rule prod_cases3)
  note init = traverse_start [OF assms(1,2) st [unfolded traverse_start_def]]
  have "set (startFn W) \<subseteq> reached W" by (auto simp: reached_def)
  moreover have "nd_arcs A k = {}" if "m s = Some k" for s k
  proof -
    have "nd_size A0 \<le> k" using init that by (auto simp: fresh_ok_def ran_def)
    then show ?thesis using init by (simp add: nd_arcs_def)
  qed
  ultimately have P: "?P (traverse_start W A0)"
    using init by (auto simp: st copy_of_def fresh_ok_def)
  have step: "?P (traverse_step W st) \<and> (dom (fst (snd st)) \<subset> dom (fst (snd (traverse_step W st))) \<or>
      dom (fst (snd (traverse_step W st))) = dom (fst (snd st)) \<and> length (snd (snd (traverse_step W st))) < length (snd (snd st)))"
    if P: "?P st" and b: "?b st" for st
  proof -
    obtain A m s Q where st: "st = (A, m, s # Q)" using b by (cases st) (auto simp: neq_Nil_conv)
    obtain A' m' Q' where st': "traverse_step W (A, m, s # Q) = (A', m', Q')" by (rule prod_cases3)
    show ?thesis using copy_of_step [of W A0, OF _ _ _ st'] P by (simp add: st st')
  qed
  have "wf ((\<lambda>(A :: ndfsa, m :: 'a \<rightharpoonup> nat, Q :: 'a list). card (reached W - dom m)) <*mlex*> (\<lambda>(A, m, Q). length Q) <*mlex*> {})" (is "wf ?r")
    by (blast intro: wf_mlex)
  then have "\<exists>st. while_option ?b (traverse_step W) (traverse_start W A0) = Some st"
  proof (rule wf_rel_while_option_Some [where P = ?P])
    fix st assume st: "?P st \<and> ?b st"
    note s = step [OF conjunct1 [OF st] conjunct2 [OF st]]
    have "dom (fst (snd (traverse_step W st))) \<subseteq> reached W" using s by (auto simp: copy_of_def split: prod.splits)
    then have "dom (fst (snd st)) \<subset> dom (fst (snd (traverse_step W st))) \<Longrightarrow>
        card (reached W - dom (fst (snd (traverse_step W st)))) < card (reached W - dom (fst (snd st)))"
      using assms(3) by (intro psubset_card_mono) (simp, blast)
    then show "(traverse_step W st, st) \<in> ?r"
      using s by (auto simp: mlex_prod_def case_prod_beta')
  next
    show "?P (traverse_step W st)" if "?P st \<and> ?b st" for st
      by (rule step [THEN conjunct1, OF conjunct1 [OF that] conjunct2 [OF that]])
  qed (rule P)
  then obtain B k R where w: "while_option ?b (traverse_step W) (traverse_start W A0) = Some (B, k, R)" by auto
  have "?P (B, k, R)"
    by (rule while_option_rule [where P = ?P, OF _ w P]) (rule step [THEN conjunct1])
  moreover have "R = []" using while_option_stop [OF w] by simp
  ultimately have copy: "copy_of W A0 k (dom k) B" by simp
  then have "successors W `` dom k \<subseteq> dom k" "set (startFn W) \<subseteq> dom k" "dom k \<subseteq> reached W"
    by (simp_all add: copy_of_def)
  then have "dom k = reached W"
    using Image_closed_trancl [of "successors W" "dom k"] unfolding reached_def by blast
  then show ?thesis using w copy by (auto simp: traverse_def)
qed

end
