(* ===== verification/Fsa_Language.thy ===== *)
theory Fsa_Language imports Fsa_Traverse begin

text \<open>The languages of the automata that the operations of fsa_algorithms.hpp build.\<close>

section \<open>The language of a copy\<close>

definition wrapper_labels :: "'q wrapper \<Rightarrow> string set" where
  "wrapper_labels W = labels (\<lambda>q. set (arcFn W q)) (set (startFn W)) {q. finalFn W q}"

lemma labels_iff: "w \<in> labels D S F \<longleftrightarrow> (\<exists>s \<in> S. \<exists>f \<in> F. run D s w f)"
  by (simp add: labels_def)

lemma labels_Un: "labels D (S \<union> T) F = labels D S F \<union> labels D T F"
  by (auto simp: labels_def)

lemma labels_cong:
  assumes "\<And>p a q. p \<in> X \<Longrightarrow> (a, q) \<in> D p \<Longrightarrow> q \<in> X" "S \<subseteq> X" "\<And>p. p \<in> X \<Longrightarrow> D p = D' p"
    "\<And>p. p \<in> X \<Longrightarrow> p \<in> F \<longleftrightarrow> p \<in> F'"
  shows "labels D S F = labels D' S F'"
proof -
  have same: "run D p w q \<longleftrightarrow> run D' p w q" if "p \<in> X" for p w q
    using that assms(1,3) by (induction w arbitrary: p) fastforce+
  have inside: "q \<in> X" if "p \<in> X" "run D p w q" for p w q
    using that assms(1) by (induction w arbitrary: p) auto
  have "w \<in> labels D S F \<longleftrightarrow> w \<in> labels D' S F'" for w
    using assms(2,4) same inside unfolding labels_iff by (metis subsetD)
  then show ?thesis by blast
qed

lemma run_closed:
  "(\<And>p a q. p \<in> X \<Longrightarrow> (a, q) \<in> D p \<Longrightarrow> q \<in> X) \<Longrightarrow> p \<in> X \<Longrightarrow> run D p w q \<Longrightarrow> q \<in> X"
  by (induction w arbitrary: p) auto

text \<open>Runs along a map that is injective on a closed set.\<close>

lemma run_image:
  assumes "\<And>p a q. p \<in> X \<Longrightarrow> (a, q) \<in> D p \<Longrightarrow> q \<in> X" "\<And>p. p \<in> X \<Longrightarrow> E (g p) = (\<lambda>(a, d). (a, g d)) ` D p" "inj_on g X"
  shows "p \<in> X \<Longrightarrow> run E (g p) w k \<longleftrightarrow> (\<exists>q \<in> X. k = g q \<and> run D p w q)"
proof (induction w arbitrary: p)
  case Nil
  then show ?case by auto
next
  case (Cons a w)
  have "run E (g p) (a # w) k \<longleftrightarrow> (\<exists>r. (a, r) \<in> D p \<and> run E (g r) w k)"
    using assms(2) [OF Cons.prems] by force
  also have "\<dots> \<longleftrightarrow> (\<exists>r. (a, r) \<in> D p \<and> (\<exists>q \<in> X. k = g q \<and> run D r w q))"
    using Cons.IH assms(1) [OF Cons.prems] by blast
  finally show ?case by auto
qed

lemma copy_labels:
  assumes "nd_wf A0" "copy_of W A0 m (reached W) A" "dom m = reached W"
  shows "nd_labels A = nd_labels A0 \<union> wrapper_labels W"
    "labels (nd_arcs A) ((the \<circ> m) ` set (startFn W)) (nd_endStates A) = wrapper_labels W"
proof -
  let ?g = "the \<circ> m" and ?n0 = "nd_size A0" and ?D = "\<lambda>q. set (arcFn W q)"
  have c: "inj_on m (reached W)" "ran m = {?n0..<nd_size A}" "set (startFn W) \<subseteq> reached W"
    "\<And>p. p < ?n0 \<Longrightarrow> nd_arcs A p = nd_arcs A0 p"
    "nd_endStates A = nd_endStates A0 \<union> ?g ` {s \<in> reached W. finalFn W s}"
    "nd_startStates A = nd_startStates A0 \<union> ?g ` set (startFn W)"
    using assms(2) unfolding copy_of_def assms(3) [symmetric] by auto
  have arcs: "nd_arcs A (?g q) = (\<lambda>(a, d). (a, ?g d)) ` ?D q" if q: "q \<in> reached W" for q
  proof -
    obtain n where "m q = Some n" using q assms(3) by auto
    moreover have "\<forall>s n. m s = Some n \<longrightarrow>
        nd_arcs A n = (if s \<in> reached W then (\<lambda>(a, d). (a, the (m d))) ` set (arcFn W s) else {})"
      using assms(2) unfolding copy_of_def by blast
    ultimately show ?thesis using q by simp
  qed
  have inj: "inj_on ?g (reached W)"
    using c(1) unfolding inj_on_def assms(3) [symmetric] by (auto simp: domIff) 
  have new: "?n0 \<le> ?g q" if "q \<in> reached W" for q
    using that c(2) unfolding assms(3) [symmetric] by (auto simp: ran_def)
  have closed: "q \<in> reached W" if "p \<in> reached W" "(a, q) \<in> ?D p" for p a q
    using that unfolding reached_def successors_def by (auto intro: rtrancl_into_rtrancl)
  have old: "\<And>p a q. p < ?n0 \<Longrightarrow> (a, q) \<in> nd_arcs A p \<Longrightarrow> q < ?n0"
    using nd_arcs_dest [OF assms(1)] c(4) by auto
  have starts: "nd_startStates A0 \<subseteq> {..<?n0}" "\<And>q. q \<in> nd_endStates A0 \<Longrightarrow> q < ?n0"
    using assms(1) by (auto simp: nd_wf_def)
  have "labels (nd_arcs A) (nd_startStates A0) (nd_endStates A) = nd_labels A0"
    unfolding nd_labels_def
  proof (rule labels_cong [where X = "{..<?n0}"])
    fix p assume "p \<in> {..<?n0}"
    then show "p \<in> nd_endStates A \<longleftrightarrow> p \<in> nd_endStates A0" using new c(5) by fastforce
  qed (use old starts c(4) in auto)
  moreover show new_part: "labels (nd_arcs A) (?g ` set (startFn W)) (nd_endStates A) = wrapper_labels W"
  proof -
    have fin: "?g q \<in> nd_endStates A \<longleftrightarrow> finalFn W q" if "q \<in> reached W" for q
      using new [OF that] starts(2) inj that unfolding c(5) by (fastforce simp: inj_on_def)
    have im: "run (nd_arcs A) (?g p) w k \<longleftrightarrow> (\<exists>q \<in> reached W. k = ?g q \<and> run ?D p w q)" if "p \<in> reached W" for p w k
      by (rule run_image [of "reached W" ?D, OF closed arcs inj that])
    have ins: "q \<in> reached W" if "p \<in> reached W" "run ?D p w q" for p w q
      by (rule run_closed [of "reached W" ?D, OF closed that])
    have "w \<in> labels (nd_arcs A) (?g ` set (startFn W)) (nd_endStates A) \<longleftrightarrow>
        (\<exists>p \<in> set (startFn W). \<exists>q \<in> reached W. ?g q \<in> nd_endStates A \<and> run ?D p w q)" for w
    proof -
      have "w \<in> labels (nd_arcs A) (?g ` set (startFn W)) (nd_endStates A) \<longleftrightarrow>
          (\<exists>p \<in> set (startFn W). \<exists>f \<in> nd_endStates A. run (nd_arcs A) (?g p) w f)"
        unfolding labels_iff by simp
      also have "\<dots> \<longleftrightarrow> (\<exists>p \<in> set (startFn W). \<exists>f \<in> nd_endStates A. \<exists>q \<in> reached W. f = ?g q \<and> run ?D p w q)"
        using im c(3) by (intro bex_cong refl) (simp add: subset_iff)
      finally show ?thesis by blast
    qed
    moreover have "(\<exists>p \<in> set (startFn W). \<exists>q \<in> reached W. ?g q \<in> nd_endStates A \<and> run ?D p w q) \<longleftrightarrow>
        w \<in> wrapper_labels W" for w
      using fin ins c(3) unfolding wrapper_labels_def labels_iff by blast
    ultimately show ?thesis by blast
  qed
  ultimately show "nd_labels A = nd_labels A0 \<union> wrapper_labels W"
    unfolding nd_labels_def [of A] c(6) labels_Un by simp
qed

lemma traverse_labels:
  assumes "nd_wf A0" "distinct (startFn W)" "reached W \<subseteq> X" "finite X"
  shows "\<exists>A. traverse W A0 = Some A \<and> nd_wf A \<and> nd_labels A = nd_labels A0 \<union> wrapper_labels W"
proof -
  have "finite (reached W)" using assms(3,4) by (rule finite_subset)
  from traverse_copies [OF assms(1,2) this] obtain A m where
    A: "traverse W A0 = Some A" "dom m = reached W" "copy_of W A0 m (reached W) A" by blast
  have "nd_wf A" using A(3) unfolding copy_of_def by blast
  then show ?thesis using A(1) copy_labels [OF assms(1) A(3,2)] by blast
qed

lemma nd_labels_new [simp]: "nd_labels newNDFSA = {}"
  by (simp add: nd_labels_def labels_def)

section \<open>Reversal\<close>

lemma nd_wf_finite [simp]: "nd_wf A \<Longrightarrow> finite (nd_startStates A)" "nd_wf A \<Longrightarrow> finite (nd_endStates A)"
  by (auto simp: nd_wf_def intro: finite_subset [of _ "{..<nd_size A}"])

lemma nd_wf_bounds: "nd_wf A \<Longrightarrow> p \<in> nd_startStates A \<Longrightarrow> p < nd_size A"
  "nd_wf A \<Longrightarrow> p \<in> nd_endStates A \<Longrightarrow> p < nd_size A"
  by (auto simp: nd_wf_def)

text \<open>The states reached stay in a set that holds the start states and is closed under the arcs.\<close>

lemma reached_in:
  assumes "set (startFn W) \<subseteq> X" "\<And>p a q. p \<in> X \<Longrightarrow> (a, q) \<in> set (arcFn W p) \<Longrightarrow> q \<in> X"
  shows "reached W \<subseteq> X"
proof -
  have "successors W `` X \<subseteq> X" using assms(2) by (auto simp: successors_def)
  then have "(successors W)\<^sup>* `` X = X" by (rule Image_closed_trancl)
  then show ?thesis using assms(1) unfolding reached_def by blast
qed

lemma reverser_arcs: "set (arcFn (Reverser A) q) = {(a, p). (a, q) \<in> nd_arcs A p}"
  by (fastforce simp: Reverser_def reversed_arcs_def nd_arcs_def nd_getArcs_def split: if_splits)

lemma run_reverse: "run (\<lambda>q. {(a, p). (a, q) \<in> D p}) q (rev w) p \<longleftrightarrow> run D p w q"
  by (induction w arbitrary: p) auto

lemma in_rev_image: "w \<in> rev ` L \<longleftrightarrow> rev w \<in> L"
  by (metis image_iff rev_rev_ident)

lemma reverse_correct:
  assumes "nd_wf A"
  shows "\<exists>B. fsa_reverse A = Some B \<and> nd_wf B \<and> nd_labels B = rev ` nd_labels A"
proof -
  have start: "set (startFn (Reverser A)) = nd_endStates A" and fin: "{q. finalFn (Reverser A) q} = nd_startStates A"
    using assms by (simp_all add: Reverser_def nd_isStartState_def)
  have "reached (Reverser A) \<subseteq> {..<nd_size A}"
    using nd_arcs_dest [OF assms] nd_wf_bounds [OF assms] by (intro reached_in) (auto simp: start reverser_arcs)
  then obtain B where B: "fsa_reverse A = Some B" "nd_wf B" "nd_labels B = wrapper_labels (Reverser A)"
    using traverse_labels [of newNDFSA "Reverser A" "{..<nd_size A}"] by (auto simp: fsa_reverse_def Reverser_def)
  have W: "wrapper_labels (Reverser A) = labels (\<lambda>q. {(a, p). (a, q) \<in> nd_arcs A p}) (nd_endStates A) (nd_startStates A)"
    by (simp only: wrapper_labels_def start fin reverser_arcs)
  have "w \<in> wrapper_labels (Reverser A) \<longleftrightarrow> rev w \<in> nd_labels A" for w
  proof -
    have r: "run (\<lambda>q. {(a, p). (a, q) \<in> nd_arcs A p}) q w p = run (nd_arcs A) p (rev w) q" for p q
      using run_reverse [of "nd_arcs A" q "rev w" p] by simp
    show ?thesis unfolding W nd_labels_def labels_iff r by metis
  qed
  then have "wrapper_labels (Reverser A) = rev ` nd_labels A" by (intro set_eqI) (simp add: in_rev_image)
  then show ?thesis using B by blast
qed

section \<open>Removal of the empty word\<close>

lemma run_eps: "(p, q) \<in> (nd_eps A)\<^sup>* \<Longrightarrow> \<exists>v. run (nd_arcs A) p v q \<and> visible v = []"
proof (induction rule: converse_rtrancl_induct)
  case base
  have "run (nd_arcs A) q [] q \<and> visible [] = []" by (simp add: visible_def)
  then show ?case by blast
next
  case (step p r)
  then obtain v where "run (nd_arcs A) r v q" "visible v = []" by blast
  then have "run (nd_arcs A) p (EPS # v) q \<and> visible (EPS # v) = []"
    using step.hyps(1) by (auto simp: nd_eps_def visible_def)
  then show ?case by blast
qed

lemma visible_simps [simp]: "visible [] = []" "visible (a # w) = (if a = EPS then visible w else a # visible w)"
  "visible (v @ w) = visible v @ visible w"
  by (simp_all add: visible_def)

lemma remover_arcs:
  assumes "nd_wf A" "p < nd_size A"
  shows "set (arcFn (EpsRemover A) p) = {(a, q). a \<noteq> EPS \<and> (\<exists>r. (p, r) \<in> (nd_eps A)\<^sup>* \<and> (a, q) \<in> nd_arcs A r)}"
proof -
  have closed: "r < nd_size A" if "(p, r) \<in> (nd_eps A)\<^sup>*" for r
    using that by induction (use assms nd_arcs_dest [OF assms(1)] in \<open>auto simp: nd_eps_def\<close>)
  then have "finite (nd_epsClosure p A)"
    using nd_epsClosure [OF assms] by (auto intro: finite_subset [of _ "{..<nd_size A}"])
  then have "set (arcFn (EpsRemover A) p) = (\<Union>q \<in> nd_epsClosure p A. {x \<in> set (nd_getArcs q A). fst x \<noteq> EPS})"
    by (simp add: EpsRemover_def)
  also have "\<dots> = {(a, q). a \<noteq> EPS \<and> (\<exists>r. (p, r) \<in> (nd_eps A)\<^sup>* \<and> (a, q) \<in> nd_arcs A r)}"
    unfolding nd_epsClosure [OF assms] using closed by (auto simp: nd_set_getArcs)
  finally show ?thesis .
qed

lemma run_remover:
  assumes "nd_wf A" "p < nd_size A"
  shows "(\<exists>q. run (\<lambda>p. set (arcFn (EpsRemover A) p)) p w q \<and> finalFn (EpsRemover A) q) \<longleftrightarrow>
    (\<exists>v f. run (nd_arcs A) p v f \<and> f \<in> nd_endStates A \<and> visible v = w)"
  using assms(2)
proof (induction w arbitrary: p)
  case Nil
  have "(p, f) \<in> (nd_eps A)\<^sup>*" if "run (nd_arcs A) p v f" "visible v = []" for v f
    using that
  proof (induction v arbitrary: p)
    case (Cons a v)
    then show ?case
      by (auto split: if_splits intro: converse_rtrancl_into_rtrancl simp: nd_eps_def)
  qed simp
  then have e: "(p, f) \<in> (nd_eps A)\<^sup>* \<longleftrightarrow> (\<exists>v. run (nd_arcs A) p v f \<and> visible v = [])" for f
    using run_eps by blast
  have "(\<exists>q. run (\<lambda>p. set (arcFn (EpsRemover A) p)) p [] q \<and> finalFn (EpsRemover A) q) \<longleftrightarrow>
      (\<exists>f. (p, f) \<in> (nd_eps A)\<^sup>* \<and> f \<in> nd_endStates A)"
    using nd_epsClosure [OF assms(1) Nil] by (auto simp: EpsRemover_def nd_isEndState_def)
  then show ?case unfolding e by blast
next
  case (Cons a w)
  let ?D = "\<lambda>p. set (arcFn (EpsRemover A) p)"
  show ?case
  proof
    assume "\<exists>q. run ?D p (a # w) q \<and> finalFn (EpsRemover A) q"
    then obtain r s q where r: "a \<noteq> EPS" "(p, r) \<in> (nd_eps A)\<^sup>*" "(a, s) \<in> nd_arcs A r"
      "run ?D s w q" "finalFn (EpsRemover A) q"
      using remover_arcs [OF assms(1) Cons.prems] by auto
    have "s < nd_size A" using nd_arcs_dest [OF assms(1) r(3)] by simp
    then obtain v f where v: "run (nd_arcs A) s v f" "f \<in> nd_endStates A" "visible v = w"
      using Cons.IH r(4,5) by blast
    obtain u where u: "run (nd_arcs A) p u r" "visible u = []" using run_eps [OF r(2)] by blast
    have "run (nd_arcs A) p (u @ a # v) f" "visible (u @ a # v) = a # w"
      using u v r(1,3) by auto
    then show "\<exists>v f. run (nd_arcs A) p v f \<and> f \<in> nd_endStates A \<and> visible v = a # w" using v(2) by blast
  next
    assume "\<exists>v f. run (nd_arcs A) p v f \<and> f \<in> nd_endStates A \<and> visible v = a # w"
    then obtain v f where v: "run (nd_arcs A) p v f" "f \<in> nd_endStates A" "visible v = a # w" by blast
    from v(1,3) have "\<exists>r s v'. (p, r) \<in> (nd_eps A)\<^sup>* \<and> (a, s) \<in> nd_arcs A r \<and> a \<noteq> EPS \<and> run (nd_arcs A) s v' f \<and> visible v' = w"
    proof (induction v arbitrary: p)
      case (Cons b v)
      then obtain p' where p': "(b, p') \<in> nd_arcs A p" "run (nd_arcs A) p' v f" by auto
      show ?case
      proof (cases "b = EPS")
        case True
        then have "(p, p') \<in> nd_eps A" using p'(1) by (simp add: nd_eps_def)
        moreover have "visible v = a # w" using Cons.prems(2) True by simp
        ultimately show ?thesis using Cons.IH [OF p'(2)] by (meson converse_rtrancl_into_rtrancl)
      next
        case False
        then show ?thesis using Cons.prems(2) p' by auto
      qed
    qed simp
    then obtain r s v' where r: "(p, r) \<in> (nd_eps A)\<^sup>*" "(a, s) \<in> nd_arcs A r" "a \<noteq> EPS" "run (nd_arcs A) s v' f" "visible v' = w"
      by blast
    have "s < nd_size A" using nd_arcs_dest [OF assms(1) r(2)] by simp
    then obtain q where "run ?D s w q" "finalFn (EpsRemover A) q" using Cons.IH r(4,5) v(2) by blast
    moreover have "(a, s) \<in> ?D p" using remover_arcs [OF assms(1) Cons.prems] r(1-3) by auto
    ultimately show "\<exists>q. run ?D p (a # w) q \<and> finalFn (EpsRemover A) q" by auto
  qed
qed

lemma epsRemove_correct:
  assumes "nd_wf A"
  shows "\<exists>B. epsRemove A = Some B \<and> nd_wf B \<and> nd_labels B = nd_language A"
proof -
  let ?W = "EpsRemover A"
  have start: "set (startFn ?W) = nd_startStates A" using assms by (simp add: EpsRemover_def)
  have "reached ?W \<subseteq> {..<nd_size A}"
  proof (rule reached_in)
    show "set (startFn ?W) \<subseteq> {..<nd_size A}" unfolding start using nd_wf_bounds [OF assms] by blast
    show "q \<in> {..<nd_size A}" if "p \<in> {..<nd_size A}" "(a, q) \<in> set (arcFn ?W p)" for p a q
      using that remover_arcs [OF assms, of p] nd_arcs_dest [OF assms] by auto
  qed
  then obtain B where B: "epsRemove A = Some B" "nd_wf B" "nd_labels B = wrapper_labels ?W"
    using traverse_labels [of newNDFSA ?W "{..<nd_size A}"] by (auto simp: epsRemove_def EpsRemover_def)
  have "w \<in> wrapper_labels ?W \<longleftrightarrow> w \<in> nd_language A" for w
  proof -
    have "w \<in> wrapper_labels ?W \<longleftrightarrow> (\<exists>s \<in> nd_startStates A. \<exists>q. run (\<lambda>p. set (arcFn ?W p)) s w q \<and> finalFn ?W q)"
      unfolding wrapper_labels_def labels_iff start by blast
    also have "\<dots> \<longleftrightarrow> (\<exists>s \<in> nd_startStates A. \<exists>v f. run (nd_arcs A) s v f \<and> f \<in> nd_endStates A \<and> visible v = w)"
      using run_remover [OF assms nd_wf_bounds(1) [OF assms]] by (intro bex_cong refl)
    also have "\<dots> \<longleftrightarrow> w \<in> nd_language A"
      unfolding nd_language_def nd_labels_def labels_def by blast
    finally show ?thesis .
  qed
  then show ?thesis using B by blast
qed

end
