(* ===== verification/Fsa_Operations.thy ===== *)
theory Fsa_Operations imports Fsa_Language begin

text \<open>Union, concatenation and the Kleene operations of fsa_algorithms.hpp, which link automata by arcs
  with the empty word.\<close>

section \<open>Union\<close>

definition class_labels :: "fsa_class \<Rightarrow> string set" where
  "class_labels C = labels (\<lambda>p. set (getArcs C p)) (getStartStates C) {p. isEndState C p}"

definition class_closed :: "fsa_class \<Rightarrow> nat \<Rightarrow> bool" where
  "class_closed C n \<longleftrightarrow> getStartStates C \<subseteq> {..<n} \<and> (\<forall>p < n. \<forall>(a, q) \<in> set (getArcs C p). q < n)"

lemma nd_class_closed: "nd_wf A \<Longrightarrow> class_closed (nd_class A) (nd_size A)"
  by (fastforce simp: class_closed_def nd_class_def nd_wf_def nd_getArcs_def nd_size_def)

lemma nd_class_labels:
  assumes "nd_wf A"
  shows "class_labels (nd_class A) = nd_labels A"
  unfolding class_labels_def nd_labels_def
proof -
  let ?X = "{..<nd_size A}" and ?C = "nd_class A"
  note closed = nd_class_closed [OF assms, unfolded class_closed_def]
  have start: "getStartStates ?C = nd_startStates A" by (simp add: nd_class_def)
  have "labels (\<lambda>p. set (getArcs ?C p)) (nd_startStates A) {p. isEndState ?C p} =
      labels (nd_arcs A) (nd_startStates A) {p. isEndState ?C p}"
  proof (rule labels_cong [where X = ?X])
    show "q \<in> ?X" if "p \<in> ?X" "(a, q) \<in> set (getArcs ?C p)" for p a q using closed that by auto
    show "nd_startStates A \<subseteq> ?X" using closed start by simp
  qed (auto simp: nd_class_def nd_set_getArcs)
  moreover have "{p. isEndState ?C p} = nd_endStates A" by (auto simp: nd_class_def nd_isEndState_def)
  ultimately show "labels (\<lambda>p. set (getArcs ?C p)) (getStartStates ?C) {p. isEndState ?C p} =
      labels (nd_arcs A) (nd_startStates A) (nd_endStates A)" by (simp add: start)
qed

lemma copier_labels: "wrapper_labels (Copier C) = class_labels C" if "finite (getStartStates C)"
  using that by (simp add: wrapper_labels_def class_labels_def Copier_def)

lemma copier_reached: "class_closed C n \<Longrightarrow> reached (Copier C) \<subseteq> {..<n}"
  by (rule reached_in) (auto simp: Copier_def class_closed_def finite_subset [of _ "{..<n}"])

lemma class_closed_finite: "class_closed C n \<Longrightarrow> finite (getStartStates C)"
  by (auto simp: class_closed_def intro: finite_subset)

lemma unify_correct:
  assumes "nd_wf dst" "class_closed src n"
  shows "\<exists>A. unify dst src = Some A \<and> nd_wf A \<and> nd_labels A = nd_labels dst \<union> class_labels src"
proof -
  have dist: "distinct (startFn (Copier src))" by (simp add: Copier_def)
  show ?thesis
    using traverse_labels [OF assms(1) dist copier_reached [OF assms(2)] finite_lessThan]
    unfolding unify_def copier_labels [OF class_closed_finite [OF assms(2)]] .
qed

section \<open>The old and the new part of an automaton\<close>

text \<open>\<open>A\<close> has the states of \<open>A0\<close> with their arcs, and from the number \<open>nd_size A0\<close> on another
  automaton with the start states \<open>S\<close> and the end states \<open>F\<close>.\<close>

definition extends :: "ndfsa \<Rightarrow> nat set \<Rightarrow> nat set \<Rightarrow> string set \<Rightarrow> ndfsa \<Rightarrow> bool" where
  "extends A0 S F L A \<longleftrightarrow> nd_wf A0 \<and> nd_wf A \<and> nd_size A0 \<le> nd_size A \<and> (\<forall>p < nd_size A0. nd_arcs A p = nd_arcs A0 p) \<and>
     (\<forall>p a q. nd_size A0 \<le> p \<longrightarrow> (a, q) \<in> nd_arcs A p \<longrightarrow> nd_size A0 \<le> q) \<and>
     nd_startStates A = nd_startStates A0 \<union> S \<and> nd_endStates A = nd_endStates A0 \<union> F \<and>
     S \<subseteq> {nd_size A0..<nd_size A} \<and> F \<subseteq> {nd_size A0..<nd_size A} \<and> labels (nd_arcs A) S F = L"

lemma traverse_extends:
  assumes "nd_wf A0" "distinct (startFn W)" "reached W \<subseteq> X" "finite X"
  shows "\<exists>A S F. traverse W A0 = Some A \<and> extends A0 S F (wrapper_labels W) A"
proof -
  have "finite (reached W)" using assms(3,4) by (rule finite_subset)
  from traverse_copies [OF assms(1,2) this] obtain A m where
    A: "traverse W A0 = Some A" "dom m = reached W" "copy_of W A0 m (reached W) A" by blast
  let ?g = "the \<circ> m" and ?n = "nd_size A0"
  define S where "S = ?g ` set (startFn W)"
  define F where "F = ?g ` {q \<in> reached W. finalFn W q}"
  have c: "nd_wf A" "?n \<le> nd_size A" "ran m = {?n..<nd_size A}" "set (startFn W) \<subseteq> reached W"
    "\<forall>p < ?n. nd_arcs A p = nd_arcs A0 p"
    "\<forall>s n. m s = Some n \<longrightarrow> nd_arcs A n = (if s \<in> reached W then (\<lambda>(a, d). (a, the (m d))) ` set (arcFn W s) else {})"
    "nd_startStates A = nd_startStates A0 \<union> S" "nd_endStates A = nd_endStates A0 \<union> F"
    using A(3) unfolding copy_of_def A(2) S_def F_def by auto
  have range: "?g q \<in> {?n..<nd_size A}" if q: "q \<in> reached W" for q
  proof -
    obtain k where k: "m q = Some k" using q A(2) by auto
    then have "k \<in> ran m" by (auto simp: ran_def)
    then show ?thesis using k c(3) by simp
  qed
  have closed: "d \<in> reached W" if "p \<in> reached W" "(a, d) \<in> set (arcFn W p)" for p a d
    using that unfolding reached_def successors_def by (auto intro: rtrancl_into_rtrancl)
  have up: "?n \<le> q" if p: "?n \<le> p" and arc: "(a, q) \<in> nd_arcs A p" for p a q
  proof -
    have "p \<in> ran m" using p nd_arcs_dest [OF c(1) arc] c(3) by simp
    then obtain r where r: "m r = Some p" by (auto simp: ran_def)
    then have "r \<in> reached W" using A(2) by auto
    then obtain d where "(a, d) \<in> set (arcFn W r)" "q = the (m d)" using c(6) r arc by auto
    then show ?thesis using closed [OF \<open>r \<in> reached W\<close>] range by auto
  qed
  have SF: "S \<subseteq> {?n..<nd_size A}" "F \<subseteq> {?n..<nd_size A}" using range c(4) by (auto simp: S_def F_def)
  have "labels (nd_arcs A) S F = labels (nd_arcs A) S (nd_endStates A)"
    by (rule labels_cong [where X = "{?n..}"]) (use up SF c(8) nd_wf_bounds [OF assms(1)] in \<open>force+\<close>)
  also have "\<dots> = wrapper_labels W"
    unfolding S_def by (rule copy_labels(2) [OF assms(1) A(3,2)])
  finally show ?thesis
    using A(1) assms(1) c up SF unfolding extends_def by blast
qed

section \<open>Linking by the empty word\<close>

definition linked :: "(nat \<Rightarrow> nat arc set) \<Rightarrow> nat set \<Rightarrow> nat set \<Rightarrow> nat \<Rightarrow> nat arc set" where
  "linked D P S p = D p \<union> (if p \<in> P then {EPS} \<times> S else {})"

text \<open>A run out of a part of the automaton passes one of the links that leave it.\<close>

lemma run_leaves:
  assumes "\<And>p a q. p \<in> X \<Longrightarrow> (a, q) \<in> D p \<Longrightarrow> q \<in> X" "run (linked D P S) p w q" "p \<in> X" "q \<notin> X"
  shows "\<exists>u v r s. w = u @ EPS # v \<and> run D p u r \<and> r \<in> P \<and> s \<in> S \<and> run (linked D P S) s v q"
  using assms(2,3)
proof (induction w arbitrary: p)
  case (Cons a w)
  then obtain d where d: "(a, d) \<in> linked D P S p" "run (linked D P S) d w q" by auto
  show ?case
  proof (cases "(a, d) \<in> D p")
    case True
    then obtain u v r s where "w = u @ EPS # v" "run D d u r" "r \<in> P" "s \<in> S" "run (linked D P S) s v q"
      using Cons.IH [OF d(2)] assms(1) [OF Cons.prems(2)] by blast
    moreover have "run D p (a # u) r" using True \<open>run D d u r\<close> by auto
    ultimately show ?thesis by (metis append_Cons)
  next
    case False
    then have "a = EPS" "p \<in> P" "d \<in> S" using d(1) by (auto simp: linked_def split: if_splits)
    then have "a # w = [] @ EPS # w \<and> run D p [] p \<and> p \<in> P \<and> d \<in> S \<and> run (linked D P S) d w q"
      using d(2) by simp
    then show ?thesis by blast
  qed
qed (use assms(4) in simp)

lemma run_linked: "run D p w q \<Longrightarrow> run (linked D P S) p w q"
  by (erule run_mono) (simp add: linked_def)

lemma linked_step: "run D p u r \<Longrightarrow> r \<in> P \<Longrightarrow> s \<in> S \<Longrightarrow> run (linked D P S) s v q \<Longrightarrow> run (linked D P S) p (u @ EPS # v) q"
  using run_linked [of D p u r P S] by (auto simp: linked_def)

section \<open>Concatenation\<close>

lemma join_end:
  assumes "nd_wf A" "p < nd_size A" "\<forall>q \<in> set qs. q < nd_size A"
  shows "let B = join_end T qs A p in nd_wf B \<and> nd_size B = nd_size A \<and> nd_arcs B = linked (nd_arcs A) {p} (set qs - T) \<and>
    nd_startStates B = nd_startStates A - (set qs - T) \<and> nd_endStates B = nd_endStates A - {p}"
proof -
  let ?f = "\<lambda>A q. if q \<notin> T then nd_unsetStartState q (nd_addArc p (EPS, q) A) else A"
  have "nd_wf (foldl ?f A qs) \<and> nd_size (foldl ?f A qs) = nd_size A \<and>
      nd_arcs (foldl ?f A qs) = linked (nd_arcs A) {p} (set qs - T) \<and>
      nd_startStates (foldl ?f A qs) = nd_startStates A - (set qs - T) \<and> nd_endStates (foldl ?f A qs) = nd_endStates A"
    using assms(3)
  proof (induction qs rule: rev_induct)
    case Nil
    then show ?case using assms(1) by (simp add: linked_def fun_eq_iff)
  next
    case (snoc q qs)
    then show ?case using assms(2) by (auto simp: linked_def fun_eq_iff)
  qed
  then show ?thesis by (simp add: join_end_def)
qed

lemma join_ends:
  assumes "nd_wf A" "\<forall>p \<in> set ps. p < nd_size A" "\<forall>q \<in> set qs. q < nd_size A"
  shows "let B = foldl (join_end T qs) A ps in nd_wf B \<and> nd_size B = nd_size A \<and> nd_arcs B = linked (nd_arcs A) (set ps) (set qs - T) \<and>
    nd_startStates B = (if ps = [] then nd_startStates A else nd_startStates A - (set qs - T)) \<and>
    nd_endStates B = nd_endStates A - set ps"
  using assms(2)
proof (induction ps rule: rev_induct)
  case Nil
  then show ?case using assms(1) by (simp add: linked_def fun_eq_iff)
next
  case (snoc p ps)
  let ?A = "foldl (join_end T qs) A ps"
  have 1: "nd_wf ?A" "nd_size ?A = nd_size A" using snoc by (auto simp: Let_def)
  have "p < nd_size ?A" "\<forall>q \<in> set qs. q < nd_size ?A" using snoc.prems assms(3) 1 by auto
  from join_end [OF 1(1) this, of T] show ?case
    using snoc by (auto simp: linked_def fun_eq_iff Let_def)
qed

lemma linked_both:
  assumes "\<And>p a q. p \<in> X \<Longrightarrow> (a, q) \<in> D p \<Longrightarrow> q \<in> X" "\<And>p a q. p \<notin> X \<Longrightarrow> (a, q) \<in> D p \<Longrightarrow> q \<notin> X"
    "S \<subseteq> X" "P \<subseteq> X" "T \<inter> X = {}" "F \<inter> X = {}"
  shows "labels (linked D P T) S F = {u @ EPS # v |u v. u \<in> labels D S P \<and> v \<in> labels D T F}"
proof -
  have new: "run D p w q" if "run (linked D P T) p w q" "p \<notin> X" for p w q
    using that
  proof (induction w arbitrary: p)
    case (Cons a w)
    then obtain d where "(a, d) \<in> linked D P T p" "run (linked D P T) d w q" by auto
    moreover then have "(a, d) \<in> D p" using assms(4) Cons.prems(2) by (auto simp: linked_def split: if_splits)
    ultimately show ?case using Cons.IH [of d] assms(2) [OF Cons.prems(2)] by auto
  qed simp
  have "w \<in> labels (linked D P T) S F \<longleftrightarrow> w \<in> {u @ EPS # v |u v. u \<in> labels D S P \<and> v \<in> labels D T F}" for w
  proof
    assume "w \<in> labels (linked D P T) S F"
    then obtain s f where s: "s \<in> S" "f \<in> F" "run (linked D P T) s w f" by (auto simp: labels_def)
    obtain u v r t where r: "w = u @ EPS # v" "run D s u r" "r \<in> P" "t \<in> T" "run (linked D P T) t v f"
    proof -
      have "s \<in> X" "f \<notin> X" using s(1,2) assms(3,6) by auto
      then show ?thesis using run_leaves [where X = X, OF _ s(3)] assms(1) that by metis
    qed
    moreover have "run D t v f" using new [OF r(5)] r(4) assms(5) by blast
    ultimately show "w \<in> {u @ EPS # v |u v. u \<in> labels D S P \<and> v \<in> labels D T F}"
      using s(1,2) by (auto simp: labels_def)
  next
    assume "w \<in> {u @ EPS # v |u v. u \<in> labels D S P \<and> v \<in> labels D T F}"
    then obtain u v s r t f where "w = u @ EPS # v" "s \<in> S" "r \<in> P" "t \<in> T" "f \<in> F" "run D s u r" "run D t v f"
      by (auto simp: labels_def)
    then show "w \<in> labels (linked D P T) S F"
      using linked_step [of D s u r P t T v f] run_linked [of D t v f P T] by (auto simp: labels_def)
  qed
  then show ?thesis by blast
qed

lemma concatenate_correct:
  assumes "nd_wf dst" "class_closed src n"
  shows "\<exists>A. fsa_concatenate dst src = Some A \<and> nd_wf A \<and>
    (nd_endStates dst = {} \<longrightarrow> traverse (Copier src) dst = Some A) \<and>
    (nd_endStates dst \<noteq> {} \<longrightarrow> nd_startStates A = nd_startStates dst \<and>
      nd_labels A = {u @ EPS # v |u v. u \<in> nd_labels dst \<and> v \<in> class_labels src})"
proof -
  have dist: "distinct (startFn (Copier src))" by (simp add: Copier_def)
  from traverse_extends [OF assms(1) dist copier_reached [OF assms(2)] finite_lessThan]
  obtain A S F where A: "traverse (Copier src) dst = Some A" "extends dst S F (class_labels src) A"
    unfolding copier_labels [OF class_closed_finite [OF assms(2)]] by blast
  note e = A(2) [unfolded extends_def]
  have wf: "nd_wf A" using e by blast
  let ?n = "nd_size dst" and ?ps = "set_order (nd_endStates dst)" and ?qs = "set_order (nd_startStates A)"
  let ?B = "foldl (join_end (nd_startStates dst) ?qs) A ?ps"
  have bounds: "\<forall>p \<in> nd_startStates dst. p < ?n" "\<forall>p \<in> nd_endStates dst. p < ?n" using assms(1) by (auto simp: nd_wf_def)
  have sets: "set ?ps = nd_endStates dst" "set ?qs = nd_startStates A"
    using nd_wf_finite(2) [OF assms(1)] nd_wf_finite(1) [OF wf] by (simp_all only: set_set_order)
  have new: "set ?qs - nd_startStates dst = S" using sets e bounds by fastforce
  have le: "\<forall>p \<in> set ?ps. p < nd_size A" "\<forall>q \<in> set ?qs. q < nd_size A"
    using bounds e sets by (fastforce, auto dest: nd_wf_bounds)
  note B = join_ends [OF wf le, of "nd_startStates dst", unfolded Let_def new]
  have res: "fsa_concatenate dst src = Some ?B" using A(1) by (simp add: fsa_concatenate_def)
  show ?thesis
  proof (cases "nd_endStates dst = {}")
    case True
    then have "?B = A" by (simp add: set_order_def)
    then show ?thesis using True A(1) res wf by auto
  next
    case False
    then have "?ps \<noteq> []" using sets by force
    then have starts: "nd_startStates ?B = nd_startStates dst" using B e bounds by fastforce
    have ends: "nd_endStates ?B = F" using B sets e bounds by fastforce
    have "labels (linked (nd_arcs A) (nd_endStates dst) S) (nd_startStates dst) F =
        {u @ EPS # v |u v. u \<in> labels (nd_arcs A) (nd_startStates dst) (nd_endStates dst) \<and> v \<in> labels (nd_arcs A) S F}"
    proof (rule linked_both [where X = "{..<?n}"])
      show "q \<in> {..<?n}" if "p \<in> {..<?n}" "(a, q) \<in> nd_arcs A p" for p a q
        using that e nd_arcs_dest [OF assms(1), of a q p] by auto
      show "q \<notin> {..<?n}" if "p \<notin> {..<?n}" "(a, q) \<in> nd_arcs A p" for p a q
        using that e by (meson lessThan_iff not_less)
    qed (use bounds e in auto)
    moreover have "labels (nd_arcs A) (nd_startStates dst) (nd_endStates dst) = nd_labels dst"
      unfolding nd_labels_def
    proof (rule labels_cong [where X = "{..<?n}"])
      show "q \<in> {..<?n}" if "p \<in> {..<?n}" "(a, q) \<in> nd_arcs A p" for p a q
        using that e nd_arcs_dest [OF assms(1), of a q p] by auto
    qed (use bounds e in auto)
    moreover have "labels (nd_arcs A) S F = class_labels src" using e by blast
    moreover have "nd_arcs ?B = linked (nd_arcs A) (nd_endStates dst) S" using B sets by simp
    ultimately have "nd_labels ?B = {u @ EPS # v |u v. u \<in> nd_labels dst \<and> v \<in> class_labels src}"
      unfolding nd_labels_def [of ?B] starts ends by simp
    then show ?thesis using res B starts False by blast
  qed
qed

section \<open>The Kleene operations\<close>

text \<open>One or more words of \<open>L\<close>, joined by the symbol for the empty word.\<close>

inductive_set iterated :: "string set \<Rightarrow> string set" for L where
  once: "w \<in> L \<Longrightarrow> w \<in> iterated L"
| again: "u \<in> L \<Longrightarrow> v \<in> iterated L \<Longrightarrow> u @ EPS # v \<in> iterated L"

lemma run_linked_cases:
  "run (linked D P S) p w q \<Longrightarrow>
    run D p w q \<or> (\<exists>u v r s. w = u @ EPS # v \<and> run D p u r \<and> r \<in> P \<and> s \<in> S \<and> run (linked D P S) s v q)"
proof (induction w arbitrary: p)
  case (Cons a w)
  then obtain d where d: "(a, d) \<in> linked D P S p" "run (linked D P S) d w q" by auto
  show ?case
  proof (cases "(a, d) \<in> D p")
    case True
    from Cons.IH [OF d(2)] show ?thesis
    proof
      assume "run D d w q"
      then show ?thesis using True by auto
    next
      assume "\<exists>u v r s. w = u @ EPS # v \<and> run D d u r \<and> r \<in> P \<and> s \<in> S \<and> run (linked D P S) s v q"
      then obtain u v r s where "w = u @ EPS # v" "run D d u r" "r \<in> P" "s \<in> S" "run (linked D P S) s v q" by blast
      moreover have "run D p (a # u) r" using True \<open>run D d u r\<close> by auto
      ultimately show ?thesis by (metis append_Cons)
    qed
  next
    case False
    then have "a # w = [] @ EPS # w \<and> run D p [] p \<and> p \<in> P \<and> d \<in> S \<and> run (linked D P S) d w q"
      using d by (auto simp: linked_def split: if_splits)
    then show ?thesis by blast
  qed
qed simp

lemma labels_linked_self: "labels (linked D F S) S F = iterated (labels D S F)"
proof -
  have to: "w \<in> iterated (labels D S F)" if "run (linked D F S) s w f" "s \<in> S" "f \<in> F" for s w f
    using that
  proof (induction "length w" arbitrary: s w rule: less_induct)
    case less
    from run_linked_cases [OF less.prems(1)] show ?case
    proof
      assume "run D s w f"
      then show ?thesis using less.prems by (auto simp: labels_def intro: iterated.once)
    next
      assume "\<exists>u v r t. w = u @ EPS # v \<and> run D s u r \<and> r \<in> F \<and> t \<in> S \<and> run (linked D F S) t v f"
      then obtain u v r t where w: "w = u @ EPS # v" "run D s u r" "r \<in> F" "t \<in> S" "run (linked D F S) t v f" by blast
      have "v \<in> iterated (labels D S F)" using less.hyps [of v t] w less.prems(3) by simp
      moreover have "u \<in> labels D S F" using w less.prems(2) by (auto simp: labels_def)
      ultimately show ?thesis unfolding w(1) by (blast intro: iterated.again)
    qed
  qed
  have of_it: "w \<in> labels (linked D F S) S F" if "w \<in> iterated (labels D S F)" for w
    using that
  proof induction
    case (once w)
    then show ?case using run_linked [of D _ w _ F S] by (auto simp: labels_def)
  next
    case (again u v)
    then obtain s r t f where "s \<in> S" "r \<in> F" "run D s u r" "t \<in> S" "f \<in> F" "run (linked D F S) t v f"
      by (auto simp: labels_def)
    then show ?case using linked_step [of D s u r F t S v f] by (auto simp: labels_def)
  qed
  show ?thesis using to of_it by (auto simp: labels_def)
qed

lemma add_arcs:
  assumes "nd_wf A" "p < nd_size A" "\<forall>q \<in> set qs. q < nd_size A"
  shows "let B = foldl (\<lambda>A q. nd_addArc p (EPS, q) A) A qs in nd_wf B \<and> nd_size B = nd_size A \<and>
    nd_arcs B = linked (nd_arcs A) {p} (set qs) \<and> nd_startStates B = nd_startStates A \<and> nd_endStates B = nd_endStates A"
  using assms(3)
proof (induction qs rule: rev_induct)
  case Nil
  then show ?case using assms(1) by (simp add: linked_def fun_eq_iff)
next
  case (snoc q qs)
  then show ?case using assms(2) by (auto simp: linked_def fun_eq_iff Let_def)
qed

lemma kleene_plus_arcs:
  assumes "nd_wf A"
  shows "nd_wf (kleene_plus A) \<and> nd_size (kleene_plus A) = nd_size A \<and>
    nd_arcs (kleene_plus A) = linked (nd_arcs A) (nd_endStates A) (nd_startStates A) \<and>
    nd_startStates (kleene_plus A) = nd_startStates A \<and> nd_endStates (kleene_plus A) = nd_endStates A"
proof -
  let ?f = "\<lambda>A p. foldl (\<lambda>A q. nd_addArc p (EPS, q) A) A (set_order (nd_startStates A))"
  have bounds: "\<forall>q \<in> nd_startStates A. q < nd_size A" "\<forall>q \<in> nd_endStates A. q < nd_size A"
    using assms by (auto simp: nd_wf_def)
  have "let B = foldl ?f A ps in nd_wf B \<and> nd_size B = nd_size A \<and>
      nd_arcs B = linked (nd_arcs A) (set ps) (nd_startStates A) \<and>
      nd_startStates B = nd_startStates A \<and> nd_endStates B = nd_endStates A" if "\<forall>p \<in> set ps. p < nd_size A" for ps
    using that
  proof (induction ps rule: rev_induct)
    case Nil
    then show ?case using assms by (simp add: linked_def fun_eq_iff)
  next
    case (snoc p ps)
    let ?B = "foldl ?f A ps"
    have B: "nd_wf ?B" "nd_size ?B = nd_size A" "nd_startStates ?B = nd_startStates A"
      using snoc by (auto simp: Let_def)
    have "p < nd_size ?B" "\<forall>q \<in> set (set_order (nd_startStates ?B)). q < nd_size ?B"
      using snoc.prems B assms bounds by auto
    from add_arcs [OF B(1) this] show ?case
      using snoc assms by (auto simp: Let_def linked_def fun_eq_iff)
  qed
  from this [of "set_order (nd_endStates A)"] show ?thesis
    using assms bounds by (simp add: kleene_plus_def Let_def)
qed

lemma kleene_plus_labels: "nd_wf A \<Longrightarrow> nd_labels (kleene_plus A) = iterated (nd_labels A)"
  using kleene_plus_arcs [of A] labels_linked_self unfolding nd_labels_def by metis

lemma option_starts:
  assumes "nd_wf A" "p < nd_size A" "\<forall>q \<in> set qs. q < nd_size A"
  shows "let B = foldl (\<lambda>A q. nd_addArc p (EPS, q) (nd_unsetStartState q A)) A qs in nd_wf B \<and> nd_size B = nd_size A \<and>
    nd_arcs B = linked (nd_arcs A) {p} (set qs) \<and> nd_startStates B = nd_startStates A - set qs \<and> nd_endStates B = nd_endStates A"
  using assms(3)
proof (induction qs rule: rev_induct)
  case Nil
  then show ?case using assms(1) by (simp add: linked_def fun_eq_iff)
next
  case (snoc q qs)
  then show ?case using assms(2) by (auto simp: linked_def fun_eq_iff Let_def)
qed

lemma option_ends:
  assumes "nd_wf A" "q < nd_size A" "\<forall>p \<in> set ps. p < nd_size A"
  shows "let B = foldl (\<lambda>A p. nd_addArc p (EPS, q) (nd_unsetEndState p A)) A ps in nd_wf B \<and> nd_size B = nd_size A \<and>
    nd_arcs B = linked (nd_arcs A) (set ps) {q} \<and> nd_startStates B = nd_startStates A \<and> nd_endStates B = nd_endStates A - set ps"
  using assms(3)
proof (induction ps rule: rev_induct)
  case Nil
  then show ?case using assms(1) by (simp add: linked_def fun_eq_iff)
next
  case (snoc p ps)
  then show ?case using assms(2) by (auto simp: linked_def fun_eq_iff Let_def)
qed

lemma kleene_option_arcs:
  assumes "nd_wf A"
  defines "n \<equiv> nd_size A"
  shows "nd_wf (kleene_option A) \<and>
    nd_arcs (kleene_option A) = linked (linked (nd_arcs A) {n} (nd_startStates A)) (nd_endStates A) {Suc n} \<and>
    nd_startStates (kleene_option A) = {n} \<and> nd_endStates (kleene_option A) = {Suc n}"
proof -
  let ?start = "set_order (nd_startStates A)" and ?ends = "set_order (nd_endStates A)"
  define A1 where "A1 = nd_setEndState (Suc n) (snd (nd_addState False (nd_setStartState n (snd (nd_addState False A)))))"
  define A2 where "A2 = foldl (\<lambda>A p. nd_addArc n (EPS, p) (nd_unsetStartState p A)) A1 ?start"
  have bounds: "\<forall>q \<in> nd_startStates A. q < n" "\<forall>q \<in> nd_endStates A. q < n" using assms by (auto simp: nd_wf_def)
  have sets: "set ?start = nd_startStates A" "set ?ends = nd_endStates A" using assms by simp_all
  have 1: "nd_wf A1" "nd_size A1 = Suc (Suc n)" "nd_arcs A1 = nd_arcs A" "nd_startStates A1 = insert n (nd_startStates A)"
    "nd_endStates A1 = insert (Suc n) (nd_endStates A)"
    using assms by (simp_all add: A1_def)
  have "\<forall>q \<in> set ?start. q < nd_size A1" "n < nd_size A1" using bounds 1(2) sets by fastforce+
  from option_starts [OF 1(1) this(2,1), folded A2_def, unfolded Let_def]
  have 2: "nd_wf A2" "nd_size A2 = Suc (Suc n)" "nd_arcs A2 = linked (nd_arcs A) {n} (nd_startStates A)" "nd_startStates A2 = {n}"
    "nd_endStates A2 = insert (Suc n) (nd_endStates A)"
    using 1 sets bounds by auto
  have "\<forall>p \<in> set ?ends. p < nd_size A2" "Suc n < nd_size A2" using bounds 2(2) sets by fastforce+
  note 3 = option_ends [OF 2(1) this(2,1), unfolded Let_def 2 sets]
  have "kleene_option A = foldl (\<lambda>A p. nd_addArc p (EPS, Suc n) (nd_unsetEndState p A)) A2 ?ends"
    by (simp add: kleene_option_def A2_def A1_def n_def Let_def case_prod_beta')
  moreover have "insert (Suc n) (nd_endStates A) - nd_endStates A = {Suc n}" using bounds by auto
  ultimately show ?thesis using 3 by simp
qed

lemma kleene_option_labels:
  assumes "nd_wf A"
  shows "nd_labels (kleene_option A) = (\<lambda>w. EPS # w @ [EPS]) ` nd_labels A"
proof -
  let ?n = "nd_size A" and ?S = "nd_startStates A" and ?F = "nd_endStates A"
  let ?D1 = "linked (nd_arcs A) {?n} ?S"
  note k = kleene_option_arcs [OF assms]
  have bounds: "?S \<subseteq> {..<?n}" "?F \<subseteq> {..<?n}" using assms by (auto simp: nd_wf_def)
  have no: "nd_arcs A p = {}" if "?n \<le> p" for p using that by (simp add: nd_arcs_def)
  have inside: "q < ?n" if "(a, q) \<in> nd_arcs A p" for a p q using nd_arcs_dest [OF assms that] by simp
  have closed: "q \<in> {..?n}" if "(a, q) \<in> ?D1 p" for a p q
    using that inside bounds by (fastforce simp: linked_def split: if_splits)
  have "labels (linked ?D1 ?F {Suc ?n}) {?n} {Suc ?n} = {u @ EPS # v |u v. u \<in> labels ?D1 {?n} ?F \<and> v \<in> labels ?D1 {Suc ?n} {Suc ?n}}"
  proof (rule linked_both [where X = "{..?n}"])
    show "q \<notin> {..?n}" if "p \<notin> {..?n}" "(a, q) \<in> ?D1 p" for p a q using that no [of p] by (auto simp: linked_def)
  qed (use closed bounds in auto)
  also have "labels ?D1 {Suc ?n} {Suc ?n} = {[]}"
  proof -
    have "run ?D1 (Suc ?n) w (Suc ?n) \<longleftrightarrow> w = []" for w
      using no [of "Suc ?n"] by (cases w) (auto simp: linked_def)
    then show ?thesis by (auto simp: labels_def)
  qed
  also have "labels ?D1 {?n} ?F = (\<lambda>w. EPS # w) ` nd_labels A"
  proof -
    have old: "run ?D1 p w q \<longleftrightarrow> run (nd_arcs A) p w q" if "p < ?n" for p w q
      using that
    proof (induction w arbitrary: p)
      case (Cons a w)
      have "?D1 p = nd_arcs A p" using Cons.prems by (simp add: linked_def)
      then show ?case using Cons.IH inside by (metis run.simps(2))
    qed simp
    have "run ?D1 ?n w f \<longleftrightarrow> (\<exists>v s. w = EPS # v \<and> s \<in> ?S \<and> run (nd_arcs A) s v f)" if "f \<in> ?F" for w f
    proof (cases w)
      case Nil
      then show ?thesis using that bounds by auto
    next
      case (Cons a v)
      have "run ?D1 s v f \<longleftrightarrow> run (nd_arcs A) s v f" if "s \<in> ?S" for s using that bounds old by blast
      moreover have "?D1 ?n = {EPS} \<times> ?S" using no [of ?n] by (simp add: linked_def)
      ultimately show ?thesis using Cons by auto
    qed
    then show ?thesis by (fastforce simp: labels_def nd_labels_def)
  qed
  finally show ?thesis using k by (auto simp: nd_labels_def [of "kleene_option A"])
qed

section \<open>The languages\<close>

lemma visible_append: "visible (u @ v) = visible u @ visible v"
  by (simp add: visible_def)

lemma visible_joined: "visible ` {u @ EPS # v |u v. u \<in> L \<and> v \<in> M} = {u @ v |u v. u \<in> visible ` L \<and> v \<in> visible ` M}"
proof -
  have "visible (u @ EPS # v) = visible u @ visible v" for u v by (simp add: visible_append)
  then show ?thesis by (force simp: image_iff)
qed

lemma visible_iterated: "visible ` iterated L = {concat ws |ws. ws \<noteq> [] \<and> set ws \<subseteq> visible ` L}"
proof -
  have to: "\<exists>ws. visible w = concat ws \<and> ws \<noteq> [] \<and> set ws \<subseteq> visible ` L" if "w \<in> iterated L" for w
    using that
  proof induction
    case (once w)
    then show ?case by (intro exI [of _ "[visible w]"]) simp
  next
    case (again u v)
    then obtain ws where "visible v = concat ws" "set ws \<subseteq> visible ` L" by blast
    then show ?case using again.hyps(1) by (intro exI [of _ "visible u # ws"]) (simp add: visible_append)
  qed
  have of_it: "concat ws \<in> visible ` iterated L" if "ws \<noteq> []" "set ws \<subseteq> visible ` L" for ws
    using that
  proof (induction ws rule: list_nonempty_induct)
    case (single w)
    then show ?case by (auto intro: iterated.once)
  next
    case (cons w ws)
    then obtain u v where "u \<in> L" "w = visible u" "v \<in> iterated L" "concat ws = visible v" by auto
    then have "concat (w # ws) = visible (u @ EPS # v)" "u @ EPS # v \<in> iterated L"
      by (simp_all add: visible_append iterated.again)
    then show ?case by blast
  qed
  show ?thesis using to of_it by blast
qed

text \<open>C40: The three Kleene operations: one or more words for the plus; the option accepts no more than the
  automaton it is made from, in particular not the empty word, and the star no more than the plus.\<close>

theorem kleene_languages:
  assumes "nd_wf A"
  shows "nd_language (kleene_plus A) = {concat ws |ws. ws \<noteq> [] \<and> set ws \<subseteq> nd_language A} \<and>
    nd_language (kleene_option A) = nd_language A \<and> nd_language (kleene_star A) = nd_language (kleene_plus A)"
proof -
  have plus: "nd_language (kleene_plus B) = {concat ws |ws. ws \<noteq> [] \<and> set ws \<subseteq> nd_language B}" if "nd_wf B" for B
    using kleene_plus_labels [OF that] visible_iterated by (simp add: nd_language_def)
  have opt: "nd_language (kleene_option A) = nd_language A"
    unfolding nd_language_def kleene_option_labels [OF assms] image_image by (simp add: visible_append)
  have "nd_language (kleene_star A) = nd_language (kleene_plus A)"
    using plus [of "kleene_option A"] plus [OF assms] kleene_option_arcs [OF assms] by (simp add: kleene_star_def opt)
  then show ?thesis using plus [OF assms] opt by blast
qed

theorem kleene_languages_witness:
  "nd_language (kleene_option (nd_ofSymbol CHR ''a'')) = nd_language (nd_ofSymbol CHR ''a'')"
proof -
  have "nd_wf (nd_ofSymbol CHR ''a'')"
    by (simp add: nd_ofSymbol_def nd_addState_def newNDFSA_def nd_wf_def nd_addArc_def nd_setEndState_def nd_size_def Let_def)
  from kleene_languages [OF this] show ?thesis by blast
qed

end
