(* ===== verification/Bin_Dfsa.thy ===== *)
theory Bin_Dfsa imports Fsa_Traverse "HOL-Library.Word" begin
unbundle bit_operations_syntax

text \<open>The packed deterministic automaton of fsa_bindfsa.hpp as \<open>StringBinFSA\<close>: the arcs of all
  states in one vector, and for every state the position of its first arc, in 32 bits of which the
  highest marks end states.  Accesses outside of the vectors are undefined in the code.\<close>

section \<open>Operations\<close>

type_synonym bin_arc = "symbol \<times> 32 word"

record bin_dfsa =
  m_states :: "32 word list"
  m_arcs :: "bin_arc list"

definition newBinDFSA :: bin_dfsa where
  "newBinDFSA = \<lparr>m_states = [], m_arcs = []\<rparr>"

definition setLastBit :: "32 word \<Rightarrow> 32 word" where
  "setLastBit pos = pos OR push_bit 31 1"

definition unsetLastBit :: "32 word \<Rightarrow> 32 word" where
  "unsetLastBit pos = pos AND NOT (push_bit 31 1)"

definition bin_size :: "bin_dfsa \<Rightarrow> nat" where
  "bin_size A = length (m_states A)"

definition bin_isStartState :: "nat \<Rightarrow> bin_dfsa \<Rightarrow> bool" where
  "bin_isStartState p A \<longleftrightarrow> p = 0"

definition bin_getStartStates :: "bin_dfsa \<Rightarrow> nat set" where
  "bin_getStartStates A = {0}"

definition bin_isEndState :: "nat \<Rightarrow> bin_dfsa \<Rightarrow> bool" where
  "bin_isEndState p A \<longleftrightarrow> m_states A ! p AND push_bit 31 1 \<noteq> 0"

definition bin_getEndStates :: "bin_dfsa \<Rightarrow> nat set" where
  "bin_getEndStates A = set (filter (\<lambda>p. bin_isEndState p A) [0..<bin_size A])"

definition bin_setEndState :: "nat \<Rightarrow> bin_dfsa \<Rightarrow> bin_dfsa" where
  "bin_setEndState p A = A\<lparr>m_states := (m_states A)[p := setLastBit (m_states A ! p)]\<rparr>"

definition bin_unsetEndState :: "nat \<Rightarrow> bin_dfsa \<Rightarrow> bin_dfsa" where
  "bin_unsetEndState p A = A\<lparr>m_states := (m_states A)[p := unsetLastBit (m_states A ! p)]\<rparr>"

definition bin_addState :: "bin_dfsa \<Rightarrow> nat \<times> bin_dfsa" where
  "bin_addState A = (bin_size A, A\<lparr>m_states := m_states A @ [word_of_nat (length (m_arcs A))]\<rparr>)"

text \<open>The range of the arcs of a state, as positions.\<close>

definition bin_range :: "nat \<Rightarrow> bin_dfsa \<Rightarrow> nat \<times> nat" where
  "bin_range p A =
     (if Suc p < bin_size A then (unat (unsetLastBit (m_states A ! p)), unat (unsetLastBit (m_states A ! Suc p)))
      else if Suc p = bin_size A then (unat (unsetLastBit (m_states A ! p)), length (m_arcs A))
      else (length (m_arcs A), length (m_arcs A)))"

definition bin_getArcs :: "nat \<Rightarrow> bin_dfsa \<Rightarrow> bin_arc list" where
  "bin_getArcs p A = (let (first, second) = bin_range p A in drop first (take second (m_arcs A)))"

definition bin_addArc :: "nat \<Rightarrow> bin_arc \<Rightarrow> bin_dfsa \<Rightarrow> bin_dfsa" where
  "bin_addArc p a A =
     (if p < bin_size A then
        let first = unat (unsetLastBit (m_states A ! p));
            second = unat (if p < bin_size A - 1 then unsetLastBit (m_states A ! Suc p) else word_of_nat (length (m_arcs A)));
            pos = first + length (takeWhile (\<lambda>x. x < a) (drop first (take second (m_arcs A))));
            shift = (\<lambda>q. let s = m_states A ! q in
              if q \<le> p then s else if bin_isEndState q A then setLastBit (unsetLastBit s + 1) else s + 1)
        in \<lparr>m_states = map shift [0..<bin_size A], m_arcs = take pos (m_arcs A) @ a # drop pos (m_arcs A)\<rparr>
      else A)"

definition bin_deleteLastState :: "bin_dfsa \<Rightarrow> bin_dfsa" where
  "bin_deleteLastState A =
     \<lparr>m_states = butlast (m_states A), m_arcs = take (unat (unsetLastBit (last (m_states A)))) (m_arcs A)\<rparr>"

definition bin_find :: "nat \<Rightarrow> symbol \<Rightarrow> bin_dfsa \<Rightarrow> bin_arc option" where
  "bin_find p a A = (case lower_bound (a, 0) (bin_getArcs p A) of
     [] \<Rightarrow> None | arc # _ \<Rightarrow> if fst arc = a then Some arc else None)"

definition bin_delta :: "nat \<Rightarrow> symbol \<Rightarrow> bin_dfsa \<Rightarrow> nat option" where
  "bin_delta p a A = (if bin_size A < p then None else map_option (\<lambda>arc. unat (snd arc)) (bin_find p a A))"

fun bin_in_from :: "nat \<Rightarrow> string \<Rightarrow> bin_dfsa \<Rightarrow> bool" where
  "bin_in_from p [] A = bin_isEndState p A"
| "bin_in_from p (a # w) A = (case bin_delta p a A of Some q \<Rightarrow> bin_in_from q w A | None \<Rightarrow> False)"

definition bin_in :: "string \<Rightarrow> bin_dfsa \<Rightarrow> bool" where
  "bin_in w A = bin_in_from 0 w A"

definition bin_arcs_nat :: "nat \<Rightarrow> bin_dfsa \<Rightarrow> nat arc list" where
  "bin_arcs_nat p A = map (\<lambda>(a, d). (a, unat d)) (bin_getArcs p A)"

definition bin_epsClosure :: "nat \<Rightarrow> bin_dfsa \<Rightarrow> nat set" where
  "bin_epsClosure p A = fst (the (eps_loop (\<lambda>p. bin_arcs_nat p A) p))"

definition bin_class :: "bin_dfsa \<Rightarrow> fsa_class" where
  "bin_class A = \<lparr>getStartStates = bin_getStartStates A, isEndState = (\<lambda>p. bin_isEndState p A),
     getArcs = (\<lambda>p. bin_arcs_nat p A), epsClosure = (\<lambda>p. bin_epsClosure p A)\<rparr>"

section \<open>Rows\<close>

text \<open>An automaton is the packed form of its rows: for every state, whether it is an end state, and its arcs.\<close>

type_synonym row = "bool \<times> nat arc list"

definition row_arcs :: "row list \<Rightarrow> nat arc list" where
  "row_arcs R = concat (map snd R)"

definition pack_arc :: "nat arc \<Rightarrow> bin_arc" where
  "pack_arc = (\<lambda>(a, d). (a, word_of_nat d))"

definition pack_position :: "bool \<Rightarrow> nat \<Rightarrow> 32 word" where
  "pack_position e n = (if e then setLastBit (word_of_nat n) else word_of_nat n)"

definition pack :: "row list \<Rightarrow> bin_dfsa" where
  "pack R = \<lparr>m_states = map (\<lambda>p. pack_position (fst (R ! p)) (length (row_arcs (take p R)))) [0..<length R],
     m_arcs = map pack_arc (row_arcs R)\<rparr>"

definition rows_ok :: "row list \<Rightarrow> bool" where
  "rows_ok R \<longleftrightarrow> length (row_arcs R) < 2 ^ 31 \<and> length R \<le> 2 ^ 31 \<and> (\<forall>(a, d) \<in> set (row_arcs R). d < length R)"

lemma top_bit: "bit (push_bit 31 1 :: 32 word) k \<longleftrightarrow> k = 31"
  by (auto simp only: bit_push_bit_iff bit_1_iff) (simp_all add: bit_1_iff)

lemma unset_set: "unsetLastBit (setLastBit w) = unsetLastBit w"
  by (rule bit_word_eqI) (auto simp only: setLastBit_def unsetLastBit_def bit_and_iff bit_or_iff bit_not_iff top_bit)

lemma small_bits:
  assumes "n < 2 ^ 31"
  shows "\<not> bit (word_of_nat n :: 32 word) 31"
proof -
  have "unat (word_of_nat n :: 32 word) = n" using assms by (simp add: unat_of_nat)
  moreover have "\<not> bit n 31" using assms by (simp add: bit_iff_odd)
  ultimately show ?thesis using bit_unsigned_iff [where ?'a = nat, of "word_of_nat n :: 32 word" 31] by simp
qed

lemma unset_small:
  assumes "n < 2 ^ 31"
  shows "unsetLastBit (word_of_nat n) = word_of_nat n"
  using small_bits [OF assms]
  by (intro bit_word_eqI) (auto simp only: unsetLastBit_def bit_and_iff bit_not_iff top_bit possible_bit_word)

lemma end_small: "n < 2 ^ 31 \<Longrightarrow> (pack_position e n AND push_bit 31 1 \<noteq> 0) = e"
proof -
  assume n: "n < 2 ^ 31"
  have "w AND push_bit 31 1 \<noteq> 0 \<longleftrightarrow> bit w 31" for w :: "32 word"
    by (simp only: bit_iff_and_push_bit_not_eq_0)
  moreover have "bit (pack_position e n) 31 = e"
    using small_bits [OF n] by (simp only: pack_position_def setLastBit_def bit_or_iff top_bit split: if_splits) simp
  ultimately show ?thesis by blast
qed

lemma unat_small: "n < 2 ^ 31 \<Longrightarrow> unat (word_of_nat n :: 32 word) = n"
  by (simp add: unat_of_nat)

lemma unpack_position: "n < 2 ^ 31 \<Longrightarrow> unsetLastBit (pack_position e n) = word_of_nat n"
  by (simp add: pack_position_def unset_set unset_small)

section \<open>The operations on rows\<close>

definition row_start :: "row list \<Rightarrow> nat \<Rightarrow> nat" where
  "row_start R p = length (row_arcs (take p R))"

lemma row_arcs_simps [simp]: "row_arcs [] = []" "row_arcs (R @ S) = row_arcs R @ row_arcs S"
  "row_arcs (r # R) = snd r @ row_arcs R"
  by (simp_all add: row_arcs_def)

lemma row_start_le: "row_start R p \<le> length (row_arcs R)"
proof -
  have "row_arcs R = row_arcs (take p R) @ row_arcs (drop p R)" by (metis append_take_drop_id row_arcs_simps(2))
  then show ?thesis by (simp add: row_start_def)
qed

lemma row_start_Suc: "p < length R \<Longrightarrow> row_start R (Suc p) = row_start R p + length (snd (R ! p))"
  by (simp add: row_start_def take_Suc_conv_app_nth)

lemma row_start_length: "row_start R (length R) = length (row_arcs R)"
  by (simp add: row_start_def)

lemma row_arcs_split:
  "p < length R \<Longrightarrow> row_arcs R = row_arcs (take p R) @ snd (R ! p) @ row_arcs (drop (Suc p) R)"
  by (metis id_take_nth_drop row_arcs_simps(2,3))

lemma pack_simps: "bin_size (pack R) = length R" "m_arcs (pack R) = map pack_arc (row_arcs R)"
  "p < length R \<Longrightarrow> m_states (pack R) ! p = pack_position (fst (R ! p)) (row_start R p)"
  by (simp_all add: pack_def bin_size_def row_start_def)

lemma row_start_small: "rows_ok R \<Longrightarrow> row_start R p < 2 ^ 31"
  using row_start_le [of R p] by (simp add: rows_ok_def)

lemma unpack:
  assumes "rows_ok R" "p < length R"
  shows "unsetLastBit (m_states (pack R) ! p) = word_of_nat (row_start R p)"
    "unat (unsetLastBit (m_states (pack R) ! p)) = row_start R p"
    "bin_isEndState p (pack R) = fst (R ! p)"
  using assms row_start_small [OF assms(1), of p]
  by (simp_all only: pack_simps unpack_position unat_small bin_isEndState_def end_small)

lemma pack_range:
  assumes "rows_ok R" "p < length R"
  shows "bin_range p (pack R) = (row_start R p, row_start R (Suc p))"
proof (cases "Suc p < length R")
  case True
  then show ?thesis using unpack(2) [OF assms] unpack(2) [OF assms(1) True] by (simp add: bin_range_def pack_simps)
next
  case False
  then have "Suc p = length R" using assms(2) by simp
  then show ?thesis
    using unpack(2) [OF assms] row_start_length [of R] by (simp add: bin_range_def pack_simps)
qed

lemma slice: "drop (length xs) (take (length xs + length ys) (xs @ ys @ zs)) = ys"
  by simp

lemma pack_getArcs:
  assumes "rows_ok R" "p < length R"
  shows "bin_getArcs p (pack R) = map pack_arc (snd (R ! p))"
proof -
  have "drop (row_start R p) (take (row_start R (Suc p)) (row_arcs R)) = snd (R ! p)"
    unfolding row_start_Suc [OF assms(2)] unfolding row_arcs_split [OF assms(2)] row_start_def by (rule slice)
  then show ?thesis unfolding bin_getArcs_def pack_range [OF assms] pack_simps Let_def prod.case
    by (simp only: take_map drop_map)
qed

lemma rows_dest:
  assumes "rows_ok R" "p < length R" "(a, d) \<in> set (snd (R ! p))"
  shows "d < length R" "d < 2 ^ 31"
proof -
  have "(a, d) \<in> set (row_arcs R)" using assms(2,3) by (simp add: row_arcs_split)
  then show "d < length R" using assms(1) by (auto simp: rows_ok_def)
  then show "d < 2 ^ 31" using assms(1) by (simp add: rows_ok_def)
qed

lemma pack_arcs_nat:
  assumes "rows_ok R" "p < length R"
  shows "bin_arcs_nat p (pack R) = snd (R ! p)"
proof -
  have "map (\<lambda>(a, d). (a, unat d)) (map pack_arc (snd (R ! p))) = snd (R ! p)"
    unfolding map_map
  proof (rule map_idI)
    fix x :: "nat arc" assume "x \<in> set (snd (R ! p))"
    moreover obtain a d where x: "x = (a, d)" by fastforce
    ultimately have "d < 2 ^ 31" using rows_dest(2) [OF assms] by simp
    then show "((\<lambda>(a, d). (a, unat d)) \<circ> pack_arc) x = x"
      unfolding x comp_def pack_arc_def prod.case by (simp only: unat_small)
  qed
  then show ?thesis unfolding bin_arcs_nat_def pack_getArcs [OF assms] .
qed

lemma pack_new: "newBinDFSA = pack []"
  by (simp add: newBinDFSA_def pack_def)

lemma pack_addState: "bin_addState (pack R) = (length R, pack (R @ [(False, [])]))"
  by (simp add: bin_addState_def pack_def bin_size_def pack_position_def nth_append cong: map_cong)

lemma pack_eqI:
  assumes "bin_size A = length R" "m_arcs A = map pack_arc (row_arcs R)"
    "\<And>p. p < length R \<Longrightarrow> m_states A ! p = pack_position (fst (R ! p)) (row_start R p)"
  shows "A = pack R"
proof -
  have "m_states A = m_states (pack R)"
    using assms(1,3) by (intro nth_equalityI) (simp_all add: pack_def bin_size_def row_start_def)
  then show ?thesis using assms(2) by (simp add: pack_def)
qed

lemma map_snd_update: "p < length R \<Longrightarrow> map snd (R[p := (e, snd (R ! p))]) = map snd R"
  by (metis list_update_id map_update nth_map snd_conv)

lemma pack_setEndState:
  assumes "p < length R"
  shows "bin_setEndState p (pack R) = pack (R[p := (True, snd (R ! p))])"
proof -
  have rows: "row_start (R[p := (True, snd (R ! p))]) q = row_start R q" for q
    unfolding row_start_def row_arcs_def take_map [symmetric] map_snd_update [OF assms] ..
  have set_set: "setLastBit (setLastBit w) = setLastBit w" for w by (simp add: setLastBit_def)
  show ?thesis
  proof (rule pack_eqI)
    show "m_arcs (bin_setEndState p (pack R)) = map pack_arc (row_arcs (R[p := (True, snd (R ! p))]))"
      by (simp add: bin_setEndState_def pack_def row_arcs_def map_snd_update [OF assms])
    show "m_states (bin_setEndState p (pack R)) ! q = pack_position (fst (R[p := (True, snd (R ! p))] ! q)) (row_start (R[p := (True, snd (R ! p))]) q)"
      if "q < length (R[p := (True, snd (R ! p))])" for q
      using assms that unfolding rows
      by (auto simp: bin_setEndState_def nth_list_update pack_simps pack_position_def set_set pack_def row_start_def)
  qed (simp add: bin_setEndState_def pack_def bin_size_def)
qed

lemma pack_deleteLastState:
  assumes "rows_ok R" "R \<noteq> []"
  shows "bin_deleteLastState (pack R) = pack (butlast R)"
proof -
  obtain S r where R: "R = S @ [r]" using assms(2) by (metis append_butlast_last_id)
  have "last (m_states (pack R)) = m_states (pack R) ! length S" by (simp add: R pack_def last_conv_nth nth_append)
  then have "unat (unsetLastBit (last (m_states (pack R)))) = row_start R (length S)"
    using unpack(2) [OF assms(1), of "length S"] by (simp add: R)
  then show ?thesis
    by (simp add: bin_deleteLastState_def row_start_def R pack_def nth_append take_map cong: map_cong)
qed

lemma row_start_update:
  assumes "p < length R" "q \<le> length R"
  shows "row_start (R[p := (e, snd (R ! p) @ xs)]) q = row_start R q + (if p < q then length xs else 0)"
proof (cases "p < q")
  case True
  then have "p < length (take q R)" using assms by simp
  then have "row_arcs (take q R) = row_arcs (take p R) @ snd (R ! p) @ row_arcs (drop (Suc p) (take q R))"
    using row_arcs_split [of p "take q R"] True by (simp add: min_def)
  moreover have "row_arcs ((take q R)[p := (e, snd (R ! p) @ xs)]) =
      row_arcs (take p R) @ (snd (R ! p) @ xs) @ row_arcs (drop (Suc p) (take q R))"
    using True assms by (simp add: upd_conv_take_nth_drop min_def)
  ultimately show ?thesis using True by (simp add: row_start_def take_update_swap)
qed (simp add: row_start_def)

lemma pack_less: "fst x < fst arc \<Longrightarrow> pack_arc x < pack_arc arc"
  by (simp add: pack_arc_def less_prod_def case_prod_beta)

lemma pack_addArc:
  assumes "rows_ok R" "p < length R" "\<forall>x \<in> set (snd (R ! p)). fst x < fst arc"
  shows "bin_addArc p (pack_arc arc) (pack R) = pack (R[p := (fst (R ! p), snd (R ! p) @ [arc])])"
    (is "_ = pack ?R")
proof -
  let ?pos = "row_start R (Suc p)"
  note range = pack_range [OF assms(1,2)]
  have word_length: "unat (word_of_nat (length (row_arcs R)) :: 32 word) = length (row_arcs R)"
    using assms(1) unat_small by (simp only: rows_ok_def)
  have second: "unat (if p < bin_size (pack R) - 1 then unsetLastBit (m_states (pack R) ! Suc p)
      else word_of_nat (length (m_arcs (pack R)))) = ?pos"
  proof (cases "Suc p < length R")
    case True
    then have "p < length R - 1" by simp
    then show ?thesis using unpack(2) [OF assms(1) True] by (simp add: pack_simps)
  next
    case False
    then have "Suc p = length R" "\<not> p < length R - 1" using assms(2) by simp_all
    then show ?thesis using word_length by (simp add: pack_simps row_start_length)
  qed
  have slice: "drop (row_start R p) (take ?pos (map pack_arc (row_arcs R))) = map pack_arc (snd (R ! p))"
    using pack_getArcs [OF assms(1,2)] unfolding bin_getArcs_def range by (simp add: pack_simps)
  have tw: "takeWhile (\<lambda>x. x < pack_arc arc) (map pack_arc (snd (R ! p))) = map pack_arc (snd (R ! p))"
    using assms(3) by (auto simp: takeWhile_eq_all_conv intro: pack_less)
  define shift where "shift = (\<lambda>q. let s = m_states (pack R) ! q in
      if q \<le> p then s else if bin_isEndState q (pack R) then setLastBit (unsetLastBit s + 1) else s + 1)"
  have add: "bin_addArc p (pack_arc arc) (pack R) =
      \<lparr>m_states = map shift [0..<length R],
       m_arcs = take ?pos (map pack_arc (row_arcs R)) @ pack_arc arc # drop ?pos (map pack_arc (row_arcs R))\<rparr>"
    unfolding bin_addArc_def second unpack(2) [OF assms(1,2)] Let_def
    using assms(2) by (simp add: pack_simps slice [unfolded row_start_Suc [OF assms(2)]] tw row_start_Suc shift_def Let_def)
  have split: "row_arcs R = row_arcs (take (Suc p) R) @ row_arcs (drop (Suc p) R)"
    by (metis append_take_drop_id row_arcs_simps(2))
  have pos: "?pos = length (row_arcs (take (Suc p) R))" by (simp add: row_start_def)
  have arcs: "row_arcs ?R = row_arcs (take (Suc p) R) @ arc # row_arcs (drop (Suc p) R)"
    using assms(2) by (simp add: upd_conv_take_nth_drop take_Suc_conv_app_nth)
  show ?thesis
  proof (rule pack_eqI)
    show "m_arcs (bin_addArc p (pack_arc arc) (pack R)) = map pack_arc (row_arcs ?R)"
      unfolding add arcs pos by (subst (1 2) split) (simp add: take_map drop_map)
    fix q assume q: "q < length ?R"
    then have q': "q < length R" by simp
    have same: "fst (?R ! q) = fst (R ! q)" using q' by (cases "p = q") simp_all
    have "shift q = pack_position (fst (?R ! q)) (row_start ?R q)"
    proof (cases "q \<le> p")
      case True
      then show ?thesis
        using q' row_start_update [OF assms(2), of q "fst (R ! p)" "[arc]"]
        by (simp add: shift_def pack_simps same)
    next
      case False
      then have "row_start ?R q = Suc (row_start R q)"
        using q' row_start_update [OF assms(2), of q "fst (R ! p)" "[arc]"] by simp
      moreover have "unsetLastBit (m_states (pack R) ! q) = word_of_nat (row_start R q)"
        "bin_isEndState q (pack R) = fst (R ! q)"
        using unpack [OF assms(1) q'] by auto
      ultimately show ?thesis
        using False q' by (cases "fst (R ! q)") (simp_all add: shift_def Let_def pack_position_def pack_simps add.commute same)
    qed
    then show "m_states (bin_addArc p (pack_arc arc) (pack R)) ! q = pack_position (fst (?R ! q)) (row_start ?R q)"
      using q' by (simp add: add)
  qed (simp add: add bin_size_def)
qed

text \<open>Looking for an arc: the rows are sorted by symbol, with one arc for a symbol.\<close>

definition row_delta :: "row \<Rightarrow> symbol \<Rightarrow> nat option" where
  "row_delta r a = map_of (snd r) a"

definition row_sorted :: "row \<Rightarrow> bool" where
  "row_sorted r \<longleftrightarrow> sorted_wrt (<) (map fst (snd r))"

lemma find_sorted:
  fixes xs :: "bin_arc list"
  assumes "sorted_wrt (<) (map fst xs)"
  shows "(case lower_bound (a, 0) xs of [] \<Rightarrow> None | arc # _ \<Rightarrow> if fst arc = a then Some arc else None) =
    map_option (Pair a) (map_of xs a)"
  using assms
proof (induction xs)
  case (Cons x xs)
  show ?case
  proof (cases "fst x < a")
    case True
    then have "x < (a, 0)" by (simp add: less_prod_def)
    moreover have "map_of (x # xs) a = map_of xs a" using True by (cases x) auto
    ultimately show ?thesis using Cons by (simp add: lower_bound_def)
  next
    case False
    then have "\<not> x < (a, 0)" by (auto simp: less_prod_def)
    moreover have "map_of xs a = None" if "fst x \<noteq> a"
    proof -
      have "\<forall>b \<in> fst ` set xs. a < b" using Cons.prems False that by fastforce
      then show ?thesis by (auto simp: map_of_eq_None_iff)
    qed
    ultimately show ?thesis by (cases x) (simp add: lower_bound_def)
  qed
qed (simp add: lower_bound_def)

lemma map_of_pack: "map_of (map pack_arc xs) a = map_option word_of_nat (map_of xs a)"
  by (induction xs) (auto simp: pack_arc_def)

lemma pack_delta:
  assumes "rows_ok R" "p < length R" "row_sorted (R ! p)"
  shows "bin_delta p a (pack R) = row_delta (R ! p) a"
proof -
  have fsts: "map fst (map pack_arc xs) = map fst xs" for xs by (simp add: pack_arc_def case_prod_beta' comp_def)
  have "bin_find p a (pack R) = map_option (Pair a) (map_of (map pack_arc (snd (R ! p))) a)"
    unfolding bin_find_def pack_getArcs [OF assms(1,2)]
    by (rule find_sorted) (use assms(3) in \<open>simp only: fsts row_sorted_def\<close>)
  then have "bin_delta p a (pack R) = map_option (\<lambda>d. unat (word_of_nat d :: 32 word)) (map_of (snd (R ! p)) a)"
    using assms(2) by (simp add: bin_delta_def pack_simps map_of_pack option.map_comp comp_def)
  also have "\<dots> = map_of (snd (R ! p)) a"
  proof (cases "map_of (snd (R ! p)) a")
    case (Some d)
    then have "d < 2 ^ 31" using rows_dest(2) [OF assms(1,2)] by (blast dest: map_of_SomeD)
    then show ?thesis using Some by (simp only: option.map unat_small)
  qed simp
  finally show ?thesis by (simp add: row_delta_def)
qed

section \<open>The destination of the last arc\<close>

definition bin_setDest :: "nat \<Rightarrow> nat \<Rightarrow> bin_dfsa \<Rightarrow> bin_dfsa" where
  "bin_setDest i q A = A\<lparr>m_arcs := (m_arcs A)[i := (fst (m_arcs A ! i), word_of_nat q)]\<rparr>"

lemma pack_last_arc:
  assumes "rows_ok R" "p < length R" "snd (R ! p) = xs @ [(a, d)]"
  shows "snd (bin_range p (pack R)) - 1 = row_start R p + length xs"
    "m_arcs (pack R) ! (row_start R p + length xs) = (a, word_of_nat d)"
proof -
  show "snd (bin_range p (pack R)) - 1 = row_start R p + length xs"
    unfolding pack_range [OF assms(1,2)] by (simp add: row_start_Suc [OF assms(2)] assms(3))
  have "row_arcs R = (row_arcs (take p R) @ xs) @ (a, d) # row_arcs (drop (Suc p) R)"
    using row_arcs_split [OF assms(2)] by (simp add: assms(3))
  moreover have "row_start R p + length xs = length (row_arcs (take p R) @ xs)" by (simp add: row_start_def)
  ultimately have "row_arcs R ! (row_start R p + length xs) = (a, d)" by (simp only: nth_append_length)
  moreover have "row_start R p + length xs < length (row_arcs R)"
    unfolding row_arcs_split [OF assms(2)] assms(3) by (simp add: row_start_def)
  ultimately show "m_arcs (pack R) ! (row_start R p + length xs) = (a, word_of_nat d)"
    by (simp add: pack_simps pack_arc_def)
qed

lemma pack_setDest:
  assumes "p < length R" "snd (R ! p) = xs @ [(a, d)]"
  shows "bin_setDest (row_start R p + length xs) q (pack R) = pack (R[p := (fst (R ! p), xs @ [(a, q)])])"
    (is "_ = pack ?R")
proof -
  have i: "row_start R p + length xs = length (row_arcs (take p R) @ xs)" by (simp add: row_start_def)
  have old: "row_arcs R = (row_arcs (take p R) @ xs) @ (a, d) # row_arcs (drop (Suc p) R)"
    using row_arcs_split [OF assms(1)] by (simp add: assms(2))
  have new: "row_arcs ?R = (row_arcs (take p R) @ xs) @ (a, q) # row_arcs (drop (Suc p) R)"
    using assms(1) by (simp add: upd_conv_take_nth_drop)
  show ?thesis
  proof (rule pack_eqI)
    show "m_arcs (bin_setDest (row_start R p + length xs) q (pack R)) = map pack_arc (row_arcs ?R)"
      unfolding new i bin_setDest_def by (simp add: pack_simps old list_update_append nth_append pack_arc_def)
    have len: "map (length \<circ> snd) ?R = map (length \<circ> snd) R"
      using assms by (intro nth_equalityI) (auto simp: nth_list_update)
    have rows: "row_start S k = sum_list (take k (map (length \<circ> snd) S))" for S k
      by (simp add: row_start_def row_arcs_def length_concat take_map)
    show "m_states (bin_setDest (row_start R p + length xs) q (pack R)) ! k = pack_position (fst (?R ! k)) (row_start ?R k)"
      if "k < length ?R" for k
    proof -
      have "fst (?R ! k) = fst (R ! k)" using that by (cases "p = k") simp_all
      then show ?thesis using that by (simp add: bin_setDest_def pack_simps rows len)
    qed
  qed (simp add: bin_setDest_def pack_def bin_size_def)
qed

end
