(* ===== verification/Incremental.thy ===== *)
theory Incremental imports Bin_Dfsa begin

text \<open>The construction of a minimal automaton from sorted words: \<open>minimize_incremental\<close> and
  \<open>replace_or_register\<close> of fsa_algorithms.hpp, for the packed automata of which a lexicon is made.\<close>

section \<open>The algorithm\<close>

text \<open>The register is a hash set of states; states are the same to it when their marks and arcs are.
  It is given as the list of its elements in the order in which they came in.\<close>

definition StateEquiv :: "bin_dfsa \<Rightarrow> nat \<Rightarrow> nat \<Rightarrow> bool" where
  "StateEquiv A s1 s2 \<longleftrightarrow>
     (if bin_isEndState s1 A \<noteq> bin_isEndState s2 A then False
      else \<not> bin_getArcs s1 A < bin_getArcs s2 A \<and> \<not> bin_getArcs s2 A < bin_getArcs s1 A)"

definition has_arcs :: "nat \<Rightarrow> bin_dfsa \<Rightarrow> bool" where
  "has_arcs p A \<longleftrightarrow> fst (bin_range p A) \<noteq> snd (bin_range p A)"

definition replace_last :: "nat \<Rightarrow> nat \<Rightarrow> bin_dfsa \<times> nat list \<Rightarrow> bin_dfsa \<times> nat list" where
  "replace_last last_arc last_child = (\<lambda>(A, state_register).
     case List.find (\<lambda>q. StateEquiv A q last_child) state_register of
       Some q \<Rightarrow> (bin_deleteLastState (bin_setDest last_arc q A), state_register)
     | None \<Rightarrow> (A, state_register @ [last_child]))"

partial_function (option) replace_or_register ::
    "nat \<Rightarrow> bin_dfsa \<times> nat list \<Rightarrow> (bin_dfsa \<times> nat list) option" where
  "replace_or_register state x =
     (let last_arc = snd (bin_range state (fst x)) - 1; last_child = unat (snd (m_arcs (fst x) ! last_arc))
      in Option.bind (if has_arcs last_child (fst x) then replace_or_register last_child x else Some x)
        (\<lambda>x. Some (replace_last last_arc last_child x)))"

fun follow :: "nat \<Rightarrow> string \<Rightarrow> bin_dfsa \<Rightarrow> nat \<times> string" where
  "follow p [] A = (p, [])"
| "follow p (a # w) A = (case bin_delta p a A of Some q \<Rightarrow> follow q w A | None \<Rightarrow> (p, a # w))"

fun add_suffix :: "string \<Rightarrow> nat \<Rightarrow> bin_dfsa \<Rightarrow> nat \<times> bin_dfsa" where
  "add_suffix [] last_state A = (last_state, A)"
| "add_suffix (a # w) last_state A =
     (let (dst_state, A) = bin_addState A in add_suffix w dst_state (bin_addArc last_state (a, word_of_nat dst_state) A))"

definition add_line :: "string \<Rightarrow> bin_dfsa \<times> nat list \<Rightarrow> (bin_dfsa \<times> nat list) option" where
  "add_line line x =
     (let (last_state, rest) = follow 0 line (fst x)
      in map_option (\<lambda>(A, state_register). let (last_state, A) = add_suffix rest last_state A in (bin_setEndState last_state A, state_register))
        (if has_arcs last_state (fst x) then replace_or_register last_state x else Some x))"

fun add_lines :: "string list \<Rightarrow> bin_dfsa \<times> nat list \<Rightarrow> (bin_dfsa \<times> nat list) option" where
  "add_lines [] x = Some x"
| "add_lines (line # lines) x = Option.bind (add_line line x) (add_lines lines)"

definition minimize_incremental :: "string list \<Rightarrow> bin_dfsa option" where
  "minimize_incremental lines =
     (let (q0, A) = bin_addState newBinDFSA
      in map_option fst (Option.bind (add_lines lines (A, [])) (replace_or_register q0)))"

section \<open>The words of rows\<close>

abbreviation dests :: "row list \<Rightarrow> nat \<Rightarrow> nat set" where
  "dests R p \<equiv> snd ` set (snd (R ! p))"

fun accepts :: "row list \<Rightarrow> nat \<Rightarrow> string \<Rightarrow> bool" where
  "accepts R p [] \<longleftrightarrow> fst (R ! p)"
| "accepts R p (a # w) \<longleftrightarrow> (\<exists>d. (a, d) \<in> set (snd (R ! p)) \<and> accepts R d w)"

definition words :: "row list \<Rightarrow> nat \<Rightarrow> string set" where
  "words R p = {w. accepts R p w}"

lemma accepts_cong:
  assumes "\<And>q. q \<in> X \<Longrightarrow> R' ! q = R ! q \<and> dests R q \<subseteq> X" "p \<in> X"
  shows "accepts R' p w \<longleftrightarrow> accepts R p w"
  using assms(2)
proof (induction w arbitrary: p)
  case (Cons a w)
  have "d \<in> X" if "(a, d) \<in> set (snd (R ! p))" for d using assms(1) [OF Cons.prems] that by force
  then show ?case using Cons assms(1) by auto
qed (use assms(1) in simp)

lemma words_same_row: "R ! p = R ! q \<Longrightarrow> words R p = words R q"
proof -
  assume "R ! p = R ! q"
  then have "accepts R p w = accepts R q w" for w by (cases w) simp_all
  then show ?thesis by (simp add: words_def)
qed

text \<open>The words through a state but not through its last arc.\<close>

definition other_words :: "row list \<Rightarrow> nat \<Rightarrow> string set" where
  "other_words R p = {w. (w = [] \<and> fst (R ! p)) \<or> (\<exists>(a, d) \<in> set (butlast (snd (R ! p))). \<exists>v. w = a # v \<and> accepts R d v)}"

lemma words_last: "snd (R ! p) = pre @ [(a, s)] \<Longrightarrow> words R p = other_words R p \<union> (#) a ` words R s"
proof -
  assume row: "snd (R ! p) = pre @ [(a, s)]"
  have "accepts R p w \<longleftrightarrow> w \<in> other_words R p \<union> (#) a ` words R s" for w
    by (cases w) (auto simp: row words_def other_words_def)
  then show ?thesis by (auto simp: words_def)
qed

text \<open>A path from the start state, the last state first: the state, and the states and symbols before.
  The words of the automaton are those of the path when its last state has the words \<open>X\<close>.\<close>

type_synonym path = "(nat \<times> symbol) list"

fun path_words :: "row list \<Rightarrow> path \<Rightarrow> string set \<Rightarrow> string set" where
  "path_words R [] X = X"
| "path_words R ((p, a) # up) X = path_words R up (other_words R p \<union> (#) a ` X)"

definition path_label :: "path \<Rightarrow> string" where
  "path_label up = rev (map snd up)"

lemma path_words_add: "path_words R up (X \<union> Y) = path_words R up X \<union> (@) (path_label up) ` Y"
proof (induction up arbitrary: X Y)
  case (Cons x up)
  obtain p a where x: "x = (p, a)" by fastforce
  have "other_words R p \<union> (#) a ` (X \<union> Y) = (other_words R p \<union> (#) a ` X) \<union> (#) a ` Y" by blast
  then show ?case unfolding x path_words.simps by (simp add: Cons path_label_def image_image)
qed (simp add: path_label_def)

lemma path_words_cong:
  assumes "\<And>q. q \<in> X \<Longrightarrow> R' ! q = R ! q \<and> dests R q \<subseteq> X"
  shows "\<forall>(q, a) \<in> set up. R' ! q = R ! q \<and> snd ` set (butlast (snd (R ! q))) \<subseteq> X \<Longrightarrow> path_words R' up Y = path_words R up Y"
proof (induction up arbitrary: Y)
  case (Cons x up)
  obtain p a where x: "x = (p, a)" by fastforce
  have row: "R' ! p = R ! p" "snd ` set (butlast (snd (R ! p))) \<subseteq> X" using Cons.prems by (auto simp: x)
  have "accepts R' d v \<longleftrightarrow> accepts R d v" if "(b, d) \<in> set (butlast (snd (R ! p)))" for b d v
    using that row(2) by (intro accepts_cong [OF assms]) force+
  then have "other_words R' p = other_words R p" unfolding other_words_def row(1) by fastforce
  then show ?case using Cons by (simp add: x)
qed simp

section \<open>The invariant\<close>

text \<open>The register: its states lead to states that came into it before.\<close>

definition closed_register :: "row list \<Rightarrow> nat list \<Rightarrow> bool" where
  "closed_register R g \<longleftrightarrow> (\<forall>xs r ys. g = xs @ r # ys \<longrightarrow> dests R r \<subseteq> set xs)"

text \<open>When states above \<open>p\<close> are in the register, the newest of them is a direct successor of \<open>p\<close>.\<close>

definition newer :: "nat \<Rightarrow> nat list \<Rightarrow> nat list" where
  "newer p g = filter (\<lambda>t. p < t) g"

fun chain :: "row list \<Rightarrow> nat list \<Rightarrow> nat \<Rightarrow> path \<Rightarrow> bool" where
  "chain R g s [] \<longleftrightarrow> s = 0"
| "chain R g s ((p, a) # up) \<longleftrightarrow> p < s \<and> (\<exists>pre. snd (R ! p) = pre @ [(a, s)] \<and> snd ` set pre \<subseteq> set g) \<and>
     (newer p g \<noteq> [] \<longrightarrow> last (newer p g) \<in> dests R p \<or> s < last (newer p g)) \<and> chain R g p up"

definition path_states :: "nat \<Rightarrow> path \<Rightarrow> nat set" where
  "path_states s up = insert s (fst ` set up)"

definition active :: "row list \<Rightarrow> nat list \<Rightarrow> nat \<Rightarrow> path \<Rightarrow> bool" where
  "active R g s up \<longleftrightarrow> chain R g s up \<and> dests R s \<subseteq> set g \<and> distinct g \<and>
     path_states s up \<union> set g = {..<length R} \<and> path_states s up \<inter> set g = {} \<and>
     (\<forall>r \<in> set R. row_sorted r) \<and> closed_register R g \<and>
     (\<forall>t \<in> path_states s up. \<forall>r \<in> set g. r < t \<longrightarrow> (\<forall>d \<in> dests R r. d < t)) \<and>
     (newer s g \<noteq> [] \<longrightarrow> last (newer s g) \<in> dests R s) \<and> inj_on (\<lambda>r. R ! r) (set g)"

lemma activeD:
  assumes "active R g s up"
  shows "chain R g s up" "dests R s \<subseteq> set g" "distinct g" "path_states s up \<union> set g = {..<length R}"
    "path_states s up \<inter> set g = {}" "\<forall>r \<in> set R. row_sorted r" "closed_register R g"
    "\<forall>t \<in> path_states s up. \<forall>r \<in> set g. r < t \<longrightarrow> (\<forall>d \<in> dests R r. d < t)"
    "newer s g \<noteq> [] \<longrightarrow> last (newer s g) \<in> dests R s" "inj_on (\<lambda>r. R ! r) (set g)"
  by (insert assms [unfolded active_def]) (elim conjE, assumption)+

text \<open>The states of the register have words, and arcs lead to them.\<close>

definition useful :: "row list \<Rightarrow> nat list \<Rightarrow> bool" where
  "useful R g \<longleftrightarrow> (\<forall>t \<in> set g. (snd (R ! t) \<noteq> [] \<or> fst (R ! t)) \<and> (\<exists>q < length R. t \<in> dests R q))"

lemma closed_register_snoc: "closed_register R (g @ [c]) \<longleftrightarrow> closed_register R g \<and> dests R c \<subseteq> set g"
proof
  assume *: "closed_register R (g @ [c])"
  have "dests R r \<subseteq> set xs" if "g = xs @ r # ys" for xs r ys
    using * that unfolding closed_register_def by (metis append.assoc append_Cons)
  moreover have "dests R c \<subseteq> set g" using * unfolding closed_register_def by blast
  ultimately show "closed_register R g \<and> dests R c \<subseteq> set g" by (simp add: closed_register_def)
next
  assume *: "closed_register R g \<and> dests R c \<subseteq> set g"
  have "dests R r \<subseteq> set xs" if "g @ [c] = xs @ r # ys" for xs r ys
  proof (cases ys rule: rev_cases)
    case Nil
    then show ?thesis using that * by simp
  next
    case (snoc zs z)
    then have "g = xs @ r # zs" using that by simp
    then show ?thesis using * unfolding closed_register_def by blast
  qed
  then show "closed_register R (g @ [c])" by (simp add: closed_register_def)
qed

lemma closed_register_dests:
  assumes "closed_register R g" "r \<in> set g"
  shows "dests R r \<subseteq> set g"
proof -
  obtain xs ys where "g = xs @ r # ys" using assms(2) by (meson split_list)
  then have "dests R r \<subseteq> set xs" using assms(1) unfolding closed_register_def by blast
  then show ?thesis using \<open>g = xs @ r # ys\<close> by auto
qed

lemma closed_register_cong: "closed_register R g \<Longrightarrow> \<forall>q \<in> set g. R' ! q = R ! q \<Longrightarrow> closed_register R' g"
  unfolding closed_register_def by (metis in_set_conv_decomp)

lemma chain_below: "chain R g s up \<Longrightarrow> \<forall>q \<in> fst ` set up. q < s"
proof (induction up arbitrary: s)
  case (Cons x up)
  obtain p a where x: "x = (p, a)" by fastforce
  then have "p < s" "\<forall>q \<in> fst ` set up. q < p" using Cons by simp_all
  then show ?case by (auto simp: x)
qed simp

lemma chain_cong: "chain R g s up \<Longrightarrow> \<forall>q \<in> fst ` set up. R' ! q = R ! q \<Longrightarrow> chain R' g s up"
  by (induction R g s up rule: chain.induct) auto

lemma chain_register:
  "chain R g p up \<Longrightarrow> p < c \<Longrightarrow> chain R (g @ [c]) p up"
proof (induction R g p up rule: chain.induct)
  case (2 R g s p a up)
  then have "p < c" by simp
  then have "newer p (g @ [c]) = newer p g @ [c]" by (simp add: newer_def)
  moreover obtain pre where "snd (R ! p) = pre @ [(a, s)]" "snd ` set pre \<subseteq> set g" using 2 by auto
  moreover then have "snd ` set pre \<subseteq> set (g @ [c])" by auto
  ultimately show ?case using 2 by (simp del: set_append)
qed simp

lemma chain_rests: "chain R g s up \<Longrightarrow> \<forall>(q, a) \<in> set up. snd ` set (butlast (snd (R ! q))) \<subseteq> set g"
proof (induction R g s up rule: chain.induct)
  case (2 R g s p a up)
  obtain pre where "snd (R ! p) = pre @ [(a, s)]" "snd ` set pre \<subseteq> set g" using 2 by auto
  then have "snd ` set (butlast (snd (R ! p))) \<subseteq> set g" by simp
  then show ?case using 2 by simp
qed simp

lemma last_filter_split:
  assumes "filter P g \<noteq> []"
  shows "\<exists>xs ys. g = xs @ last (filter P g) # ys \<and> (\<forall>y \<in> set ys. \<not> P y)"
  using assms
proof (induction g rule: rev_induct)
  case (snoc x g)
  show ?case
  proof (cases "P x")
    case False
    then obtain xs ys where "g = xs @ last (filter P g) # ys" "\<forall>y \<in> set ys. \<not> P y" using snoc by auto
    then have "g @ [x] = xs @ last (filter P (g @ [x])) # ys @ [x]" "\<forall>y \<in> set (ys @ [x]). \<not> P y" using False by simp_all
    then show ?thesis by blast
  next
    case True
    then show ?thesis by (intro exI [of _ g] exI [of _ "[]"]) simp
  qed
qed simp

text \<open>A state that is the same as one of the register is the last state of all.\<close>

lemma replaced_is_last:
  assumes "active R g c up" "r \<in> set g" "R ! r = R ! c"
  shows "newer c g = []" "Suc c = length R"
proof -
  note a = activeD [OF assms(1)]
  show none: "newer c g = []"
  proof (rule ccontr)
    assume *: "newer c g \<noteq> []"
    define t where "t = last (newer c g)"
    have t: "t \<in> dests R r" using a(9) * assms(3) by (simp add: t_def)
    have "t \<in> set (newer c g)" using * by (simp add: t_def)
    then have "c < t" by (simp add: newer_def)
    obtain xs ys where g: "g = xs @ t # ys" "\<forall>y \<in> set ys. \<not> c < y"
      using last_filter_split [of "\<lambda>t. c < t" g] * by (auto simp: newer_def t_def)
    have "\<not> r < c" using a(8) assms(2) t \<open>c < t\<close> by (fastforce simp: path_states_def)
    moreover have "r \<noteq> c" using a(5) assms(2) by (auto simp: path_states_def)
    ultimately have "r \<in> set (xs @ [t])" using g assms(2) by auto
    then obtain us vs where us: "xs @ [t] = us @ r # vs" by (meson split_list)
    then have "g = us @ r # vs @ ys" using g by simp
    then have "t \<in> set us" using a(7) t unfolding closed_register_def by blast
    moreover have "t \<in> set (r # vs)" using us by (metis last_in_set last_appendR last_snoc list.distinct(1))
    ultimately show False using a(3) \<open>g = us @ r # vs @ ys\<close> by auto
  qed
  have "q \<le> c" if "q < length R" for q
  proof -
    have "q \<in> path_states c up \<or> q \<in> set g" using that a(4) by blast
    then show ?thesis
    proof
      assume "q \<in> path_states c up"
      then show ?thesis using chain_below [OF a(1)] by (auto simp: path_states_def less_imp_le)
    next
      assume "q \<in> set g"
      then show ?thesis using none by (auto simp: newer_def filter_empty_conv not_less)
    qed
  qed
  moreover have "c < length R" using a(4) by (auto simp: path_states_def)
  ultimately show "Suc c = length R" by (metis Suc_lessI Suc_n_not_le_n less_imp_le)
qed

section \<open>One step back on the path\<close>

lemma active_last:
  assumes "active R g c ((p, a) # up)"
  obtains pre where "snd (R ! p) = pre @ [(a, c)]" "snd ` set pre \<subseteq> set g"
  using activeD(1) [OF assms] by auto

lemma path_words_last:
  assumes "active R g c ((p, a) # up)"
  shows "path_words R up (words R p) = path_words R ((p, a) # up) (words R c)"
proof -
  obtain pre where "snd (R ! p) = pre @ [(a, c)]" by (rule active_last [OF assms])
  then show ?thesis by (simp add: words_last)
qed

lemma path_words_kept:
  assumes "active R g s up" "\<And>q. q \<in> set g \<union> fst ` set up \<Longrightarrow> R' ! q = R ! q"
  shows "path_words R' up Y = path_words R up Y"
proof (rule path_words_cong [where X = "set g"])
  show "R' ! q = R ! q \<and> dests R q \<subseteq> set g" if "q \<in> set g" for q
    using that assms(2) closed_register_dests [OF activeD(7) [OF assms(1)]] by blast
  show "\<forall>(q, a) \<in> set up. R' ! q = R ! q \<and> snd ` set (butlast (snd (R ! q))) \<subseteq> set g"
    using chain_rests [OF activeD(1) [OF assms(1)]] assms(2) by force
qed

lemma words_kept:
  assumes "active R g s up" "\<And>q. q \<in> set g \<Longrightarrow> R' ! q = R ! q" "q \<in> set g"
  shows "words R' q = words R q"
proof -
  have "accepts R' q w = accepts R q w" for w
  proof (rule accepts_cong [where X = "set g"])
    show "R' ! q = R ! q \<and> dests R q \<subseteq> set g" if "q \<in> set g" for q
      using that assms(2) closed_register_dests [OF activeD(7) [OF assms(1)]] by blast
  qed (rule assms(3))
  then show ?thesis by (simp add: words_def)
qed

lemma active_register:
  assumes "active R g c ((p, a) # up)" "\<forall>r \<in> set g. R ! r \<noteq> R ! c"
  shows "active R (g @ [c]) p up"
proof -
  note a = activeD [OF assms(1)]
  obtain pre where row: "snd (R ! p) = pre @ [(a, c)]" "snd ` set pre \<subseteq> set g" by (rule active_last [OF assms(1)])
  have pc: "p < c" "chain R g p up" using a(1) by simp_all
  have states: "path_states c ((p, a) # up) = insert c (path_states p up)" by (simp add: path_states_def)
  have below: "t < c" if "t \<in> path_states p up" for t
    using that chain_below [OF a(1)] by (auto simp: path_states_def)
  have "newer p (g @ [c]) = newer p g @ [c]" using pc by (simp add: newer_def)
  then have newest: "last (newer p (g @ [c])) \<in> dests R p" using row by simp
  have notin: "c \<notin> set g" using a(5) by (auto simp: states)
  have old: "\<forall>t \<in> path_states p up. \<forall>r \<in> set (g @ [c]). r < t \<longrightarrow> (\<forall>d \<in> dests R r. d < t)"
    using a(8) below by (auto simp: states dest: less_asym)
  have inj: "inj_on (\<lambda>r. R ! r) (set (g @ [c]))" using a(10) assms(2) by (fastforce simp: inj_on_def)
  have sets: "path_states p up \<union> set (g @ [c]) = {..<length R}" "path_states p up \<inter> set (g @ [c]) = {}"
    using a(4,5) below by (auto simp: states)
  have "dests R p \<subseteq> set (g @ [c])" using row by auto
  then show ?thesis
    unfolding active_def
    using chain_register [OF pc(2,1)] a(3,6,7,2) notin sets old inj newest by (simp add: closed_register_snoc)
qed

lemma useful_register:
  assumes "active R g c ((p, a) # up)" "useful R g" "snd (R ! c) \<noteq> [] \<or> fst (R ! c)"
  shows "useful R (g @ [c])"
proof -
  obtain pre where "snd (R ! p) = pre @ [(a, c)]" by (rule active_last [OF assms(1)])
  then have "c \<in> dests R p" by simp
  moreover have "p < length R" using activeD(4) [OF assms(1)] by (auto simp: path_states_def)
  ultimately have c: "\<exists>q < length R. c \<in> dests R q" by blast
  show ?thesis
    unfolding useful_def
  proof
    fix t assume "t \<in> set (g @ [c])"
    then consider "t \<in> set g" | "t = c" by auto
    then show "(snd (R ! t) \<noteq> [] \<or> fst (R ! t)) \<and> (\<exists>q < length R. t \<in> dests R q)"
      using assms(2,3) c unfolding useful_def by cases blast+
  qed
qed

lemma active_replace:
  assumes "active R g c ((p, a) # up)" "r \<in> set g" "R ! r = R ! c" "snd (R ! p) = pre @ [(a, c)]"
  defines "R' \<equiv> butlast (R[p := (fst (R ! p), pre @ [(a, r)])])"
  shows "active R' g p up" "path_words R' up (words R' p) = path_words R ((p, a) # up) (words R c)"
    "map fst (snd (R' ! p)) = map fst (snd (R ! p))" "useful R g \<Longrightarrow> useful R' g"
proof -
  note a = activeD [OF assms(1)] and last = replaced_is_last [OF assms(1-3)]
  have pc: "p < c" "chain R g p up" using a(1) by simp_all
  have pre: "snd ` set pre \<subseteq> set g" using a(1) assms(4) by auto
  have states: "path_states c ((p, a) # up) = insert c (path_states p up)" by (simp add: path_states_def)
  have below: "t < p" if "t \<in> fst ` set up" for t using that chain_below [OF pc(2)] by blast
  have len: "length R' = c" using last(2) by (simp add: R'_def)
  have kept: "R' ! q = R ! q" if "q \<noteq> p" "q < c" for q using that last(2) by (simp add: R'_def nth_butlast)
  have row: "R' ! p = (fst (R ! p), pre @ [(a, r)])" using pc(1) last(2) by (simp add: R'_def nth_butlast)
  have g: "q \<noteq> p \<and> q < c" if "q \<in> set g" for q
  proof -
    have "q < length R" "q \<noteq> c" "q \<noteq> p" using that a(4,5) by (auto simp: states path_states_def)
    then show ?thesis using last(2) by linarith
  qed
  have same: "R' ! q = R ! q" if "q \<in> set g \<union> fst ` set up" for q
  proof (cases "q \<in> set g")
    case True
    then show ?thesis using g kept by blast
  next
    case False
    then have "q < p" using that below by blast
    then show ?thesis using pc(1) by (intro kept) simp_all
  qed
  have sets: "path_states p up \<union> set g = {..<length R'}" "path_states p up \<inter> set g = {}"
  proof -
    have "path_states p up \<subseteq> {..<c}" using below pc(1) by (auto simp: path_states_def intro: less_trans)
    moreover have "{..<length R} = insert c {..<c}" using last(2) by (auto simp: less_Suc_eq)
    ultimately have "insert c (path_states p up \<union> set g) = insert c {..<c}" "c \<notin> path_states p up \<union> set g"
      using a(4) g by (auto simp: states)
    then show "path_states p up \<union> set g = {..<length R'}" by (simp add: insert_ident len)
    show "path_states p up \<inter> set g = {}" using a(5) by (auto simp: states)
  qed
  have sorted: "\<forall>r \<in> set R'. row_sorted r"
  proof
    fix x assume "x \<in> set R'"
    then have "x \<in> set (R[p := (fst (R ! p), pre @ [(a, r)])])" unfolding R'_def by (rule in_set_butlastD)
    then have "x = (fst (R ! p), pre @ [(a, r)]) \<or> x \<in> set R" by (blast dest: set_update_subset_insert [THEN subsetD])
    moreover have "row_sorted (R ! p)" using a(6) pc(1) last(2) by simp
    ultimately show "row_sorted x" using a(6) assms(4) by (auto simp: row_sorted_def)
  qed
  have newest: "newer p g \<noteq> [] \<longrightarrow> last (newer p g) \<in> dests R' p"
  proof
    assume ne: "newer p g \<noteq> []"
    then have "last (newer p g) \<in> set (newer p g)" by simp
    then have "last (newer p g) \<in> set g" by (simp add: newer_def)
    then have "last (newer p g) < c" using g by blast
    moreover have "last (newer p g) \<in> dests R p \<or> c < last (newer p g)" using a(1) ne by simp
    ultimately show "last (newer p g) \<in> dests R' p" using assms(4) row by auto
  qed
  have old: "\<forall>t \<in> path_states p up. \<forall>r \<in> set g. r < t \<longrightarrow> (\<forall>d \<in> dests R' r. d < t)"
  proof (intro ballI impI)
    fix t q d assume *: "t \<in> path_states p up" "q \<in> set g" "q < t" "d \<in> dests R' q"
    have "d \<in> dests R q" using * same by simp
    then show "d < t" using a(8) *(1-3) unfolding states by blast
  qed
  have "inj_on (\<lambda>r. R' ! r) (set g)" using a(10) same by (simp add: inj_on_def)
  moreover have "dests R' p \<subseteq> set g" using pre assms(2) by (auto simp: row)
  moreover have "chain R' g p up" using chain_cong [OF pc(2)] same by blast
  moreover have "closed_register R' g" using closed_register_cong [OF a(7)] same by blast
  ultimately show "active R' g p up"
    unfolding active_def using a(3) sets sorted newest old by blast
  have "words R' p = other_words R p \<union> (#) a ` words R c"
  proof -
    have "accepts R' d v = accepts R d v" if "d \<in> set g" for d v
      using words_kept [OF assms(1), of R' d] that same by (auto simp: words_def set_eq_iff)
    then have "other_words R' p = other_words R p"
      using pre by (fastforce simp: other_words_def row assms(4))
    moreover have "words R' r = words R c"
      using words_kept [OF assms(1), of R' r] same assms(2) words_same_row [OF assms(3)] by simp
    ultimately show ?thesis using words_last [of R' p pre a r] row by simp
  qed
  moreover have "path_words R' up Y = path_words R up Y" for Y
  proof (rule path_words_cong [where X = "set g"])
    show "R' ! q = R ! q \<and> dests R q \<subseteq> set g" if "q \<in> set g" for q
      using that same closed_register_dests [OF a(7)] by blast
    show "\<forall>(q, a) \<in> set up. R' ! q = R ! q \<and> snd ` set (butlast (snd (R ! q))) \<subseteq> set g"
      using chain_rests [OF pc(2)] same by force
  qed
  ultimately show "path_words R' up (words R' p) = path_words R ((p, a) # up) (words R c)" by simp
  show "map fst (snd (R' ! p)) = map fst (snd (R ! p))" by (simp add: row assms(4))
  show "useful R' g" if u: "useful R g"
    unfolding useful_def
  proof (intro ballI conjI)
    fix t assume t: "t \<in> set g"
    then show "snd (R' ! t) \<noteq> [] \<or> fst (R' ! t)" using u same by (simp add: useful_def)
    obtain q where q: "q < length R" "t \<in> dests R q" using u t unfolding useful_def by blast
    consider "q = p" | "q = c" | "q \<noteq> p" "q < c" using q(1) last(2) by linarith
    then show "\<exists>q < length R'. t \<in> dests R' q"
    proof cases
      case 1
      then have "t \<in> dests R' p" using q(2) assms(4) g [OF t] by (auto simp: row)
      then show ?thesis using pc(1) len by auto
    next
      case 2
      then have "t \<in> dests R' r" using q(2) same assms(2,3) by simp
      then show ?thesis using g [OF assms(2)] len by auto
    next
      case 3
      then have "t \<in> dests R' q" using q(2) kept by simp
      then show ?thesis using 3 len by auto
    qed
  qed
qed

end
