(* ===== verification/Incremental_Path.thy ===== *)
theory Incremental_Path imports Incremental begin

text \<open>What the steps of \<open>minimize_incremental\<close> do to the packed automaton: they keep the invariant, and
  every word is added to those on the path.\<close>

section \<open>The packed automaton\<close>

lemma chain_dests: "chain R g s up \<Longrightarrow> q \<in> fst ` set up \<Longrightarrow> dests R q \<subseteq> set g \<union> path_states s up"
proof (induction R g s up rule: chain.induct)
  case (2 R g s p a up)
  obtain pre where row: "snd (R ! p) = pre @ [(a, s)]" "snd ` set pre \<subseteq> set g" using 2 by auto
  show ?case
  proof (cases "q = p")
    case True
    then show ?thesis using row by (auto simp: path_states_def)
  next
    case False
    then have "dests R q \<subseteq> set g \<union> path_states p up" using 2 by auto
    then show ?thesis by (auto simp: path_states_def)
  qed
qed simp

lemma active_dests:
  assumes "active R g s up" "q < length R" "d \<in> dests R q"
  shows "d < length R"
proof -
  note a = activeD [OF assms(1)]
  consider "q = s" | "q \<in> set g" | "q \<in> fst ` set up" using assms(2) a(4) by (auto simp: path_states_def)
  then have "d \<in> set g \<union> path_states s up"
  proof cases
    case 1
    then show ?thesis using a(2) assms(3) by blast
  next
    case 2
    then show ?thesis using closed_register_dests [OF a(7)] assms(3) by blast
  next
    case 3
    then show ?thesis using chain_dests [OF a(1)] assms(3) by blast
  qed
  then show ?thesis using a(4) by blast
qed

lemma in_row_arcs: "y \<in> set (row_arcs R) \<longleftrightarrow> (\<exists>x \<in> set R. y \<in> set (snd x))"
  unfolding row_arcs_def set_concat set_map by blast

lemma active_ok:
  assumes "active R g s up" "length (row_arcs R) < 2 ^ 31" "length R \<le> 2 ^ 31"
  shows "rows_ok R"
proof -
  have "d < length R" if arc: "(a, d) \<in> set (row_arcs R)" for a d
  proof -
    obtain x where "x \<in> set R" "(a, d) \<in> set (snd x)" using arc unfolding in_row_arcs by blast
    then obtain q where "q < length R" "(a, d) \<in> set (snd (R ! q))" by (auto simp: in_set_conv_nth)
    then show ?thesis using active_dests [OF assms(1), of q d] by force
  qed
  then show ?thesis using assms(2,3) by (auto simp: rows_ok_def)
qed

lemma StateEquiv_pack:
  assumes "rows_ok R" "p < length R" "q < length R"
  shows "StateEquiv (pack R) p q \<longleftrightarrow> R ! p = R ! q"
proof -
  have "bin_getArcs p (pack R) = bin_getArcs q (pack R) \<longleftrightarrow> snd (R ! p) = snd (R ! q)"
  proof
    assume "bin_getArcs p (pack R) = bin_getArcs q (pack R)"
    then have "bin_arcs_nat p (pack R) = bin_arcs_nat q (pack R)" by (simp add: bin_arcs_nat_def)
    then show "snd (R ! p) = snd (R ! q)" using assms by (simp add: pack_arcs_nat)
  qed (use assms in \<open>simp add: pack_getArcs\<close>)
  moreover have "\<not> x < y \<and> \<not> y < x \<longleftrightarrow> x = y" for x y :: "bin_arc list" by auto
  ultimately show ?thesis
    using assms unpack(3) [OF assms(1)] by (auto simp: StateEquiv_def prod_eq_iff)
qed

lemma length_row_arcs: "length (row_arcs R) = sum_list (map (length \<circ> snd) R)"
  by (simp add: row_arcs_def length_concat)

lemma replace_last_pack:
  assumes "rows_ok R" "active R g c ((p, a) # up)" "snd (R ! p) = pre @ [(a, c)]" "useful R g" "snd (R ! c) \<noteq> [] \<or> fst (R ! c)"
  shows "\<exists>R' g'. replace_last (row_start R p + length pre) c (pack R, g) = (pack R', g') \<and> rows_ok R' \<and> active R' g' p up \<and>
    useful R' g' \<and>
    path_words R' up (words R' p) = path_words R ((p, a) # up) (words R c) \<and>
    map fst (snd (R' ! p)) = map fst (snd (R ! p)) \<and> (\<forall>q < p. R' ! q = R ! q) \<and>
    length (row_arcs R') \<le> length (row_arcs R) \<and> length R' \<le> length R"
proof -
  note a = activeD [OF assms(2)]
  have p: "p < length R" and c: "c < length R" and g: "\<And>q. q \<in> set g \<Longrightarrow> q < length R"
    using a(4) by (auto simp: path_states_def)
  have equiv: "StateEquiv (pack R) q c \<longleftrightarrow> R ! q = R ! c" if "q \<in> set g" for q
    using StateEquiv_pack [OF assms(1) g [OF that] c] .
  show ?thesis
  proof (cases "List.find (\<lambda>q. StateEquiv (pack R) q c) g")
    case None
    then have "\<forall>q \<in> set g. R ! q \<noteq> R ! c" using equiv by (simp add: find_None_iff)
    from active_register [OF assms(2) this] path_words_last [OF assms(2)] useful_register [OF assms(2,4,5)] show ?thesis
      using None assms(1) by (auto simp: replace_last_def)
  next
    case (Some r)
    then have "StateEquiv (pack R) r c" "r \<in> set g" by (auto simp: find_Some_iff)
    then have r: "r \<in> set g" "R ! r = R ! c" using equiv by auto
    let ?S = "R[p := (fst (R ! p), pre @ [(a, r)])]"
    let ?R = "butlast ?S"
    note step = active_replace [OF assms(2) r assms(3)]
    have same: "map (length \<circ> snd) ?S = map (length \<circ> snd) R"
      using p assms(3) by (intro nth_equalityI) (auto simp: nth_list_update)
    have "\<forall>(a, d) \<in> set (row_arcs ?S). d < length ?S"
    proof -
      have "(b, d) \<in> set (row_arcs ?S) \<Longrightarrow> d < length R" for b d
      proof -
        assume "(b, d) \<in> set (row_arcs ?S)"
        then obtain x where x: "x \<in> set ?S" "(b, d) \<in> set (snd x)" unfolding in_row_arcs by blast
        have "x = (fst (R ! p), pre @ [(a, r)]) \<or> x \<in> set R"
          using subsetD [OF set_update_subset_insert x(1)] by simp
        then have "d = r \<or> (\<exists>x \<in> set R. (b, d) \<in> set (snd x))"
        proof
          assume "x = (fst (R ! p), pre @ [(a, r)])"
          then have "d = r \<or> (b, d) \<in> set (snd (R ! p))" using x(2) assms(3) by auto
          then show ?thesis using p by (meson nth_mem)
        qed (use x(2) in blast)
        then have "d = r \<or> (b, d) \<in> set (row_arcs R)" unfolding in_row_arcs .
        then show "d < length R" using g r(1) assms(1) by (auto simp: rows_ok_def)
      qed
      then show ?thesis by auto
    qed
    then have ok: "rows_ok ?S" using assms(1) same by (simp add: rows_ok_def length_row_arcs)
    have "length (row_arcs ?R) = row_start ?S (length R - 1)" by (simp add: row_start_def butlast_conv_take)
    also have "\<dots> \<le> length (row_arcs ?S)" by (rule row_start_le)
    also have "\<dots> = length (row_arcs R)" by (simp only: length_row_arcs same)
    finally have le: "length (row_arcs ?R) \<le> length (row_arcs R)" .
    have "c = length R - 1" "p < c" using replaced_is_last(2) [OF assms(2) r] a(1) by simp_all
    then have keep: "\<forall>q < p. ?R ! q = R ! q" by (simp add: nth_butlast)
    have "length (row_arcs ?R) < 2 ^ 31" "length ?R \<le> 2 ^ 31" using le assms(1) by (auto simp: rows_ok_def)
    then have "rows_ok ?R" by (rule active_ok [OF step(1)])
    moreover have "replace_last (row_start R p + length pre) c (pack R, g) = (pack ?R, g)"
      using Some pack_setDest [OF p assms(3)] pack_deleteLastState [OF ok] p by (cases "R = []") (auto simp: replace_last_def)
    ultimately show ?thesis using step assms(4) le keep by auto
  qed
qed

lemma has_arcs_pack: "rows_ok R \<Longrightarrow> p < length R \<Longrightarrow> has_arcs p (pack R) \<longleftrightarrow> snd (R ! p) \<noteq> []"
  by (simp add: has_arcs_def pack_range row_start_Suc)

text \<open>Back to a state of the path: the path ends there, and the words stay the same.\<close>

lemma replace_or_register_path:
  assumes "rows_ok R" "active R g s (down @ (p, a) # up)" "snd (R ! s) = []" "useful R g" "fst (R ! s)"
  shows "\<exists>R' g'. replace_or_register p (pack R, g) = Some (pack R', g') \<and> rows_ok R' \<and> active R' g' p up \<and> useful R' g' \<and>
    path_words R' up (words R' p) = path_words R (down @ (p, a) # up) (words R s) \<and>
    map fst (snd (R' ! p)) = map fst (snd (R ! p)) \<and> (\<forall>q < p. R' ! q = R ! q) \<and>
    length (row_arcs R') \<le> length (row_arcs R) \<and> length R' \<le> length R"
  using assms(2)
proof (induction down arbitrary: p a up rule: rev_induct)
  case Nil
  then have act: "active R g s ((p, a) # up)" by simp
  obtain pre where row: "snd (R ! p) = pre @ [(a, s)]" by (rule active_last [OF act])
  have p: "p < length R" "s < length R" using activeD(4) [OF act] by (auto simp: path_states_def)
  then have "unat (snd (m_arcs (pack R) ! (row_start R p + length pre))) = s"
    using pack_last_arc [OF assms(1) p(1) row] assms(1) unat_small [of s] by (simp add: rows_ok_def)
  then have "replace_or_register p (pack R, g) = Some (replace_last (row_start R p + length pre) s (pack R, g))"
    using pack_last_arc(1) [OF assms(1) p(1) row] has_arcs_pack [OF assms(1) p(2)] assms(3)
    by (subst replace_or_register.simps) (simp add: Let_def)
  then show ?case using replace_last_pack [OF assms(1) act row assms(4)] assms(5) by auto
next
  case (snoc x down)
  obtain c b where x: "x = (c, b)" by fastforce
  have act: "active R g s (down @ (c, b) # (p, a) # up)" using snoc.prems by (simp add: x)
  from snoc.IH [OF this] obtain R1 g1 where 1: "replace_or_register c (pack R, g) = Some (pack R1, g1)" "rows_ok R1"
    "active R1 g1 c ((p, a) # up)"
    "path_words R1 ((p, a) # up) (words R1 c) = path_words R (down @ (c, b) # (p, a) # up) (words R s)"
    "\<forall>q < c. R1 ! q = R ! q" "length (row_arcs R1) \<le> length (row_arcs R)" "length R1 \<le> length R"
    "useful R1 g1" "map fst (snd (R1 ! c)) = map fst (snd (R ! c))" by blast
  obtain pre where row1: "snd (R1 ! p) = pre @ [(a, c)]" by (rule active_last [OF 1(3)])
  have pc: "p < c" "c < length R1" "c < length R"
    using activeD(1,4) [OF 1(3)] activeD(4) [OF act] by (auto simp: path_states_def)
  have row: "snd (R ! p) = pre @ [(a, c)]" using row1 1(5) pc(1) by simp
  have p: "p < length R" using pc by simp
  have "take p R1 = take p R" using 1(5) pc by (intro nth_equalityI) simp_all
  then have start: "row_start R1 p = row_start R p" by (simp add: row_start_def)
  have arcs: "snd (R ! c) \<noteq> []"
  proof -
    have "\<exists>t. chain R g t ((c, b) # (p, a) # up)"
      using activeD(1) [OF act] by (induction down arbitrary: s) auto
    then show ?thesis by auto
  qed
  then have "has_arcs c (pack R)" using has_arcs_pack [OF assms(1) pc(3)] by simp
  moreover have "unat (snd (m_arcs (pack R) ! (row_start R p + length pre))) = c"
    using pack_last_arc [OF assms(1) p row] assms(1) unat_small [of c] pc(3) by (simp add: rows_ok_def)
  ultimately have "replace_or_register p (pack R, g) =
      Some (replace_last (row_start R1 p + length pre) c (pack R1, g1))"
    using pack_last_arc(1) [OF assms(1) p row] 1(1) start
    by (subst replace_or_register.simps) (simp add: Let_def)
  moreover have "snd (R1 ! c) \<noteq> []" using 1(9) arcs by (metis map_is_Nil_conv)
  then obtain R' g' where 2: "replace_last (row_start R1 p + length pre) c (pack R1, g1) = (pack R', g')" "rows_ok R'"
    "active R' g' p up" "path_words R' up (words R' p) = path_words R1 ((p, a) # up) (words R1 c)"
    "map fst (snd (R' ! p)) = map fst (snd (R1 ! p))" "\<forall>q < p. R' ! q = R1 ! q"
    "length (row_arcs R') \<le> length (row_arcs R1)" "length R' \<le> length R1" "useful R' g'"
    using replace_last_pack [OF 1(2,3) row1 1(8)] by blast
  moreover have "path_words R' up (words R' p) = path_words R ((down @ [x]) @ (p, a) # up) (words R s)"
    using 2(4) 1(4) by (simp add: x)
  moreover have "map fst (snd (R' ! p)) = map fst (snd (R ! p))" using 2(5) 1(5) pc(1) by simp
  moreover have "\<forall>q < p. R' ! q = R ! q" using 2(6) 1(5) pc(1) by simp
  moreover have "length (row_arcs R') \<le> length (row_arcs R)" "length R' \<le> length R" using 2(7,8) 1(6,7) by simp_all
  ultimately show ?case using 2(1-3,9) by auto
qed

section \<open>Adding a word\<close>

definition path_state :: "nat \<Rightarrow> path \<Rightarrow> nat" where
  "path_state s down = (if down = [] then s else fst (last down))"

lemma chain_row: "chain R g s (down @ (t, a) # up) \<Longrightarrow> \<exists>pre. snd (R ! t) = pre @ [(a, path_state s down)]"
proof (induction down arbitrary: s)
  case Nil
  then show ?case by (auto simp: path_state_def)
next
  case (Cons x down)
  obtain p b where x: "x = (p, b)" by fastforce
  have "chain R g p (down @ (t, a) # up)" using Cons.prems by (simp add: x)
  from Cons.IH [OF this] show ?case by (cases "down = []") (simp_all add: path_state_def x)
qed

lemma chain_root: "chain R g s up \<Longrightarrow> path_state s up = 0"
  by (induction R g s up rule: chain.induct) (auto simp: path_state_def)

lemma path_state_in: "path_state s down \<in> path_states s (down @ up)"
  by (cases down rule: rev_cases) (auto simp: path_state_def path_states_def)

lemma active_length: "active R g s up \<Longrightarrow> t \<in> path_states s up \<Longrightarrow> t < length R"
  using activeD(4) by blast

lemma follow_path:
  assumes "rows_ok R" "active R g s (down @ up)" "snd (R ! s) = []" "path_label down \<le> x"
  shows "\<exists>down1 down2 x'. down = down1 @ down2 \<and> follow (path_state s down) x (pack R) = (path_state s down1, x') \<and>
    x = path_label down2 @ x' \<and>
    (down1 = [] \<or> (\<exists>b y. x' = b # y \<and> (\<forall>e \<in> set (snd (R ! path_state s down1)). fst e < b)))"
  using assms(2,4)
proof (induction down arbitrary: up x rule: rev_induct)
  case Nil
  have s: "s < length R" using active_length [OF Nil(1)] by (simp add: path_states_def)
  have "follow s x (pack R) = (s, x)"
  proof (cases x)
    case (Cons b y)
    have "bin_delta s b (pack R) = None"
      using pack_delta [OF assms(1) s, of b] assms(3) by (simp add: row_sorted_def row_delta_def)
    then show ?thesis by (simp add: Cons)
  qed simp
  then show ?case by (auto simp: path_state_def path_label_def)
next
  case (snoc e down)
  obtain t a where e: "e = (t, a)" by fastforce
  have act: "active R g s (down @ (t, a) # up)" using snoc.prems(1) by (simp add: e)
  obtain pre where row: "snd (R ! t) = pre @ [(a, path_state s down)]"
    using chain_row [OF activeD(1) [OF act]] by blast
  have t: "t < length R" using active_length [OF act] by (simp add: path_states_def)
  have sorted: "row_sorted (R ! t)" using activeD(6) [OF act] t by simp
  have here: "path_state s (down @ [e]) = t" by (simp add: path_state_def e)
  have le: "a # path_label down \<le> x" using snoc.prems(2) by (simp add: path_label_def e)
  then obtain b y where x: "x = b # y" by (cases x) auto
  have delta: "bin_delta t b (pack R) = map_of (snd (R ! t)) b"
    using pack_delta [OF assms(1) t sorted] by (simp add: row_delta_def)
  have last_symbol: "\<forall>e \<in> set (snd (R ! t)). fst e \<le> a" "distinct (map fst (snd (R ! t)))"
    using sorted unfolding row_sorted_def row
    by (auto simp: sorted_wrt_append less_imp_le strict_sorted_iff image_iff)
  show ?case
  proof (cases "a = b")
    case True
    then have "path_label down \<le> y" using le x by simp
    from snoc.IH [OF act this] obtain down1 down2 x' where
      1: "down = down1 @ down2" "follow (path_state s down) y (pack R) = (path_state s down1, x')" "y = path_label down2 @ x'"
      "down1 = [] \<or> (\<exists>b y. x' = b # y \<and> (\<forall>e \<in> set (snd (R ! path_state s down1)). fst e < b))" by blast
    have "map_of (snd (R ! t)) b = Some (path_state s down)"
      using last_symbol(2) row True by (intro map_of_is_SomeI) simp_all
    then have "follow t x (pack R) = (path_state s down1, x')" using 1(2) delta x by simp
    moreover have "x = path_label (down2 @ [e]) @ x'" using 1(3) x True by (simp add: path_label_def e)
    moreover have "down @ [e] = down1 @ (down2 @ [e])" using 1(1) by simp
    ultimately show ?thesis using 1(4) here by metis
  next
    case False
    then have "a < b" using le x by auto
    then have less: "\<forall>e \<in> set (snd (R ! t)). fst e < b" using last_symbol(1) by auto
    then have "map_of (snd (R ! t)) b = None" by (auto simp: map_of_eq_None_iff)
    then have "follow t x (pack R) = (t, x)" using delta x by simp
    then have "follow (path_state s (down @ [e])) x (pack R) = (path_state s (down @ [e]), x)" by (simp add: here)
    then show ?thesis using less here x
      by (intro exI [of _ "down @ [e]"] exI [of _ "[]"] exI [of _ x]) (simp add: path_label_def)
  qed
qed

lemma active_extend:
  assumes "active R g s up" "\<forall>e \<in> set (snd (R ! s)). fst e < a"
  defines "R' \<equiv> (R @ [(False, [])])[s := (fst (R ! s), snd (R ! s) @ [(a, length R)])]"
  shows "active R' g (length R) ((s, a) # up)" "snd (R' ! length R) = []"
    "path_words R' ((s, a) # up) (words R' (length R)) = path_words R up (words R s)"
    "length (row_arcs R') = Suc (length (row_arcs R))" "length R' = Suc (length R)" "useful R g \<Longrightarrow> useful R' g"
proof -
  let ?n = "length R"
  note a = activeD [OF assms(1)]
  have s: "s < ?n" using active_length [OF assms(1)] by (simp add: path_states_def)
  show len: "length R' = Suc ?n" by (simp add: R'_def)
  have row: "R' ! s = (fst (R ! s), snd (R ! s) @ [(a, ?n)])" and new: "R' ! ?n = (False, [])"
    using s by (simp_all add: R'_def nth_append)
  show "snd (R' ! ?n) = []" by (simp add: new)
  have kept: "R' ! q = R ! q" if "q \<noteq> s" "q < ?n" for q using that by (simp add: R'_def nth_append)
  have g: "q \<noteq> s \<and> q < ?n" if "q \<in> set g" for q using that a(4,5) by (auto simp: path_states_def)
  have same: "R' ! q = R ! q" if q: "q \<in> set g \<union> fst ` set up" for q
  proof (cases "q \<in> set g")
    case False
    then have "q < s" using q chain_below [OF a(1)] by blast
    then show ?thesis using s by (intro kept) simp_all
  qed (use g kept in blast)
  have states: "path_states ?n ((s, a) # up) = insert ?n (path_states s up)" by (simp add: path_states_def)
  have inside: "\<forall>q \<in> path_states s up \<union> set g. q < ?n" using a(4) by blast
  have "chain R' g ?n ((s, a) # up)"
    using chain_cong [OF a(1), of R'] same s a(2,9) by (auto simp: row)
  moreover have "dests R' ?n \<subseteq> set g" by (simp add: new)
  moreover have "path_states ?n ((s, a) # up) \<union> set g = {..<length R'}"
    unfolding states len lessThan_Suc using a(4) by simp
  moreover have "path_states ?n ((s, a) # up) \<inter> set g = {}"
    unfolding states using a(5) inside by blast
  moreover have "\<forall>r \<in> set R'. row_sorted r"
  proof
    fix x assume "x \<in> set R'"
    then have "x = (fst (R ! s), snd (R ! s) @ [(a, ?n)]) \<or> x \<in> set (R @ [(False, [])])"
      unfolding R'_def using subsetD [OF set_update_subset_insert] by (metis insert_iff)
    moreover have "row_sorted (R ! s)" using a(6) s by simp
    then have "row_sorted (fst (R ! s), snd (R ! s) @ [(a, ?n)])"
      using assms(2) by (auto simp: row_sorted_def sorted_wrt_append)
    ultimately show "row_sorted x" using a(6) by (auto simp: row_sorted_def)
  qed
  moreover have "closed_register R' g" using closed_register_cong [OF a(7)] same by blast
  moreover have "\<forall>t \<in> path_states ?n ((s, a) # up). \<forall>r \<in> set g. r < t \<longrightarrow> (\<forall>d \<in> dests R' r. d < t)"
  proof (intro ballI impI)
    fix t q d assume *: "t \<in> path_states ?n ((s, a) # up)" "q \<in> set g" "q < t" "d \<in> dests R' q"
    have d: "d \<in> dests R q" using * same by simp
    show "d < t"
    proof (cases "t = ?n")
      case True
      have "d \<in> set g" using d closed_register_dests [OF a(7)] *(2) by blast
      then show ?thesis using True g by blast
    next
      case False
      then show ?thesis using a(8) * d unfolding states by blast
    qed
  qed
  moreover have "newer ?n g = []" using g by (auto simp: newer_def filter_empty_conv dest: less_asym)
  moreover have "inj_on (\<lambda>r. R' ! r) (set g)" using a(10) same by (simp add: inj_on_def)
  ultimately show "active R' g ?n ((s, a) # up)" unfolding active_def using a(3) by blast
  have "words R' ?n = {}"
  proof -
    have "\<not> accepts R' ?n w" for w by (cases w) (simp_all add: new)
    then show ?thesis by (simp add: words_def)
  qed
  moreover have "other_words R' s = words R s"
  proof -
    have "accepts R' d v = accepts R d v" if "d \<in> set g" for d v
      using words_kept [OF assms(1), of R' d] that same by (auto simp: words_def set_eq_iff)
    moreover have "w \<in> other_words R' s \<longleftrightarrow>
        (w = [] \<and> fst (R ! s)) \<or> (\<exists>(b, d) \<in> set (snd (R ! s)). \<exists>v. w = b # v \<and> accepts R' d v)" for w
      by (simp add: other_words_def row)
    moreover have "w \<in> words R s \<longleftrightarrow>
        (w = [] \<and> fst (R ! s)) \<or> (\<exists>(b, d) \<in> set (snd (R ! s)). \<exists>v. w = b # v \<and> accepts R d v)" for w
      by (cases w) (auto simp: words_def)
    ultimately show ?thesis using a(2) by (fastforce simp: set_eq_iff)
  qed
  ultimately show "path_words R' ((s, a) # up) (words R' ?n) = path_words R up (words R s)"
    using path_words_kept [OF assms(1), of R'] same by simp
  have "map (length \<circ> snd) R' = (map (length \<circ> snd) R @ [0])[s := Suc (length (snd (R ! s)))]"
    by (simp add: R'_def map_update)
  also have "sum_list \<dots> = Suc (sum_list (map (length \<circ> snd) R))"
    using s by (simp add: sum_list_update nth_append elem_le_sum_list)
  finally show "length (row_arcs R') = Suc (length (row_arcs R))" by (simp only: length_row_arcs)
  show "useful R' g" if u: "useful R g"
    unfolding useful_def
  proof (intro ballI conjI)
    fix t assume t: "t \<in> set g"
    then show "snd (R' ! t) \<noteq> [] \<or> fst (R' ! t)" using u same by (simp add: useful_def)
    obtain q where q: "q < ?n" "t \<in> dests R q" using u t unfolding useful_def by blast
    have "t \<in> dests R' q" using q kept [of q] row by (cases "q = s") auto
    then show "\<exists>q < length R'. t \<in> dests R' q" using q(1) len by (intro exI [of _ q]) simp
  qed
qed

lemma add_suffix_path:
  assumes "rows_ok R" "active R g s up" "\<forall>e \<in> set (snd (R ! s)). w = [] \<or> fst e < hd w"
    "length (row_arcs R) + length w < 2 ^ 31" "length R + length w \<le> 2 ^ 31" "useful R g"
  shows "\<exists>R' s' up'. useful R' g \<and> add_suffix w s (pack R) = (s', pack R') \<and> rows_ok R' \<and> active R' g s' up' \<and>
    path_label up' = path_label up @ w \<and> path_words R' up' (words R' s') = path_words R up (words R s) \<and>
    (w = [] \<longrightarrow> R' = R \<and> s' = s) \<and> (w \<noteq> [] \<longrightarrow> snd (R' ! s') = []) \<and>
    length (row_arcs R') = length (row_arcs R) + length w \<and> length R' = length R + length w"
  using assms
proof (induction w arbitrary: R s up)
  case (Cons a w)
  let ?S = "R @ [(False, [])]" and ?n = "length R"
  let ?R = "?S[s := (fst (R ! s), snd (R ! s) @ [(a, ?n)])]"
  have s: "s < ?n" using active_length [OF Cons.prems(2)] by (simp add: path_states_def)
  have less: "\<forall>e \<in> set (snd (R ! s)). fst e < a" using Cons.prems(3) by simp
  note x = active_extend [OF Cons.prems(2) less]
  have "rows_ok ?S" using Cons.prems(1,5) by (fastforce simp: rows_ok_def)
  moreover have "\<forall>e \<in> set (snd (?S ! s)). fst e < fst (a, ?n)" using less s by (simp add: nth_append)
  ultimately have "bin_addArc s (pack_arc (a, ?n)) (pack ?S) = pack (?S[s := (fst (?S ! s), snd (?S ! s) @ [(a, ?n)])])"
    using s by (intro pack_addArc) simp_all
  then have 1: "bin_addArc s (a, word_of_nat ?n) (pack ?S) = pack ?R"
    using s by (simp add: pack_arc_def nth_append)
  have ok: "rows_ok ?R" using Cons.prems(4,5) by (intro active_ok [OF x(1)]) (simp_all only: x(4,5), simp_all)
  have "length (row_arcs ?R) + length w < 2 ^ 31" "length ?R + length w \<le> 2 ^ 31"
    using Cons.prems(4,5) by (simp_all only: x(4,5), simp_all)
  from Cons.IH [OF ok x(1) _ this x(6) [OF Cons.prems(6)]] x(2) obtain R' s' up' where
    2: "add_suffix w ?n (pack ?R) = (s', pack R')" "rows_ok R'" "active R' g s' up'"
    "path_label up' = path_label ((s, a) # up) @ w"
    "path_words R' up' (words R' s') = path_words ?R ((s, a) # up) (words ?R ?n)"
    "w = [] \<longrightarrow> R' = ?R \<and> s' = ?n" "w \<noteq> [] \<longrightarrow> snd (R' ! s') = []"
    "length (row_arcs R') = length (row_arcs ?R) + length w" "length R' = length ?R + length w" "useful R' g" by auto
  have "add_suffix (a # w) s (pack R) = (s', pack R')" using 1 2(1) by (simp add: pack_addState)
  moreover have "path_label up' = path_label up @ a # w" using 2(4) by (simp add: path_label_def)
  moreover have "snd (R' ! s') = []" using 2(6,7) x(2) by blast
  moreover have "path_words R' up' (words R' s') = path_words R up (words R s)" using 2(5) x(3) by (simp only:)
  moreover have "length (row_arcs R') = length (row_arcs R) + length (a # w)" "length R' = length R + length (a # w)"
    using 2(8,9) unfolding x(4,5) by simp_all
  ultimately show ?case using 2(2,3,10) by blast
qed auto

lemma active_end:
  assumes "active R g s up"
  defines "R' \<equiv> R[s := (True, snd (R ! s))]"
  shows "active R' g s up" "path_words R' up (words R' s) = path_words R up (words R s) \<union> {path_label up}"
    "useful R g \<Longrightarrow> useful R' g"
proof -
  note a = activeD [OF assms(1)]
  have s: "s < length R" using active_length [OF assms(1)] by (simp add: path_states_def)
  have dests: "snd (R' ! q) = snd (R ! q)" for q using s by (cases "q = s") (simp_all add: R'_def)
  have same: "R' ! q = R ! q" if "q \<in> set g \<union> fst ` set up" for q
  proof -
    have "q \<noteq> s" using that a(5) chain_below [OF a(1)] by (auto simp: path_states_def)
    then show ?thesis by (simp add: R'_def)
  qed
  have "\<forall>r \<in> set R'. row_sorted r"
  proof
    fix x assume "x \<in> set R'"
    then have "x = (True, snd (R ! s)) \<or> x \<in> set R"
      unfolding R'_def using subsetD [OF set_update_subset_insert] by (metis insert_iff)
    then show "row_sorted x" using a(6) s by (auto simp: row_sorted_def)
  qed
  moreover have "inj_on (\<lambda>r. R' ! r) (set g)" using a(10) same by (simp add: inj_on_def)
  moreover have "closed_register R' g" using closed_register_cong [OF a(7)] same by blast
  moreover have "chain R' g s up" using chain_cong [OF a(1)] same by blast
  moreover have "length R' = length R" by (simp add: R'_def)
  ultimately show "active R' g s up"
    unfolding active_def dests using a(2-5,8,9) by simp
  have "accepts R' d v = accepts R d v" if "d \<in> set g" for d v
    using words_kept [OF assms(1), of R' d] that same by (auto simp: words_def set_eq_iff)
  then have "accepts R' s w \<longleftrightarrow> w = [] \<or> accepts R s w" for w
    using a(2) s by (cases w) (fastforce simp: R'_def dests [unfolded R'_def])+
  then have "words R' s = words R s \<union> {[]}" by (auto simp: words_def)
  then show "path_words R' up (words R' s) = path_words R up (words R s) \<union> {path_label up}"
    using path_words_kept [OF assms(1), of R'] same path_words_add [of R up "words R s" "{[]}"] by simp
  show "useful R' g" if "useful R g"
    using that same unfolding useful_def dests by (simp add: R'_def)
qed

lemma rows_ok_end: "rows_ok R \<Longrightarrow> s < length R \<Longrightarrow> rows_ok (R[s := (True, snd (R ! s))])"
  by (simp add: rows_ok_def row_arcs_def map_snd_update)

text \<open>What holds between two words; \<open>w\<close> is the last one.\<close>

definition added :: "row list \<Rightarrow> nat list \<Rightarrow> string \<Rightarrow> string set \<Rightarrow> bool" where
  "added R g w W \<longleftrightarrow> rows_ok R \<and> useful R g \<and> (\<exists>s up. active R g s up \<and> snd (R ! s) = [] \<and> path_label up = w \<and>
     (up \<noteq> [] \<longrightarrow> fst (R ! s)) \<and>
     path_words R up (words R s) = W)"

lemma add_line_path:
  assumes "added R g w W" "w \<le> x" "length (row_arcs R) + length x < 2 ^ 31" "length R + length x \<le> 2 ^ 31"
  shows "\<exists>R' g'. add_line x (pack R, g) = Some (pack R', g') \<and> added R' g' x (W \<union> {x}) \<and>
    length (row_arcs R') \<le> length (row_arcs R) + length x \<and> length R' \<le> length R + length x"
proof -
  obtain s up where R: "rows_ok R" "active R g s up" "snd (R ! s) = []" "path_label up = w"
    "path_words R up (words R s) = W" "useful R g" "up \<noteq> [] \<longrightarrow> fst (R ! s)" using assms(1) by (auto simp: added_def)
  have act: "active R g s (up @ [])" using R(2) by simp
  obtain down1 down2 y where f: "up = down1 @ down2" "follow 0 x (pack R) = (path_state s down1, y)" "x = path_label down2 @ y"
    "down1 = [] \<or> (\<exists>b z. y = b # z \<and> (\<forall>e \<in> set (snd (R ! path_state s down1)). fst e < b))"
    using follow_path [OF R(1) act R(3), of x] assms(2) R(4) chain_root [OF activeD(1) [OF R(2)]] by auto
  define t where "t = path_state s down1"
  note f = f [folded t_def]
  have t: "t < length R" using active_length [OF R(2)] path_state_in [of s down1 down2] f(1) by (simp add: t_def)
  have "\<exists>R1 g1. (if has_arcs t (pack R) then replace_or_register t (pack R, g) else Some (pack R, g)) = Some (pack R1, g1) \<and>
      rows_ok R1 \<and> active R1 g1 t down2 \<and> path_words R1 down2 (words R1 t) = W \<and>
      (\<forall>e \<in> set (snd (R1 ! t)). y = [] \<or> fst e < hd y) \<and> (y = [] \<longrightarrow> snd (R1 ! t) = []) \<and>
      length (row_arcs R1) \<le> length (row_arcs R) \<and> length R1 \<le> length R \<and> useful R1 g1"
  proof (cases down1 rule: rev_cases)
    case Nil
    then have "t = s" "down2 = up" using f(1) by (simp_all add: t_def path_state_def)
    then show ?thesis using R has_arcs_pack [OF R(1) t] by auto
  next
    case (snoc down e)
    obtain a where e: "e = (t, a)" using snoc by (cases e) (simp add: path_state_def t_def)
    have up: "up = down @ (t, a) # down2" using f(1) snoc e by simp
    obtain pre where "snd (R ! t) = pre @ [(a, path_state s down)]"
      using chain_row [OF activeD(1) [OF R(2) [unfolded up]]] by blast
    then have "has_arcs t (pack R)" using has_arcs_pack [OF R(1) t] by simp
    obtain R1 g1 where 1: "replace_or_register t (pack R, g) = Some (pack R1, g1)" "rows_ok R1" "active R1 g1 t down2"
      "path_words R1 down2 (words R1 t) = path_words R (down @ (t, a) # down2) (words R s)"
      "map fst (snd (R1 ! t)) = map fst (snd (R ! t))"
      "length (row_arcs R1) \<le> length (row_arcs R)" "length R1 \<le> length R" "useful R1 g1"
      using replace_or_register_path [OF R(1) R(2) [unfolded up] R(3,6)] R(7) up by blast
    obtain b z where b: "y = b # z" "\<forall>e \<in> set (snd (R ! t)). fst e < b" using f(4) snoc by auto
    then have "\<forall>c \<in> set (map fst (snd (R1 ! t))). c < b" unfolding 1(5) by simp
    then have "\<forall>e \<in> set (snd (R1 ! t)). y = [] \<or> fst e < hd y" "y = [] \<longrightarrow> snd (R1 ! t) = []"
      using b(1) by simp_all
    moreover have "path_words R1 down2 (words R1 t) = W" using 1(4) R(5) up by simp
    ultimately show ?thesis using 1 \<open>has_arcs t (pack R)\<close> by auto
  qed
  then obtain R1 g1 where
    1: "(if has_arcs t (pack R) then replace_or_register t (pack R, g) else Some (pack R, g)) = Some (pack R1, g1)"
    "rows_ok R1" "active R1 g1 t down2" "path_words R1 down2 (words R1 t) = W"
    "\<forall>e \<in> set (snd (R1 ! t)). y = [] \<or> fst e < hd y" "y = [] \<longrightarrow> snd (R1 ! t) = []"
    "length (row_arcs R1) \<le> length (row_arcs R)" "length R1 \<le> length R" "useful R1 g1" by blast
  have le: "length y \<le> length x" using f(3) by simp
  have bounds: "length (row_arcs R1) + length y < 2 ^ 31" "length R1 + length y \<le> 2 ^ 31"
    using assms(3,4) le 1(7,8) by linarith+
  obtain R2 s2 up2 where
    2: "add_suffix y t (pack R1) = (s2, pack R2)" "rows_ok R2" "active R2 g1 s2 up2" "path_label up2 = path_label down2 @ y"
    "path_words R2 up2 (words R2 s2) = path_words R1 down2 (words R1 t)"
    "y = [] \<longrightarrow> R2 = R1 \<and> s2 = t" "y \<noteq> [] \<longrightarrow> snd (R2 ! s2) = []"
    "length (row_arcs R2) = length (row_arcs R1) + length y" "length R2 = length R1 + length y" "useful R2 g1"
    using add_suffix_path [OF 1(2,3,5) bounds 1(9)] by blast
  let ?R = "R2[s2 := (True, snd (R2 ! s2))]"
  have s2: "s2 < length R2" using active_length [OF 2(3)] by (simp add: path_states_def)
  have "add_line x (pack R, g) = Some (pack ?R, g1)"
    using 1(1) 2(1) pack_setEndState [OF s2] by (simp add: add_line_def f(2))
  moreover have "added ?R g1 x (W \<union> {x})"
    unfolding added_def
  proof (intro conjI exI)
    show "rows_ok ?R" by (rule rows_ok_end [OF 2(2) s2])
    show "useful ?R g1" by (rule active_end(3) [OF 2(3,10)])
    show "up2 \<noteq> [] \<longrightarrow> fst (?R ! s2)" using s2 by simp
    show "active ?R g1 s2 up2" by (rule active_end(1) [OF 2(3)])
    show "snd (?R ! s2) = []" using s2 2(6,7) 1(6) by auto
    show "path_label up2 = x" using 2(4) f(3) by simp
    then show "path_words ?R up2 (words ?R s2) = W \<union> {x}" using active_end(2) [OF 2(3)] 2(5) 1(4) by simp
  qed
  moreover have "length (row_arcs ?R) = length (row_arcs R2)" by (simp add: row_arcs_def map_snd_update [OF s2])
  ultimately show ?thesis using 2(8,9) 1(7,8) le by auto
qed

lemma add_lines_path:
  assumes "added R g w W" "sorted (w # lines)" "length (row_arcs R) + sum_list (map length lines) < 2 ^ 31"
    "length R + sum_list (map length lines) \<le> 2 ^ 31"
  shows "\<exists>R' g'. add_lines lines (pack R, g) = Some (pack R', g') \<and> added R' g' (last (w # lines)) (W \<union> set lines)"
  using assms
proof (induction lines arbitrary: R g w W)
  case (Cons x lines)
  have "w \<le> x" "length (row_arcs R) + length x < 2 ^ 31" "length R + length x \<le> 2 ^ 31" using Cons.prems(2-4) by simp_all
  from add_line_path [OF Cons.prems(1) this] obtain R' g' where
    1: "add_line x (pack R, g) = Some (pack R', g')" "added R' g' x (W \<union> {x})"
    "length (row_arcs R') \<le> length (row_arcs R) + length x" "length R' \<le> length R + length x" by blast
  have "length (row_arcs R') + sum_list (map length lines) < 2 ^ 31" "length R' + sum_list (map length lines) \<le> 2 ^ 31"
    using 1(3,4) Cons.prems(3,4) by simp_all
  from Cons.IH [OF 1(2) _ this] show ?case using Cons.prems(2) 1(1) by auto
qed auto

text \<open>The automaton made from the lines.\<close>

lemma minimize_incremental_rows:
  assumes "sorted lines" "last lines \<noteq> []" "lines \<noteq> []" "sum_list (map length lines) < 2 ^ 31"
  shows "\<exists>R g. minimize_incremental lines = Some (pack R) \<and> rows_ok R \<and> active R g 0 [] \<and> useful R g \<and> words R 0 = set lines"
proof -
  let ?R = "[(False, [])] :: row list"
  have "\<not> accepts ?R 0 w" for w by (cases w) simp_all
  then have none: "words ?R 0 = {}" by (simp add: words_def)
  have "active ?R [] 0 []"
    by (simp add: active_def path_states_def closed_register_def row_sorted_def newer_def lessThan_Suc)
  then have "added ?R [] [] {}"
    unfolding added_def by (intro conjI exI [of _ 0] exI [of _ "[]"]) (simp_all add: rows_ok_def path_label_def none useful_def)
  moreover have "sorted ([] # lines)" using assms(1) by simp
  ultimately obtain R g where 1: "add_lines lines (pack ?R, []) = Some (pack R, g)" "added R g (last ([] # lines)) (set lines)"
    using add_lines_path [of ?R "[]" "[]" "{}" lines] assms(4) by auto
  obtain s up where 2: "rows_ok R" "active R g s up" "snd (R ! s) = []" "path_label up = last lines"
    "path_words R up (words R s) = set lines" "useful R g" "up \<noteq> [] \<longrightarrow> fst (R ! s)" using 1(2) assms(3) by (auto simp: added_def)
  have "up \<noteq> []" using 2(4) assms(2) by (auto simp: path_label_def)
  then obtain down a where up: "up = down @ [(0, a)]"
    using chain_root [OF activeD(1) [OF 2(2)]] by (cases up rule: rev_cases) (auto simp: path_state_def)
  obtain R' g' where 3: "replace_or_register 0 (pack R, g) = Some (pack R', g')" "rows_ok R'" "active R' g' 0 []"
    "words R' 0 = path_words R up (words R s)" "useful R' g'"
    using replace_or_register_path [OF 2(1) 2(2) [unfolded up] 2(3,6)] 2(7) by (auto simp: up)
  have "minimize_incremental lines = Some (pack R')"
    using 1(1) 3(1) by (simp add: minimize_incremental_def pack_new pack_addState)
  then show ?thesis using 3 2(5) by auto
qed

end
