(* ===== verification/Fsa_Minimize.thy ===== *)
theory Fsa_Minimize imports Fsa_Language begin

text \<open>Determinization and minimization (fsa_algorithms.hpp).  Minimization reverses and determinizes
  twice; the result is shown to be the smallest deterministic automaton of the language.\<close>

section \<open>Determinization\<close>

definition post :: "ndfsa \<Rightarrow> nat set \<Rightarrow> symbol \<Rightarrow> nat set" where
  "post A X a = {d. \<exists>q \<in> X. (a, d) \<in> nd_arcs A q}"

lemma determinizer_arcs:
  assumes "nd_wf A" "X \<subseteq> {..<nd_size A}"
  shows "set (arcFn (Determinizer A) (set_order X)) = {(a, set_order (post A X a)) | a. post A X a \<noteq> {}}"
proof -
  have fin: "finite X" using assms(2) finite_subset by blast
  let ?arcs = "\<Union>q \<in> X. set (nd_getArcs q A)"
  have "set (nd_getArcs q A) = nd_arcs A q" if "q \<in> X" for q
    using that assms(2) nd_set_getArcs by blast
  then have "?arcs = (\<Union>q \<in> X. nd_arcs A q)" by simp
  then have "{d. (a, d) \<in> ?arcs} = post A X a" for a by (auto simp: post_def)
  moreover have "fst ` ?arcs = {a. post A X a \<noteq> {}}"
    using calculation by force
  moreover have "finite (fst ` ?arcs)" using fin by simp
  ultimately show ?thesis
    using fin by (auto simp: Determinizer_def Let_def)
qed

lemma post_sub: "nd_wf A \<Longrightarrow> post A X a \<subseteq> {..<nd_size A}"
  by (auto simp: post_def dest: nd_arcs_dest)

lemma determinizer_start: "startFn (Determinizer A) = [set_order (nd_startStates A)]"
  by (simp add: Determinizer_def)

lemma determinizer_reached:
  assumes "nd_wf A"
  shows "reached (Determinizer A) \<subseteq> set_order ` Pow {..<nd_size A}"
proof (rule reached_in)
  show "set (startFn (Determinizer A)) \<subseteq> set_order ` Pow {..<nd_size A}"
    using nd_wf_bounds [OF assms] by (auto simp: determinizer_start)
  show "Q \<in> set_order ` Pow {..<nd_size A}"
    if "P \<in> set_order ` Pow {..<nd_size A}" "(a, Q) \<in> set (arcFn (Determinizer A) P)" for P a Q
    using that determinizer_arcs [OF assms] post_sub [OF assms] by fastforce
qed

lemma determinizer_final:
  "finite X \<Longrightarrow> finalFn (Determinizer A) (set_order X) \<longleftrightarrow> (\<exists>q \<in> X. q \<in> nd_endStates A)"
  by (simp add: Determinizer_def nd_isEndState_def)

definition right_language :: "ndfsa \<Rightarrow> nat \<Rightarrow> string set" where
  "right_language A p = {w. \<exists>f \<in> nd_endStates A. run (nd_arcs A) p w f}"

definition wrapper_right :: "'q wrapper \<Rightarrow> 'q \<Rightarrow> string set" where
  "wrapper_right W p = {w. \<exists>f. finalFn W f \<and> run (\<lambda>q. set (arcFn W q)) p w f}"

lemma nd_labels_right: "nd_labels A = (\<Union>s \<in> nd_startStates A. right_language A s)"
  by (auto simp: nd_labels_def labels_def right_language_def)

lemma wrapper_labels_right: "wrapper_labels W = (\<Union>s \<in> set (startFn W). wrapper_right W s)"
  by (auto simp: wrapper_labels_def labels_def wrapper_right_def)

lemma right_simps: "[] \<in> right_language A p \<longleftrightarrow> p \<in> nd_endStates A"
  "a # w \<in> right_language A p \<longleftrightarrow> (\<exists>q. (a, q) \<in> nd_arcs A p \<and> w \<in> right_language A q)"
  by (auto simp: right_language_def)

lemma wrapper_right_simps: "[] \<in> wrapper_right W p \<longleftrightarrow> finalFn W p"
  "a # w \<in> wrapper_right W p \<longleftrightarrow> (\<exists>q. (a, q) \<in> set (arcFn W p) \<and> w \<in> wrapper_right W q)"
  by (auto simp: wrapper_right_def)

text \<open>A set of states accepts what its members accept.\<close>

lemma determinizer_right:
  assumes "nd_wf A"
  shows "X \<subseteq> {..<nd_size A} \<Longrightarrow> w \<in> wrapper_right (Determinizer A) (set_order X) \<longleftrightarrow> (\<exists>q \<in> X. w \<in> right_language A q)"
proof (induction w arbitrary: X)
  case Nil
  then have "finite X" using finite_subset by blast
  then show ?case by (simp add: wrapper_right_simps right_simps determinizer_final)
next
  case (Cons a w)
  have "a # w \<in> wrapper_right (Determinizer A) (set_order X) \<longleftrightarrow>
      post A X a \<noteq> {} \<and> w \<in> wrapper_right (Determinizer A) (set_order (post A X a))"
    using determinizer_arcs [OF assms Cons.prems] by (auto simp: wrapper_right_simps)
  also have "\<dots> \<longleftrightarrow> (\<exists>d \<in> post A X a. w \<in> right_language A d)"
    using Cons.IH [OF post_sub [OF assms]] by auto
  also have "\<dots> \<longleftrightarrow> (\<exists>q \<in> X. a # w \<in> right_language A q)"
    by (auto simp: post_def right_simps)
  finally show ?case .
qed

section \<open>Copies into a new automaton\<close>

definition accessible :: "ndfsa \<Rightarrow> bool" where
  "accessible A \<longleftrightarrow> (\<forall>p < nd_size A. \<exists>s \<in> nd_startStates A. \<exists>w. run (nd_arcs A) s w p)"

lemma traverse_new:
  assumes "distinct (startFn W)" "reached W \<subseteq> X" "finite X"
  shows "\<exists>A g. traverse W newNDFSA = Some A \<and> nd_wf A \<and> accessible A \<and> nd_labels A = wrapper_labels W \<and>
    inj_on g (reached W) \<and> g ` reached W = {..<nd_size A} \<and> nd_startStates A = g ` set (startFn W) \<and>
    (\<forall>q \<in> reached W. nd_arcs A (g q) = (\<lambda>(a, d). (a, g d)) ` set (arcFn W q) \<and> right_language A (g q) = wrapper_right W q)"
proof -
  have "finite (reached W)" using assms(2,3) by (rule finite_subset)
  from traverse_copies [OF nd_wf_new assms(1) this] obtain A m where
    A: "traverse W newNDFSA = Some A" "dom m = reached W" "copy_of W newNDFSA m (reached W) A" by blast
  let ?g = "the \<circ> m"
  have c: "nd_wf A" "inj_on m (reached W)" "ran m = {..<nd_size A}" "nd_startStates A = ?g ` set (startFn W)"
    "nd_endStates A = ?g ` {q \<in> reached W. finalFn W q}"
    "\<forall>s n. m s = Some n \<longrightarrow> nd_arcs A n = (if s \<in> reached W then (\<lambda>(a, d). (a, the (m d))) ` set (arcFn W s) else {})"
    using A(3) unfolding copy_of_def A(2) by (auto simp: lessThan_atLeast0)
  have inj: "inj_on ?g (reached W)"
    using c(2) unfolding inj_on_def A(2) [symmetric] by (auto simp: domIff)
  have img: "?g ` reached W = {..<nd_size A}"
    unfolding c(3) [symmetric] A(2) [symmetric] by (force simp: ran_def)
  have arcs: "nd_arcs A (?g q) = (\<lambda>(a, d). (a, ?g d)) ` set (arcFn W q)" if q: "q \<in> reached W" for q
  proof -
    obtain n where "m q = Some n" using q A(2) by auto
    then show ?thesis using c(6) q by simp
  qed
  have closed: "q \<in> reached W" if "p \<in> reached W" "(a, q) \<in> set (arcFn W p)" for p a q
    using that unfolding reached_def successors_def by (auto intro: rtrancl_into_rtrancl)
  have "w \<in> right_language A (?g q) \<longleftrightarrow> w \<in> wrapper_right W q" if "q \<in> reached W" for w q
    using that
  proof (induction w arbitrary: q)
    case Nil
    then show ?case using inj unfolding right_simps wrapper_right_simps c(5) by (auto simp: inj_on_def)
  next
    case (Cons a w)
    have "a # w \<in> right_language A (?g q) \<longleftrightarrow> (\<exists>d. (a, d) \<in> set (arcFn W q) \<and> w \<in> right_language A (?g d))"
      using arcs [OF Cons.prems] by (force simp: right_simps)
    then show ?case using Cons.IH closed [OF Cons.prems] by (auto simp: wrapper_right_simps)
  qed
  then have "\<forall>q \<in> reached W. nd_arcs A (?g q) = (\<lambda>(a, d). (a, ?g d)) ` set (arcFn W q) \<and> right_language A (?g q) = wrapper_right W q"
    using arcs by blast
  moreover have "accessible A"
    unfolding accessible_def
  proof (intro allI impI)
    fix p assume "p < nd_size A"
    then obtain q where q: "q \<in> reached W" "p = ?g q" using img by blast
    then obtain s where s: "s \<in> set (startFn W)" "(s, q) \<in> (successors W)\<^sup>*" by (auto simp: reached_def)
    from s(2) have "\<exists>w. run (nd_arcs A) (?g s) w (?g q)"
    proof induction
      case base
      have "run (nd_arcs A) (?g s) [] (?g s)" by simp
      then show ?case by blast
    next
      case (step q r)
      then obtain a w where "(a, r) \<in> set (arcFn W q)" "run (nd_arcs A) (?g s) w (?g q)" by (auto simp: successors_def)
      moreover have "q \<in> reached W" using s(1) step.hyps(1) by (auto simp: reached_def)
      ultimately have "run (nd_arcs A) (?g s) (w @ [a]) (?g r)" using arcs by force
      then show ?case by blast
    qed
    then show "\<exists>s \<in> nd_startStates A. \<exists>w. run (nd_arcs A) s w p"
      using s(1) unfolding c(4) q(2) by blast
  qed
  moreover have "nd_labels A = wrapper_labels W"
    using copy_labels [OF nd_wf_new A(3,2)] by simp
  ultimately show ?thesis using A(1) c(1,4) inj img by blast
qed

section \<open>Deterministic automata\<close>

definition deterministic :: "ndfsa \<Rightarrow> bool" where
  "deterministic A \<longleftrightarrow> nd_wf A \<and> (\<exists>s. nd_startStates A = {s}) \<and>
     (\<forall>p a q r. (a, q) \<in> nd_arcs A p \<longrightarrow> (a, r) \<in> nd_arcs A p \<longrightarrow> q = r)"

lemma deterministic_run: "deterministic A \<Longrightarrow> run (nd_arcs A) p w q \<Longrightarrow> run (nd_arcs A) p w r \<Longrightarrow> q = r"
proof (induction w arbitrary: p)
  case (Cons a w)
  then show ?case unfolding deterministic_def by (metis run.simps(2))
qed simp

lemma deterministic_right:
  assumes "deterministic A" "nd_startStates A = {s}" "run (nd_arcs A) s w p"
  shows "v \<in> right_language A p \<longleftrightarrow> w @ v \<in> nd_labels A"
proof -
  have "w @ v \<in> nd_labels A \<longleftrightarrow> (\<exists>f \<in> nd_endStates A. \<exists>q. run (nd_arcs A) s w q \<and> run (nd_arcs A) q v f)"
    by (simp add: nd_labels_def labels_def assms(2))
  also have "\<dots> \<longleftrightarrow> (\<exists>f \<in> nd_endStates A. run (nd_arcs A) p v f)"
    using deterministic_run [OF assms(1,3)] assms(3) by blast
  finally show ?thesis by (simp add: right_language_def)
qed

text \<open>The states of the determinized automaton stand for sets of states.\<close>

lemma determinize_correct:
  assumes "nd_wf A"
  shows "\<exists>B h. determinize A = Some B \<and> deterministic B \<and> accessible B \<and> nd_labels B = nd_labels A \<and>
    inj_on h {..<nd_size B} \<and> (\<forall>p < nd_size B. h p \<subseteq> {..<nd_size A} \<and> right_language B p = (\<Union>q \<in> h p. right_language A q)) \<and>
    (\<forall>p < nd_size B. h p = {} \<longrightarrow> nd_size B = 1)"
proof -
  let ?W = "Determinizer A" and ?n = "nd_size A"
  have dist: "distinct (startFn ?W)" by (simp add: determinizer_start)
  have fin: "finite (set_order ` Pow {..<?n})" by simp
  from traverse_new [OF dist determinizer_reached [OF assms] fin] obtain B g where B: "traverse ?W newNDFSA = Some B" "nd_wf B" "accessible B" "nd_labels B = wrapper_labels ?W"
    "inj_on g (reached ?W)" "g ` reached ?W = {..<nd_size B}" "nd_startStates B = g ` set (startFn ?W)"
    "\<And>q. q \<in> reached ?W \<Longrightarrow> nd_arcs B (g q) = (\<lambda>(a, d). (a, g d)) ` set (arcFn ?W q)"
    "\<And>q. q \<in> reached ?W \<Longrightarrow> right_language B (g q) = wrapper_right ?W q"
    by (elim exE conjE) (rule, assumption+, blast+)
  have sets: "\<exists>X \<subseteq> {..<?n}. q = set_order X" if "q \<in> reached ?W" for q
    using that determinizer_reached [OF assms] by auto
  have elems: "set (set_order X) = X" if "X \<subseteq> {..<?n}" for X
    using finite_subset [OF that] by simp
  have det: "q = r" if "(a, q) \<in> nd_arcs B p" "(a, r) \<in> nd_arcs B p" for p a q r
  proof -
    have "p < nd_size B" using nd_arcs_dest [OF B(2) that(1)] by simp
    then obtain P where P: "P \<in> reached ?W" "p = g P" using B(6) by blast
    then obtain X where X: "X \<subseteq> {..<?n}" "P = set_order X" using sets by blast
    show ?thesis using that determinizer_arcs [OF assms X(1)] B(8) [OF P(1)] X(2) P(2) by auto
  qed
  have start: "nd_startStates B = {g (set_order (nd_startStates A))}"
    using B(7) by (simp add: determinizer_start)
  then have "deterministic B" unfolding deterministic_def using B(2) det by blast
  define h where "h p = set (the_inv_into (reached ?W) g p)" for p
  have h: "h (g P) = set P" if "P \<in> reached ?W" for P
    using that B(5) by (simp add: h_def the_inv_into_f_f)
  have "inj_on h {..<nd_size B}"
  proof (rule inj_onI)
    fix p q assume pq: "p \<in> {..<nd_size B}" "q \<in> {..<nd_size B}" "h p = h q"
    then obtain P Q where P: "P \<in> reached ?W" "p = g P" "Q \<in> reached ?W" "q = g Q" using B(6) by blast
    then obtain X Y where XY: "X \<subseteq> {..<?n}" "P = set_order X" "Y \<subseteq> {..<?n}" "Q = set_order Y" using sets by metis
    then have "set P = X" "set Q = Y" using elems by simp_all
    then show "p = q" using pq(3) h P XY by simp
  qed
  moreover have "h p \<subseteq> {..<?n} \<and> right_language B p = (\<Union>q \<in> h p. right_language A q)" if p: "p < nd_size B" for p
  proof -
    obtain P where P: "P \<in> reached ?W" "p = g P" using p B(6) by blast
    then obtain X where X: "X \<subseteq> {..<?n}" "P = set_order X" using sets by blast
    then have "h p = X" using h [OF P(1)] P(2) elems by simp
    then show ?thesis using B(9) [OF P(1)] determinizer_right [OF assms X(1)] X P(2) by auto
  qed
  moreover have "nd_size B = 1" if p: "p < nd_size B" "h p = {}" for p
  proof -
    obtain P where P: "P \<in> reached ?W" "p = g P" using p(1) B(6) by blast
    then have "P = set_order {}" using h [OF P(1)] p(2) sets [OF P(1)] by (simp add: set_order_def)
    have "nd_startStates A = {}"
    proof (rule ccontr)
      assume ne: "nd_startStates A \<noteq> {}"
      have "reached ?W \<subseteq> set_order ` (Pow {..<?n} - {{}})"
      proof (rule reached_in)
        show "set (startFn ?W) \<subseteq> set_order ` (Pow {..<?n} - {{}})"
          using nd_wf_bounds [OF assms] ne by (auto simp: determinizer_start)
        show "R \<in> set_order ` (Pow {..<?n} - {{}})"
          if "Q \<in> set_order ` (Pow {..<?n} - {{}})" "(a, R) \<in> set (arcFn ?W Q)" for Q a R
          using that determinizer_arcs [OF assms] post_sub [OF assms] by fastforce
      qed
      then obtain X where "X \<subseteq> {..<?n}" "X \<noteq> {}" "P = set_order X" using P(1) by blast
      then have "set P \<noteq> {}" using elems by simp
      then show False using h [OF P(1)] P(2) p(2) by simp
    qed
    then have none: "set (arcFn ?W (set_order {})) = {}" "set (startFn ?W) = {set_order {}}"
      using determinizer_arcs [OF assms, of "{}"] by (auto simp: post_def determinizer_start)
    then have "reached ?W \<subseteq> {set_order {}}" by (intro reached_in) auto
    moreover have "set_order {} \<in> reached ?W" using none(2) by (auto simp: reached_def)
    ultimately have "reached ?W = {set_order {}}" by blast
    then have "{..<nd_size B} = {g (set_order {})}" using B(6) by auto
    then show ?thesis by (metis card_lessThan is_singletonI is_singleton_altdef)
  qed
  moreover have "nd_labels B = nd_labels A"
  proof (rule set_eqI)
    fix w
    have "nd_startStates A \<subseteq> {..<?n}" using nd_wf_bounds [OF assms] by blast
    then show "w \<in> nd_labels B \<longleftrightarrow> w \<in> nd_labels A"
      using determinizer_right [OF assms] by (simp add: B(4) wrapper_labels_right nd_labels_right [of A] determinizer_start)
  qed
  ultimately show ?thesis
    using B(1,3) \<open>deterministic B\<close> unfolding determinize_def by blast
qed

section \<open>Minimization\<close>

text \<open>In the reverse of a deterministic automaton without useless states no word is accepted from two
  states, and some word from every state.\<close>

definition codeterministic :: "ndfsa \<Rightarrow> bool" where
  "codeterministic A \<longleftrightarrow> (\<forall>p < nd_size A. right_language A p \<noteq> {} \<and>
     (\<forall>q < nd_size A. p \<noteq> q \<longrightarrow> right_language A p \<inter> right_language A q = {}))"

lemma reverse_codeterministic:
  assumes "deterministic A" "accessible A"
  shows "\<exists>B. fsa_reverse A = Some B \<and> nd_wf B \<and> nd_labels B = rev ` nd_labels A \<and> codeterministic B"
proof -
  let ?W = "Reverser A"
  have wf: "nd_wf A" using assms(1) by (simp add: deterministic_def)
  obtain s where s: "nd_startStates A = {s}" using assms(1) by (auto simp: deterministic_def)
  have start: "set (startFn ?W) = nd_endStates A" using wf by (simp add: Reverser_def)
  have sub: "reached ?W \<subseteq> {..<nd_size A}"
    using nd_arcs_dest [OF wf] nd_wf_bounds [OF wf] by (intro reached_in) (auto simp: start reverser_arcs)
  have dist: "distinct (startFn ?W)" by (simp add: Reverser_def)
  from traverse_new [OF dist sub finite_lessThan] obtain B g where B: "traverse ?W newNDFSA = Some B" "nd_wf B"
    "inj_on g (reached ?W)" "g ` reached ?W = {..<nd_size B}"
    "\<And>q. q \<in> reached ?W \<Longrightarrow> right_language B (g q) = wrapper_right ?W q"
    by (elim exE conjE) (rule, assumption+, blast)
  have right: "w \<in> wrapper_right ?W q \<longleftrightarrow> run (nd_arcs A) s (rev w) q" for w q
  proof -
    have "run (\<lambda>q. {(a, p). (a, q) \<in> nd_arcs A p}) q w p = run (nd_arcs A) p (rev w) q" for p q
      using run_reverse [of "nd_arcs A" q "rev w" p] by simp
    then show ?thesis
      by (simp add: wrapper_right_def reverser_arcs) (simp add: Reverser_def nd_isStartState_def s)
  qed
  have "codeterministic B"
    unfolding codeterministic_def
  proof (intro allI impI conjI)
    fix p assume "p < nd_size B"
    then obtain q where q: "q \<in> reached ?W" "p = g q" using B(4) by blast
    then obtain w where w: "run (nd_arcs A) s w q" using assms(2) sub s by (auto simp: accessible_def)
    have "rev w \<in> right_language B p" using right [of "rev w" q] w B(5) [OF q(1)] q(2) by simp
    then show "right_language B p \<noteq> {}" by blast
    fix p' assume "p' < nd_size B" "p \<noteq> p'"
    then obtain q' where q': "q' \<in> reached ?W" "p' = g q'" "q \<noteq> q'" using B(4) q(2) by blast
    show "right_language B p \<inter> right_language B p' = {}"
      using B(5) [OF q(1)] B(5) [OF q'(1)] q(2) q'(2,3) right deterministic_run [OF assms(1)] by blast
  qed
  then show ?thesis using B(1,2) reverse_correct [OF wf] by (auto simp: fsa_reverse_def)
qed

text \<open>No two states of the determinized automaton accept the same words.\<close>

definition reduced :: "ndfsa \<Rightarrow> bool" where
  "reduced A \<longleftrightarrow> deterministic A \<and> accessible A \<and>
     (\<forall>p < nd_size A. \<forall>q < nd_size A. right_language A p = right_language A q \<longrightarrow> p = q) \<and>
     (\<forall>p < nd_size A. right_language A p = {} \<longrightarrow> nd_size A = 1)"

lemma determinize_reduced:
  assumes "nd_wf A" "codeterministic A"
  shows "\<exists>B. determinize A = Some B \<and> reduced B \<and> nd_labels B = nd_labels A"
proof -
  from determinize_correct [OF assms(1)] obtain B h where B: "determinize A = Some B" "deterministic B" "accessible B"
    "nd_labels B = nd_labels A" "inj_on h {..<nd_size B}"
    "\<And>p. p < nd_size B \<Longrightarrow> h p \<subseteq> {..<nd_size A} \<and> right_language B p = (\<Union>q \<in> h p. right_language A q)"
    "\<And>p. p < nd_size B \<Longrightarrow> h p = {} \<Longrightarrow> nd_size B = 1" by blast
  have sub: "h p \<subseteq> h q" if p: "p < nd_size B" and q: "q < nd_size B" and e: "right_language B p = right_language B q" for p q
  proof
    fix x assume x: "x \<in> h p"
    then have "x < nd_size A" using B(6) [OF p] by blast
    then obtain w where w: "w \<in> right_language A x" using assms(2) by (auto simp: codeterministic_def)
    then have "w \<in> right_language B q" using x e B(6) [OF p] by blast
    then obtain y where "y \<in> h q" "w \<in> right_language A y" "y < nd_size A" using B(6) [OF q] by blast
    then show "x \<in> h q" using w assms(2) \<open>x < nd_size A\<close> unfolding codeterministic_def by blast
  qed
  have "p = q" if "p < nd_size B" "q < nd_size B" "right_language B p = right_language B q" for p q
    using sub [OF that] sub [OF that(2,1) that(3) [symmetric]] that B(5) by (auto simp: inj_on_def)
  moreover have "nd_size B = 1" if p: "p < nd_size B" and none: "right_language B p = {}" for p
  proof -
    have "h p = {}"
    proof (rule ccontr)
      assume "h p \<noteq> {}"
      then obtain x where "x \<in> h p" "x < nd_size A" using B(6) [OF p] by blast
      then have "right_language A x \<noteq> {}" using assms(2) by (auto simp: codeterministic_def)
      then show False using \<open>x \<in> h p\<close> none B(6) [OF p] by blast
    qed
    then show ?thesis by (rule B(7) [OF p])
  qed
  ultimately show ?thesis using B(1-4) unfolding reduced_def by blast
qed

lemma reduced_smallest:
  assumes "reduced A" "deterministic B" "nd_labels B = nd_labels A"
  shows "nd_size A \<le> nd_size B"
proof (cases "\<exists>p < nd_size A. right_language A p = {}")
  case True
  then have "nd_size A = 1" using assms(1) by (auto simp: reduced_def)
  moreover have "0 < nd_size B" using assms(2) by (auto simp: deterministic_def nd_wf_def)
  ultimately show ?thesis by simp
next
  case False
  obtain s t where st: "nd_startStates A = {s}" "nd_startStates B = {t}"
    using assms(1,2) by (auto simp: reduced_def deterministic_def)
  have detA: "deterministic A" using assms(1) by (simp add: reduced_def)
  have wfB: "nd_wf B" using assms(2) by (simp add: deterministic_def)
  then have tB: "t < nd_size B" using st by (simp add: nd_wf_def)
  have same: "right_language A p = right_language B q" if "run (nd_arcs A) s w p" "run (nd_arcs B) t w q" for w p q
  proof -
    have "v \<in> right_language A p \<longleftrightarrow> v \<in> right_language B q" for v
      using deterministic_right [OF detA st(1) that(1)] deterministic_right [OF assms(2) st(2) that(2)] assms(3) by simp
    then show ?thesis by blast
  qed
  have "\<exists>q < nd_size B. right_language B q = right_language A p" if p: "p < nd_size A" for p
  proof -
    obtain w where w: "run (nd_arcs A) s w p" using assms(1) p st by (auto simp: reduced_def accessible_def)
    obtain v where "v \<in> right_language A p" using False p by blast
    then have "w @ v \<in> nd_labels B" using deterministic_right [OF detA st(1) w] assms(3) by simp
    then obtain q where q: "run (nd_arcs B) t w q" by (auto simp: nd_labels_def labels_def st)
    then have "q < nd_size B" using run_inside [OF wfB tB] by blast
    then show ?thesis using same [OF w q] by blast
  qed
  then obtain f where f: "\<And>p. p < nd_size A \<Longrightarrow> f p < nd_size B \<and> right_language B (f p) = right_language A p" by metis
  have "inj_on f {..<nd_size A}"
    using f assms(1) unfolding inj_on_def reduced_def by (metis lessThan_iff)
  moreover have "f ` {..<nd_size A} \<subseteq> {..<nd_size B}" using f by blast
  ultimately show ?thesis using card_inj_on_le [of f "{..<nd_size A}" "{..<nd_size B}"] by simp
qed

text \<open>C17: Minimization of any automaton, with the empty word on arcs or not, ends with the smallest
  deterministic automaton of its language.\<close>

theorem minimize_smallest:
  assumes "nd_wf A"
  shows "\<exists>B. minimize A = Some B \<and> deterministic B \<and> nd_labels B = nd_language A \<and>
    (\<forall>C. deterministic C \<and> nd_labels C = nd_language A \<longrightarrow> nd_size B \<le> nd_size C)"
proof -
  obtain A1 where 1: "epsRemove A = Some A1" "nd_wf A1" "nd_labels A1 = nd_language A"
    using epsRemove_correct [OF assms] by blast
  obtain A2 where 2: "fsa_reverse A1 = Some A2" "nd_wf A2" "nd_labels A2 = rev ` nd_labels A1"
    using reverse_correct [OF 1(2)] by blast
  obtain A3 where 3: "determinize A2 = Some A3" "deterministic A3" "accessible A3" "nd_labels A3 = nd_labels A2"
    using determinize_correct [OF 2(2)] by blast
  obtain A4 where 4: "fsa_reverse A3 = Some A4" "nd_wf A4" "nd_labels A4 = rev ` nd_labels A3" "codeterministic A4"
    using reverse_codeterministic [OF 3(2,3)] by blast
  obtain A5 where 5: "determinize A4 = Some A5" "reduced A5" "nd_labels A5 = nd_labels A4"
    using determinize_reduced [OF 4(2,4)] by blast
  have "nd_labels A5 = nd_language A"
    unfolding 5(3) 4(3) 3(4) 2(3) 1(3) by (simp add: image_image)
  moreover have "minimize A = Some A5" by (simp add: minimize_def 1(1) 2(1) 3(1) 4(1) 5(1))
  ultimately show ?thesis using 5(2) reduced_smallest [OF 5(2)] by (auto simp: reduced_def)
qed

theorem minimize_smallest_witness:
  "\<exists>B. minimize (nd_ofString ''ab'') = Some B \<and> deterministic B \<and> nd_labels B = nd_language (nd_ofString ''ab'') \<and>
    (\<forall>C. deterministic C \<and> nd_labels C = nd_language (nd_ofString ''ab'') \<longrightarrow> nd_size B \<le> nd_size C)"
proof (rule minimize_smallest)
  show "nd_wf (nd_ofString ''ab'')"
    by (simp add: nd_ofString_def nd_addState_def nd_addArc_def nd_setEndState_def newNDFSA_def nd_wf_def nd_size_def Let_def)
qed

end
