(* ===== verification/Incremental_Minimal.thy ===== *)
theory Incremental_Minimal imports Incremental_Path Fsa_Minimize begin

text \<open>The automaton that \<open>minimize_incremental\<close> makes is the smallest that accepts the words.\<close>

section \<open>The automaton is the smallest\<close>

lemma row_sorted_distinct:
  assumes "row_sorted r"
  shows "sorted (snd r)" "distinct (snd r)"
proof -
  have "sorted_wrt (\<lambda>x y. fst x < fst y) (snd r)" using assms by (simp add: row_sorted_def sorted_wrt_map)
  then have "sorted_wrt (<) (snd r)" by (rule sorted_wrt_mono_rel [rotated]) (simp add: less_prod_def)
  then show "sorted (snd r)" "distinct (snd r)" by (simp_all add: strict_sorted_iff)
qed

lemma row_arc_delta:
  assumes "row_sorted r"
  shows "(a, d) \<in> set (snd r) \<longleftrightarrow> row_delta r a = Some d"
proof -
  have "distinct (map fst (snd r))" using assms by (simp add: row_sorted_def strict_sorted_iff)
  then show ?thesis by (simp add: row_delta_def)
qed

lemma pack_in:
  assumes "rows_ok R" "active R g s up" "p < length R"
  shows "bin_in_from p w (pack R) \<longleftrightarrow> accepts R p w"
  using assms(3)
proof (induction w arbitrary: p)
  case Nil
  then show ?case using unpack(3) [OF assms(1)] by simp
next
  case (Cons a w)
  have sorted: "row_sorted (R ! p)" using activeD(6) [OF assms(2)] Cons.prems by simp
  have "d < length R" if "row_delta (R ! p) a = Some d" for d
  proof -
    have "d \<in> dests R p" using row_arc_delta [OF sorted] that by force
    then show ?thesis using active_dests [OF assms(2) Cons.prems] by blast
  qed
  then show ?case
    using pack_delta [OF assms(1) Cons.prems sorted, of a] row_arc_delta [OF sorted] Cons.IH
    by (cases "row_delta (R ! p) a") auto
qed

definition rows_nd :: "row list \<Rightarrow> ndfsa" where
  "rows_nd R = \<lparr>nd_states = map snd R, nd_startStates = {0}, nd_endStates = {p. p < length R \<and> fst (R ! p)}\<rparr>"

lemma rows_nd_simps: "nd_size (rows_nd R) = length R" "p < length R \<Longrightarrow> nd_arcs (rows_nd R) p = set (snd (R ! p))"
  by (simp_all add: rows_nd_def nd_size_def nd_arcs_def)

lemma rows_nd_deterministic:
  assumes "active R g s up"
  shows "deterministic (rows_nd R)"
proof -
  note a = activeD [OF assms]
  have "s < length R" using active_length [OF assms] by (simp add: path_states_def)
  then have "R \<noteq> []" by auto
  have "sorted (snd r)" if "r \<in> set R" for r using row_sorted_distinct(1) a(6) that by blast
  moreover have "d < length R" if r: "r \<in> set R" and arc: "(b, d) \<in> set (snd r)" for r b d
  proof -
    obtain q where "q < length R" "r = R ! q" using r by (auto simp: in_set_conv_nth)
    then show ?thesis using active_dests [OF assms, of q d] arc by force
  qed
  ultimately have "nd_wf (rows_nd R)"
    using \<open>R \<noteq> []\<close> unfolding nd_wf_def by (intro conjI ballI) (simp_all add: rows_nd_def nd_size_def, force+)
  moreover have "q = r" if "(b, q) \<in> nd_arcs (rows_nd R) p" "(b, r) \<in> nd_arcs (rows_nd R) p" for p b q r
  proof -
    have "p < length R" using that(1) by (simp add: nd_arcs_def rows_nd_simps(1) split: if_splits)
    then show ?thesis using that row_arc_delta [of "R ! p" b] a(6) by (simp add: rows_nd_simps)
  qed
  ultimately show ?thesis unfolding deterministic_def by (auto simp: rows_nd_def)
qed

lemma rows_nd_right:
  assumes "active R g s up" "p < length R"
  shows "right_language (rows_nd R) p = words R p"
proof -
  have "w \<in> right_language (rows_nd R) p \<longleftrightarrow> accepts R p w" for w
    using assms(2)
  proof (induction w arbitrary: p)
    case Nil
    then show ?case by (simp add: right_simps rows_nd_def)
  next
    case (Cons a w)
    have "d < length R" if "(a, d) \<in> set (snd (R ! p))" for d
      using active_dests [OF assms(1) Cons.prems, of d] that by force
    then show ?case using Cons by (auto simp: right_simps rows_nd_simps)
  qed
  then show ?thesis by (auto simp: words_def)
qed

lemma words_ne:
  assumes "closed_register R g" "useful R g"
  shows "\<forall>t \<in> set g. words R t \<noteq> {}"
proof -
  have "\<forall>t \<in> set g. snd (R ! t) \<noteq> [] \<or> fst (R ! t)" using assms(2) by (simp add: useful_def)
  then show ?thesis
    using assms(1)
  proof (induction g rule: rev_induct)
    case (snoc c g)
    then have IH: "\<forall>t \<in> set g. words R t \<noteq> {}" by (simp add: closed_register_snoc)
    have "words R c \<noteq> {}"
    proof (cases "snd (R ! c)")
      case Nil
      then have "accepts R c []" using snoc.prems(1) by simp
      then show ?thesis unfolding words_def by blast
    next
      case (Cons e es)
      obtain a d where e: "e = (a, d)" by fastforce
      then have "d \<in> set g" using Cons snoc.prems(2) by (auto simp: closed_register_snoc)
      then obtain v where "accepts R d v" using IH by (auto simp: words_def)
      then have "accepts R c (a # v)" using Cons e by auto
      then show ?thesis unfolding words_def by blast
    qed
    then show ?case using IH by simp
  qed simp
qed

lemma words_Cons: "row_sorted (R ! p) \<Longrightarrow> (a, d) \<in> set (snd (R ! p)) \<Longrightarrow> a # w \<in> words R p \<longleftrightarrow> w \<in> words R d"
  using row_arc_delta [of "R ! p" a] by (auto simp: words_def)

lemma rows_determined:
  assumes "row_sorted (R ! p)" "row_sorted (R ! q)" "words R p = words R q" "dests R p \<union> dests R q \<subseteq> X"
    "inj_on (words R) X" "\<forall>d \<in> X. words R d \<noteq> {}"
  shows "R ! p = R ! q"
proof -
  have sub: "(a, d) \<in> set (snd (R ! y))"
    if xy: "row_sorted (R ! x)" "row_sorted (R ! y)" "words R x = words R y" "dests R x \<union> dests R y \<subseteq> X"
    and arc: "(a, d) \<in> set (snd (R ! x))" for x y a d
  proof -
    have d: "d \<in> X" using xy(4) arc by force
    then obtain v where "v \<in> words R d" using assms(6) by blast
    then have "a # v \<in> words R y" using words_Cons [OF xy(1) arc] xy(3) by blast
    then obtain e where e: "(a, e) \<in> set (snd (R ! y))" by (auto simp: words_def)
    have "w \<in> words R d \<longleftrightarrow> w \<in> words R e" for w
      using words_Cons [OF xy(1) arc] words_Cons [OF xy(2) e] xy(3) by blast
    moreover have "e \<in> X" using xy(4) e by force
    ultimately have "d = e" using assms(5) d by (auto simp: inj_on_def)
    then show ?thesis using e by simp
  qed
  have "set (snd (R ! p)) = set (snd (R ! q))"
    using sub [OF assms(1-4)] sub [OF assms(2,1) assms(3) [symmetric]] assms(4) by auto
  then have "snd (R ! p) = snd (R ! q)"
    using row_sorted_distinct [OF assms(1)] row_sorted_distinct [OF assms(2)] sorted_distinct_set_unique by blast
  moreover have "fst (R ! x) \<longleftrightarrow> [] \<in> words R x" for x by (simp add: words_def)
  ultimately show ?thesis using assms(3) by (auto simp: prod_eq_iff)
qed

lemma register_words_inj:
  assumes "closed_register R g" "\<forall>t \<in> set g. row_sorted (R ! t)" "\<forall>t \<in> set g. words R t \<noteq> {}" "inj_on (\<lambda>r. R ! r) (set g)"
  shows "inj_on (words R) (set g)"
  using assms
proof (induction g rule: rev_induct)
  case (snoc c g)
  have cl: "closed_register R g" "dests R c \<subseteq> set g" using snoc.prems(1) by (simp_all add: closed_register_snoc)
  have inj: "inj_on (words R) (set g)" using snoc cl by (simp add: inj_on_insert)
  have sub: "dests R t \<subseteq> set g" if "t \<in> set (g @ [c])" for t
  proof (cases "t = c")
    case False
    then have "t \<in> set g" using that by simp
    then show ?thesis by (rule closed_register_dests [OF cl(1)])
  qed (use cl(2) in blast)
  show ?case
  proof (rule inj_onI)
    fix p q assume pq: "p \<in> set (g @ [c])" "q \<in> set (g @ [c])" "words R p = words R q"
    have "R ! p = R ! q"
    proof (rule rows_determined [where X = "set g"])
      show "dests R p \<union> dests R q \<subseteq> set g" using sub pq by blast
    qed (use pq snoc.prems inj in auto)
    then show "p = q" using snoc.prems(4) pq by (auto simp: inj_on_def)
  qed
qed simp

lemma rows_accessible:
  assumes "active R g 0 []" "useful R g" "t < length R"
  shows "\<exists>w. (t \<noteq> 0 \<longrightarrow> w \<noteq> []) \<and> run (nd_arcs (rows_nd R)) 0 w t"
proof -
  note a = activeD [OF assms(1)]
  have "\<exists>w. w \<noteq> [] \<and> run (nd_arcs (rows_nd R)) 0 w t" if "g = xs @ t # ys" for xs t ys
    using that
  proof (induction "length ys" arbitrary: xs t ys rule: less_induct)
    case less
    then have "t \<in> set g" by simp
    then obtain q where q: "q < length R" "t \<in> dests R q" using assms(2) unfolding useful_def by blast
    then obtain b where b: "(b, t) \<in> nd_arcs (rows_nd R) q" by (auto simp: rows_nd_simps)
    have "\<exists>w. run (nd_arcs (rows_nd R)) 0 w q"
    proof (cases "q = 0")
      case True
      then have "run (nd_arcs (rows_nd R)) 0 [] q" by simp
      then show ?thesis by blast
    next
      case False
      have "q \<in> path_states 0 [] \<union> set g" unfolding a(4) using q(1) by simp
      then have "q \<in> set g" using False by (simp add: path_states_def)
      then obtain us vs where u: "g = us @ q # vs" by (meson split_list)
      then have "t \<in> set us" using q(2) a(7) unfolding closed_register_def by blast
      then obtain us1 us2 where us: "us = us1 @ t # us2" by (meson split_list)
      have "xs = us1 \<and> ys = us2 @ q # vs"
      proof -
        have "us1 @ t # us2 @ q # vs = xs @ t # ys" using u us less.prems by simp
        moreover have "t \<notin> set us1" "t \<notin> set (us2 @ q # vs)" using a(3) u us by auto
        ultimately show ?thesis using append_Cons_eq_iff [of t us1 "us2 @ q # vs" xs ys] by blast
      qed
      then have "length vs < length ys" by simp
      then show ?thesis using less.hyps [OF _ u] by blast
    qed
    then obtain w where "run (nd_arcs (rows_nd R)) 0 w q" by blast
    then have "run (nd_arcs (rows_nd R)) 0 (w @ [b]) t" using b by auto
    then show ?case by blast
  qed
  note from_register = this
  show ?thesis
  proof (cases "t = 0")
    case True
    then show ?thesis by (intro exI [of _ "[]"]) simp
  next
    case False
    have "t \<in> path_states 0 [] \<union> set g" unfolding a(4) using assms(3) by simp
    then have "t \<in> set g" using False by (simp add: path_states_def)
    then obtain xs ys where "g = xs @ t # ys" by (meson split_list)
    from from_register [OF this] show ?thesis by blast
  qed
qed

lemma rows_reduced:
  assumes "active R g 0 []" "useful R g" "finite (words R 0)" "words R 0 \<noteq> {}"
  shows "reduced (rows_nd R)"
proof -
  note a = activeD [OF assms(1)]
  have states: "{..<length R} = insert 0 (set g)" using a(4) by (simp add: path_states_def)
  have in_g: "t \<in> set g" if "t < length R" "t \<noteq> 0" for t
  proof -
    have "t \<in> {..<length R}" using that(1) by simp
    then show ?thesis unfolding states using that(2) by blast
  qed
  have below: "t < length R" if "t \<in> insert 0 (set g)" for t using that unfolding states [symmetric] by simp
  have sorted: "row_sorted (R ! t)" if "t < length R" for t using a(6) that by simp
  have ne: "words R t \<noteq> {}" if "t < length R" for t
    using words_ne [OF a(7) assms(2)] assms(4) in_g [OF that] by (cases "t = 0") blast+
  have inj: "inj_on (words R) (set g)"
    using register_words_inj [OF a(7) _ _ a(10)] sorted ne below by blast
  have root: "words R t \<noteq> words R 0" if t: "t < length R" "t \<noteq> 0" for t
  proof
    assume same: "words R t = words R 0"
    obtain u where u: "u \<noteq> []" "run (nd_arcs (rows_nd R)) 0 u t" using rows_accessible [OF assms(1,2) t(1)] t(2) by blast
    define n where "n = Max (length ` words R 0)"
    have "n \<in> length ` words R 0" unfolding n_def using assms(3,4) by (intro Max_in) auto
    then obtain v where v: "v \<in> words R 0" "length v = n" by blast
    have "right_language (rows_nd R) t = words R t" "right_language (rows_nd R) 0 = words R 0"
      using rows_nd_right [OF assms(1)] t(1) below by blast+
    then have right: "right_language (rows_nd R) t = words R 0" "right_language (rows_nd R) 0 = words R 0"
      using same by simp_all
    have "v \<in> right_language (rows_nd R) t" using v(1) right(1) by simp
    then have "u @ v \<in> right_language (rows_nd R) 0" using u(2) by (auto simp: right_language_def)
    then have "u @ v \<in> words R 0" using right(2) by simp
    then have "length (u @ v) \<in> length ` words R 0" by (rule imageI)
    then have "length (u @ v) \<le> n" unfolding n_def using assms(3) by (intro Max_ge) simp_all
    then show False using v(2) u(1) by simp
  qed
  have "p = q" if "p < length R" "q < length R" "words R p = words R q" for p q
    using that root [of p] root [of q] inj in_g [of p] in_g [of q] by (metis inj_on_contraD)
  moreover have "accessible (rows_nd R)"
    unfolding accessible_def rows_nd_simps using rows_accessible [OF assms(1,2)] by (auto simp: rows_nd_def)
  ultimately show ?thesis
    unfolding reduced_def rows_nd_simps using rows_nd_deterministic [OF assms(1)] rows_nd_right [OF assms(1)] ne by simp
qed

lemma last_line:
  assumes "sorted lines" "\<exists>line \<in> set lines. line \<noteq> []"
  shows "last lines \<noteq> []" "lines \<noteq> []"
proof -
  show ne: "lines \<noteq> []" using assms(2) by auto
  obtain x where x: "x \<in> set lines" "x \<noteq> []" using assms(2) by blast
  obtain l ls where lines: "lines = ls @ [l]" using ne by (metis rev_exhaust)
  then have "x \<le> l" using assms(1) x(1) by (auto simp: sorted_append)
  then show "last lines \<noteq> []" using x(2) by (auto simp: lines)
qed

lemma minimize_incremental_store:
  assumes "sorted lines" "last lines \<noteq> []" "lines \<noteq> []" "sum_list (map length lines) < 2 ^ 31"
  shows "\<exists>R g. minimize_incremental lines = Some (pack R) \<and> rows_ok R \<and> active R g 0 [] \<and> useful R g \<and> words R 0 = set lines \<and>
    reduced (rows_nd R) \<and> nd_labels (rows_nd R) = set lines"
proof -
  obtain R g where R: "minimize_incremental lines = Some (pack R)" "rows_ok R" "active R g 0 []" "useful R g" "words R 0 = set lines"
    using minimize_incremental_rows [OF assms] by blast
  have "0 < length R" using active_length [OF R(3)] by (simp add: path_states_def)
  then have "nd_labels (rows_nd R) = set lines"
    using rows_nd_right [OF R(3)] R(5) by (simp add: nd_labels_right) (simp add: rows_nd_def)
  moreover have "reduced (rows_nd R)" using rows_reduced [OF R(3,4)] R(5) assms(3) by simp
  ultimately show ?thesis using R by blast
qed

text \<open>C12: The automaton made from sorted lines, not all empty, accepts these lines and nothing else, and no
  deterministic automaton that does has fewer states.  The condition on the length keeps positions
  within the 31 bits they have.\<close>

theorem minimize_incremental_smallest:
  assumes "sorted lines" "\<exists>line \<in> set lines. line \<noteq> []" "sum_list (map length lines) < 2 ^ 31"
  shows "\<exists>A. minimize_incremental lines = Some A \<and> (\<forall>w. bin_in w A \<longleftrightarrow> w \<in> set lines) \<and>
    (\<forall>B. deterministic B \<and> nd_labels B = set lines \<longrightarrow> bin_size A \<le> nd_size B)"
proof -
  obtain R g where R: "minimize_incremental lines = Some (pack R)" "rows_ok R" "active R g 0 []" "words R 0 = set lines"
    "reduced (rows_nd R)" "nd_labels (rows_nd R) = set lines"
    using minimize_incremental_store [OF assms(1) last_line [OF assms(1,2)] assms(3)] by blast
  have "0 < length R" using active_length [OF R(3)] by (simp add: path_states_def)
  then have "bin_in w (pack R) \<longleftrightarrow> w \<in> set lines" for w
    using pack_in [OF R(2,3), of 0 w] R(4) by (auto simp: bin_in_def words_def)
  moreover have "bin_size (pack R) \<le> nd_size B" if "deterministic B" "nd_labels B = set lines" for B
    using reduced_smallest [OF R(5) that(1)] that(2) R(6) by (simp add: pack_simps rows_nd_simps)
  ultimately show ?thesis using R(1) by blast
qed

theorem minimize_incremental_smallest_witness:
  "\<exists>A. minimize_incremental [''ab'', ''ac'', ''bb''] = Some A \<and> (\<forall>w. bin_in w A \<longleftrightarrow> w \<in> {''ab'', ''ac'', ''bb''}) \<and>
    (\<forall>B. deterministic B \<and> nd_labels B = {''ab'', ''ac'', ''bb''} \<longrightarrow> bin_size A \<le> nd_size B)"
  using minimize_incremental_smallest [of "[''ab'', ''ac'', ''bb'']"] by (simp add: less_char_def)

end
