(* ===== verification/Multi_Store.thy ===== *)
theory Multi_Store imports Fsa_Operations Incremental_Minimal "HOL-Library.Multiset" begin

text \<open>The store of a lexicon (fsa_multi_store.hpp, fsa_multi_store.cpp): an automaton of lines with a key,
  a separator and a value, asked for the values of a key by intersection with an automaton for the key.\<close>

section \<open>Operations\<close>

definition LEXICON_FIELD_SEPARATOR :: string where
  "LEXICON_FIELD_SEPARATOR = [CHR 0x09]"

record FSAMultiStore =
  storeFSA :: bin_dfsa
  searchSuffixFSA :: ndfsa

definition buildSearchSuffix :: "ndfsa option" where
  "buildSearchSuffix =
     (let separatorFSA = nd_ofString LEXICON_FIELD_SEPARATOR
      in Option.bind (fsa_concatenate newNDFSA (nd_class separatorFSA)) (\<lambda>searchSuffixFSA.
        let anyFSA = kleene_plus (nd_ofSymbol ANY) in fsa_concatenate searchSuffixFSA (nd_class anyFSA)))"

definition newMultiStore :: "FSAMultiStore option" where
  "newMultiStore = map_option (\<lambda>A. \<lparr>storeFSA = newBinDFSA, searchSuffixFSA = A\<rparr>) buildSearchSuffix"

definition KeyTruncator :: "string \<Rightarrow> string \<Rightarrow> string" where
  "KeyTruncator key record =
     (let prefix = key @ LEXICON_FIELD_SEPARATOR
      in if prefix = take (length prefix) record then drop (length prefix) record else record)"

definition store_get :: "string \<Rightarrow> FSAMultiStore \<Rightarrow> string list option" where
  "store_get key st =
     map_option (\<lambda>queryFSA. map (KeyTruncator key) (language (nd_class queryFSA) 10000))
       (Option.bind (fsa_concatenate (nd_ofString key) (nd_class (searchSuffixFSA st)))
         (\<lambda>queryFSA. intersect queryFSA (bin_class (storeFSA st)) True))"

definition createFromSeparatedSortedLines :: "string list \<Rightarrow> FSAMultiStore \<Rightarrow> FSAMultiStore option" where
  "createFromSeparatedSortedLines lines st =
     map_option (\<lambda>localStore. st\<lparr>storeFSA := localStore\<rparr>) (minimize_incremental lines)"

definition createFromSeparatedLines :: "string list \<Rightarrow> FSAMultiStore \<Rightarrow> FSAMultiStore option" where
  "createFromSeparatedLines lines st = createFromSeparatedSortedLines (sort lines) st"

section \<open>The automaton of a word\<close>

lemma add_word_states:
  "nd_states A = S @ [[]] \<Longrightarrow> add_word w (length S) A =
    (length S + length w, A\<lparr>nd_states := S @ map (\<lambda>i. [(w ! i, length S + Suc i)]) [0..<length w] @ [[]]\<rparr>)"
proof (induction w arbitrary: S A)
  case Nil
  then show ?case by (cases A) simp
next
  case (Cons a w)
  let ?S = "S @ [[(a, Suc (length S))]]"
  let ?A = "A\<lparr>nd_states := ?S @ [[]]\<rparr>"
  have 1: "nd_addState False A = (Suc (length S), A\<lparr>nd_states := S @ [[], []]\<rparr>)"
    using Cons.prems by (simp add: nd_addState_def nd_size_def Let_def)
  have 2: "nd_addArc (length S) (a, Suc (length S)) (A\<lparr>nd_states := S @ [[], []]\<rparr>) = ?A"
    by (simp add: nd_addArc_def nth_append)
  have "add_word (a # w) (length S) A = add_word w (length ?S) ?A"
    using 1 2 by simp
  also have "\<dots> = (length ?S + length w, ?A\<lparr>nd_states := ?S @ map (\<lambda>i. [(w ! i, length ?S + Suc i)]) [0..<length w] @ [[]]\<rparr>)"
    by (rule Cons.IH) simp
  also have "map (\<lambda>i. [((a # w) ! i, length S + Suc i)]) [0..<length (a # w)] =
      [(a, Suc (length S))] # map (\<lambda>i. [(w ! i, length ?S + Suc i)]) [0..<length w]"
    by (simp only: length_Cons upt_conv_Cons map_upt_Suc zero_less_Suc if_True) (simp add: map_Suc_upt [symmetric] comp_def del: map_Suc_upt upt_Suc)
  then have "(length ?S + length w, ?A\<lparr>nd_states := ?S @ map (\<lambda>i. [(w ! i, length ?S + Suc i)]) [0..<length w] @ [[]]\<rparr>) =
      (length S + length (a # w), A\<lparr>nd_states := S @ map (\<lambda>i. [((a # w) ! i, length S + Suc i)]) [0..<length (a # w)] @ [[]]\<rparr>)"
    by (simp only:) simp
  finally show ?case .
qed

lemma ofString_eq:
  "nd_ofString w = \<lparr>nd_states = map (\<lambda>i. [(w ! i, Suc i)]) [0..<length w] @ [[]], nd_startStates = {0}, nd_endStates = {length w}\<rparr>"
  using add_word_states [of "\<lparr>nd_states = [[]], nd_startStates = {0}, nd_endStates = {}\<rparr>" "[]" w]
  by (simp add: nd_ofString_def nd_addState_def newNDFSA_def nd_size_def nd_setEndState_def Let_def)

lemma ofString_arcs: "nd_arcs (nd_ofString w) p = (if p < length w then {(w ! p, Suc p)} else {})"
  by (auto simp: ofString_eq nd_arcs_def nd_size_def nth_append less_Suc_eq)

lemma ofString_wf: "nd_wf (nd_ofString w)"
  by (auto simp: ofString_eq nd_wf_def nd_size_def)

lemma ofString_run: "p \<le> length w \<Longrightarrow> run (nd_arcs (nd_ofString w)) p u q \<longleftrightarrow> q \<le> length w \<and> p \<le> q \<and> u = take (q - p) (drop p w)"
proof (induction u arbitrary: p)
  case Nil
  then show ?case by auto
next
  case (Cons a u)
  show ?case
  proof (cases "p < length w")
    case True
    then have "run (nd_arcs (nd_ofString w)) p (a # u) q \<longleftrightarrow> a = w ! p \<and> q \<le> length w \<and> Suc p \<le> q \<and> u = take (q - Suc p) (drop (Suc p) w)"
    proof -
      have "nd_arcs (nd_ofString w) p = {(w ! p, Suc p)}" using True by (simp add: ofString_arcs)
      then show ?thesis using Cons.IH [of "Suc p"] True by auto
    qed
    also have "\<dots> \<longleftrightarrow> q \<le> length w \<and> p \<le> q \<and> a # u = take (q - p) (drop p w)"
    proof (cases "p < q")
      case True
      then obtain d where "q = Suc (p + d)" using less_imp_Suc_add by blast
      then show ?thesis using \<open>p < length w\<close> by (auto simp: Cons_nth_drop_Suc [symmetric])
    qed auto
    finally show ?thesis .
  qed (use Cons.prems in \<open>auto simp: ofString_arcs\<close>)
qed

lemma ofString_labels: "nd_labels (nd_ofString w) = {w}"
proof -
  have "nd_startStates (nd_ofString w) = {0}" "nd_endStates (nd_ofString w) = {length w}" by (simp_all add: ofString_eq)
  then show ?thesis using ofString_run [of 0 w] by (auto simp: nd_labels_def labels_def)
qed

lemma ofSymbol_eq: "nd_ofSymbol s = nd_ofString [s]"
  by (simp add: nd_ofSymbol_def nd_ofString_def Let_def case_prod_beta')

section \<open>Words of an automaton\<close>

lemma language_rec_set:
  assumes "nd_wf A" "s < nd_size A"
  shows "set (language_rec (nd_class A) n s word) = {word @ w |w. w \<in> right_language A s \<and> length (word @ w) \<le> n}"
  using assms(2)
proof (induction "Suc n - length word" arbitrary: s word rule: less_induct)
  case less
  show ?case
  proof (cases "length word > n")
    case True
    then show ?thesis by (subst language_rec.simps) auto
  next
    case False
    let ?R = "\<lambda>d a. {(word @ [a]) @ w |w. w \<in> right_language A d \<and> length ((word @ [a]) @ w) \<le> n}"
    have arcs: "set (getArcs (nd_class A) s) = nd_arcs A s" using less.prems by (simp add: nd_class_def nd_set_getArcs)
    have rec: "set (language_rec (nd_class A) n d (word @ [a])) = ?R d a" if "(a, d) \<in> nd_arcs A s" for a d
      using less.hyps [of "word @ [a]" d] nd_arcs_dest [OF assms(1) that] False by simp
    have "set (language_rec (nd_class A) n s word) =
        (if s \<in> nd_endStates A then {word} else {}) \<union> (\<Union>(a, d) \<in> nd_arcs A s. set (language_rec (nd_class A) n d (word @ [a])))"
      using False arcs by (subst language_rec.simps) (auto simp: nd_class_def nd_isEndState_def)
    also have "(\<Union>(a, d) \<in> nd_arcs A s. set (language_rec (nd_class A) n d (word @ [a]))) = (\<Union>(a, d) \<in> nd_arcs A s. ?R d a)"
      using rec by fastforce
    also have "(if s \<in> nd_endStates A then {word} else {}) \<union> (\<Union>(a, d) \<in> nd_arcs A s. ?R d a) =
        {word @ w |w. w \<in> right_language A s \<and> length (word @ w) \<le> n}" (is "?L = ?M")
    proof -
      have "x \<in> ?L \<longleftrightarrow> x \<in> ?M" for x
      proof
        assume "x \<in> ?M"
        then obtain w where w: "x = word @ w" "w \<in> right_language A s" "length (word @ w) \<le> n" by blast
        then show "x \<in> ?L" by (cases w) (force simp: right_simps)+
      next
        assume "x \<in> ?L"
        then consider "s \<in> nd_endStates A" "x = word" | a d w where "(a, d) \<in> nd_arcs A s" "x = (word @ [a]) @ w"
            "w \<in> right_language A d" "length ((word @ [a]) @ w) \<le> n" by (auto split: if_splits)
        then show "x \<in> ?M"
        proof cases
          case 1
          then have "x = word @ []" "[] \<in> right_language A s" "length (word @ []) \<le> n" using False by (simp_all add: right_simps)
          then show ?thesis by blast
        next
          case 2
          then have "x = word @ a # w" "a # w \<in> right_language A s" "length (word @ a # w) \<le> n" by (auto simp: right_simps)
          then show ?thesis by blast
        qed
      qed
      then show ?thesis by blast
    qed
    finally show ?thesis .
  qed
qed

lemma language_set:
  assumes "nd_wf A"
  shows "set (language (nd_class A) n) = {w \<in> nd_labels A. length w \<le> n}"
proof -
  have "set (language (nd_class A) n) = (\<Union>s \<in> nd_startStates A. set (language_rec (nd_class A) n s []))"
    using assms by (simp add: language_def nd_class_def)
  also have "\<dots> = (\<Union>s \<in> nd_startStates A. {w \<in> right_language A s. length w \<le> n})"
    using language_rec_set [OF assms] nd_wf_bounds [OF assms] by simp
  finally show ?thesis by (auto simp: nd_labels_right)
qed

section \<open>Intersection with a store\<close>

text \<open>Runs of an automaton in which the arcs with the empty word are taken before the other ones.\<close>

abbreviation eps_arcs :: "ndfsa \<Rightarrow> nat \<Rightarrow> nat arc set" where
  "eps_arcs A p \<equiv> {(a, q). a \<noteq> EPS \<and> (\<exists>r. (p, r) \<in> (nd_eps A)\<^sup>* \<and> (a, q) \<in> nd_arcs A r)}"

lemma run_eps_arcs:
  "run (eps_arcs A) p v f \<longleftrightarrow> (\<exists>u. run (nd_arcs A) p u f \<and> visible u = v \<and> (u = [] \<or> last u \<noteq> EPS))"
proof
  assume "run (eps_arcs A) p v f"
  then show "\<exists>u. run (nd_arcs A) p u f \<and> visible u = v \<and> (u = [] \<or> last u \<noteq> EPS)"
  proof (induction v arbitrary: p)
    case Nil
    then show ?case by (intro exI [of _ "[]"]) simp
  next
    case (Cons a v)
    then obtain r s where r: "a \<noteq> EPS" "(p, r) \<in> (nd_eps A)\<^sup>*" "(a, s) \<in> nd_arcs A r" "run (eps_arcs A) s v f" by auto
    obtain x where "run (nd_arcs A) p x r" "visible x = []" using run_eps [OF r(2)] by blast
    moreover obtain u where "run (nd_arcs A) s u f" "visible u = v" "u = [] \<or> last u \<noteq> EPS" using Cons.IH [OF r(4)] by blast
    ultimately have "run (nd_arcs A) p (x @ a # u) f" "visible (x @ a # u) = a # v" "last (x @ a # u) \<noteq> EPS"
      using r(1,3) by auto
    then show ?case by blast
  qed
next
  assume "\<exists>u. run (nd_arcs A) p u f \<and> visible u = v \<and> (u = [] \<or> last u \<noteq> EPS)"
  then obtain u where "run (nd_arcs A) p u f" "visible u = v" "u = [] \<or> last u \<noteq> EPS" by blast
  then show "run (eps_arcs A) p v f"
  proof (induction u arbitrary: p v)
    case (Cons b u)
    then obtain s where s: "(b, s) \<in> nd_arcs A p" "run (nd_arcs A) s u f" by auto
    show ?case
    proof (cases "b = EPS")
      case False
      have "u = [] \<or> last u \<noteq> EPS" using Cons.prems(3) by auto
      then have "run (eps_arcs A) s (visible u) f" using Cons.IH [OF s(2)] by blast
      moreover have "(b, s) \<in> eps_arcs A p" using False s(1) by blast
      ultimately have "run (eps_arcs A) p (b # visible u) f" unfolding run.simps by blast
      moreover have "v = b # visible u" using False Cons.prems(2) by simp
      ultimately show ?thesis by (simp only:)
    next
      case True
      then have u: "u \<noteq> []" "last u \<noteq> EPS" using Cons.prems(3) by (auto split: if_splits)
      have run: "run (eps_arcs A) s v f" using Cons.IH [OF s(2)] Cons.prems(2) True u by simp
      have "last u \<in> set v" using u Cons.prems(2) True by (auto simp: visible_def)
      then obtain a w where v: "v = a # w" by (cases v) auto
      then obtain t r where t: "a \<noteq> EPS" "(s, r) \<in> (nd_eps A)\<^sup>*" "(a, t) \<in> nd_arcs A r" "run (eps_arcs A) t w f"
        using run by auto
      have "(p, r) \<in> (nd_eps A)\<^sup>*" using s(1) True t(2) by (auto simp: nd_eps_def intro: converse_rtrancl_into_rtrancl)
      then have "(a, t) \<in> eps_arcs A p" using t(1,3) by blast
      then show ?thesis unfolding v run.simps using t(4) by blast
    qed
  qed simp
qed

text \<open>An automaton whose symbols are all letters: it is its own closure.\<close>

definition letter :: "symbol \<Rightarrow> bool" where
  "letter a \<longleftrightarrow> a \<noteq> EPS \<and> a \<noteq> ANY"

definition plain_class :: "fsa_class \<Rightarrow> nat \<Rightarrow> bool" where
  "plain_class B n \<longleftrightarrow> (\<forall>q < n. epsClosure B q = {q} \<and> (\<forall>(b, d) \<in> set (getArcs B q). letter b \<and> d < n))"

definition agrees :: "symbol \<Rightarrow> symbol \<Rightarrow> bool" where
  "agrees a b \<longleftrightarrow> a = b \<or> a = ANY"

lemma joint_letters: "letter b \<Longrightarrow> set (joint_arcs True (a, x) (b, y)) = (if agrees a b then {(b, x, y)} else {})"
  by (auto simp: joint_arcs_def agrees_def letter_def)

lemma any_eps: "ANY \<noteq> EPS"
  by (simp add: ANY_def EPS_def)

lemma intersector_arcs:
  assumes "nd_wf A" "p < nd_size A" "plain_class B n" "q < n"
  shows "set (arcFn (Intersector (nd_class A) B True) (p, q)) =
    {(b, x, y). \<exists>a. (a, x) \<in> eps_arcs A p \<and> (b, y) \<in> set (getArcs B q) \<and> agrees a b}"
proof -
  have cl: "nd_epsClosure p A = (nd_eps A)\<^sup>* `` {p}" by (rule nd_epsClosure [OF assms(1,2)])
  have closed: "r < nd_size A" if "(p, r) \<in> (nd_eps A)\<^sup>*" for r
    using that by induction (use assms nd_arcs_dest [OF assms(1)] in \<open>auto simp: nd_eps_def\<close>)
  then have fin: "finite (nd_epsClosure p A)" unfolding cl by (auto intro: finite_subset [of _ "{..<nd_size A}"])
  have B: "epsClosure B q = {q}" "\<And>b d. (b, d) \<in> set (getArcs B q) \<Longrightarrow> letter b"
    using assms(3,4) by (auto simp: plain_class_def)
  have "set (arcFn (Intersector (nd_class A) B True) (p, q)) =
      (\<Union>r \<in> nd_epsClosure p A. \<Union>x \<in> set (nd_getArcs r A). \<Union>y \<in> set (getArcs B q). set (joint_arcs True x y))"
    using fin by (simp add: Intersector_def nd_class_def B(1))
  also have "\<dots> = (\<Union>r \<in> (nd_eps A)\<^sup>* `` {p}. \<Union>x \<in> nd_arcs A r. \<Union>y \<in> set (getArcs B q). set (joint_arcs True x y))"
    unfolding cl using closed nd_set_getArcs by simp
  also have "\<dots> = {(b, x, y). \<exists>a. (a, x) \<in> eps_arcs A p \<and> (b, y) \<in> set (getArcs B q) \<and> agrees a b}" (is "?L = ?M")
  proof -
    have "(b, x, y) \<in> ?L \<longleftrightarrow> (b, x, y) \<in> ?M" for b x y
    proof
      assume "(b, x, y) \<in> ?L"
      then obtain r a x' b' y' where r: "(p, r) \<in> (nd_eps A)\<^sup>*" "(a, x') \<in> nd_arcs A r" "(b', y') \<in> set (getArcs B q)"
        "(b, x, y) \<in> set (joint_arcs True (a, x') (b', y'))" by auto
      then have *: "agrees a b" "b' = b" "x' = x" "y' = y" using joint_letters [OF B(2) [OF r(3)]] by (auto split: if_splits)
      then have "a \<noteq> EPS" using B(2) [OF r(3)] any_eps by (auto simp: agrees_def letter_def)
      then show "(b, x, y) \<in> ?M" using r * by blast
    next
      assume "(b, x, y) \<in> ?M"
      then obtain a r where r: "(p, r) \<in> (nd_eps A)\<^sup>*" "(a, x) \<in> nd_arcs A r" "(b, y) \<in> set (getArcs B q)" "agrees a b" by blast
      then have "(b, x, y) \<in> set (joint_arcs True (a, x) (b, y))" using joint_letters [OF B(2) [OF r(3)]] by simp
      then show "(b, x, y) \<in> ?L" using r(1-3) by blast
    qed
    then have "z \<in> ?L \<longleftrightarrow> z \<in> ?M" for z by (cases z rule: prod_cases3) (simp only:)
    then show ?thesis by (rule set_eqI)
  qed
  finally show ?thesis .
qed

lemma intersector_run:
  assumes "nd_wf A" "plain_class B n" "p < nd_size A" "q < n"
  shows "run (\<lambda>x. set (arcFn (Intersector (nd_class A) B True) x)) (p, q) w (f, e) \<longleftrightarrow>
    (\<exists>v. run (eps_arcs A) p v f \<and> list_all2 agrees v w) \<and> run (\<lambda>q. set (getArcs B q)) q w e"
  using assms(3,4)
proof (induction w arbitrary: p q)
  case Nil
  then show ?case by auto
next
  case (Cons b w)
  let ?D = "\<lambda>x. set (arcFn (Intersector (nd_class A) B True) x)" and ?E = "eps_arcs A" and ?B = "\<lambda>q. set (getArcs B q)"
  have bounds: "x < nd_size A \<and> y < n" if "(a, x) \<in> ?E p" "(b, y) \<in> ?B q" for a x y
    using that assms(2) Cons.prems(2) nd_arcs_dest [OF assms(1)] by (auto simp: plain_class_def)
  have "run ?D (p, q) (b # w) (f, e) \<longleftrightarrow> (\<exists>x y. (b, x, y) \<in> ?D (p, q) \<and> run ?D (x, y) w (f, e))" by auto
  also have "\<dots> \<longleftrightarrow> (\<exists>x y a. ((a, x) \<in> ?E p \<and> (b, y) \<in> ?B q \<and> agrees a b) \<and> run ?D (x, y) w (f, e))"
    unfolding intersector_arcs [OF assms(1) Cons.prems(1) assms(2) Cons.prems(2)] by blast
  also have "\<dots> \<longleftrightarrow> (\<exists>x y a. ((a, x) \<in> ?E p \<and> (b, y) \<in> ?B q \<and> agrees a b) \<and>
      (\<exists>v. run ?E x v f \<and> list_all2 agrees v w) \<and> run ?B y w e)"
    using Cons.IH bounds by blast
  also have "\<dots> \<longleftrightarrow> (\<exists>v. run ?E p v f \<and> list_all2 agrees v (b # w)) \<and> run ?B q (b # w) e"
  proof
    assume "\<exists>x y a. ((a, x) \<in> ?E p \<and> (b, y) \<in> ?B q \<and> agrees a b) \<and> (\<exists>v. run ?E x v f \<and> list_all2 agrees v w) \<and> run ?B y w e"
    then obtain x y a v where x: "(a, x) \<in> ?E p" "(b, y) \<in> ?B q" "agrees a b" "run ?E x v f" "list_all2 agrees v w" "run ?B y w e"
      by blast
    have "run ?E p (a # v) f" unfolding run.simps using x(1,4) by blast
    moreover have "run ?B q (b # w) e" unfolding run.simps using x(2,6) by blast
    moreover have "list_all2 agrees (a # v) (b # w)" using x(3,5) by simp
    ultimately show "(\<exists>v. run ?E p v f \<and> list_all2 agrees v (b # w)) \<and> run ?B q (b # w) e" by blast
  next
    assume "(\<exists>v. run ?E p v f \<and> list_all2 agrees v (b # w)) \<and> run ?B q (b # w) e"
    then obtain v where v: "run ?E p v f" "list_all2 agrees v (b # w)" "run ?B q (b # w) e" by blast
    obtain a v' where a: "v = a # v'" "agrees a b" "list_all2 agrees v' w" using v(2) by (auto simp: list_all2_Cons2)
    obtain x where x: "(a, x) \<in> ?E p" "run ?E x v' f" using v(1) unfolding a(1) run.simps by blast
    obtain y where y: "(b, y) \<in> ?B q" "run ?B y w e" using v(3) unfolding run.simps by blast
    show "\<exists>x y a. ((a, x) \<in> ?E p \<and> (b, y) \<in> ?B q \<and> agrees a b) \<and> (\<exists>v. run ?E x v f \<and> list_all2 agrees v w) \<and> run ?B y w e"
      using x y a(2,3) by blast
  qed
  finally show ?case .
qed

text \<open>The words of the intersection: those of the store with which some word of the query agrees.  Both
  automata start with their first state.\<close>

lemma intersect_correct:
  assumes "nd_wf A" "plain_class B n" "0 < n" "nd_startStates A = {0}" "getStartStates B = {0}"
  shows "\<exists>C. intersect A B True = Some C \<and> nd_wf C \<and>
    nd_labels C = {w \<in> class_labels B. \<exists>u \<in> nd_labels A. (u = [] \<or> last u \<noteq> EPS) \<and> list_all2 agrees (visible u) w}"
proof -
  let ?W = "Intersector (nd_class A) B True"
  have s0: "0 < nd_size A" using assms(1,4) by (auto simp: nd_wf_def)
  have start: "set (startFn ?W) = {(0, 0)}" "distinct (startFn ?W)"
    using assms(4) by (simp_all add: Intersector_def nd_class_def)
  have "reached ?W \<subseteq> {..<nd_size A} \<times> {..<n}"
  proof (rule reached_in)
    show "set (startFn ?W) \<subseteq> {..<nd_size A} \<times> {..<n}" using start s0 assms(3) by simp
    show "y \<in> {..<nd_size A} \<times> {..<n}" if x: "x \<in> {..<nd_size A} \<times> {..<n}" and arc: "(a, y) \<in> set (arcFn ?W x)" for x a y
    proof -
      obtain p q r t where pq: "x = (p, q)" "y = (r, t)" by fastforce
      then have "p < nd_size A" "q < n" using x by simp_all
      then obtain b where "(b, r) \<in> eps_arcs A p" "(a, t) \<in> set (getArcs B q)"
        using arc intersector_arcs [OF assms(1) _ assms(2)] unfolding pq by blast
      then show ?thesis
        using \<open>q < n\<close> assms(2) nd_arcs_dest [OF assms(1)] unfolding pq by (auto simp: plain_class_def)
    qed
  qed
  then obtain C where C: "traverse ?W newNDFSA = Some C" "nd_wf C" "nd_labels C = wrapper_labels ?W"
    using traverse_labels [OF nd_wf_new start(2), of "{..<nd_size A} \<times> {..<n}"] by auto
  have final: "finalFn ?W (f, e) \<longleftrightarrow> f \<in> nd_endStates A \<and> isEndState B e" for f e
    by (simp add: Intersector_def nd_class_def nd_isEndState_def)
  have "w \<in> wrapper_labels ?W \<longleftrightarrow> (\<exists>f e. run (\<lambda>x. set (arcFn ?W x)) (0, 0) w (f, e) \<and> f \<in> nd_endStates A \<and> isEndState B e)" for w
    unfolding wrapper_labels_def labels_def start using final by auto
  then have "w \<in> wrapper_labels ?W \<longleftrightarrow> (\<exists>f e. ((\<exists>v. run (eps_arcs A) 0 v f \<and> list_all2 agrees v w) \<and>
      run (\<lambda>q. set (getArcs B q)) 0 w e) \<and> f \<in> nd_endStates A \<and> isEndState B e)" for w
    unfolding intersector_run [OF assms(1,2) s0 assms(3)] .
  moreover have "w \<in> class_labels B \<longleftrightarrow> (\<exists>e. run (\<lambda>q. set (getArcs B q)) 0 w e \<and> isEndState B e)" for w
    by (auto simp: class_labels_def labels_def assms(5))
  moreover have "u \<in> nd_labels A \<longleftrightarrow> (\<exists>f \<in> nd_endStates A. run (nd_arcs A) 0 u f)" for u
    by (auto simp: nd_labels_def labels_def assms(4))
  ultimately have "w \<in> nd_labels C \<longleftrightarrow> w \<in> class_labels B \<and> (\<exists>u \<in> nd_labels A. (u = [] \<or> last u \<noteq> EPS) \<and> list_all2 agrees (visible u) w)" for w
    unfolding C(3) run_eps_arcs by blast
  then show ?thesis using C(1,2) unfolding intersect_def by blast
qed

section \<open>The store\<close>

lemma pack_class:
  assumes "rows_ok R" "p < length R"
  shows "getArcs (bin_class (pack R)) p = snd (R ! p)" "isEndState (bin_class (pack R)) p = fst (R ! p)"
  using pack_arcs_nat [OF assms] unpack(3) [OF assms] by (simp_all add: bin_class_def)

lemma store_plain:
  assumes "rows_ok R" "active R g 0 []" "useful R g" "\<forall>w \<in> words R 0. \<forall>c \<in> set w. letter c"
  shows "plain_class (bin_class (pack R)) (length R)"
  unfolding plain_class_def
proof (intro allI impI)
  note a = activeD [OF assms(2)]
  fix q assume q: "q < length R"
  have arcs: "letter b \<and> d < length R" if arc: "(b, d) \<in> set (snd (R ! q))" for b d
  proof -
    have d: "d \<in> dests R q" using arc by force
    have "q \<in> path_states 0 [] \<union> set g" unfolding a(4) using q by simp
    then have "q = 0 \<or> q \<in> set g" by (simp add: path_states_def)
    then have "d \<in> set g" using d a(2) closed_register_dests [OF a(7)] by blast
    then obtain v where v: "v \<in> words R d" using words_ne [OF a(7) assms(3)] by blast
    have len: "d < length R" using active_dests [OF assms(2) q d] .
    have len0: "0 < length R" using q by (cases R) auto
    obtain u where "run (nd_arcs (rows_nd R)) 0 u q" using rows_accessible [OF assms(2,3) q] by blast
    moreover have "(b, d) \<in> nd_arcs (rows_nd R) q" using arc q by (simp add: rows_nd_simps)
    moreover have "v \<in> right_language (rows_nd R) d" using v rows_nd_right [OF assms(2) len] by simp
    ultimately have "u @ b # v \<in> right_language (rows_nd R) 0" by (auto simp: right_language_def)
    then have "u @ b # v \<in> words R 0" using rows_nd_right [OF assms(2) len0] by simp
    then show ?thesis using assms(4) len by fastforce
  qed
  have "(eps_rel (\<lambda>p. bin_arcs_nat p (pack R)))\<^sup>* `` {q} = {q}"
  proof -
    have "(q, d) \<notin> eps_rel (\<lambda>p. bin_arcs_nat p (pack R))" for d
      using arcs pack_arcs_nat [OF assms(1) q] by (auto simp: eps_rel_def letter_def)
    then have "eps_rel (\<lambda>p. bin_arcs_nat p (pack R)) `` {q} \<subseteq> {q}" by blast
    then show ?thesis by (rule Image_closed_trancl)
  qed
  then have "eps_loop (\<lambda>p. bin_arcs_nat p (pack R)) q = Some ({q}, [])" using eps_loop [of "\<lambda>p. bin_arcs_nat p (pack R)" q] by simp
  then have "epsClosure (bin_class (pack R)) q = {q}" by (simp add: bin_class_def bin_epsClosure_def)
  then show "epsClosure (bin_class (pack R)) q = {q} \<and> (\<forall>(b, d) \<in> set (getArcs (bin_class (pack R)) q). letter b \<and> d < length R)"
    using arcs pack_class(1) [OF assms(1) q] by auto
qed

lemma store_labels:
  assumes "rows_ok R" "active R g 0 []"
  shows "class_labels (bin_class (pack R)) = words R 0"
proof -
  have n: "0 < length R" using active_length [OF assms(2)] by (simp add: path_states_def)
  have starts: "getStartStates (bin_class (pack R)) = {0}" by (simp add: bin_class_def bin_getStartStates_def)
  have "labels (\<lambda>p. set (getArcs (bin_class (pack R)) p)) {0} {p. isEndState (bin_class (pack R)) p} = nd_labels (rows_nd R)"
    unfolding nd_labels_def
  proof (subst labels_cong [where X = "{..<length R}"])
    fix p a q assume "p \<in> {..<length R}" "(a, q) \<in> set (getArcs (bin_class (pack R)) p)"
    then have "p < length R" "q \<in> dests R p" using pack_class(1) [OF assms(1)] by force+
    then show "q \<in> {..<length R}" using active_dests [OF assms(2)] by simp
  next
    show "labels (nd_arcs (rows_nd R)) {0} (nd_endStates (rows_nd R)) =
        labels (nd_arcs (rows_nd R)) (nd_startStates (rows_nd R)) (nd_endStates (rows_nd R))"
      by (simp add: rows_nd_def)
  qed (use n pack_class [OF assms(1)] in \<open>simp_all add: rows_nd_simps, simp add: rows_nd_def\<close>)
  also have "\<dots> = words R 0" using rows_nd_right [OF assms(2) n] by (simp add: nd_labels_right) (simp add: rows_nd_def)
  finally show ?thesis by (simp add: class_labels_def starts)
qed

lemma iterated_any:
  "u \<in> iterated {[ANY]} \<Longrightarrow> u \<noteq> [] \<and> last u = ANY \<and> (\<exists>n. visible u = replicate (Suc n) ANY)"
proof (induction rule: iterated.induct)
  case (once w)
  then have "visible w = replicate (Suc 0) ANY" using any_eps by simp
  then show ?case using once by (intro conjI exI [of _ 0]) simp_all
next
  case (again u v)
  then obtain n where "visible v = replicate (Suc n) ANY" by blast
  then have "visible (u @ EPS # v) = replicate (Suc (Suc n)) ANY" using again.hyps(1) any_eps by simp
  then have "\<exists>n. visible (u @ EPS # v) = replicate (Suc n) ANY" by (rule exI)
  then show ?case using again.IH by simp
qed

lemma any_iterated: "\<exists>u \<in> iterated {[ANY]}. visible u = replicate (Suc n) ANY"
proof (induction n)
  case 0
  have "[ANY] \<in> iterated {[ANY]}" "visible [ANY] = replicate (Suc 0) ANY" using any_eps by (simp_all add: iterated.once)
  then show ?case by blast
next
  case (Suc n)
  then obtain u where "u \<in> iterated {[ANY]}" "visible u = replicate (Suc n) ANY" by blast
  moreover from this(1) have "[ANY] @ EPS # u \<in> iterated {[ANY]}" by (rule iterated.again [rotated]) simp
  ultimately have "[ANY] @ EPS # u \<in> iterated {[ANY]}" "visible ([ANY] @ EPS # u) = replicate (Suc (Suc n)) ANY"
    using any_eps by simp_all
  then show ?case by blast
qed

lemma buildSearchSuffix_labels:
  "\<exists>A. buildSearchSuffix = Some A \<and> nd_wf A \<and>
    nd_labels A = {LEXICON_FIELD_SEPARATOR @ EPS # m |m. m \<in> iterated {[ANY]}}"
proof -
  let ?sep = "nd_class (nd_ofString LEXICON_FIELD_SEPARATOR)" and ?any = "kleene_plus (nd_ofSymbol ANY)"
  have sep: "class_closed ?sep (nd_size (nd_ofString LEXICON_FIELD_SEPARATOR))" "class_labels ?sep = {LEXICON_FIELD_SEPARATOR}"
    using nd_class_closed nd_class_labels ofString_wf ofString_labels by simp_all
  have any: "nd_wf ?any" "nd_labels ?any = iterated {[ANY]}"
    using kleene_plus_arcs kleene_plus_labels ofString_wf ofString_labels by (simp_all add: ofSymbol_eq)
  have none: "nd_endStates newNDFSA = {}" by simp
  obtain A where A: "fsa_concatenate newNDFSA ?sep = Some A" "nd_wf A" "unify newNDFSA ?sep = Some A"
    using concatenate_correct [OF nd_wf_new sep(1)] none unfolding unify_def by blast
  have labels: "nd_labels A = {LEXICON_FIELD_SEPARATOR}"
    using unify_correct [OF nd_wf_new sep(1)] A(3) sep(2) by auto
  then have "nd_endStates A \<noteq> {}" by (auto simp: nd_labels_def labels_def)
  then obtain B where "fsa_concatenate A (nd_class ?any) = Some B" "nd_wf B"
    "nd_labels B = {u @ EPS # v |u v. u \<in> nd_labels A \<and> v \<in> class_labels (nd_class ?any)}"
    using concatenate_correct [OF A(2) nd_class_closed [OF any(1)]] by blast
  then show ?thesis
    using A(1) labels any(2) nd_class_labels [OF any(1)] by (simp add: buildSearchSuffix_def Let_def)
qed

lemma agrees_letters:
  "\<forall>c \<in> set k. letter c \<Longrightarrow> list_all2 agrees (k @ x) w \<longleftrightarrow> (\<exists>v. w = k @ v \<and> list_all2 agrees x v)"
proof (induction k arbitrary: w)
  case (Cons c k)
  then have "agrees c b \<longleftrightarrow> b = c" for b by (auto simp: agrees_def letter_def)
  then show ?case using Cons by (auto simp: list_all2_Cons1)
qed simp

lemma agrees_any: "list_all2 agrees (replicate n ANY) w \<longleftrightarrow> length w = n"
  by (induction n arbitrary: w) (auto simp: list_all2_Cons1 agrees_def length_Suc_conv)

lemma visible_letters: "\<forall>c \<in> set u. letter c \<Longrightarrow> visible u = u"
  by (induction u) (auto simp: letter_def)

lemma separator_letter: "\<forall>c \<in> set LEXICON_FIELD_SEPARATOR. letter c"
  by (simp add: LEXICON_FIELD_SEPARATOR_def letter_def EPS_def ANY_def)

text \<open>The query for a key agrees with the key, the separator and any word that is not empty.\<close>

lemma query_words:
  assumes "\<forall>c \<in> set key. letter c" "nd_labels Q = {key @ EPS # LEXICON_FIELD_SEPARATOR @ EPS # m |m. m \<in> iterated {[ANY]}}"
  shows "(\<exists>u \<in> nd_labels Q. (u = [] \<or> last u \<noteq> EPS) \<and> list_all2 agrees (visible u) w) \<longleftrightarrow>
    (\<exists>x. x \<noteq> [] \<and> w = key @ LEXICON_FIELD_SEPARATOR @ x)"
proof -
  let ?k = "key @ LEXICON_FIELD_SEPARATOR"
  have k: "\<forall>c \<in> set ?k. letter c" using assms(1) separator_letter by auto
  have pre: "list_all2 agrees (?k @ y) w \<longleftrightarrow> (\<exists>x. w = ?k @ x \<and> list_all2 agrees y x)" for y
    by (rule agrees_letters [OF k])
  have vis: "visible (key @ EPS # LEXICON_FIELD_SEPARATOR @ EPS # m) = ?k @ visible m" for m
    using visible_letters [OF assms(1)] visible_letters [OF separator_letter] by simp
  show ?thesis
  proof
    assume "\<exists>u \<in> nd_labels Q. (u = [] \<or> last u \<noteq> EPS) \<and> list_all2 agrees (visible u) w"
    then obtain m where m: "m \<in> iterated {[ANY]}" "list_all2 agrees (visible (key @ EPS # LEXICON_FIELD_SEPARATOR @ EPS # m)) w"
      unfolding assms(2) by blast
    note m = m(1) m(2) [unfolded vis]
    obtain i where "visible m = replicate (Suc i) ANY" using iterated_any [OF m(1)] by blast
    then obtain x where "w = ?k @ x" "length x = Suc i" using m(2) unfolding pre using agrees_any by metis
    then show "\<exists>x. x \<noteq> [] \<and> w = key @ LEXICON_FIELD_SEPARATOR @ x" by (metis append.assoc length_0_conv nat.distinct(1))
  next
    assume "\<exists>x. x \<noteq> [] \<and> w = key @ LEXICON_FIELD_SEPARATOR @ x"
    then obtain x where v: "x \<noteq> []" "w = ?k @ x" by auto
    then obtain i where i: "length x = Suc i" by (cases x) auto
    obtain m where m: "m \<in> iterated {[ANY]}" "visible m = replicate (Suc i) ANY" using any_iterated by blast
    let ?u = "key @ EPS # LEXICON_FIELD_SEPARATOR @ EPS # m"
    have "?u \<in> nd_labels Q" unfolding assms(2) using m(1) by blast
    moreover have "last ?u \<noteq> EPS" using iterated_any [OF m(1)] any_eps by simp
    moreover have "list_all2 agrees (visible ?u) w" unfolding vis pre m(2) using v(2) i agrees_any by blast
    ultimately show "\<exists>u \<in> nd_labels Q. (u = [] \<or> last u \<noteq> EPS) \<and> list_all2 agrees (visible u) w" by blast
  qed
qed

lemma store_values:
  assumes "\<forall>line \<in> set lines. \<forall>c \<in> set line. letter c" "\<exists>line \<in> set lines. line \<noteq> []"
    "sum_list (map length lines) < 2 ^ 31"
  shows "\<exists>st0 st. newMultiStore = Some st0 \<and> createFromSeparatedLines lines st0 = Some st \<and>
    (\<forall>key. (\<forall>c \<in> set key. letter c) \<longrightarrow> (\<exists>result. store_get key st = Some result \<and>
      set result = {x. x \<noteq> [] \<and> (\<exists>line \<in> set lines. line = key @ LEXICON_FIELD_SEPARATOR @ x \<and> length line \<le> 10000)}))"
proof -
  obtain S where S: "buildSearchSuffix = Some S" "nd_wf S"
    "nd_labels S = {LEXICON_FIELD_SEPARATOR @ EPS # m |m. m \<in> iterated {[ANY]}}"
    using buildSearchSuffix_labels by blast
  have "sum_list (map length (sort lines)) = sum_list (map length lines)"
    by (metis mset_map mset_sort sum_mset_sum_list)
  then have sum: "sum_list (map length (sort lines)) < 2 ^ 31" using assms(3) by simp
  have last: "last (sort lines) \<noteq> []" "sort lines \<noteq> []" using last_line [of "sort lines"] assms(2) by auto
  obtain R g where R: "minimize_incremental (sort lines) = Some (pack R)" "rows_ok R" "active R g 0 []" "useful R g"
    "words R 0 = set lines"
    using minimize_incremental_store [OF sorted_sort last sum] by auto
  let ?B = "bin_class (pack R)" and ?st0 = "\<lparr>storeFSA = newBinDFSA, searchSuffixFSA = S\<rparr>"
  have plain: "plain_class ?B (length R)" using store_plain [OF R(2-4)] assms(1) R(5) by simp
  have n: "0 < length R" using active_length [OF R(3)] by (simp add: path_states_def)
  have "getStartStates ?B = {0}" by (simp add: bin_class_def bin_getStartStates_def)
  note starts = this
  have "\<exists>result. store_get key (?st0\<lparr>storeFSA := pack R\<rparr>) = Some result \<and>
      set result = {x. x \<noteq> [] \<and> (\<exists>line \<in> set lines. line = key @ LEXICON_FIELD_SEPARATOR @ x \<and> length line \<le> 10000)}"
    if key: "\<forall>c \<in> set key. letter c" for key
  proof -
    let ?Q0 = "nd_ofString key"
    have q0: "nd_endStates ?Q0 \<noteq> {}" "nd_startStates ?Q0 = {0}" by (simp_all add: ofString_eq)
    obtain Q where Q: "fsa_concatenate ?Q0 (nd_class S) = Some Q" "nd_wf Q" "nd_startStates Q = {0}"
      "nd_labels Q = {u @ EPS # v |u v. u \<in> nd_labels ?Q0 \<and> v \<in> class_labels (nd_class S)}"
      using concatenate_correct [OF ofString_wf nd_class_closed [OF S(2)], of key] q0 by auto
    from intersect_correct [OF Q(2) plain n Q(3) starts] obtain C where C: "intersect Q ?B True = Some C" "nd_wf C"
      "nd_labels C = {w \<in> class_labels ?B. \<exists>u \<in> nd_labels Q. (u = [] \<or> last u \<noteq> EPS) \<and> list_all2 agrees (visible u) w}" by blast
    have Qlabels: "nd_labels Q = {key @ EPS # LEXICON_FIELD_SEPARATOR @ EPS # m |m. m \<in> iterated {[ANY]}}"
      unfolding Q(4) ofString_labels nd_class_labels [OF S(2)] S(3) by auto
    note query = query_words [OF key Qlabels]
    have "set (language (nd_class C) 10000) =
        {w \<in> set lines. (\<exists>x. x \<noteq> [] \<and> w = key @ LEXICON_FIELD_SEPARATOR @ x) \<and> length w \<le> 10000}"
      unfolding language_set [OF C(2)] C(3) query store_labels [OF R(2,3)] R(5) by blast
    also have "\<dots> = (\<lambda>x. key @ LEXICON_FIELD_SEPARATOR @ x) `
        {x. x \<noteq> [] \<and> (\<exists>line \<in> set lines. line = key @ LEXICON_FIELD_SEPARATOR @ x \<and> length line \<le> 10000)}"
      by auto
    finally have found: "set (language (nd_class C) 10000) = \<dots>" .
    have "KeyTruncator key (key @ LEXICON_FIELD_SEPARATOR @ x) = x" for x
      by (simp add: KeyTruncator_def Let_def)
    then have result: "KeyTruncator key ` set (language (nd_class C) 10000) =
        {x. x \<noteq> [] \<and> (\<exists>line \<in> set lines. line = key @ LEXICON_FIELD_SEPARATOR @ x \<and> length line \<le> 10000)}"
      unfolding found image_image by simp
    have "store_get key (?st0\<lparr>storeFSA := pack R\<rparr>) = Some (map (KeyTruncator key) (language (nd_class C) 10000))"
      using Q(1) C(1) by (simp add: store_get_def)
    then show ?thesis using result by (metis list.set_map)
  qed
  moreover have "newMultiStore = Some ?st0" using S(1) by (simp add: newMultiStore_def)
  moreover have "createFromSeparatedLines lines ?st0 = Some (?st0\<lparr>storeFSA := pack R\<rparr>)"
    using R(1) by (simp add: createFromSeparatedLines_def createFromSeparatedSortedLines_def)
  ultimately show ?thesis by blast
qed

text \<open>A store made from lines gives the values of a key: for every line of the key, the separator and a
  value that is not empty, the value, unless the line is longer than 10000 symbols.  Neither the lines
  nor the key hold one of the two special symbols.\<close>

theorem store_get_values:
  assumes "\<forall>line \<in> set lines. \<forall>c \<in> set line. letter c" "\<forall>c \<in> set key. letter c" "\<exists>line \<in> set lines. line \<noteq> []"
    "sum_list (map length lines) < 2 ^ 31"
  shows "\<exists>st0 st result. newMultiStore = Some st0 \<and> createFromSeparatedLines lines st0 = Some st \<and> store_get key st = Some result \<and>
    set result = {x. x \<noteq> [] \<and> (\<exists>line \<in> set lines. line = key @ LEXICON_FIELD_SEPARATOR @ x \<and> length line \<le> 10000)}"
  using store_values [OF assms(1,3,4)] assms(2) by blast

theorem store_get_values_witness:
  "\<exists>st0 st result. newMultiStore = Some st0 \<and>
    createFromSeparatedLines [''k'' @ LEXICON_FIELD_SEPARATOR @ ''v'', ''l'' @ LEXICON_FIELD_SEPARATOR @ ''w''] st0 = Some st \<and>
    store_get ''k'' st = Some result \<and> set result = {''v''}"
proof -
  let ?lines = "[''k'' @ LEXICON_FIELD_SEPARATOR @ ''v'', ''l'' @ LEXICON_FIELD_SEPARATOR @ ''w'']"
  have "\<forall>line \<in> set ?lines. \<forall>c \<in> set line. letter c" "\<forall>c \<in> set ''k''. letter c"
    by (simp_all add: LEXICON_FIELD_SEPARATOR_def letter_def EPS_def ANY_def)
  moreover have "\<exists>line \<in> set ?lines. line \<noteq> []" "sum_list (map length ?lines) < 2 ^ 31"
    by (simp_all add: LEXICON_FIELD_SEPARATOR_def)
  ultimately have "\<exists>st0 st result. newMultiStore = Some st0 \<and> createFromSeparatedLines ?lines st0 = Some st \<and>
      store_get ''k'' st = Some result \<and>
      set result = {x. x \<noteq> [] \<and> (\<exists>line \<in> set ?lines. line = ''k'' @ LEXICON_FIELD_SEPARATOR @ x \<and> length line \<le> 10000)}"
    by (rule store_get_values)
  moreover have "{x. x \<noteq> [] \<and> (\<exists>line \<in> set ?lines. line = ''k'' @ LEXICON_FIELD_SEPARATOR @ x \<and> length line \<le> 10000)} = {''v''}"
    by (auto simp: LEXICON_FIELD_SEPARATOR_def)
  ultimately show ?thesis by simp
qed

end
