(* ===== verification/Lamerlemma.thy ===== *)
theory Lamerlemma imports Multi_Store Annotation Layer_Tags begin

text \<open>The dictionary lemmatizer (tools/lemmatizers/lamerlemma): lexicon lines, the code of a lemma relative
  to its form (utility_functions.cpp), the dictionary on top of the automaton store (dictionary.cpp), and
  what the lemmatizer puts out for a token (lamerlemma.cpp).\<close>

section \<open>The code of a lemma\<close>

definition c_str_at :: "string \<Rightarrow> nat \<Rightarrow> char" where
  "c_str_at s i = (if i < length s then s ! i else CHR 0x00)"

fun common_length :: "string \<Rightarrow> string \<Rightarrow> nat" where
  "common_length (a # x) (b # y) = (if a = b then Suc (common_length x y) else 0)"
| "common_length _ _ = 0"

text \<open>The longest start of the lemma that the form has somewhere: its length and its first position.\<close>

function longest_start :: "string \<Rightarrow> string \<Rightarrow> nat \<Rightarrow> nat \<times> nat \<Rightarrow> nat \<times> nat" where
  "longest_start asRef toCode i (maxLength, maxi) =
     (if i < length asRef then
        let (maxLength, maxi) =
              (if asRef ! i = c_str_at toCode 0 then
                 let len = 1 + common_length (drop (i + 1) asRef) (drop 1 toCode)
                 in if len > maxLength then (len, i) else (maxLength, maxi)
               else (maxLength, maxi))
        in if length asRef - i < maxLength then (maxLength, maxi) else longest_start asRef toCode (Suc i) (maxLength, maxi)
      else (maxLength, maxi))"
  by pat_completeness auto
termination by (relation "measure (\<lambda>(asRef, toCode, i, m). length asRef - i)") (auto split: if_splits)

declare longest_start.simps [simp del]

text \<open>A substring from behind the end of the string is an exception.\<close>

definition KLEndEncode :: "string \<Rightarrow> string \<Rightarrow> string option" where
  "KLEndEncode asRef toCode =
     (let (maxLength, maxi) = longest_start asRef toCode 0 (0, 0);
          K = char_of (65 + maxi); L = char_of (65 + length asRef - (maxi + maxLength))
      in if maxLength > length toCode then None else Some (K # L # drop maxLength toCode))"

definition signed_char :: "char \<Rightarrow> int" where
  "signed_char c = (let n = (of_char c :: nat) in if n < 128 then int n else int n - 256)"

definition KLEndDecode :: "string \<Rightarrow> string \<Rightarrow> string option" where
  "KLEndDecode asRef asCode =
     (if length asCode < 2 then None
      else let cutFront = signed_char (asCode ! 0) - 65; cutBack = signed_char (asCode ! 1) - 65;
               decodedLen = nat ((int (length asRef) - cutFront - cutBack) mod 2 ^ 64);
               first = nat (cutFront mod 2 ^ 64)
           in if first > length asRef then None else Some (take decodedLen (drop first asRef) @ drop 2 asCode))"

section \<open>Lexicon lines\<close>

datatype lexicon_error = PsiException string | OutOfRange

definition LEXICON_TEXT_FIELD_SEPARATORS :: string where
  "LEXICON_TEXT_FIELD_SEPARATORS = [CHR 0x09, CHR '' '']"

text \<open>\<open>boost::split(fields, input, is_any_of(separators))\<close>.\<close>

fun split_any :: "string \<Rightarrow> string \<Rightarrow> string list" where
  "split_any separators [] = [[]]"
| "split_any separators (c # cs) =
     (if c \<in> set separators then [] # split_any separators cs
      else (case split_any separators cs of [] \<Rightarrow> [[c]] | w # ws \<Rightarrow> (c # w) # ws))"

definition parseInput :: "string \<Rightarrow> lexicon_error + string" where
  "parseInput input =
     (let fields = split_any LEXICON_TEXT_FIELD_SEPARATORS input
      in if length fields < 1 then Inl (PsiException (''Missing form: '' @ input))
         else if length fields < 2 then Inl (PsiException (''Missing lemma code '' @ input))
         else let form = fields ! 0; lemma = fields ! 1
              in case KLEndEncode form lemma of
                   None \<Rightarrow> Inl OutOfRange
                 | Some code \<Rightarrow> Inr (form @ LEXICON_FIELD_SEPARATOR @ code @
                     (if length fields \<ge> 3
                      then LEXICON_FIELD_SEPARATOR @ fields ! 2 @
                        (if length fields \<ge> 4 then LEXICON_FIELD_SEPARATOR @ fields ! 3 else [])
                      else [])))"

text \<open>\<open>operator>>\<close> of \<open>Line\<close>, for all lines of the stream.\<close>

definition read_line :: "string \<Rightarrow> lexicon_error + string" where
  "read_line data = (if data \<noteq> [] then parseInput data else Inr data)"

fun read_lines :: "string list \<Rightarrow> lexicon_error + string list" where
  "read_lines [] = Inr []"
| "read_lines (line # lines) = sbind (read_line line) (\<lambda>x. sbind (read_lines lines) (\<lambda>xs. Inr (x # xs)))"

section \<open>Records of the dictionary\<close>

type_synonym FeatureMap = "string \<rightharpoonup> string"
type_synonym FeatureMapSetPair = "FeatureMap \<times> FeatureMap list"
type_synonym TagMap = "string \<rightharpoonup> FeatureMapSetPair"
type_synonym LemmaMap = "string \<rightharpoonup> TagMap"

text \<open>What stands before and after the first \<open>=\<close>, when there is one.\<close>

definition key_value :: "string \<Rightarrow> (string \<times> string) option" where
  "key_value s =
     (let k = takeWhile (\<lambda>c. c \<noteq> CHR ''='') s in if length k < length s then Some (k, drop (length k + 1) s) else None)"

definition add_posattr :: "FeatureMap \<Rightarrow> string \<Rightarrow> FeatureMap" where
  "add_posattr m posattr = (case key_value posattr of Some (k, v) \<Rightarrow> m(k \<mapsto> v) | None \<Rightarrow> m(''pos'' \<mapsto> posattr))"

definition add_morpho :: "FeatureMap \<Rightarrow> string \<Rightarrow> FeatureMap" where
  "add_morpho m morpho = (case key_value morpho of Some (k, v) \<Rightarrow> m(k \<mapsto> v) | None \<Rightarrow> m(morpho \<mapsto> ''1''))"

definition parseResult :: "string \<Rightarrow> string \<Rightarrow> LemmaMap \<Rightarrow> lexicon_error + LemmaMap" where
  "parseResult key result lemmaMap =
     (let fields = splitOn (CHR 0x09) result
      in if length fields < 1 then Inl (PsiException (''Missing lemma code: '' @ result))
         else case KLEndDecode key (fields ! 0) of
           None \<Rightarrow> Inl OutOfRange
         | Some lemma \<Rightarrow>
             let tagMap = (case lemmaMap lemma of None \<Rightarrow> Map.empty | Some t \<Rightarrow> t)
             in if length fields \<ge> 2 then
                  let tag = fields ! 1;
                      pair = (case tagMap tag of None \<Rightarrow> (Map.empty, []) | Some p \<Rightarrow> p);
                      attributes = foldl add_posattr (fst pair) (splitOn CHR '','' tag);
                      morpho = (if length fields = 3 then foldl add_morpho Map.empty (splitOn CHR '','' (fields ! 2)) else Map.empty)
                  in Inr (lemmaMap(lemma \<mapsto> tagMap(tag \<mapsto> (attributes, snd pair @ [morpho]))))
                else Inr (lemmaMap(lemma \<mapsto> tagMap)))"

fun parseResults :: "string \<Rightarrow> string list \<Rightarrow> LemmaMap \<Rightarrow> lexicon_error + LemmaMap" where
  "parseResults key [] lemmaMap = Inr lemmaMap"
| "parseResults key (result # results) lemmaMap = sbind (parseResult key result lemmaMap) (parseResults key results)"

text \<open>The dictionary.  \<open>None\<close> stands for a loop of the automata that does not end, which is shown not to happen.\<close>

definition readDictionary :: "string list \<Rightarrow> lexicon_error + FSAMultiStore option" where
  "readDictionary lines =
     sbind (read_lines lines) (\<lambda>xs. Inr (Option.bind newMultiStore (createFromSeparatedLines xs)))"

definition dictionary_get :: "string \<Rightarrow> FSAMultiStore \<Rightarrow> (lexicon_error + LemmaMap) option" where
  "dictionary_get token st = map_option (\<lambda>results. parseResults token results Map.empty) (store_get token st)"

section \<open>The lemmatizer\<close>

text \<open>What is put out for a token, in order.\<close>

datatype lemma_event = Normalization string | Lemma string | Lexeme AnnotationItem | Form AnnotationItem

type_synonym 'a lemma_prog = "(annotation_error, string list \<times> lemma_event list, 'a) prog"

definition emit :: "lemma_event \<Rightarrow> unit lemma_prog" where
  "emit e = modify (\<lambda>(m, events). (m, events @ [e]))"

fun for_each :: "('b \<Rightarrow> unit lemma_prog) \<Rightarrow> 'b list \<Rightarrow> unit lemma_prog" where
  "for_each f [] = ret ()"
| "for_each f (x # xs) = thenE (f x) (for_each f xs)"

fun set_strings :: "(string \<times> string) list \<Rightarrow> unit item_prog" where
  "set_strings [] = ret ()"
| "set_strings ((attribute, v) # avs) = thenE (setValueFromString attribute v) (set_strings avs)"

definition with_features :: "(string \<times> string) list \<Rightarrow> AnnotationItem \<Rightarrow> AnnotationItem lemma_prog" where
  "with_features features item = (\<lambda>(m, events).
     case set_strings features (m, item) of
       (Inl e, (m', _)) \<Rightarrow> (Inl e, (m', events))
     | (Inr _, (m', item')) \<Rightarrow> (Inr item', (m', events)))"

text \<open>The entries of a map in the order of its keys.\<close>

definition map_entries :: "(string \<rightharpoonup> 'b) \<Rightarrow> (string \<times> 'b) list" where
  "map_entries m = map (\<lambda>k. (k, the (m k))) (set_order (dom m))"

definition form_event :: "string \<Rightarrow> string \<Rightarrow> FeatureMap \<Rightarrow> unit lemma_prog" where
  "form_event token pos featureMap =
     bindE (with_features (map_entries featureMap) (new_item pos (frag_of_string token))) (\<lambda>form. emit (Form form))"

definition tag_event :: "nat \<Rightarrow> string \<Rightarrow> string \<Rightarrow> string \<times> FeatureMapSetPair \<Rightarrow> unit lemma_prog" where
  "tag_event level token lemma_text = (\<lambda>(tag, posFeatureMap, featureMapSet).
     let pos = (case posFeatureMap ''pos'' of None \<Rightarrow> [] | Some p \<Rightarrow> p);
         lexeme = lemma_text @ ''+'' @ pos
     in bindE (with_features (filter (\<lambda>(a, v). a \<noteq> ''pos'') (map_entries posFeatureMap)) (new_item pos (frag_of_string lexeme)))
       (\<lambda>ai_lexeme. thenE (emit (Lexeme ai_lexeme))
         (if level > 2 then for_each (form_event token pos) featureMapSet else ret ())))"

definition lemma_entry :: "nat \<Rightarrow> bool \<Rightarrow> string \<Rightarrow> string \<times> TagMap \<Rightarrow> unit lemma_prog" where
  "lemma_entry level lexeme_ids token = (\<lambda>(lemma_key, tagMap).
     let lemma_text = (if lexeme_ids then lemma_key else takeWhile (\<lambda>c. c \<noteq> CHR '':'') lemma_key)
     in thenE (emit (Lemma lemma_text))
       (if level > 1 then for_each (tag_event level token lemma_text) (map_entries tagMap) else ret ()))"

definition lemmatize_map :: "nat \<Rightarrow> bool \<Rightarrow> string \<Rightarrow> LemmaMap \<Rightarrow> bool lemma_prog" where
  "lemmatize_map level lexeme_ids token lemmaMap =
     (if dom lemmaMap = {} then ret False
      else thenE (emit (Normalization token))
        (thenE (for_each (lemma_entry level lexeme_ids token) (map_entries lemmaMap)) (ret True)))"

text \<open>An exception of the dictionary leaves the method before anything is put out.\<close>

definition lemmatize :: "nat \<Rightarrow> bool \<Rightarrow> FSAMultiStore \<Rightarrow> string \<Rightarrow> (lexicon_error + bool lemma_prog) option" where
  "lemmatize level lexeme_ids dict token =
     (if level = 0 then Some (Inr (ret False))
      else map_option (\<lambda>m. sbind m (\<lambda>lemmaMap. Inr (lemmatize_map level lexeme_ids token lemmaMap))) (dictionary_get token dict))"

section \<open>Encoding and decoding\<close>

lemma common_length_take: "take (common_length x y) x = take (common_length x y) y"
  by (induction x y rule: common_length.induct) auto

lemma common_length_le: "common_length x y \<le> length x" "common_length x y \<le> length y"
  by (induction x y rule: common_length.induct) auto

definition start_found :: "string \<Rightarrow> string \<Rightarrow> nat \<times> nat \<Rightarrow> bool" where
  "start_found asRef toCode = (\<lambda>(len, i). len \<le> length toCode \<and> i + len \<le> length asRef \<and>
     take len (drop i asRef) = take len toCode)"

lemma longest_start_found:
  assumes "toCode \<noteq> []"
  shows "start_found asRef toCode m \<Longrightarrow> start_found asRef toCode (longest_start asRef toCode i m)"
proof (induction "length asRef - i" arbitrary: i m rule: less_induct)
  case less
  obtain len p where m: "m = (len, p)" by fastforce
  show ?case
  proof (cases "i < length asRef")
    case True
    define m' where "m' = (if asRef ! i = c_str_at toCode 0 then
        let len' = 1 + common_length (drop (i + 1) asRef) (drop 1 toCode) in if len' > len then (len', i) else (len, p) else (len, p))"
    have "start_found asRef toCode m'"
    proof (cases "asRef ! i = c_str_at toCode 0")
      case eq: True
      let ?l = "common_length (drop (i + 1) asRef) (drop 1 toCode)"
      obtain c cs where toCode: "toCode = c # cs" using assms by (cases toCode) auto
      have "drop i asRef = asRef ! i # drop (i + 1) asRef" using True by (simp add: Cons_nth_drop_Suc)
      then have "take (1 + ?l) (drop i asRef) = take (1 + ?l) toCode"
        using eq common_length_take [of "drop (i + 1) asRef" cs] by (simp add: toCode c_str_at_def)
      then have "start_found asRef toCode (1 + ?l, i)"
        using common_length_le [of "drop (i + 1) asRef" "drop 1 toCode"] True by (simp add: start_found_def toCode)
      then show ?thesis using less.prems by (simp add: m'_def m Let_def)
    qed (use less.prems in \<open>simp add: m'_def m\<close>)
    moreover have "longest_start asRef toCode i m =
        (if length asRef - i < fst m' then m' else longest_start asRef toCode (Suc i) m')"
      using True unfolding m by (subst longest_start.simps) (simp add: m'_def [symmetric] case_prod_beta')
    ultimately show ?thesis using less.hyps [of "Suc i" m'] True by simp
  next
    case False
    then have "longest_start asRef toCode i m = m" unfolding m by (subst longest_start.simps) simp
    then show ?thesis using less.prems by simp
  qed
qed

lemma signed_char_small: "n < 128 \<Longrightarrow> signed_char (char_of n) = int n"
  by (simp add: signed_char_def)

lemma KLEnd_code:
  assumes "length form \<le> 62" "lemma_text \<noteq> []"
  shows "\<exists>(k :: nat) (l :: nat) n. k < 128 \<and> l < 128 \<and> 65 \<le> k \<and> 65 \<le> l \<and>
    KLEndEncode form lemma_text = Some (char_of k # char_of l # drop n lemma_text) \<and>
    KLEndDecode form (char_of k # char_of l # drop n lemma_text) = Some lemma_text"
proof -
  obtain len i where m: "longest_start form lemma_text 0 (0, 0) = (len, i)" by fastforce
  have "start_found form lemma_text (0, 0)" by (simp add: start_found_def)
  then have f: "len \<le> length lemma_text" "i + len \<le> length form" "take len (drop i form) = take len lemma_text"
    using longest_start_found [OF assms(2), of form "(0, 0)" 0] m by (simp_all add: start_found_def)
  let ?k = "65 + i" and ?l = "65 + length form - (i + len)"
  let ?K = "char_of ?k :: char" and ?L = "char_of ?l :: char"
  have enc: "KLEndEncode form lemma_text = Some (?K # ?L # drop len lemma_text)"
    using f(1) by (simp add: KLEndEncode_def m)
  have bounds: "?k < 128" "?l < 128" "65 \<le> ?k" "65 \<le> ?l" using f(2) assms(1) by simp_all
  have "signed_char ?K = int ?k" "signed_char ?L = int ?l" using bounds(1,2) by (intro signed_char_small; simp)+
  then have K: "signed_char ?K - 65 = int i" "int (length form) - int i - (signed_char ?L - 65) = int len"
    using f(2) by (simp_all add: of_nat_diff)
  have small: "int i mod 2 ^ 64 = int i" "int len mod 2 ^ 64 = int len" using f(2) assms(1) by simp_all
  have "KLEndDecode form (?K # ?L # drop len lemma_text) = Some (take len (drop i form) @ drop len lemma_text)"
  proof -
    have "(?K # ?L # drop len lemma_text) ! 0 = ?K" "(?K # ?L # drop len lemma_text) ! 1 = ?L" by simp_all
    then show ?thesis unfolding KLEndDecode_def Let_def using f(2)
      by (simp only: K small nat_int) simp
  qed
  then have "KLEndDecode form (?K # ?L # drop len lemma_text) = Some lemma_text" using f(3) by simp
  then show ?thesis using enc bounds by blast
qed

text \<open>A lemma is decoded from its code with the form it was encoded with, when the form has at most 62
  bytes: the positions are kept in signed characters.\<close>

theorem KLEnd_roundtrip:
  assumes "length form \<le> 62" "lemma_text \<noteq> []"
  shows "\<exists>code. KLEndEncode form lemma_text = Some code \<and> KLEndDecode form code = Some lemma_text"
  using KLEnd_code [OF assms] by blast

theorem KLEnd_roundtrip_witness:
  "\<exists>code. KLEndEncode ''bigger'' ''big'' = Some code \<and> KLEndDecode ''bigger'' code = Some ''big''"
  by (rule KLEnd_roundtrip) simp_all

section \<open>Fields\<close>

lemma split_any_ne [simp]: "split_any seps s \<noteq> []"
  by (induction s) (auto split: list.splits)

lemma split_any_fields: "f \<in> set (split_any seps s) \<Longrightarrow> set f \<subseteq> set s - set seps"
proof (induction s arbitrary: f)
  case (Cons c s)
  obtain w ws where split: "split_any seps s = w # ws" by (meson neq_Nil_conv split_any_ne)
  have IH: "set x \<subseteq> set s - set seps" if "x \<in> set (w # ws)" for x using Cons.IH that split by simp
  show ?case
  proof (cases "c \<in> set seps")
    case True
    then have "f = [] \<or> f \<in> set (w # ws)" using Cons.prems split by simp
    then show ?thesis using IH by auto
  next
    case False
    then have "f = c # w \<or> f \<in> set ws" using Cons.prems split by simp
    then show ?thesis using IH [of w] IH [of f] False by auto
  qed
qed simp

lemma split_any_length: "sum_list (map length (split_any seps s)) + length (split_any seps s) = Suc (length s)"
proof (induction s)
  case (Cons c s)
  obtain w ws where "split_any seps s = w # ws" by (meson neq_Nil_conv split_any_ne)
  then show ?case using Cons by simp
qed simp

lemma splitOn_first: "c \<notin> set w \<Longrightarrow> splitOn c (w @ c # s) = w # splitOn c s"
  by (induction w) auto

lemma splitOn_whole: "c \<notin> set w \<Longrightarrow> splitOn c w = [w]"
  by (induction w) auto

text \<open>Lines of a text lexicon: a form of at most 62 bytes, a lemma, and possibly more fields; no byte is
  one of the special symbols of the automata.  Empty lines are allowed.\<close>

definition lexicon_line :: "string \<Rightarrow> bool" where
  "lexicon_line line \<longleftrightarrow> line = [] \<or>
     (\<exists>form lemma_text more_fields. split_any LEXICON_TEXT_FIELD_SEPARATORS line = form # lemma_text # more_fields \<and>
        length form \<le> 62 \<and> lemma_text \<noteq> []) \<and> (\<forall>c \<in> set line. letter c) \<and> length line \<le> 9998"

text \<open>The tail of a record after the code.\<close>

definition record_tail :: "string \<Rightarrow> bool" where
  "record_tail t \<longleftrightarrow> t = [] \<or> (\<exists>s. t = LEXICON_FIELD_SEPARATOR @ s)"

lemma letter_small: "k < 128 \<Longrightarrow> letter (char_of (k :: nat))"
proof -
  assume k: "k < 128"
  then have code: "of_char (char_of k :: char) = k" by simp
  have "of_char EPS = (255 :: nat)" "of_char ANY = (254 :: nat)" by (simp_all add: EPS_def ANY_def)
  then have "char_of k \<noteq> EPS" "char_of k \<noteq> ANY" using k code by force+
  then show ?thesis by (simp add: letter_def)
qed

lemma parseInput_line:
  assumes "split_any LEXICON_TEXT_FIELD_SEPARATORS line = form # lemma_text # more_fields" "length form \<le> 62" "lemma_text \<noteq> []"
    "\<forall>c \<in> set line. letter c"
  shows "\<exists>code t. parseInput line = Inr (form @ LEXICON_FIELD_SEPARATOR @ code @ t) \<and> KLEndDecode form code = Some lemma_text \<and>
    record_tail t \<and> CHR 0x09 \<notin> set code \<and> CHR 0x09 \<notin> set form \<and> code \<noteq> [] \<and>
    (\<forall>c \<in> set (form @ LEXICON_FIELD_SEPARATOR @ code @ t). letter c) \<and>
    length (form @ LEXICON_FIELD_SEPARATOR @ code @ t) \<le> length line + 2"
proof -
  let ?fields = "split_any LEXICON_TEXT_FIELD_SEPARATORS line"
  have fields: "f \<in> set ?fields \<Longrightarrow> (\<forall>c \<in> set f. letter c) \<and> CHR 0x09 \<notin> set f" for f
    using split_any_fields [of f LEXICON_TEXT_FIELD_SEPARATORS line] assms(4) by (auto simp: LEXICON_TEXT_FIELD_SEPARATORS_def)
  obtain k l :: nat and n where code: "k < 128" "l < 128" "65 \<le> k" "65 \<le> l"
    "KLEndEncode form lemma_text = Some (char_of k # char_of l # drop n lemma_text)"
    "KLEndDecode form (char_of k # char_of l # drop n lemma_text) = Some lemma_text"
    using KLEnd_code [OF assms(2,3)] by blast
  let ?code = "char_of k # char_of l # drop n lemma_text"
  let ?t = "if length ?fields \<ge> 3 then LEXICON_FIELD_SEPARATOR @ ?fields ! 2 @
      (if length ?fields \<ge> 4 then LEXICON_FIELD_SEPARATOR @ ?fields ! 3 else []) else []"
  have parse: "parseInput line = Inr (form @ LEXICON_FIELD_SEPARATOR @ ?code @ ?t)"
    using code(5) by (simp add: parseInput_def Let_def assms(1))
  have tab: "char_of j \<noteq> CHR 0x09" if "65 \<le> j" "j < 128" for j :: nat
  proof
    assume "char_of j = CHR 0x09"
    then have "of_char (char_of j :: char) = (9 :: nat)" by simp
    then show False using that by simp
  qed
  have lem: "\<forall>c \<in> set lemma_text. letter c" "CHR 0x09 \<notin> set lemma_text" "\<forall>c \<in> set form. letter c" "CHR 0x09 \<notin> set form"
    using fields assms(1) by auto
  have "CHR 0x09 \<notin> set ?code"
    using tab [OF code(3,1)] tab [OF code(4,2)] lem(2) unfolding list.set by (metis in_set_dropD insert_iff)
  moreover have "\<forall>c \<in> set ?code. letter c" using letter_small code(1,2) lem(1) by (auto dest: in_set_dropD)
  moreover have "\<forall>c \<in> set ?t. letter c"
    using fields [of "?fields ! 2"] fields [of "?fields ! 3"] separator_letter by auto
  moreover have "record_tail ?t" by (auto simp: record_tail_def)
  moreover have "length (form @ LEXICON_FIELD_SEPARATOR @ ?code @ ?t) \<le> length line + 2"
  proof -
    have len: "sum_list (map length ?fields) + length ?fields = Suc (length line)" by (rule split_any_length)
    have "length LEXICON_FIELD_SEPARATOR = 1" by (simp add: LEXICON_FIELD_SEPARATOR_def)
    then show ?thesis
      using len unfolding assms(1)
      by (cases more_fields; cases "tl more_fields") auto
  qed
  ultimately show ?thesis using parse code(6) lem(3,4) separator_letter by (intro exI [of _ ?code] exI [of _ ?t]) auto
qed

lemma record_fields:
  assumes "CHR 0x09 \<notin> set code" "record_tail t"
  shows "splitOn (CHR 0x09) (code @ t) ! 0 = code" "splitOn (CHR 0x09) (code @ t) \<noteq> []"
  using assms splitOn_first [of "CHR 0x09" code] splitOn_whole [of "CHR 0x09" code]
  by (auto simp: record_tail_def LEXICON_FIELD_SEPARATOR_def)

lemma parseResult_dom:
  assumes "CHR 0x09 \<notin> set code" "record_tail t" "KLEndDecode key code = Some lemma_text"
  shows "\<exists>m'. parseResult key (code @ t) m = Inr m' \<and> dom m' = insert lemma_text (dom m)"
proof -
  obtain ws where ws: "splitOn (CHR 0x09) (code @ t) = code # ws"
    using record_fields [OF assms(1,2)] by (cases "splitOn (CHR 0x09) (code @ t)") simp_all
  have dom: "dom (m(lemma_text \<mapsto> v)) = insert lemma_text (dom m)" for v by simp
  have two: "\<not> length (code # ws) < 1" by simp
  show ?thesis
    unfolding parseResult_def ws Let_def nth_Cons_0 assms(3) option.case if_not_P [OF two]
    by (cases "2 \<le> length (code # ws)") (simp_all only: if_True if_False sum.inject simp_thms dom)
qed

lemma parseResults_dom:
  assumes "\<forall>x \<in> set results. \<exists>code t. x = code @ t \<and> CHR 0x09 \<notin> set code \<and> record_tail t \<and> KLEndDecode key code = Some (lem x)"
  shows "\<exists>m'. parseResults key results m = Inr m' \<and> dom m' = lem ` set results \<union> dom m"
  using assms
proof (induction results arbitrary: m)
  case (Cons x results)
  then obtain code t where "x = code @ t" "CHR 0x09 \<notin> set code" "record_tail t" "KLEndDecode key code = Some (lem x)" by auto
  then obtain m1 where m1: "parseResult key x m = Inr m1" "dom m1 = insert (lem x) (dom m)"
    using parseResult_dom [of code t key "lem x" m] by auto
  have "\<exists>m'. parseResults key results m1 = Inr m' \<and> dom m' = lem ` set results \<union> dom m1"
    using Cons.prems by (intro Cons.IH) simp
  then obtain m' where "parseResults key results m1 = Inr m'" "dom m' = lem ` set results \<union> dom m1" by blast
  then show ?case using m1 by auto
qed simp

text \<open>The records of a lexicon, line by line.\<close>

definition line_record :: "string \<Rightarrow> string \<Rightarrow> bool" where
  "line_record line x \<longleftrightarrow> (line = [] \<and> x = []) \<or>
     (\<exists>form lemma_text more_fields code t. split_any LEXICON_TEXT_FIELD_SEPARATORS line = form # lemma_text # more_fields \<and>
        x = form @ LEXICON_FIELD_SEPARATOR @ code @ t \<and> KLEndDecode form code = Some lemma_text \<and> record_tail t \<and>
        CHR 0x09 \<notin> set code \<and> CHR 0x09 \<notin> set form \<and> code \<noteq> [])"

lemma read_lines_records:
  assumes "\<forall>line \<in> set lines. lexicon_line line"
  shows "\<exists>xs. read_lines lines = Inr xs \<and> list_all2 line_record lines xs \<and> (\<forall>x \<in> set xs. \<forall>c \<in> set x. letter c) \<and>
    (\<forall>x \<in> set xs. length x \<le> 10000) \<and> sum_list (map length xs) \<le> sum_list (map length lines) + 2 * length lines"
  using assms
proof (induction lines)
  case (Cons line lines)
  then obtain xs where xs: "read_lines lines = Inr xs" "list_all2 line_record lines xs" "\<forall>x \<in> set xs. \<forall>c \<in> set x. letter c"
    "\<forall>x \<in> set xs. length x \<le> 10000" "sum_list (map length xs) \<le> sum_list (map length lines) + 2 * length lines" by auto
  have "\<exists>x. read_line line = Inr x \<and> line_record line x \<and> (\<forall>c \<in> set x. letter c) \<and> length x \<le> 10000 \<and> length x \<le> length line + 2"
  proof (cases "line = []")
    case True
    then show ?thesis by (simp add: read_line_def line_record_def)
  next
    case False
    then obtain form lemma_text more_fields where f: "split_any LEXICON_TEXT_FIELD_SEPARATORS line = form # lemma_text # more_fields"
      "length form \<le> 62" "lemma_text \<noteq> []" "\<forall>c \<in> set line. letter c" "length line \<le> 9998"
      using Cons.prems by (auto simp: lexicon_line_def)
    obtain code t where p: "parseInput line = Inr (form @ LEXICON_FIELD_SEPARATOR @ code @ t)" "KLEndDecode form code = Some lemma_text"
      "record_tail t" "CHR 0x09 \<notin> set code" "CHR 0x09 \<notin> set form" "code \<noteq> []"
      "\<forall>c \<in> set (form @ LEXICON_FIELD_SEPARATOR @ code @ t). letter c"
      "length (form @ LEXICON_FIELD_SEPARATOR @ code @ t) \<le> length line + 2"
      using parseInput_line [OF f(1-4)] by blast
    have "line_record line (form @ LEXICON_FIELD_SEPARATOR @ code @ t)"
      unfolding line_record_def using f(1) p(2-6) by blast
    moreover have "length (form @ LEXICON_FIELD_SEPARATOR @ code @ t) \<le> 10000" using p(8) f(5) by linarith
    ultimately show ?thesis using p(1,7,8) False by (auto simp: read_line_def)
  qed
  then obtain x where "read_line line = Inr x" "line_record line x" "\<forall>c \<in> set x. letter c" "length x \<le> 10000" "length x \<le> length line + 2"
    by blast
  then show ?case using xs by auto
qed simp

lemma record_of_token:
  assumes "line_record line x" "x = token @ LEXICON_FIELD_SEPARATOR @ rest" "CHR 0x09 \<notin> set token"
  shows "\<exists>lemma_text more_fields code t. split_any LEXICON_TEXT_FIELD_SEPARATORS line = token # lemma_text # more_fields \<and>
    rest = code @ t \<and> CHR 0x09 \<notin> set code \<and> record_tail t \<and> KLEndDecode token code = Some lemma_text \<and> code \<noteq> []"
proof -
  have "x \<noteq> []" using assms(2) by (simp add: LEXICON_FIELD_SEPARATOR_def)
  then obtain form lemma_text more_fields code t where
    r: "split_any LEXICON_TEXT_FIELD_SEPARATORS line = form # lemma_text # more_fields" "x = form @ LEXICON_FIELD_SEPARATOR @ code @ t"
    "KLEndDecode form code = Some lemma_text" "record_tail t" "CHR 0x09 \<notin> set code" "CHR 0x09 \<notin> set form" "code \<noteq> []"
    using assms(1) unfolding line_record_def by blast
  have "form @ CHR 0x09 # code @ t = token @ CHR 0x09 # rest"
    using r(2) assms(2) by (simp add: LEXICON_FIELD_SEPARATOR_def)
  then have "form = token" "code @ t = rest" using append_sep_eq_iff [OF r(6) assms(3)] by simp_all
  then show ?thesis using r by blast
qed

text \<open>The dictionary has the lemmas of all lines.\<close>

lemma dictionary_lemmas:
  assumes "\<forall>line \<in> set lines. lexicon_line line" "\<exists>line \<in> set lines. line \<noteq> []"
    "sum_list (map length lines) + 2 * length lines < 2 ^ 31" "CHR 0x09 \<notin> set token" "\<forall>c \<in> set token. letter c"
  shows "\<exists>st m. readDictionary lines = Inr (Some st) \<and> dictionary_get token st = Some (Inr m) \<and>
    dom m = {lemma_text. \<exists>line \<in> set lines. \<exists>more_fields.
      split_any LEXICON_TEXT_FIELD_SEPARATORS line = token # lemma_text # more_fields}"
proof -
  obtain xs where xs: "read_lines lines = Inr xs" "list_all2 line_record lines xs" "\<forall>x \<in> set xs. \<forall>c \<in> set x. letter c"
    "\<forall>x \<in> set xs. length x \<le> 10000" "sum_list (map length xs) \<le> sum_list (map length lines) + 2 * length lines"
    using read_lines_records [OF assms(1)] by blast
  have fwd: "\<exists>x \<in> set xs. line_record line x" if "line \<in> set lines" for line
    using xs(2) that by (metis in_set_conv_nth list_all2_conv_all_nth)
  have bwd: "\<exists>line \<in> set lines. line_record line x" if "x \<in> set xs" for x
    using xs(2) that by (metis in_set_conv_nth list_all2_conv_all_nth)
  obtain line x where "line \<in> set lines" "line \<noteq> []" "x \<in> set xs" "line_record line x" using assms(2) fwd by blast
  then have "x \<in> set xs" "x \<noteq> []" by (auto simp: line_record_def LEXICON_FIELD_SEPARATOR_def)
  then have ne: "\<exists>x \<in> set xs. x \<noteq> []" by blast
  have "sum_list (map length xs) < 2 ^ 31" using xs(5) assms(3) by linarith
  from store_values [OF xs(3) ne this] assms(5) obtain st0 st results where st: "newMultiStore = Some st0"
    "createFromSeparatedLines xs st0 = Some st" "store_get token st = Some results"
    "set results = {x. x \<noteq> [] \<and> (\<exists>line \<in> set xs. line = token @ LEXICON_FIELD_SEPARATOR @ x \<and> length line \<le> 10000)}"
    by blast
  let ?lem = "\<lambda>r. the (KLEndDecode token (splitOn (CHR 0x09) r ! 0))"
  have entry: "\<exists>line \<in> set lines. \<exists>l more_fields code t. split_any LEXICON_TEXT_FIELD_SEPARATORS line = token # l # more_fields \<and>
      r = code @ t \<and> CHR 0x09 \<notin> set code \<and> record_tail t \<and> KLEndDecode token code = Some l" if "r \<in> set results" for r
  proof -
    have "token @ LEXICON_FIELD_SEPARATOR @ r \<in> set xs" using that unfolding st(4) by blast
    then obtain line where "line \<in> set lines" "line_record line (token @ LEXICON_FIELD_SEPARATOR @ r)" using bwd by blast
    then show ?thesis using record_of_token [OF _ refl assms(4)] by blast
  qed
  have lem: "?lem (code @ t) = l" if "CHR 0x09 \<notin> set code" "record_tail t" "KLEndDecode token code = Some l" for code t l
    using record_fields(1) [OF that(1,2)] that(3) by simp
  have "\<forall>r \<in> set results. \<exists>code t. r = code @ t \<and> CHR 0x09 \<notin> set code \<and> record_tail t \<and> KLEndDecode token code = Some (?lem r)"
    using entry lem by fastforce
  then obtain m where m: "parseResults token results Map.empty = Inr m" "dom m = ?lem ` set results"
    using parseResults_dom [of results token ?lem Map.empty] by auto
  have "?lem ` set results = {l. \<exists>line \<in> set lines. \<exists>more_fields. split_any LEXICON_TEXT_FIELD_SEPARATORS line = token # l # more_fields}"
  proof (intro equalityI subsetI)
    fix l assume "l \<in> ?lem ` set results"
    then obtain r where "r \<in> set results" "l = ?lem r" by blast
    then show "l \<in> {l. \<exists>line \<in> set lines. \<exists>more_fields. split_any LEXICON_TEXT_FIELD_SEPARATORS line = token # l # more_fields}"
      using entry [of r] lem by blast
  next
    fix l assume "l \<in> {l. \<exists>line \<in> set lines. \<exists>more_fields. split_any LEXICON_TEXT_FIELD_SEPARATORS line = token # l # more_fields}"
    then obtain line more_fields where line: "line \<in> set lines" "split_any LEXICON_TEXT_FIELD_SEPARATORS line = token # l # more_fields" by blast
    then obtain x where x: "x \<in> set xs" "line_record line x" using fwd by blast
    have "line \<noteq> []" using line(2) by auto
    then obtain form l' more' code t where r: "split_any LEXICON_TEXT_FIELD_SEPARATORS line = form # l' # more'"
      "x = form @ LEXICON_FIELD_SEPARATOR @ code @ t" "KLEndDecode form code = Some l'" "record_tail t" "CHR 0x09 \<notin> set code" "code \<noteq> []"
      using x(2) unfolding line_record_def by blast
    have "form = token" "l' = l" using r(1) line(2) by simp_all
    then have c: "x = token @ LEXICON_FIELD_SEPARATOR @ code @ t" "KLEndDecode token code = Some l" "record_tail t"
      "CHR 0x09 \<notin> set code" "code \<noteq> []" using r by simp_all
    have "length x \<le> 10000" "code @ t \<noteq> []" using x(1) xs(4) c(5) by simp_all
    then have "code @ t \<in> set results" unfolding st(4) using x(1) c(1) by blast
    moreover have "?lem (code @ t) = l" using lem c(2-4) by blast
    ultimately show "l \<in> ?lem ` set results" by (intro image_eqI [of l ?lem "code @ t"]) simp_all
  qed
  moreover have "readDictionary lines = Inr (Some st)" by (simp add: readDictionary_def xs(1) st(1,2))
  moreover have "dictionary_get token st = Some (Inr m)" using m(1) st(3) by (simp add: dictionary_get_def)
  ultimately show ?thesis using m(2) by auto
qed

definition lexicon_lemmas :: "string list \<Rightarrow> string \<Rightarrow> string set" where
  "lexicon_lemmas lines token = {lemma_text. \<exists>line \<in> set lines. \<exists>more_fields.
     split_any LEXICON_TEXT_FIELD_SEPARATORS line = token # lemma_text # more_fields}"

lemma for_each_lemmas:
  "for_each (lemma_entry 1 True token) entries (m, events) = (Inr (), (m, events @ map (\<lambda>(k, t). Lemma k) entries))"
proof (induction entries arbitrary: events)
  case (Cons x entries)
  obtain k t where x: "x = (k, t)" by fastforce
  have "lemma_entry 1 True token x (m, events) = (Inr (), (m, events @ [Lemma k]))"
    by (simp add: lemma_entry_def x emit_def prog_defs)
  then show ?case using Cons.IH by (simp add: thenE_def bindE_def x)
qed (simp add: ret_def)

lemma lemmatize_map_lemmas:
  "lemmatize_map 1 True token lemmaMap (m, events) =
    (if dom lemmaMap = {} then (Inr False, (m, events))
     else (Inr True, (m, events @ Normalization token # map Lemma (set_order (dom lemmaMap)))))"
  using for_each_lemmas [of token "map_entries lemmaMap" m "events @ [Normalization token]"]
  by (simp add: lemmatize_map_def emit_def prog_defs) (simp add: map_entries_def comp_def)

text \<open>C13: With a dictionary read from a text lexicon, the lemmatizer at level 1 puts out, for a token, the token
  and then, in order, exactly the lemmas of the lines with that form, and nothing when there are none: the
  lemmas are encoded, stored in the minimal automaton, found by intersection with the query for the token,
  and decoded.  No line raises an exception, and no loop of the automata runs forever.\<close>

theorem lemmatize_lemmas:
  assumes "\<forall>line \<in> set lines. lexicon_line line" "\<exists>line \<in> set lines. line \<noteq> []"
    "sum_list (map length lines) + 2 * length lines < 2 ^ 31" "CHR 0x09 \<notin> set token" "\<forall>c \<in> set token. letter c"
  shows "\<exists>dict p. readDictionary lines = Inr (Some dict) \<and> lemmatize 1 True dict token = Some (Inr p) \<and>
    p (m, []) = (if lexicon_lemmas lines token = {} then (Inr False, (m, []))
      else (Inr True, (m, Normalization token # map Lemma (set_order (lexicon_lemmas lines token)))))"
proof -
  obtain st lemmaMap where d: "readDictionary lines = Inr (Some st)" "dictionary_get token st = Some (Inr lemmaMap)"
    "dom lemmaMap = lexicon_lemmas lines token"
    using dictionary_lemmas [OF assms] unfolding lexicon_lemmas_def by blast
  have "lemmatize 1 True st token = Some (Inr (lemmatize_map 1 True token lemmaMap))" by (simp add: lemmatize_def d(2))
  then show ?thesis using d(1) lemmatize_map_lemmas [of token lemmaMap m "[]"] d(3) by simp
qed

theorem lemmatize_lemmas_witness:
  "\<exists>dict p. readDictionary [''cats cat n'', ''cats cats v'', ''cat cat n''] = Inr (Some dict) \<and>
    lemmatize 1 True dict ''cats'' = Some (Inr p) \<and> p ([], []) = (Inr True, ([], [Normalization ''cats'', Lemma ''cat'', Lemma ''cats'']))"
proof -
  let ?lines = "[''cats cat n'', ''cats cats v'', ''cat cat n'']"
  have fields: "split_any LEXICON_TEXT_FIELD_SEPARATORS ''cats cat n'' = [''cats'', ''cat'', ''n'']"
    "split_any LEXICON_TEXT_FIELD_SEPARATORS ''cats cats v'' = [''cats'', ''cats'', ''v'']"
    "split_any LEXICON_TEXT_FIELD_SEPARATORS ''cat cat n'' = [''cat'', ''cat'', ''n'']"
    by (simp_all add: LEXICON_TEXT_FIELD_SEPARATORS_def)
  have "lexicon_lemmas ?lines ''cats'' = {''cat'', ''cats''}"
    by (auto simp: lexicon_lemmas_def fields simp del: split_any.simps)
  moreover have "set_order {''cat'', ''cats''} = [''cat'', ''cats'']"
    by (simp add: set_order_def less_char_def)
  moreover have "\<forall>line \<in> set ?lines. lexicon_line line"
    by (simp add: lexicon_line_def fields letter_def EPS_def ANY_def del: split_any.simps)
  moreover have "\<exists>line \<in> set ?lines. line \<noteq> []" "sum_list (map length ?lines) + 2 * length ?lines < 2 ^ 31"
    "CHR 0x09 \<notin> set ''cats''" "\<forall>c \<in> set ''cats''. letter c"
    by (simp_all add: letter_def EPS_def ANY_def)
  ultimately show ?thesis using lemmatize_lemmas [of ?lines "''cats''" "[]"] by simp
qed

end
