(* ===== verification/Spec2Isabelle.thy ===== *)
theory Spec2Isabelle
  imports Lattice_Behaviours Lattice_Symbols Lattice_Theorems Limit_Checker Quoter Pipe_Site Pipe_Runner Huffman_Codes Lamerlemma
begin

text \<open>
  A verification library for the PSI toolkit, a set of linguistic processors that work on one
  shared structure, the annotation lattice, and are combined into pipelines.

  \<^bold>\<open>The program.\<close> A pipeline (framework/) starts with a reader, which puts a text into a lattice
  (common/lattice.cpp), goes on with annotators, each of which adds edges tagged with the layers it
  provides, and ends with a writer. Processors are made by factories that announce which layers
  they require and provide; the runner completes a pipeline with the annotators that are missing.
  The server (server/) runs pipelines for sessions of a web site.

  \<^bold>\<open>Theories and code.\<close>

  \<^item> Prelude: programs with a state and exceptions (\<open>('e, 's, 'a) prog\<close>), fallible computations,
    Hoare triples, facts on lists. A C++ method that may throw is a program: the object after an
    exception is the object as the method left it.
  \<^item> Utf8: utf8/utf8/core.h and checked.h, common/string_helpers.cpp. Validation accepts exactly the
    encodings of code points; encoding and decoding are inverse.
  \<^item> Quoter: common/utt_like_quoter.cpp, psi_quoter.cpp, escaping.cpp. What is quoted is read back.
  \<^item> Layer_Tags: common/layer_tag_collection, layer_tag_mask, layer_tag_manager. Collections are
    64-bit words; a mask made from a specification matches what the specification says.
  \<^item> Annotation: common/string_frag, zvalue, annotation_item, annotation_item_manager.
  \<^item> Limit_Checker, Cutter: common/limit_checker, common/cutter. The limit that applies to an
    argument; the fragments of a segment cover it and respect the hard limit, for strings and for
    fragments that name a range of one, which is how the lattice cuts the text of an edge.
  \<^item> Lattice, Lattice_Ops: common/lattice.cpp, the state of the lattice as a record, its vertices and
    edges, the iterators, sequences, paths, ancestors, corrections and cutting. Lattice_Facts has the
    invariant and the order in which a lattice evolves, Lattice_Evolution what each operation leaves of
    the implicit edges, the hidden and visible symbols and the hash, Lattice_Theorems what the
    operations promise, with the text between consecutive edges in the form the cutters rely on,
    Lattice_Symbols the symbols of a text, Lattice_Behaviours concrete runs with surprising outcomes.
  \<^item> Http_Request, Std_String, Http_Reply, Sessions, Psi_Server, Pipe_Site: server/server,
    server/psi_server.cpp, server/session_manager.cpp, server/site/pipe_site.cpp. The request parser
    as a state machine that is fed in pieces, replies and the confinement of files, the replacement
    of markup in pages, forms, sessions, and the site whose requests run pipelines. The interface
    between the server and a site is the locale \<open>confined_site\<close>, interpreted on the pipe site; the
    isolation of sessions rests on that interpretation.
  \<^item> Edit_Distance: common/edit_distance.hpp, the two-column program against the least number of
    edits.
  \<^item> Aliaser, Factories: framework/aliaser.cpp, factories_keeper.cpp, main_factories_keeper.cpp and
    the interface of factories. The searches through aliases against the relation the aliases
    define; what tag-based aliases of the main keeper stand for; the suggestion for unknown names.
  \<^item> Auto_Completer, Completion: framework/auto_completer.cpp and the promises of processors. One
    turn of the inner loop is the function \<open>scan\<close>, whose result says how the loop is left; completed
    sequences are in order and lose nothing, the best is chosen. Completion ends when the factories
    are layered: there is a rank such that what a promise that can occur requires is provided by
    lower ranks only. Which promises can occur is an inductive predicate, so that factories that
    depend on a language, which yield one promise for each language, fit in. The measure is a
    multiset of weights that every turn makes smaller.
  \<^item> Pipe_Runner: framework/pipe_runner.cpp, from the arguments to the final pipeline and its runs.
  \<^item> Canonical_Huffman, Bit_Wrapper, Huffman_Codes: canonical_huffman.hpp of
    tools/lemmatizers/lamerlemma/. The code lengths, computed in place on one array, are optimal (the
    abstract argument is in Huffman_Cost), and what is written is read back. The heap functions of the
    standard library are the locale \<open>min_heap\<close>.
  \<^item> Ndfsa, Fsa_Traverse, Fsa_Language, Fsa_Minimize, Fsa_Operations: fsa_types, fsa_ndfsa, fsa_dfsa and
    fsa_algorithms of tools/datastructures/psi_query/. Automata, the closure under the empty word, the
    traversal that copies the automaton a wrapper describes, and the operations built on it; the
    traversal ends when the wrapper reaches finitely many states, and the languages of its results are
    those of the wrappers. Minimization yields the smallest deterministic automaton.
  \<^item> Bin_Dfsa, Incremental, Incremental_Path, Incremental_Minimal: fsa_bindfsa.hpp and
    \<open>minimize_incremental\<close>. The packed automaton is related to a list of rows; the invariant of the
    construction says that all states but those on the path of the last word are registered and
    pairwise inequivalent.
  \<^item> Multi_Store, Lamerlemma: fsa_multi_store.hpp, and utility_functions.cpp, dictionary.cpp and
    lamerlemma.cpp of tools/lemmatizers/lamerlemma/. The values of a key are the parts of the stored
    lines after it; the lemmatizer puts out the lemmas of a token's lines.

  \<^bold>\<open>Bounds and fuel.\<close> Machine integers are words where they wrap (tags, attribute values) and
  unbounded where the code assumes that they do not: lengths and positions of texts, requests and
  pages are taken to be below \<open>2 ^ 31\<close>, numbers of edges and vertices below \<open>2 ^ 63\<close>. Loops that need
  not end take a fuel and return an option: the loop over form data in Psi_Server (the theorems on
  it name inputs for which every fuel is too little and inputs for which some is enough), the search
  for aliases in Aliaser (enough fuel exists exactly when no loop of aliases is met), the completion
  in Auto_Completer (enough fuel exists when factories are layered; the lemma \<open>circular_example\<close> has
  two factories that require each other's layers for which none is enough), the origin of edges and
  the running of cutters in Lattice_Ops. The loops on automata are \<open>while_option\<close> and
  \<open>partial_function (option)\<close>, so that \<open>None\<close> stands for a loop that does not end; the theorems on
  them show \<open>Some\<close>. Positions of arcs in the packed automaton have 31 bits, as in the code, and the
  theorems bound the total length of the words by \<open>2 ^ 31\<close>. The listing of a language stops at words
  of 10000 symbols, as in the code. The register of the incremental construction, a hash set in the
  code, is a list; at most one of its states is equivalent to the one looked up. Without a word that
  is not empty the incremental construction is undefined in the code, and nothing is claimed there.
  Quality scores are integers where the code has doubles; the scores of the shipped factories are
  whole and small, so that their sums are exact. The code of lemmas takes \<open>char\<close> to be signed.

  \<^bold>\<open>Parameters.\<close> The order that Boost's topological sort gives, the contents of files, the clock, the
  calendar and random numbers, the parser of multipart data, libmagic, the conversion of encodings,
  the option parser of Boost and its splitting of strings, and what a concrete processor does are
  arguments of the definitions that use them. The conversion of encodings does not fail in the model;
  an exception from it is not caught by the site.

  \<^bold>\<open>Not modelled.\<close> Readers and writers of formats (XML, Spirit grammars and external libraries), the
  parsers gobio, puddle and link, translators, taggers, normalizers, the lemmatizers on other libraries,
  bilingual lexica and key-value stores, the perfect hash of automata, the loading, saving and
  memory-mapping of automata, language guessing, segmentation and tokenization rules, spell checking, the options of the runner itself,
  help texts, configuration files and textual replacement of aliases, the threads and sockets of the
  server, other sites than the pipe site, bindings for other languages, and vendored code (sundown,
  tiniconv, uchardet, maxent, mpfd-parser).
\<close>

end
